(* ===== verification/Prelude.thy ===== *)
theory Prelude
  imports Main "HOL-Library.Word"
begin

text \<open>
  Shared vocabulary of the development: machine integers, the outcome of a C++ call, the
  asserts that a debug build keeps and a release build drops, and the generic lemmas on
  lists, sums and words that the component theories use.
\<close>

section \<open>Machine integers\<close>

type_synonym u8 = "8 word"
type_synonym u32 = "32 word"
type_synonym u64 = "64 word"

text \<open>\<open>std::numeric_limits<uint64_t>::max()\<close>.\<close>

abbreviation u64_max :: u64 where
  "u64_max \<equiv> - 1"

section \<open>Outcomes of a call\<close>

text \<open>
  A C++ call returns a value, or it fails: an \<open>assert\<close> stops a debug build, an access the
  language leaves undefined (a dangling iterator, \<open>front()\<close> of an empty list, linking a list
  node twice) has no meaning, and a loop may never end.
\<close>

datatype failure = AssertionFailure | UndefinedBehaviour | DoesNotReturn | Terminated

type_synonym 'a res = "failure + 'a"

text \<open>Sequencing: the second statement runs on the value of the first, if there is one.\<close>

definition rbind :: "'a res \<Rightarrow> ('a \<Rightarrow> 'b res) \<Rightarrow> 'b res" where
  "rbind m f = (case m of Inl e \<Rightarrow> Inl e | Inr x \<Rightarrow> f x)"

lemma rbind_simps [simp]:
  "rbind (Inr x) f = f x"
  "rbind (Inl e) f = Inl e"
  by (simp_all add: rbind_def)

lemma rbind_eq_Inr [simp]: "rbind m f = Inr y \<longleftrightarrow> (\<exists>x. m = Inr x \<and> f x = Inr y)"
  by (cases m) auto

lemma rbind_pair_eq_Inr [simp]:
  "rbind m (\<lambda>(x, y). f x y) = Inr z \<longleftrightarrow> (\<exists>x y. m = Inr (x, y) \<and> f x y = Inr z)"
  "rbind m (\<lambda>(x, y, u). g x y u) = Inr z \<longleftrightarrow> (\<exists>x y u. m = Inr (x, y, u) \<and> g x y u = Inr z)"
  by auto

lemma rbind_cong [fundef_cong]:
  "m = m' \<Longrightarrow> (\<And>x. m' = Inr x \<Longrightarrow> f x = g x) \<Longrightarrow> rbind m f = rbind m' g"
  by (cases m') auto

text \<open>
  The macro \<open>NDEBUG\<close> chooses the build: without it (\<open>Debug\<close>) every \<open>assert\<close> and every
  \<open>VALIDATE_*\<close> macro is checked, with it (\<open>Release\<close>) they are compiled away.
\<close>

datatype build = Debug | Release

definition check :: "build \<Rightarrow> bool \<Rightarrow> 'a \<Rightarrow> 'a res" where
  "check d P x = (if d = Debug \<and> \<not> P then Inl AssertionFailure else Inr x)"

text \<open>A precondition the language itself imposes, in every build.\<close>

definition require :: "bool \<Rightarrow> 'a \<Rightarrow> 'a res" where
  "require P x = (if P then Inr x else Inl UndefinedBehaviour)"

text \<open>Dereferencing a lookup whose miss is a past-the-end iterator.\<close>

definition deref :: "'a option \<Rightarrow> 'a res" where
  "deref r = (case r of None \<Rightarrow> Inl UndefinedBehaviour | Some x \<Rightarrow> Inr x)"

text \<open>The outcome of a loop defined by \<^theory_text>\<open>partial_function\<close>: \<open>None\<close> means it never ends.\<close>

definition returns :: "'a res option \<Rightarrow> 'a res" where
  "returns r = (case r of None \<Rightarrow> Inl DoesNotReturn | Some x \<Rightarrow> x)"

lemma check_True [simp]: "check d True x = Inr x"
  by (simp add: check_def)

lemma check_Release [simp]: "check Release P x = Inr x"
  by (simp add: check_def)

lemma check_eq_Inr [simp]: "check d P x = Inr y \<longleftrightarrow> (d = Debug \<longrightarrow> P) \<and> y = x"
  by (auto simp: check_def)

lemma check_ok: "P \<Longrightarrow> check d P x = Inr x"
  by simp

lemma require_True [simp]: "require True x = Inr x"
  by (simp add: require_def)

lemma require_eq_Inr [simp]: "require P x = Inr y \<longleftrightarrow> P \<and> y = x"
  by (auto simp: require_def)

lemma deref_simps [simp]:
  "deref (Some x) = Inr x"
  "deref None = Inl UndefinedBehaviour"
  by (simp_all add: deref_def)

lemma deref_eq_Inr [simp]: "deref r = Inr y \<longleftrightarrow> r = Some y"
  by (cases r) auto

lemma returns_simps [simp]:
  "returns (Some x) = x"
  "returns None = Inl DoesNotReturn"
  by (simp_all add: returns_def)

text \<open>An operation that throws an exception (which nothing catches), or returns a value with a property.\<close>

definition overflow_or :: "'t res \<Rightarrow> ('t \<Rightarrow> bool) \<Rightarrow> bool" where
  "overflow_or r P \<longleftrightarrow> r = Inl Terminated \<or> (\<exists>x. r = Inr x \<and> P x)"

lemma overflow_or_mono: "overflow_or r P \<Longrightarrow> (\<And>x. r = Inr x \<Longrightarrow> P x \<Longrightarrow> Q x) \<Longrightarrow> overflow_or r Q"
  by (auto simp: overflow_or_def)

lemma overflow_or_rbind:
  "overflow_or r P \<Longrightarrow> (\<And>x. r = Inr x \<Longrightarrow> P x \<Longrightarrow> overflow_or (f x) Q) \<Longrightarrow> overflow_or (rbind r f) Q"
  by (auto simp: overflow_or_def)

lemma overflow_or_Inr [simp]: "overflow_or (Inr x) P \<longleftrightarrow> P x"
  by (simp add: overflow_or_def)

lemma overflow_or_Terminated [simp]: "overflow_or (Inl Terminated) P"
  by (simp add: overflow_or_def)

text \<open>
  A release build computes what the debug build computes, where the debug build does not stop.
\<close>

definition refines :: "'a res \<Rightarrow> 'a res \<Rightarrow> bool" where
  "refines m m' \<longleftrightarrow> (\<forall>x. m = Inr x \<longrightarrow> m' = Inr x)"

named_theorems refines_intros "a release outcome follows from the debug outcome"

lemma refines_refl [refines_intros]: "refines m m"
  by (simp add: refines_def)

lemma refines_check [refines_intros]: "refines (check Debug P x) (check Release P x)"
  by (simp add: refines_def)

lemma refines_rbind [refines_intros]:
  "refines m m' \<Longrightarrow> (\<And>x. refines (f x) (g x)) \<Longrightarrow> refines (rbind m f) (rbind m' g)"
  by (auto simp: refines_def)

section \<open>Lists and sums\<close>

lemma sum_list_remove1_word:
  fixes f :: "'a \<Rightarrow> 'b::ab_group_add"
  assumes "x \<in> set xs"
  shows "sum_list (map f (remove1 x xs)) = sum_list (map f xs) - f x"
  using assms by (induction xs) (auto simp: algebra_simps)

lemma sum_list_map_cong: "(\<And>x. x \<in> set xs \<Longrightarrow> f x = g x) \<Longrightarrow> sum_list (map f xs) = sum_list (map g xs)"
  by (rule arg_cong [where f = sum_list]) simp

lemma sum_list_fun_upd:
  fixes f :: "'a \<Rightarrow> 'b::ab_group_add"
  assumes "distinct xs" and "x \<in> set xs"
  shows "sum_list (map (f(x := v)) xs) = sum_list (map f xs) - f x + v"
  using assms by (induction xs) (auto simp: algebra_simps intro!: sum_list_map_cong)

lemma unat_sum_list:
  fixes f :: "'a \<Rightarrow> 'w::len word"
  assumes "sum_list (map (\<lambda>x. unat (f x)) xs) < 2 ^ LENGTH('w)"
  shows "unat (sum_list (map f xs)) = sum_list (map (\<lambda>x. unat (f x)) xs)"
  using assms
proof (induction xs)
  case Nil
  then show ?case by simp
next
  case (Cons x xs)
  then have "unat (sum_list (map f xs)) = sum_list (map (\<lambda>x. unat (f x)) xs)"
    by simp
  with Cons.prems show ?case
    by (simp add: unat_word_ariths)
qed

lemma member_le_sum_list_nat: "x \<in> set xs \<Longrightarrow> f x \<le> sum_list (map f xs)" for f :: "'a \<Rightarrow> nat"
  by (induction xs) auto

section \<open>Words\<close>

lemma unat_u64_max: "unat u64_max = 2 ^ 64 - 1"
  by (simp add: unsigned_minus_1_eq_mask mask_eq_exp_minus_1)

lemma u64_le_max [simp]: "(x::u64) \<le> u64_max"
  by simp

lemma unat_u64_less: "unat (x::u64) < 18446744073709551616"
proof -
  have "unat x < 2 ^ LENGTH(64)" by (rule unsigned_less)
  then show ?thesis by simp
qed

lemma unat_add_u64: "unat x + unat y < 18446744073709551616 \<Longrightarrow> unat (x + y) = unat x + unat y"
  for x y :: u64
  by (simp add: unat_word_ariths)

lemma unat_sub_le: "q \<le> x \<Longrightarrow> unat (x - q) = unat x - unat q" for x q :: "'w::len word"
  by (simp add: unat_sub)

end
