(* ===== verification/Ordered_Map.thy ===== *)
theory Ordered_Map
  imports Prelude
begin

text \<open>
  \<open>std::map\<close>, the container of the price levels: the operations the order book calls, on an
  association list sorted by strictly increasing keys. The contract the book relies on is the
  locale \<open>ordered_map\<close>; its client lemmas (best and worst key, what an insertion or an erasure
  does to them) are proved from the contract alone.
\<close>

section \<open>The operations\<close>

type_synonym ('k, 'v) omap = "('k \<times> 'v) list"

text \<open>\<open>it = m.find(k)\<close>, then \<open>it->second\<close>.\<close>

definition om_find :: "'k \<Rightarrow> ('k, 'v) omap \<Rightarrow> 'v option" where
  "om_find k m = map_of m k"

text \<open>\<open>emplace\<close> and \<open>emplace_hint\<close>: an existing entry is kept, the iterator points to it.\<close>

fun om_emplace :: "'k::linorder \<Rightarrow> 'v \<Rightarrow> ('k, 'v) omap \<Rightarrow> ('k, 'v) omap" where
  "om_emplace k v [] = [(k, v)]"
| "om_emplace k v ((a, b) # m) =
     (if k < a then (k, v) # (a, b) # m
      else if k = a then (a, b) # m
      else (a, b) # om_emplace k v m)"

text \<open>Writing through an iterator: \<open>it->second = v\<close>.\<close>

definition om_store :: "'k \<Rightarrow> 'v \<Rightarrow> ('k, 'v) omap \<Rightarrow> ('k, 'v) omap" where
  "om_store k v m = map (\<lambda>(a, b). (a, if a = k then v else b)) m"

definition om_erase :: "'k \<Rightarrow> ('k, 'v) omap \<Rightarrow> ('k, 'v) omap" where
  "om_erase k m = filter (\<lambda>(a, b). a \<noteq> k) m"

text \<open>\<open>begin()\<close> and \<open>rbegin()\<close>; \<open>None\<close> is the past-the-end iterator.\<close>

definition om_begin :: "('k, 'v) omap \<Rightarrow> ('k \<times> 'v) option" where
  "om_begin m = (case m of [] \<Rightarrow> None | e # _ \<Rightarrow> Some e)"

definition om_rbegin :: "('k, 'v) omap \<Rightarrow> ('k \<times> 'v) option" where
  "om_rbegin m = (if m = [] then None else Some (last m))"

definition om_inv :: "('k::linorder, 'v) omap \<Rightarrow> bool" where
  "om_inv m \<longleftrightarrow> sorted_wrt (<) (map fst m)"

section \<open>The contract\<close>

locale ordered_map =
  fixes find :: "'k::linorder \<Rightarrow> 'm \<Rightarrow> 'v option"
    and emplace :: "'k \<Rightarrow> 'v \<Rightarrow> 'm \<Rightarrow> 'm"
    and store :: "'k \<Rightarrow> 'v \<Rightarrow> 'm \<Rightarrow> 'm"
    and erase :: "'k \<Rightarrow> 'm \<Rightarrow> 'm"
    and first :: "'m \<Rightarrow> ('k \<times> 'v) option"
    and final :: "'m \<Rightarrow> ('k \<times> 'v) option"
    and inv :: "'m \<Rightarrow> bool"
  assumes inv_emplace: "inv m \<Longrightarrow> inv (emplace k v m)"
    and inv_store: "inv m \<Longrightarrow> inv (store k v m)"
    and inv_erase: "inv m \<Longrightarrow> inv (erase k m)"
    and find_emplace: "inv m \<Longrightarrow>
      find k' (emplace k v m) = (if k' = k \<and> find k m = None then Some v else find k' m)"
    and find_store:
      "find k' (store k v m) = (if k' = k \<and> find k m \<noteq> None then Some v else find k' m)"
    and find_erase: "find k' (erase k m) = (if k' = k then None else find k' m)"
    and first_None: "first m = None \<longleftrightarrow> (\<forall>k. find k m = None)"
    and final_None: "final m = None \<longleftrightarrow> (\<forall>k. find k m = None)"
    and first_Some: "inv m \<Longrightarrow> first m = Some (k, v) \<longleftrightarrow>
      find k m = Some v \<and> (\<forall>k' v'. find k' m = Some v' \<longrightarrow> k \<le> k')"
    and final_Some: "inv m \<Longrightarrow> final m = Some (k, v) \<longleftrightarrow>
      find k m = Some v \<and> (\<forall>k' v'. find k' m = Some v' \<longrightarrow> k' \<le> k)"
begin

lemma first_le: "inv m \<Longrightarrow> first m = Some (k, v) \<Longrightarrow> find k' m = Some v' \<Longrightarrow> k \<le> k'"
  by (simp add: first_Some)

lemma final_ge: "inv m \<Longrightarrow> final m = Some (k, v) \<Longrightarrow> find k' m = Some v' \<Longrightarrow> k' \<le> k"
  by (simp add: final_Some)

lemma first_find: "inv m \<Longrightarrow> first m = Some (k, v) \<Longrightarrow> find k m = Some v"
  by (simp add: first_Some)

lemma final_find: "inv m \<Longrightarrow> final m = Some (k, v) \<Longrightarrow> find k m = Some v"
  by (simp add: final_Some)

lemma first_le_final:
  "inv m \<Longrightarrow> first m = Some (k, v) \<Longrightarrow> final m = Some (k', v') \<Longrightarrow> k \<le> k'"
  by (simp add: first_Some final_Some)

text \<open>No key at or below a bound: read off the first entry.\<close>

lemma first_above_iff:
  assumes "inv m"
  shows "(\<forall>k v. first m = Some (k, v) \<longrightarrow> x < k) \<longleftrightarrow> (\<forall>k v. find k m = Some v \<longrightarrow> x < k)"
proof
  assume L: "\<forall>k v. first m = Some (k, v) \<longrightarrow> x < k"
  show "\<forall>k v. find k m = Some v \<longrightarrow> x < k"
  proof (intro allI impI)
    fix k v assume F: "find k m = Some v"
    then obtain k0 v0 where "first m = Some (k0, v0)"
      using first_None [of m] by (cases "first m") auto
    with L F assms show "x < k" using first_le [OF assms] by fastforce
  qed
qed (use assms in \<open>auto dest: first_find\<close>)

lemma final_below_iff:
  assumes "inv m"
  shows "(\<forall>k v. final m = Some (k, v) \<longrightarrow> k < x) \<longleftrightarrow> (\<forall>k v. find k m = Some v \<longrightarrow> k < x)"
proof
  assume L: "\<forall>k v. final m = Some (k, v) \<longrightarrow> k < x"
  show "\<forall>k v. find k m = Some v \<longrightarrow> k < x"
  proof (intro allI impI)
    fix k v assume F: "find k m = Some v"
    then obtain k0 v0 where "final m = Some (k0, v0)"
      using final_None [of m] by (cases "final m") auto
    with L F assms show "k < x" using final_ge [OF assms] by fastforce
  qed
qed (use assms in \<open>auto dest: final_find\<close>)

end

section \<open>The implementation meets the contract\<close>

lemma om_inv_Cons: "om_inv ((k, v) # m) \<longleftrightarrow> om_inv m \<and> (\<forall>x \<in> set m. k < fst x)"
  by (auto simp: om_inv_def)

lemma om_inv_distinct: "om_inv m \<Longrightarrow> distinct (map fst m)"
  by (simp add: om_inv_def strict_sorted_iff)

lemma keys_om_emplace: "fst ` set (om_emplace k v m) = insert k (fst ` set m)"
  by (induction k v m rule: om_emplace.induct) auto

lemma om_inv_om_emplace: "om_inv m \<Longrightarrow> om_inv (om_emplace k v m)"
proof (induction k v m rule: om_emplace.induct)
  case (2 k v a b m)
  have "\<forall>x \<in> set (om_emplace k v m). a < fst x" if "a < k"
  proof
    fix x assume "x \<in> set (om_emplace k v m)"
    then have "fst x \<in> insert k (fst ` set m)" using keys_om_emplace by (metis image_eqI)
    with that 2(2) show "a < fst x" by (auto simp: om_inv_Cons)
  qed
  with 2 show ?case by (auto simp: om_inv_Cons neq_iff dest: less_trans)
qed (simp add: om_inv_def)

lemma om_find_om_emplace:
  "om_inv m \<Longrightarrow>
    om_find k' (om_emplace k v m) = (if k' = k \<and> om_find k m = None then Some v else om_find k' m)"
proof (induction k v m rule: om_emplace.induct)
  case (2 k v a b m)
  have "om_find k m = None" if "k < a"
    using that 2(2) by (force simp: om_find_def om_inv_Cons map_of_eq_None_iff)
  with 2 show ?case by (auto simp: om_find_def om_inv_Cons)
qed (simp add: om_find_def)

lemma map_fst_om_store [simp]: "map fst (om_store k v m) = map fst m"
  by (induction m) (auto simp: om_store_def)

lemma om_inv_om_store: "om_inv m \<Longrightarrow> om_inv (om_store k v m)"
  by (simp add: om_inv_def)

lemma om_find_om_store:
  "om_find k' (om_store k v m) = (if k' = k \<and> om_find k m \<noteq> None then Some v else om_find k' m)"
  by (induction m) (auto simp: om_find_def om_store_def)

lemma om_find_om_erase: "om_find k' (om_erase k m) = (if k' = k then None else om_find k' m)"
  by (induction m) (auto simp: om_find_def om_erase_def)

lemma om_inv_om_erase: "om_inv m \<Longrightarrow> om_inv (om_erase k m)"
proof (induction m)
  case (Cons e m)
  then show ?case by (cases e) (auto simp: om_erase_def om_inv_Cons)
qed (simp add: om_erase_def)

lemma om_find_Some_iff: "om_inv m \<Longrightarrow> om_find k m = Some v \<longleftrightarrow> (k, v) \<in> set m"
  by (simp add: om_find_def om_inv_distinct)

lemma om_begin_None: "om_begin m = None \<longleftrightarrow> (\<forall>k. om_find k m = None)"
  by (cases m) (auto simp: om_begin_def om_find_def)

lemma om_rbegin_None: "om_rbegin m = None \<longleftrightarrow> (\<forall>k. om_find k m = None)"
  by (cases m) (auto simp: om_rbegin_def om_find_def)

lemma om_begin_Some:
  assumes "om_inv m"
  shows "om_begin m = Some (k, v) \<longleftrightarrow>
    om_find k m = Some v \<and> (\<forall>k' v'. om_find k' m = Some v' \<longrightarrow> k \<le> k')"
proof (cases m)
  case Nil
  then show ?thesis by (simp add: om_begin_def om_find_def)
next
  case (Cons e m')
  obtain a b where e: "e = (a, b)" by fastforce
  have lt: "\<forall>x \<in> set m'. a < fst x" using assms Cons e by (simp add: om_inv_Cons)
  show ?thesis
  proof
    assume "om_begin m = Some (k, v)"
    then show "om_find k m = Some v \<and> (\<forall>k' v'. om_find k' m = Some v' \<longrightarrow> k \<le> k')"
      using lt assms Cons e by (fastforce simp: om_begin_def om_find_Some_iff)
  next
    assume R: "om_find k m = Some v \<and> (\<forall>k' v'. om_find k' m = Some v' \<longrightarrow> k \<le> k')"
    then have "k \<le> a" and "(k, v) \<in> set m" using assms Cons e by (auto simp: om_find_Some_iff)
    then show "om_begin m = Some (k, v)" using lt Cons e by (fastforce simp: om_begin_def)
  qed
qed

lemma om_rbegin_Some:
  assumes "om_inv m"
  shows "om_rbegin m = Some (k, v) \<longleftrightarrow>
    om_find k m = Some v \<and> (\<forall>k' v'. om_find k' m = Some v' \<longrightarrow> k' \<le> k)"
proof (cases m rule: rev_cases)
  case Nil
  then show ?thesis by (simp add: om_rbegin_def om_find_def)
next
  case (snoc m' e)
  obtain a b where e: "e = (a, b)" by fastforce
  have lt: "\<forall>x \<in> set m'. fst x < a"
    using assms snoc e by (auto simp: om_inv_def sorted_wrt_append)
  show ?thesis
  proof
    assume "om_rbegin m = Some (k, v)"
    then show "om_find k m = Some v \<and> (\<forall>k' v'. om_find k' m = Some v' \<longrightarrow> k' \<le> k)"
      using lt assms snoc e by (fastforce simp: om_rbegin_def om_find_Some_iff)
  next
    assume R: "om_find k m = Some v \<and> (\<forall>k' v'. om_find k' m = Some v' \<longrightarrow> k' \<le> k)"
    then have "a \<le> k" and "(k, v) \<in> set m" using assms snoc e by (auto simp: om_find_Some_iff)
    then show "om_rbegin m = Some (k, v)" using lt snoc e by (fastforce simp: om_rbegin_def)
  qed
qed

interpretation om: ordered_map om_find om_emplace om_store om_erase om_begin om_rbegin om_inv
  by unfold_locales
    (simp_all add: om_inv_om_emplace om_inv_om_erase om_find_om_emplace om_find_om_store
      om_find_om_erase om_begin_None om_rbegin_None om_begin_Some om_rbegin_Some
      om_inv_om_store)

lemma om_inv_Nil [simp]: "om_inv []"
  by (simp add: om_inv_def)

lemma om_find_Nil [simp]: "om_find k [] = None"
  by (simp add: om_find_def)

end
