(* ===== verification/Hash_Map.thy ===== *)
theory Hash_Map
  imports Prelude
begin

text \<open>
  \<open>robin_hood::unordered_map\<close> as its clients see it: find, emplace, erase and writing through
  an iterator, on an association list with distinct keys. The hash table itself is vendored
  code; the order book and the market rely only on the contract \<open>hash_map\<close>.
\<close>

type_synonym ('k, 'v) hmap = "('k \<times> 'v) list"

definition hm_find :: "'k \<Rightarrow> ('k, 'v) hmap \<Rightarrow> 'v option" where
  "hm_find k m = map_of m k"

text \<open>\<open>emplace\<close> and \<open>insert\<close> keep an existing entry.\<close>

definition hm_emplace :: "'k \<Rightarrow> 'v \<Rightarrow> ('k, 'v) hmap \<Rightarrow> ('k, 'v) hmap" where
  "hm_emplace k v m = (if hm_find k m = None then (k, v) # m else m)"

definition hm_store :: "'k \<Rightarrow> 'v \<Rightarrow> ('k, 'v) hmap \<Rightarrow> ('k, 'v) hmap" where
  "hm_store k v m = map (\<lambda>(a, b). (a, if a = k then v else b)) m"

definition hm_erase :: "'k \<Rightarrow> ('k, 'v) hmap \<Rightarrow> ('k, 'v) hmap" where
  "hm_erase k m = filter (\<lambda>(a, b). a \<noteq> k) m"

definition hm_inv :: "('k, 'v) hmap \<Rightarrow> bool" where
  "hm_inv m \<longleftrightarrow> distinct (map fst m)"

text \<open>What the clients count: a total over the stored values.\<close>

definition hm_total :: "('v \<Rightarrow> nat) \<Rightarrow> ('k, 'v) hmap \<Rightarrow> nat" where
  "hm_total f m = sum_list (map (\<lambda>(k, v). f v) m)"

locale hash_map =
  fixes find :: "'k \<Rightarrow> 'm \<Rightarrow> 'v option"
    and emplace :: "'k \<Rightarrow> 'v \<Rightarrow> 'm \<Rightarrow> 'm"
    and store :: "'k \<Rightarrow> 'v \<Rightarrow> 'm \<Rightarrow> 'm"
    and erase :: "'k \<Rightarrow> 'm \<Rightarrow> 'm"
    and total :: "('v \<Rightarrow> nat) \<Rightarrow> 'm \<Rightarrow> nat"
    and inv :: "'m \<Rightarrow> bool"
  assumes inv_emplace: "inv m \<Longrightarrow> inv (emplace k v m)"
    and inv_store: "inv m \<Longrightarrow> inv (store k v m)"
    and inv_erase: "inv m \<Longrightarrow> inv (erase k m)"
    and find_emplace:
      "find k' (emplace k v m) = (if k' = k \<and> find k m = None then Some v else find k' m)"
    and find_store:
      "find k' (store k v m) = (if k' = k \<and> find k m \<noteq> None then Some v else find k' m)"
    and find_erase: "find k' (erase k m) = (if k' = k then None else find k' m)"
    and total_emplace: "find k m = None \<Longrightarrow> total f (emplace k v m) = f v + total f m"
    and total_erase: "inv m \<Longrightarrow> find k m = Some v \<Longrightarrow> total f m = f v + total f (erase k m)"
    and total_store: "inv m \<Longrightarrow> find k m = Some v \<Longrightarrow>
      total f (store k v' m) + f v = total f m + f v'"
begin

lemma find_le_total: "inv m \<Longrightarrow> find k m = Some v \<Longrightarrow> f v \<le> total f m"
  by (simp add: total_erase)

lemma erase_total_less: "inv m \<Longrightarrow> find k m = Some v \<Longrightarrow> 0 < f v \<Longrightarrow> total f (erase k m) < total f m"
  by (simp add: total_erase)

lemma store_total_le:
  assumes "inv m" and "find k m = Some v" and "f v' \<le> f v"
  shows "total f (store k v' m) \<le> total f m"
  using total_store [OF assms(1,2), of f v'] assms(3) by linarith

lemma sum_le_total:
  assumes "inv m" and "distinct ks" and "\<forall>k \<in> set ks. find k m \<noteq> None"
  shows "sum_list (map (\<lambda>k. case find k m of None \<Rightarrow> 0 | Some v \<Rightarrow> f v) ks) \<le> total f m"
  using assms
proof (induction ks arbitrary: m)
  case (Cons k ks)
  then obtain v where v: "find k m = Some v" by auto
  have "sum_list (map (\<lambda>k. case find k m of None \<Rightarrow> 0 | Some v \<Rightarrow> f v) ks)
      = sum_list (map (\<lambda>j. case find j (erase k m) of None \<Rightarrow> 0 | Some v \<Rightarrow> f v) ks)"
    using Cons.prems(2) by (intro arg_cong [where f = sum_list] map_cong) (auto simp: find_erase)
  also have "\<dots> \<le> total f (erase k m)"
    using Cons.prems by (intro Cons.IH) (auto simp: inv_erase find_erase)
  finally show ?case using total_erase [OF Cons.prems(1) v, of f] v by simp
qed simp

end

lemma map_fst_hm_store [simp]: "map fst (hm_store k v m) = map fst m"
  by (induction m) (auto simp: hm_store_def)

lemma length_hm_store [simp]: "length (hm_store k v m) = length m"
  by (simp add: hm_store_def)

lemma hm_find_hm_store:
  "hm_find k' (hm_store k v m) = (if k' = k \<and> hm_find k m \<noteq> None then Some v else hm_find k' m)"
  by (induction m) (auto simp: hm_find_def hm_store_def)

lemma hm_find_hm_erase: "hm_find k' (hm_erase k m) = (if k' = k then None else hm_find k' m)"
  by (induction m) (auto simp: hm_find_def hm_erase_def)

lemma hm_inv_hm_erase: "hm_inv m \<Longrightarrow> hm_inv (hm_erase k m)"
  by (induction m) (auto simp: hm_inv_def hm_erase_def)

lemma hm_inv_hm_emplace: "hm_inv m \<Longrightarrow> hm_inv (hm_emplace k v m)"
  by (auto simp: hm_inv_def hm_emplace_def hm_find_def map_of_eq_None_iff)

lemma hm_find_hm_emplace:
  "hm_find k' (hm_emplace k v m) = (if k' = k \<and> hm_find k m = None then Some v else hm_find k' m)"
  by (auto simp: hm_emplace_def hm_find_def)

lemma hm_erase_id: "hm_find k m = None \<Longrightarrow> hm_erase k m = m"
  by (induction m) (auto simp: hm_find_def hm_erase_def split: if_splits)

lemma hm_total_hm_erase:
  assumes "hm_inv m" and "hm_find k m = Some v"
  shows "hm_total f m = f v + hm_total f (hm_erase k m)"
  using assms
proof (induction m)
  case (Cons e m)
  obtain a b where e: "e = (a, b)" by fastforce
  show ?case
  proof (cases "a = k")
    case True
    then have "hm_find k m = None"
      using Cons.prems(1) e by (auto simp: hm_find_def hm_inv_def map_of_eq_None_iff)
    then have "hm_erase k m = m" by (rule hm_erase_id)
    with True Cons.prems(2) e show ?thesis by (simp add: hm_total_def hm_erase_def hm_find_def)
  next
    case False
    with Cons e have "hm_total f m = f v + hm_total f (hm_erase k m)"
      by (simp add: hm_find_def hm_inv_def)
    with False e show ?thesis by (simp add: hm_total_def hm_erase_def)
  qed
qed (simp add: hm_find_def)

lemma hm_store_id: "hm_find k m = None \<Longrightarrow> hm_store k v m = m"
  by (induction m) (auto simp: hm_find_def hm_store_def split: if_splits)

lemma hm_total_hm_store:
  assumes "hm_inv m" and "hm_find k m = Some v"
  shows "hm_total f (hm_store k v' m) + f v = hm_total f m + f v'"
  using assms
proof (induction m)
  case (Cons e m)
  obtain a b where e: "e = (a, b)" by fastforce
  show ?case
  proof (cases "a = k")
    case True
    then have "hm_find k m = None"
      using Cons.prems(1) e by (auto simp: hm_find_def hm_inv_def map_of_eq_None_iff)
    then have "hm_store k v' m = m" by (rule hm_store_id)
    with True Cons.prems(2) e show ?thesis by (simp add: hm_total_def hm_store_def hm_find_def)
  next
    case False
    with Cons e have "hm_total f (hm_store k v' m) + f v = hm_total f m + f v'"
      by (simp add: hm_find_def hm_inv_def)
    with False e show ?thesis by (simp add: hm_total_def hm_store_def)
  qed
qed (simp add: hm_find_def)

interpretation hm: hash_map hm_find hm_emplace hm_store hm_erase hm_total hm_inv
proof unfold_locales
  fix k :: 'a and v :: 'b and m and f :: "'b \<Rightarrow> nat"
  show "hm_find k m = None \<Longrightarrow> hm_total f (hm_emplace k v m) = f v + hm_total f m"
    by (simp add: hm_emplace_def hm_total_def)
qed (simp_all add: hm_inv_hm_emplace hm_inv_hm_erase hm_find_hm_emplace hm_find_hm_store
      hm_find_hm_erase hm_total_hm_erase hm_total_hm_store, simp add: hm_inv_def)

lemma length_hm_erase: "hm_find k m = Some v \<Longrightarrow> length (hm_erase k m) < length m"
proof (induction m)
  case (Cons e m)
  have "length (hm_erase k m) \<le> length m" by (simp add: hm_erase_def)
  then show ?case using Cons
    by (cases e) (auto simp: hm_find_def hm_erase_def le_imp_less_Suc split: if_splits)
qed (simp add: hm_find_def)

lemma hm_inv_Nil [simp]: "hm_inv []"
  by (simp add: hm_inv_def)

lemma hm_find_Nil [simp]: "hm_find k [] = None"
  by (simp add: hm_find_def)

end
