(* ===== verification/Orders.thy ===== *)
theory Orders
  imports Prelude
begin

text \<open>
  Orders (\<open>include/matching/orderbook/order.h\<close>, \<open>src/matching/orderbook/order.cpp\<close>): the record,
  its constructor and the twelve factories with their asserts, the accessors, and the setters
  that only the book may call. Every setter ends with \<open>VALIDATE_ORDER\<close>, so each of them may
  stop a debug build.
\<close>

section \<open>Data\<close>

datatype OrderType = Limit | Market | Stop | StopLimit | TrailingStop | TrailingStopLimit

datatype OrderTimeInForce = GTC | FOK | IOC

datatype OrderSide = Bid | Ask

record Order =
  otype :: OrderType
  side :: OrderSide
  time_in_force :: OrderTimeInForce
  symbol_id :: u32
  price :: u64
  stop_price :: u64
  trail_amount :: u64
  last_executed_price :: u64
  oid :: u64
  quantity :: u64
  executed_quantity :: u64
  open_quantity :: u64
  last_executed_quantity :: u64

section \<open>Accessors\<close>

definition getQuantity :: "Order \<Rightarrow> u64" where
  [simp]: "getQuantity od = quantity od"

definition getExecutedQuantity :: "Order \<Rightarrow> u64" where
  [simp]: "getExecutedQuantity od = executed_quantity od"

definition getOpenQuantity :: "Order \<Rightarrow> u64" where
  [simp]: "getOpenQuantity od = open_quantity od"

definition getLastExecutedQuantity :: "Order \<Rightarrow> u64" where
  [simp]: "getLastExecutedQuantity od = last_executed_quantity od"

definition getOrderID :: "Order \<Rightarrow> u64" where
  [simp]: "getOrderID od = oid od"

definition getPrice :: "Order \<Rightarrow> u64" where
  [simp]: "getPrice od = price od"

definition getStopPrice :: "Order \<Rightarrow> u64" where
  [simp]: "getStopPrice od = stop_price od"

definition getTrailAmount :: "Order \<Rightarrow> u64" where
  [simp]: "getTrailAmount od = trail_amount od"

definition getSide :: "Order \<Rightarrow> OrderSide" where
  [simp]: "getSide od = side od"

definition getType :: "Order \<Rightarrow> OrderType" where
  [simp]: "getType od = otype od"

definition getTimeInForce :: "Order \<Rightarrow> OrderTimeInForce" where
  [simp]: "getTimeInForce od = time_in_force od"

definition getLastExecutedPrice :: "Order \<Rightarrow> u64" where
  [simp]: "getLastExecutedPrice od = last_executed_price od"

definition getSymbolID :: "Order \<Rightarrow> u32" where
  [simp]: "getSymbolID od = symbol_id od"

definition isAsk :: "Order \<Rightarrow> bool" where
  [simp]: "isAsk od \<longleftrightarrow> side od = Ask"

definition isBid :: "Order \<Rightarrow> bool" where
  [simp]: "isBid od \<longleftrightarrow> side od = Bid"

definition isLimit :: "Order \<Rightarrow> bool" where
  [simp]: "isLimit od \<longleftrightarrow> otype od = Limit"

definition isMarket :: "Order \<Rightarrow> bool" where
  [simp]: "isMarket od \<longleftrightarrow> otype od = Market"

definition isStop :: "Order \<Rightarrow> bool" where
  [simp]: "isStop od \<longleftrightarrow> otype od = Stop"

definition isStopLimit :: "Order \<Rightarrow> bool" where
  [simp]: "isStopLimit od \<longleftrightarrow> otype od = StopLimit"

definition isTrailingStop :: "Order \<Rightarrow> bool" where
  [simp]: "isTrailingStop od \<longleftrightarrow> otype od = TrailingStop"

definition isTrailingStopLimit :: "Order \<Rightarrow> bool" where
  [simp]: "isTrailingStopLimit od \<longleftrightarrow> otype od = TrailingStopLimit"

definition isIoc :: "Order \<Rightarrow> bool" where
  [simp]: "isIoc od \<longleftrightarrow> time_in_force od = IOC"

definition isGtc :: "Order \<Rightarrow> bool" where
  [simp]: "isGtc od \<longleftrightarrow> time_in_force od = GTC"

definition isFok :: "Order \<Rightarrow> bool" where
  [simp]: "isFok od \<longleftrightarrow> time_in_force od = FOK"

definition isFilled :: "Order \<Rightarrow> bool" where
  [simp]: "isFilled od \<longleftrightarrow> open_quantity od = 0"

text \<open>\<open>operator==\<close> compares the IDs only.\<close>

definition order_equal :: "Order \<Rightarrow> Order \<Rightarrow> bool" where
  "order_equal a b \<longleftrightarrow> oid a = oid b"

definition order_not_equal :: "Order \<Rightarrow> Order \<Rightarrow> bool" where
  "order_not_equal a b \<longleftrightarrow> \<not> order_equal a b"

section \<open>Validation and construction\<close>

definition validateOrder :: "Order \<Rightarrow> bool" where
  "validateOrder od \<longleftrightarrow>
     (otype od = Limit \<or> otype od = StopLimit \<or> otype od = TrailingStopLimit \<longrightarrow> 0 < price od) \<and>
     (otype od = Market \<or> otype od = Stop \<or> otype od = TrailingStop \<longrightarrow> time_in_force od \<noteq> GTC) \<and>
     0 < quantity od \<and>
     last_executed_quantity od \<le> quantity od \<and>
     executed_quantity od \<le> quantity od \<and>
     0 < oid od"

text \<open>The private constructor.\<close>

definition newOrder ::
  "build \<Rightarrow> OrderType \<Rightarrow> OrderSide \<Rightarrow> OrderTimeInForce \<Rightarrow> u32 \<Rightarrow> u64 \<Rightarrow> u64 \<Rightarrow> u64 \<Rightarrow> u64 \<Rightarrow> u64
    \<Rightarrow> Order res" where
  "newOrder d new_type new_side new_time_in_force new_symbol_id new_price new_stop_price
     new_trail_amount new_quantity new_id =
     (let od = \<lparr>otype = new_type, side = new_side, time_in_force = new_time_in_force,
               symbol_id = new_symbol_id, price = new_price, stop_price = new_stop_price, trail_amount = new_trail_amount,
               last_executed_price = 0, oid = new_id, quantity = new_quantity, executed_quantity = 0,
               open_quantity = new_quantity, last_executed_quantity = 0\<rparr>
      in check d (validateOrder od) od)"

definition marketAskOrder :: "build \<Rightarrow> u64 \<Rightarrow> u32 \<Rightarrow> u64 \<Rightarrow> OrderTimeInForce \<Rightarrow> Order res" where
  "marketAskOrder d order_id sid qty tif =
     rbind (check d (tif \<noteq> GTC \<and> 0 < order_id \<and> 0 < sid \<and> 0 < qty) ())
       (\<lambda>_. newOrder d Market Ask tif sid 0 0 0 qty order_id)"

definition marketBidOrder :: "build \<Rightarrow> u64 \<Rightarrow> u32 \<Rightarrow> u64 \<Rightarrow> OrderTimeInForce \<Rightarrow> Order res" where
  "marketBidOrder d order_id sid qty tif =
     rbind (check d (tif \<noteq> GTC \<and> 0 < order_id \<and> 0 < sid \<and> 0 < qty) ())
       (\<lambda>_. newOrder d Market Bid tif sid 0 0 0 qty order_id)"

definition limitAskOrder :: "build \<Rightarrow> u64 \<Rightarrow> u32 \<Rightarrow> u64 \<Rightarrow> u64 \<Rightarrow> OrderTimeInForce \<Rightarrow> Order res" where
  "limitAskOrder d order_id sid pr qty tif =
     rbind (check d (0 < order_id \<and> 0 < sid \<and> 0 < pr \<and> 0 < qty) ())
       (\<lambda>_. newOrder d Limit Ask tif sid pr 0 0 qty order_id)"

definition limitBidOrder :: "build \<Rightarrow> u64 \<Rightarrow> u32 \<Rightarrow> u64 \<Rightarrow> u64 \<Rightarrow> OrderTimeInForce \<Rightarrow> Order res" where
  "limitBidOrder d order_id sid pr qty tif =
     rbind (check d (0 < order_id \<and> 0 < sid \<and> 0 < pr \<and> 0 < qty) ())
       (\<lambda>_. newOrder d Limit Bid tif sid pr 0 0 qty order_id)"

definition stopAskOrder :: "build \<Rightarrow> u64 \<Rightarrow> u32 \<Rightarrow> u64 \<Rightarrow> u64 \<Rightarrow> OrderTimeInForce \<Rightarrow> Order res" where
  "stopAskOrder d order_id sid stop qty tif =
     rbind (check d (tif \<noteq> GTC \<and> 0 < order_id \<and> 0 < sid \<and> 0 < stop \<and> 0 < qty) ())
       (\<lambda>_. newOrder d Stop Ask tif sid 0 stop 0 qty order_id)"

definition stopBidOrder :: "build \<Rightarrow> u64 \<Rightarrow> u32 \<Rightarrow> u64 \<Rightarrow> u64 \<Rightarrow> OrderTimeInForce \<Rightarrow> Order res" where
  "stopBidOrder d order_id sid stop qty tif =
     rbind (check d (tif \<noteq> GTC \<and> 0 < order_id \<and> 0 < sid \<and> 0 < stop \<and> 0 < qty) ())
       (\<lambda>_. newOrder d Stop Bid tif sid 0 stop 0 qty order_id)"

definition stopLimitAskOrder :: "build \<Rightarrow> u64 \<Rightarrow> u32 \<Rightarrow> u64 \<Rightarrow> u64 \<Rightarrow> u64 \<Rightarrow> OrderTimeInForce \<Rightarrow> Order res" where
  "stopLimitAskOrder d order_id sid pr stop qty tif =
     rbind (check d (0 < order_id \<and> 0 < sid \<and> 0 < pr \<and> 0 < stop \<and> 0 < qty) ())
       (\<lambda>_. newOrder d StopLimit Ask tif sid pr stop 0 qty order_id)"

definition stopLimitBidOrder :: "build \<Rightarrow> u64 \<Rightarrow> u32 \<Rightarrow> u64 \<Rightarrow> u64 \<Rightarrow> u64 \<Rightarrow> OrderTimeInForce \<Rightarrow> Order res" where
  "stopLimitBidOrder d order_id sid pr stop qty tif =
     rbind (check d (0 < order_id \<and> 0 < sid \<and> 0 < pr \<and> 0 < stop \<and> 0 < qty) ())
       (\<lambda>_. newOrder d StopLimit Bid tif sid pr stop 0 qty order_id)"

definition trailingStopAskOrder :: "build \<Rightarrow> u64 \<Rightarrow> u32 \<Rightarrow> u64 \<Rightarrow> u64 \<Rightarrow> OrderTimeInForce \<Rightarrow> Order res" where
  "trailingStopAskOrder d order_id sid trail qty tif =
     rbind (check d (tif \<noteq> GTC \<and> 0 < order_id \<and> 0 < sid \<and> 0 < trail \<and> 0 < qty) ())
       (\<lambda>_. newOrder d TrailingStop Ask tif sid 0 0 trail qty order_id)"

definition trailingStopBidOrder :: "build \<Rightarrow> u64 \<Rightarrow> u32 \<Rightarrow> u64 \<Rightarrow> u64 \<Rightarrow> OrderTimeInForce \<Rightarrow> Order res" where
  "trailingStopBidOrder d order_id sid trail qty tif =
     rbind (check d (tif \<noteq> GTC \<and> 0 < order_id \<and> 0 < sid \<and> 0 < trail \<and> 0 < qty) ())
       (\<lambda>_. newOrder d TrailingStop Bid tif sid 0 0 trail qty order_id)"

definition trailingStopLimitAskOrder :: "build \<Rightarrow> u64 \<Rightarrow> u32 \<Rightarrow> u64 \<Rightarrow> u64 \<Rightarrow> u64 \<Rightarrow> OrderTimeInForce \<Rightarrow> Order res" where
  "trailingStopLimitAskOrder d order_id sid pr trail qty tif =
     rbind (check d (0 < order_id \<and> 0 < sid \<and> 0 < pr \<and> 0 < trail \<and> 0 < qty) ())
       (\<lambda>_. newOrder d TrailingStopLimit Ask tif sid pr 0 trail qty order_id)"

definition trailingStopLimitBidOrder :: "build \<Rightarrow> u64 \<Rightarrow> u32 \<Rightarrow> u64 \<Rightarrow> u64 \<Rightarrow> u64 \<Rightarrow> OrderTimeInForce \<Rightarrow> Order res" where
  "trailingStopLimitBidOrder d order_id sid pr trail qty tif =
     rbind (check d (0 < order_id \<and> 0 < sid \<and> 0 < pr \<and> 0 < trail \<and> 0 < qty) ())
       (\<lambda>_. newOrder d TrailingStopLimit Bid tif sid pr 0 trail qty order_id)"

section \<open>Setters of the book\<close>

text \<open>
  The price parameter of \<open>execute\<close> is 32 bits wide in the source, while prices are 64 bits wide:
  the callers' price is converted, and the record keeps the converted value.
\<close>

definition execute :: "build \<Rightarrow> u32 \<Rightarrow> u64 \<Rightarrow> Order \<Rightarrow> Order res" where
  "execute d new_price new_quantity od =
     (let od' = od\<lparr>open_quantity := open_quantity od - new_quantity,
                executed_quantity := executed_quantity od + new_quantity,
                last_executed_price := ucast new_price,
                last_executed_quantity := new_quantity\<rparr>
      in check d (validateOrder od') od')"

definition setPrice :: "build \<Rightarrow> u64 \<Rightarrow> Order \<Rightarrow> Order res" where
  "setPrice d new_price od = (let od' = od\<lparr>price := new_price\<rparr> in check d (validateOrder od') od')"

definition setStopPrice :: "build \<Rightarrow> u64 \<Rightarrow> Order \<Rightarrow> Order res" where
  "setStopPrice d new_stop_price od =
     (let od' = od\<lparr>stop_price := new_stop_price\<rparr> in check d (validateOrder od') od')"

definition setTrailAmount :: "build \<Rightarrow> u64 \<Rightarrow> Order \<Rightarrow> Order res" where
  "setTrailAmount d new_trail_amount od =
     (let od' = od\<lparr>trail_amount := new_trail_amount\<rparr> in check d (validateOrder od') od')"

text \<open>
  \<open>setQuantity\<close> as written: \<open>quantity\<close> becomes the smaller of the argument and the open quantity,
  and the whole argument is subtracted from the open quantity, modulo \<open>2 ^ 64\<close>.
\<close>

definition setQuantity :: "build \<Rightarrow> u64 \<Rightarrow> Order \<Rightarrow> Order res" where
  "setQuantity d new_quantity od =
     (let od' = od\<lparr>quantity := min new_quantity (open_quantity od),
                open_quantity := open_quantity od - new_quantity\<rparr>
      in check d (validateOrder od') od')"

definition setOrderID :: "build \<Rightarrow> u64 \<Rightarrow> Order \<Rightarrow> Order res" where
  "setOrderID d new_id od = (let od' = od\<lparr>oid := new_id\<rparr> in check d (validateOrder od') od')"

definition setType :: "build \<Rightarrow> OrderType \<Rightarrow> Order \<Rightarrow> Order res" where
  "setType d new_action od = (let od' = od\<lparr>otype := new_action\<rparr> in check d (validateOrder od') od')"

lemmas order_op_defs = execute_def setPrice_def setStopPrice_def setTrailAmount_def
  setQuantity_def setOrderID_def setType_def newOrder_def

lemmas factory_defs = marketAskOrder_def marketBidOrder_def limitAskOrder_def limitBidOrder_def
  stopAskOrder_def stopBidOrder_def stopLimitAskOrder_def stopLimitBidOrder_def
  trailingStopAskOrder_def trailingStopBidOrder_def trailingStopLimitAskOrder_def
  trailingStopLimitBidOrder_def

end
