(* ===== verification/Levels.thy ===== *)
theory Levels
  imports Orders
begin

text \<open>
  Price levels (\<open>include/matching/orderbook/level.h\<close>, \<open>src/matching/orderbook/level.cpp\<close>). A level
  is an intrusive list: its nodes are the orders themselves, which live in the book's hash map.
  The model keeps the list of their IDs and passes the store of the orders (\<open>heap\<close>) to the
  operations that read through the list, so that a write to an order is seen by its level.
\<close>

datatype LevelSide = LevelBid | LevelAsk

record Level =
  lv_orders :: "u64 list"
  lv_side :: LevelSide
  lv_symbol_id :: u32
  lv_volume :: u64
  lv_price :: u64

type_synonym heap = "u64 \<Rightarrow> Order option"

definition newLevel :: "u64 \<Rightarrow> LevelSide \<Rightarrow> u32 \<Rightarrow> Level" where
  "newLevel new_price new_side new_symbol_id =
     \<lparr>lv_orders = [], lv_side = new_side, lv_symbol_id = new_symbol_id, lv_volume = 0, lv_price = new_price\<rparr>"

definition Level_getOrders :: "Level \<Rightarrow> u64 list" where
  [simp]: "Level_getOrders l = lv_orders l"

definition Level_getPrice :: "Level \<Rightarrow> u64" where
  [simp]: "Level_getPrice l = lv_price l"

definition Level_getVolume :: "Level \<Rightarrow> u64" where
  [simp]: "Level_getVolume l = lv_volume l"

definition Level_getSide :: "Level \<Rightarrow> LevelSide" where
  [simp]: "Level_getSide l = lv_side l"

definition Level_getSymbolID :: "Level \<Rightarrow> u32" where
  [simp]: "Level_getSymbolID l = lv_symbol_id l"

definition Level_isAsk :: "Level \<Rightarrow> bool" where
  [simp]: "Level_isAsk l \<longleftrightarrow> lv_side l = LevelAsk"

definition Level_isBid :: "Level \<Rightarrow> bool" where
  [simp]: "Level_isBid l \<longleftrightarrow> lv_side l = LevelBid"

definition Level_size :: "Level \<Rightarrow> nat" where
  [simp]: "Level_size l = length (lv_orders l)"

definition Level_empty :: "Level \<Rightarrow> bool" where
  [simp]: "Level_empty l \<longleftrightarrow> lv_orders l = []"

section \<open>Validation\<close>

definition open_of :: "heap \<Rightarrow> u64 \<Rightarrow> u64" where
  "open_of h i = (case h i of None \<Rightarrow> 0 | Some od \<Rightarrow> getOpenQuantity od)"

text \<open>The price an order is filed under: the stop price until it is activated.\<close>

definition level_price_of :: "Order \<Rightarrow> u64" where
  "level_price_of od =
     (if isStop od \<or> isStopLimit od \<or> isTrailingStop od \<or> isTrailingStopLimit od
      then getStopPrice od else getPrice od)"

definition valid_in_level :: "Level \<Rightarrow> Order \<Rightarrow> bool" where
  "valid_in_level l od \<longleftrightarrow>
     (if lv_side l = LevelAsk then isAsk od else isBid od) \<and>
     level_price_of od = lv_price l \<and> \<not> isMarket od"

definition actual_volume :: "heap \<Rightarrow> Level \<Rightarrow> u64" where
  "actual_volume h l = sum_list (map (open_of h) (lv_orders l))"

definition validateLevel :: "heap \<Rightarrow> Level \<Rightarrow> bool" where
  "validateLevel h l \<longleftrightarrow>
     list_all (\<lambda>i. case h i of None \<Rightarrow> False | Some od \<Rightarrow> valid_in_level l od) (lv_orders l) \<and>
     actual_volume h l = lv_volume l"

section \<open>Operations\<close>

definition Level_addOrder :: "build \<Rightarrow> heap \<Rightarrow> Order \<Rightarrow> Level \<Rightarrow> Level res" where
  "Level_addOrder d h od l =
     rbind (check d (if isAsk od then lv_side l = LevelAsk else lv_side l = LevelBid) ()) (\<lambda>_.
     rbind (check d (getSymbolID od = lv_symbol_id l) ()) (\<lambda>_.
     rbind (require (oid od \<notin> set (lv_orders l)) ()) (\<lambda>_.
     let l' = l\<lparr>lv_volume := lv_volume l + getOpenQuantity od, lv_orders := lv_orders l @ [oid od]\<rparr>
     in check d (validateLevel h l') l')))"

definition Level_popFront :: "build \<Rightarrow> heap \<Rightarrow> Level \<Rightarrow> Level res" where
  "Level_popFront d h l =
     rbind (check d (lv_orders l \<noteq> []) ()) (\<lambda>_.
     case lv_orders l of
       [] \<Rightarrow> Inl UndefinedBehaviour
     | i # is \<Rightarrow>
         let l' = l\<lparr>lv_volume := lv_volume l - open_of h i, lv_orders := is\<rparr>
         in check d (validateLevel h l') l')"

definition Level_popBack :: "build \<Rightarrow> heap \<Rightarrow> Level \<Rightarrow> Level res" where
  "Level_popBack d h l =
     rbind (check d (lv_orders l \<noteq> []) ()) (\<lambda>_.
     if lv_orders l = [] then Inl UndefinedBehaviour
     else
       let l' = l\<lparr>lv_volume := lv_volume l - open_of h (last (lv_orders l)),
                 lv_orders := butlast (lv_orders l)\<rparr>
       in check d (validateLevel h l') l')"

text \<open>Erasing through \<open>s_iterator_to\<close> is defined only for an order that is linked into this list.\<close>

definition Level_deleteOrder :: "build \<Rightarrow> heap \<Rightarrow> Order \<Rightarrow> Level \<Rightarrow> Level res" where
  "Level_deleteOrder d h od l =
     rbind (require (oid od \<in> set (lv_orders l)) ()) (\<lambda>_.
     let l' = l\<lparr>lv_volume := lv_volume l - getOpenQuantity od,
               lv_orders := remove1 (oid od) (lv_orders l)\<rparr>
     in check d (validateLevel h l') l')"

definition Level_reduceVolume :: "build \<Rightarrow> heap \<Rightarrow> u64 \<Rightarrow> Level \<Rightarrow> Level res" where
  "Level_reduceVolume d h amount l =
     rbind (check d (amount \<le> lv_volume l) ()) (\<lambda>_.
     let l' = l\<lparr>lv_volume := lv_volume l - amount\<rparr>
     in check d (validateLevel h l') l')"

definition Level_front :: "build \<Rightarrow> Level \<Rightarrow> u64 res" where
  "Level_front d l =
     rbind (check d (lv_orders l \<noteq> []) ()) (\<lambda>_.
     case lv_orders l of [] \<Rightarrow> Inl UndefinedBehaviour | i # _ \<Rightarrow> Inr i)"

definition Level_back :: "build \<Rightarrow> Level \<Rightarrow> u64 res" where
  "Level_back d l =
     rbind (check d (lv_orders l \<noteq> []) ()) (\<lambda>_.
     if lv_orders l = [] then Inl UndefinedBehaviour else Inr (last (lv_orders l)))"

section \<open>Inversion: what a successful call has done\<close>

lemma Level_addOrder_eq_Inr:
  "Level_addOrder d h od l = Inr l' \<longleftrightarrow>
     l' = l\<lparr>lv_volume := lv_volume l + open_quantity od, lv_orders := lv_orders l @ [oid od]\<rparr> \<and>
     oid od \<notin> set (lv_orders l) \<and>
     (d = Debug \<longrightarrow> (if side od = Ask then lv_side l = LevelAsk else lv_side l = LevelBid) \<and>
        symbol_id od = lv_symbol_id l \<and> validateLevel h l')"
  by (auto simp: Level_addOrder_def Let_def)

lemma Level_popFront_eq_Inr:
  "Level_popFront d h l = Inr l' \<longleftrightarrow>
     (\<exists>i is. lv_orders l = i # is \<and>
        l' = l\<lparr>lv_volume := lv_volume l - open_of h i, lv_orders := is\<rparr> \<and>
        (d = Debug \<longrightarrow> validateLevel h l'))"
  by (cases "lv_orders l") (auto simp: Level_popFront_def Let_def)

lemma Level_deleteOrder_eq_Inr:
  "Level_deleteOrder d h od l = Inr l' \<longleftrightarrow>
     oid od \<in> set (lv_orders l) \<and>
     l' = l\<lparr>lv_volume := lv_volume l - open_quantity od,
            lv_orders := remove1 (oid od) (lv_orders l)\<rparr> \<and>
     (d = Debug \<longrightarrow> validateLevel h l')"
  by (auto simp: Level_deleteOrder_def Let_def)

lemma Level_reduceVolume_eq_Inr:
  "Level_reduceVolume d h amount l = Inr l' \<longleftrightarrow>
     l' = l\<lparr>lv_volume := lv_volume l - amount\<rparr> \<and>
     (d = Debug \<longrightarrow> amount \<le> lv_volume l \<and> validateLevel h l')"
  by (auto simp: Level_reduceVolume_def Let_def)

lemma Level_front_eq_Inr:
  "Level_front d l = Inr i \<longleftrightarrow> (\<exists>is. lv_orders l = i # is)"
  by (cases "lv_orders l") (auto simp: Level_front_def)

lemmas level_eq_Inr = Level_addOrder_eq_Inr Level_popFront_eq_Inr Level_deleteOrder_eq_Inr
  Level_reduceVolume_eq_Inr Level_front_eq_Inr

lemmas level_op_defs = Level_addOrder_def Level_popFront_def Level_popBack_def
  Level_deleteOrder_def Level_reduceVolume_def Level_front_def Level_back_def

end
