(* ===== verification/Events.thy ===== *)
theory Events
  imports Orders
begin

text \<open>
  The notifications of \<open>include/event_handler/event.h\<close> and their handlers
  (\<open>include/event_handler/event_handler.h\<close>). The program only calls the handler, and never reads what it
  does: the models of the book and the market record the calls, in order, as a list of events, and a
  handler is run on that list.
\<close>

datatype Event =
    OrderAdded Order
  | OrderDeleted Order
  | ExecutedOrder Order
  | OrderUpdated Order
  | SymbolAdded u32 string
  | SymbolDeleted u32 string

text \<open>
  A handler with a state of its own. Its virtual functions do nothing by default; a class derived from it
  overrides some of them.
\<close>

record 's EventHandler =
  handleOrderAdded :: "Order \<Rightarrow> 's \<Rightarrow> 's"
  handleOrderDeleted :: "Order \<Rightarrow> 's \<Rightarrow> 's"
  handleOrderUpdated :: "Order \<Rightarrow> 's \<Rightarrow> 's"
  handleOrderExecuted :: "Order \<Rightarrow> 's \<Rightarrow> 's"
  handleSymbolAdded :: "u32 \<Rightarrow> string \<Rightarrow> 's \<Rightarrow> 's"
  handleSymbolDeleted :: "u32 \<Rightarrow> string \<Rightarrow> 's \<Rightarrow> 's"

definition defaultHandler :: "'s EventHandler" where
  "defaultHandler = \<lparr>handleOrderAdded = (\<lambda>od s. s), handleOrderDeleted = (\<lambda>od s. s),
     handleOrderUpdated = (\<lambda>od s. s), handleOrderExecuted = (\<lambda>od s. s),
     handleSymbolAdded = (\<lambda>sid name s. s), handleSymbolDeleted = (\<lambda>sid name s. s)\<rparr>"

fun handle :: "'s EventHandler \<Rightarrow> Event \<Rightarrow> 's \<Rightarrow> 's" where
  "handle eh (OrderAdded od) = handleOrderAdded eh od"
| "handle eh (OrderDeleted od) = handleOrderDeleted eh od"
| "handle eh (ExecutedOrder od) = handleOrderExecuted eh od"
| "handle eh (OrderUpdated od) = handleOrderUpdated eh od"
| "handle eh (SymbolAdded sid name) = handleSymbolAdded eh sid name"
| "handle eh (SymbolDeleted sid name) = handleSymbolDeleted eh sid name"

lemma handle_default [simp]: "handle defaultHandler e = (\<lambda>s. s)"
  by (cases e) (simp_all add: defaultHandler_def)

declare handle.simps [simp del]

end
