(* ===== verification/Book_State.thy ===== *)
theory Book_State
  imports Ordered_Map Hash_Map Levels Events
begin

text \<open>
  The state of \<open>MapOrderBook\<close> (\<open>include/matching/orderbook/map_orderbook.h\<close>) and the operations
  of \<open>src/matching/orderbook/map_orderbook.cpp\<close> that every other one is built from: reading and
  writing an order or a level through an iterator, inserting an order, deleting an order.

  An iterator to a level is the map it points into together with the key. The six maps are
  members of the book; the seventh, \<open>new_trailing_levels\<close>, is the local variable of the
  functions that move the trailing stop orders, and is empty outside of them.
\<close>

section \<open>Data\<close>

datatype LevelMap =
    AskLevels
  | BidLevels
  | StopAskLevels
  | StopBidLevels
  | TrailingStopAskLevels
  | TrailingStopBidLevels
  | NewTrailingLevels

type_synonym level_iterator = "LevelMap \<times> u64"

record OrderWrapper =
  w_order :: Order
  level_it :: level_iterator

record MapOrderBook =
  orders :: "(u64, OrderWrapper) hmap"
  ask_levels :: "(u64, Level) omap"
  bid_levels :: "(u64, Level) omap"
  stop_ask_levels :: "(u64, Level) omap"
  stop_bid_levels :: "(u64, Level) omap"
  trailing_stop_ask_levels :: "(u64, Level) omap"
  trailing_stop_bid_levels :: "(u64, Level) omap"
  new_trailing_levels :: "(u64, Level) omap"
  events :: "Event list"
  last_traded_price :: u64
  trailing_bid_price :: u64
  trailing_ask_price :: u64
  book_symbol_id :: u32

definition newMapOrderBook :: "u32 \<Rightarrow> MapOrderBook" where
  "newMapOrderBook new_symbol_id =
     \<lparr>orders = [], ask_levels = [], bid_levels = [], stop_ask_levels = [], stop_bid_levels = [],
      trailing_stop_ask_levels = [], trailing_stop_bid_levels = [], new_trailing_levels = [],
      events = [], last_traded_price = 0, trailing_bid_price = 0, trailing_ask_price = u64_max,
      book_symbol_id = new_symbol_id\<rparr>"

fun levels :: "LevelMap \<Rightarrow> MapOrderBook \<Rightarrow> (u64, Level) omap" where
  "levels AskLevels b = ask_levels b"
| "levels BidLevels b = bid_levels b"
| "levels StopAskLevels b = stop_ask_levels b"
| "levels StopBidLevels b = stop_bid_levels b"
| "levels TrailingStopAskLevels b = trailing_stop_ask_levels b"
| "levels TrailingStopBidLevels b = trailing_stop_bid_levels b"
| "levels NewTrailingLevels b = new_trailing_levels b"

fun set_levels :: "LevelMap \<Rightarrow> (u64, Level) omap \<Rightarrow> MapOrderBook \<Rightarrow> MapOrderBook" where
  "set_levels AskLevels m b = b\<lparr>ask_levels := m\<rparr>"
| "set_levels BidLevels m b = b\<lparr>bid_levels := m\<rparr>"
| "set_levels StopAskLevels m b = b\<lparr>stop_ask_levels := m\<rparr>"
| "set_levels StopBidLevels m b = b\<lparr>stop_bid_levels := m\<rparr>"
| "set_levels TrailingStopAskLevels m b = b\<lparr>trailing_stop_ask_levels := m\<rparr>"
| "set_levels TrailingStopBidLevels m b = b\<lparr>trailing_stop_bid_levels := m\<rparr>"
| "set_levels NewTrailingLevels m b = b\<lparr>new_trailing_levels := m\<rparr>"

section \<open>Reads and writes through iterators and references\<close>

definition book_heap :: "MapOrderBook \<Rightarrow> heap" where
  "book_heap b = (\<lambda>i. map_option w_order (hm_find i (orders b)))"

definition find_order :: "MapOrderBook \<Rightarrow> u64 \<Rightarrow> OrderWrapper res" where
  "find_order b i = deref (hm_find i (orders b))"

definition find_level :: "MapOrderBook \<Rightarrow> level_iterator \<Rightarrow> Level res" where
  "find_level b it = deref (om_find (snd it) (levels (fst it) b))"

definition store_order :: "u64 \<Rightarrow> Order \<Rightarrow> MapOrderBook \<Rightarrow> MapOrderBook" where
  "store_order i od b =
     (case hm_find i (orders b) of
        None \<Rightarrow> b
      | Some w \<Rightarrow> b\<lparr>orders := hm_store i (w\<lparr>w_order := od\<rparr>) (orders b)\<rparr>)"

definition store_level :: "level_iterator \<Rightarrow> Level \<Rightarrow> MapOrderBook \<Rightarrow> MapOrderBook" where
  "store_level it l b = set_levels (fst it) (om_store (snd it) l (levels (fst it) b)) b"

definition erase_level :: "level_iterator \<Rightarrow> MapOrderBook \<Rightarrow> MapOrderBook" where
  "erase_level it b = set_levels (fst it) (om_erase (snd it) (levels (fst it) b)) b"

definition emit :: "Event \<Rightarrow> MapOrderBook \<Rightarrow> MapOrderBook" where
  "emit e b = b\<lparr>events := events b @ [e]\<rparr>"

section \<open>Queries\<close>

definition hasOrder :: "MapOrderBook \<Rightarrow> u64 \<Rightarrow> bool" where
  "hasOrder b order_id \<longleftrightarrow> hm_find order_id (orders b) \<noteq> None"

definition getOrder :: "MapOrderBook \<Rightarrow> u64 \<Rightarrow> Order res" where
  "getOrder b order_id = rbind (find_order b order_id) (\<lambda>w. Inr (w_order w))"

definition book_empty :: "MapOrderBook \<Rightarrow> bool" where
  "book_empty b \<longleftrightarrow> orders b = []"

definition bestBid :: "MapOrderBook \<Rightarrow> u64" where
  "bestBid b = (case om_rbegin (bid_levels b) of None \<Rightarrow> 0 | Some (p, l) \<Rightarrow> p)"

definition bestAsk :: "MapOrderBook \<Rightarrow> u64" where
  "bestAsk b = (case om_begin (ask_levels b) of None \<Rightarrow> u64_max | Some (p, l) \<Rightarrow> p)"

definition lastTradedPriceAsk :: "MapOrderBook \<Rightarrow> u64" where
  "lastTradedPriceAsk b = (if last_traded_price b = 0 then u64_max else last_traded_price b)"

definition lastTradedPriceBid :: "MapOrderBook \<Rightarrow> u64" where
  "lastTradedPriceBid b = last_traded_price b"

section \<open>Deleting an order\<close>

text \<open>
  The map that \<open>deleteOrder\<close> erases an empty level from: the switch over the type of the order.
  \<open>None\<close> is its \<open>default\<close> branch.
\<close>

definition erasing_map :: "Order \<Rightarrow> LevelMap option" where
  "erasing_map od =
     (case getType od of
        Limit \<Rightarrow> Some (if isAsk od then AskLevels else BidLevels)
      | Stop \<Rightarrow> Some (if isAsk od then StopAskLevels else StopBidLevels)
      | StopLimit \<Rightarrow> Some (if isAsk od then StopAskLevels else StopBidLevels)
      | TrailingStop \<Rightarrow> Some (if isAsk od then TrailingStopAskLevels else TrailingStopBidLevels)
      | TrailingStopLimit \<Rightarrow> Some (if isAsk od then TrailingStopAskLevels else TrailingStopBidLevels)
      | Market \<Rightarrow> None)"

text \<open>Erasing an iterator of another map is undefined.\<close>

definition erase_empty_level ::
  "build \<Rightarrow> Order \<Rightarrow> level_iterator \<Rightarrow> MapOrderBook \<Rightarrow> MapOrderBook res" where
  "erase_empty_level d od it b =
     (case erasing_map od of
        None \<Rightarrow> check d False b
      | Some K \<Rightarrow> rbind (require (fst it = K) ()) (\<lambda>_. Inr (erase_level it b)))"

definition deleteOrder_notify ::
  "build \<Rightarrow> MapOrderBook \<Rightarrow> u64 \<Rightarrow> bool \<Rightarrow> MapOrderBook res" where
  "deleteOrder_notify d b order_id notification =
     rbind (find_order b order_id) (\<lambda>w.
     let it = level_it w;
         deleting_order = w_order w;
         b1 = (if notification then emit (OrderDeleted deleting_order) b else b) in
     rbind (find_level b1 it) (\<lambda>l.
     rbind (Level_deleteOrder d (book_heap b1) deleting_order l) (\<lambda>l'.
     let b2 = store_level it l' b1 in
     rbind (if Level_empty l' then erase_empty_level d deleting_order it b2 else Inr b2) (\<lambda>b3.
     Inr (b3\<lparr>orders := hm_erase order_id (orders b3)\<rparr>)))))"

section \<open>Inserting an order\<close>

text \<open>
  The common shape of the insertions: find or create the level, emplace the order, append it to
  the level. Where the ID is taken, \<open>emplace\<close> returns the order that is there, whose list node
  is linked already, so that appending it again is undefined.
\<close>

definition insert_at ::
  "build \<Rightarrow> LevelMap \<Rightarrow> u64 \<Rightarrow> LevelSide \<Rightarrow> Order \<Rightarrow> MapOrderBook \<Rightarrow> MapOrderBook res" where
  "insert_at d K p s od b =
     (let b1 = set_levels K (om_emplace p (newLevel p s (book_symbol_id b)) (levels K b)) b in
      rbind (require (\<not> hasOrder b1 (getOrderID od)) ()) (\<lambda>_.
      let b2 = b1\<lparr>orders := hm_emplace (getOrderID od) \<lparr>w_order = od, level_it = (K, p)\<rparr> (orders b1)\<rparr> in
      rbind (find_level b2 (K, p)) (\<lambda>l.
      rbind (Level_addOrder d (book_heap b2) od l) (\<lambda>l'.
      Inr (store_level (K, p) l' b2)))))"

definition insertLimitOrder :: "build \<Rightarrow> MapOrderBook \<Rightarrow> Order \<Rightarrow> MapOrderBook res" where
  "insertLimitOrder d b od =
     (if isAsk od then insert_at d AskLevels (getPrice od) LevelAsk od b
      else insert_at d BidLevels (getPrice od) LevelBid od b)"

definition insertStopOrder :: "build \<Rightarrow> MapOrderBook \<Rightarrow> Order \<Rightarrow> MapOrderBook res" where
  "insertStopOrder d b od =
     (if isAsk od then insert_at d StopAskLevels (getStopPrice od) LevelAsk od b
      else insert_at d StopBidLevels (getStopPrice od) LevelBid od b)"

definition insertTrailingStopOrder :: "build \<Rightarrow> MapOrderBook \<Rightarrow> Order \<Rightarrow> MapOrderBook res" where
  "insertTrailingStopOrder d b od =
     (if isAsk od then insert_at d TrailingStopAskLevels (getStopPrice od) LevelAsk od b
      else insert_at d TrailingStopBidLevels (getStopPrice od) LevelBid od b)"

section \<open>Frame lemmas\<close>

lemma levels_set_levels [simp]: "levels K (set_levels K' m b) = (if K = K' then m else levels K b)"
  by (cases K; cases K') simp_all

lemma set_levels_frame [simp]:
  "orders (set_levels K m b) = orders b"
  "events (set_levels K m b) = events b"
  "last_traded_price (set_levels K m b) = last_traded_price b"
  "trailing_bid_price (set_levels K m b) = trailing_bid_price b"
  "trailing_ask_price (set_levels K m b) = trailing_ask_price b"
  "book_symbol_id (set_levels K m b) = book_symbol_id b"
  by (cases K; simp)+

lemma levels_update [simp]:
  "levels K (b\<lparr>orders := x\<rparr>) = levels K b"
  "levels K (b\<lparr>events := y\<rparr>) = levels K b"
  "levels K (b\<lparr>last_traded_price := z\<rparr>) = levels K b"
  "levels K (b\<lparr>trailing_bid_price := z\<rparr>) = levels K b"
  "levels K (b\<lparr>trailing_ask_price := z\<rparr>) = levels K b"
  by (cases K; simp)+

lemma emit_frame [simp]:
  "orders (emit e b) = orders b"
  "levels K (emit e b) = levels K b"
  "last_traded_price (emit e b) = last_traded_price b"
  "trailing_bid_price (emit e b) = trailing_bid_price b"
  "trailing_ask_price (emit e b) = trailing_ask_price b"
  "book_symbol_id (emit e b) = book_symbol_id b"
  "events (emit e b) = events b @ [e]"
  by (simp_all add: emit_def)

lemma store_level_frame [simp]:
  "orders (store_level it l b) = orders b"
  "events (store_level it l b) = events b"
  "last_traded_price (store_level it l b) = last_traded_price b"
  "trailing_bid_price (store_level it l b) = trailing_bid_price b"
  "trailing_ask_price (store_level it l b) = trailing_ask_price b"
  "book_symbol_id (store_level it l b) = book_symbol_id b"
  by (simp_all add: store_level_def)

lemma erase_level_frame [simp]:
  "orders (erase_level it b) = orders b"
  "events (erase_level it b) = events b"
  "last_traded_price (erase_level it b) = last_traded_price b"
  "trailing_bid_price (erase_level it b) = trailing_bid_price b"
  "trailing_ask_price (erase_level it b) = trailing_ask_price b"
  "book_symbol_id (erase_level it b) = book_symbol_id b"
  by (simp_all add: erase_level_def)

lemma store_order_frame [simp]:
  "levels K (store_order i od b) = levels K b"
  "events (store_order i od b) = events b"
  "last_traded_price (store_order i od b) = last_traded_price b"
  "trailing_bid_price (store_order i od b) = trailing_bid_price b"
  "trailing_ask_price (store_order i od b) = trailing_ask_price b"
  "book_symbol_id (store_order i od b) = book_symbol_id b"
  by (simp_all add: store_order_def split: option.split)

lemma find_order_eq_Inr [simp]: "find_order b i = Inr w \<longleftrightarrow> hm_find i (orders b) = Some w"
  by (simp add: find_order_def)

lemma find_level_eq_Inr [simp]:
  "find_level b it = Inr l \<longleftrightarrow> om_find (snd it) (levels (fst it) b) = Some l"
  by (simp add: find_level_def)

lemma length_orders_store_order [simp]: "length (orders (store_order i od b)) = length (orders b)"
  by (simp add: store_order_def split: option.split)

lemma hm_find_store_order:
  "hm_find j (orders (store_order i od b)) =
     (if j = i then map_option (\<lambda>w. w\<lparr>w_order := od\<rparr>) (hm_find i (orders b))
      else hm_find j (orders b))"
  by (simp add: store_order_def hm.find_store split: option.split)

lemma orders_deleteOrder_notify:
  assumes "deleteOrder_notify d b i n = Inr b'"
  shows "orders b' = hm_erase i (orders b)" and "\<exists>w. hm_find i (orders b) = Some w"
  using assms
  by (auto simp: deleteOrder_notify_def erase_empty_level_def Let_def split: if_splits option.splits)

lemma deleteOrder_notify_less:
  "deleteOrder_notify d b i n = Inr b' \<Longrightarrow> length (orders b') < length (orders b)"
  using orders_deleteOrder_notify [of d b i n b'] by (auto intro: length_hm_erase)

end
