(* ===== verification/Book_Match.thy ===== *)
theory Book_Match
  imports Book_State
begin

text \<open>
  Matching an incoming order against the opposite side of the book (\<open>match\<close>, \<open>executeOrders\<close>,
  \<open>canMatchOrder\<close> of \<open>src/matching/orderbook/map_orderbook.cpp\<close>) and the operations that match:
  \<open>addLimitOrder\<close> and \<open>addMarketOrder\<close>.

  The source writes the loop twice, for an incoming ask (over the bid levels from \<open>rbegin()\<close>) and
  for an incoming bid (over the ask levels from \<open>begin()\<close>). The model writes it once, over the
  best opposite level.
\<close>

section \<open>The opposite side\<close>

definition opposite_map :: "Order \<Rightarrow> LevelMap" where
  "opposite_map od = (if isAsk od then BidLevels else AskLevels)"

definition best_opposite :: "MapOrderBook \<Rightarrow> Order \<Rightarrow> (u64 \<times> Level) option" where
  "best_opposite b od = (if isAsk od then om_rbegin (bid_levels b) else om_begin (ask_levels b))"

definition crosses :: "Order \<Rightarrow> u64 \<Rightarrow> bool" where
  "crosses od p \<longleftrightarrow> (if isAsk od then getPrice od \<le> p else p \<le> getPrice od)"

section \<open>Executing two orders\<close>

definition executeOrders ::
  "build \<Rightarrow> MapOrderBook \<Rightarrow> Order \<Rightarrow> Order \<Rightarrow> u64 \<Rightarrow> (MapOrderBook \<times> Order \<times> Order) res" where
  "executeOrders d b ask bid executing_price =
     (let matched_quantity = min (getOpenQuantity ask) (getOpenQuantity bid) in
      rbind (execute d (ucast executing_price) matched_quantity bid) (\<lambda>bid'.
      rbind (execute d (ucast executing_price) matched_quantity ask) (\<lambda>ask'.
      let b' = emit (ExecutedOrder ask') (emit (ExecutedOrder bid') b) in
      Inr (b'\<lparr>last_traded_price := executing_price\<rparr>, ask', bid'))))"

text \<open>The same call from the side of the incoming order: \<open>(book, incoming, resting)\<close>.\<close>

definition execute_incoming ::
  "build \<Rightarrow> MapOrderBook \<Rightarrow> Order \<Rightarrow> Order \<Rightarrow> u64 \<Rightarrow> (MapOrderBook \<times> Order \<times> Order) res" where
  "execute_incoming d b od resting p =
     (if isAsk od then executeOrders d b od resting p
      else rbind (executeOrders d b resting od p) (\<lambda>(b1, ask, bid). Inr (b1, bid, ask)))"

text \<open>One iteration of the loop of \<open>match\<close>: the resting order is the front of the level.\<close>

definition match_step ::
  "build \<Rightarrow> MapOrderBook \<Rightarrow> Order \<Rightarrow> u64 \<times> Level \<Rightarrow> (MapOrderBook \<times> Order) res" where
  "match_step d b od lev =
     rbind (Level_front d (snd lev)) (\<lambda>i.
     rbind (find_order b i) (\<lambda>w.
     rbind (execute_incoming d b od (w_order w) (getPrice (w_order w))) (\<lambda>(b1, od', resting').
     let b2 = store_order i resting' b1; it = (opposite_map od, fst lev) in
     rbind (Level_reduceVolume d (book_heap b2) (getLastExecutedQuantity resting') (snd lev)) (\<lambda>l'.
     let b3 = store_level it l' b2 in
     rbind (if isFilled resting' then deleteOrder_notify d b3 (getOrderID resting') True
            else Inr b3) (\<lambda>b4.
     Inr (b4, od'))))))"

lemma execute_open: "execute d p q od = Inr od' \<Longrightarrow> open_quantity od' = open_quantity od - q"
  by (auto simp: execute_def Let_def)

lemma execute_incoming_less:
  "execute_incoming d b od r p = Inr (b', od', r') \<Longrightarrow>
    orders b' = orders b \<and> (isFilled od' \<or> isFilled r')"
  by (auto simp: execute_incoming_def executeOrders_def Let_def min_def dest!: execute_open
      split: if_splits)

lemma match_step_eq_Inr:
  "match_step d b od lev = Inr (b', od') \<longleftrightarrow>
   (\<exists>i w b1 r l'. Level_front d (snd lev) = Inr i \<and> hm_find i (orders b) = Some w \<and>
      execute_incoming d b od (w_order w) (price (w_order w)) = Inr (b1, od', r) \<and>
      Level_reduceVolume d (book_heap (store_order i r b1)) (last_executed_quantity r) (snd lev)
        = Inr l' \<and>
      (if isFilled r
       then deleteOrder_notify d (store_level (opposite_map od, fst lev) l' (store_order i r b1))
              (oid r) True
       else Inr (store_level (opposite_map od, fst lev) l' (store_order i r b1))) = Inr b')"
  by (auto simp: match_step_def Let_def simp del: isFilled_def)

text \<open>An iteration removes a resting order or fills the incoming one, whatever the book's state.\<close>

lemma match_step_less:
  assumes "match_step d b od lev = Inr (b', od')"
  shows "length (orders b') < length (orders b) \<or>
    length (orders b') = length (orders b) \<and> isFilled od'"
proof -
  from assms obtain i w b1 r l' where
    "hm_find i (orders b) = Some w" and
    ex: "execute_incoming d b od (w_order w) (price (w_order w)) = Inr (b1, od', r)"
    and del: "(if isFilled r
       then deleteOrder_notify d (store_level (opposite_map od, fst lev) l' (store_order i r b1))
              (oid r) True
       else Inr (store_level (opposite_map od, fst lev) l' (store_order i r b1))) = Inr b'"
    unfolding match_step_eq_Inr by blast
  show ?thesis
    using execute_incoming_less [OF ex] del
    by (auto split: if_splits dest!: deleteOrder_notify_less)
qed

function match_loop :: "build \<Rightarrow> MapOrderBook \<Rightarrow> Order \<Rightarrow> (MapOrderBook \<times> Order) res" where
  "match_loop d b od =
     (case best_opposite b od of
        None \<Rightarrow> Inr (b, od)
      | Some lev \<Rightarrow>
          if crosses od (fst lev) \<and> \<not> isFilled od
          then rbind (match_step d b od lev) (\<lambda>r. match_loop d (fst r) (snd r))
          else Inr (b, od))"
  by pat_completeness auto
termination
proof (relation "measures [\<lambda>(d, b, od). length (orders b), \<lambda>(d, b, od). if isFilled od then 0 else 1]",
    goal_cases)
  case 1
  show ?case by simp
next
  case (2 d b od lev r)
  then show ?case using match_step_less [of d b od lev "fst r" "snd r"]
    by (auto simp: case_prod_beta)
qed

declare match_loop.simps [simp del]

section \<open>Fill-or-kill\<close>

text \<open>
  The loop of \<open>canMatchOrder\<close>: its iterator is not advanced, so every iteration reads the volume
  of the same level.
\<close>

partial_function (option) can_match_loop ::
  "Order \<Rightarrow> (u64 \<times> Level) option \<Rightarrow> u64 \<Rightarrow> u64 \<Rightarrow> bool option" where
  "can_match_loop od it quantity_required quantity_available =
     (case it of
        None \<Rightarrow> Some False
      | Some (p, l) \<Rightarrow>
          if crosses od p
          then
            (let level_volume = Level_getVolume l;
                 quantity_needed = quantity_required - quantity_available;
                 quantity_available' = quantity_available + min level_volume quantity_needed
             in if quantity_required \<le> quantity_available' then Some True
                else can_match_loop od it quantity_required quantity_available')
          else Some False)"

declare can_match_loop.simps [code]

definition canMatchOrder :: "MapOrderBook \<Rightarrow> Order \<Rightarrow> bool option" where
  "canMatchOrder b od = can_match_loop od (best_opposite b od) (getOpenQuantity od) 0"

definition match :: "build \<Rightarrow> MapOrderBook \<Rightarrow> Order \<Rightarrow> (MapOrderBook \<times> Order) res" where
  "match d b od =
     rbind (if isFok od then returns (map_option Inr (canMatchOrder b od)) else Inr True) (\<lambda>can.
     if can then match_loop d b od else Inr (b, od))"

section \<open>Adding limit and market orders\<close>

definition addLimitOrder :: "build \<Rightarrow> MapOrderBook \<Rightarrow> Order \<Rightarrow> MapOrderBook res" where
  "addLimitOrder d b od =
     rbind (match d b od) (\<lambda>(b', od').
     if \<not> isFilled od' \<and> \<not> isIoc od' \<and> \<not> isFok od' then insertLimitOrder d b' od'
     else Inr (emit (OrderDeleted od') b'))"

definition addMarketOrder :: "build \<Rightarrow> MapOrderBook \<Rightarrow> Order \<Rightarrow> MapOrderBook res" where
  "addMarketOrder d b od =
     rbind (setPrice d (if isAsk od then 0 else u64_max) od) (\<lambda>od1.
     rbind (match d b od1) (\<lambda>(b', od').
     Inr (emit (OrderDeleted od') b')))"

end
