(* ===== verification/Book_Stops.thy ===== *)
theory Book_Stops
  imports Book_Match
begin

text \<open>
  Stop and trailing stop orders: \<open>addStopOrder\<close>, \<open>calculateStopPrice\<close>, the activation loops and
  the functions that move the trailing stop orders when the market price moves
  (\<open>src/matching/orderbook/map_orderbook.cpp\<close>).

  The loops that activate orders match orders, which changes the book they run over, so their
  ends are theorems about well-formed books; here they are partial functions.
\<close>

section \<open>Stop prices\<close>

definition calculateStopPrice :: "build \<Rightarrow> MapOrderBook \<Rightarrow> Order \<Rightarrow> Order res" where
  "calculateStopPrice d b od =
     (if isAsk od then
        let market_price = lastTradedPriceBid b; trail = getTrailAmount od;
            new_stop_price = (if trail < market_price then market_price - trail else 0)
        in setStopPrice d new_stop_price od
      else
        let market_price = lastTradedPriceAsk b; trail = getTrailAmount od;
            new_stop_price =
              (if market_price < u64_max - trail then market_price + trail else u64_max)
        in setStopPrice d new_stop_price od)"

text \<open>The test of \<open>addStopOrder\<close>: the market price has reached the stop price.\<close>

definition stop_matches :: "MapOrderBook \<Rightarrow> Order \<Rightarrow> bool" where
  "stop_matches b od \<longleftrightarrow>
     (let market_price = (if isAsk od then lastTradedPriceBid b else lastTradedPriceAsk b);
          order_stop_price = getStopPrice od
      in isAsk od \<and> market_price \<le> order_stop_price \<or>
         isBid od \<and> order_stop_price \<le> market_price)"

definition addStopOrder :: "build \<Rightarrow> MapOrderBook \<Rightarrow> Order \<Rightarrow> MapOrderBook res" where
  "addStopOrder d b od =
     rbind (if isTrailingStop od \<or> isTrailingStopLimit od then calculateStopPrice d b od
            else Inr od) (\<lambda>od1.
     if stop_matches b od1 then
       rbind (setType d (if isStop od1 \<or> isTrailingStop od1 then Market else Limit) od1) (\<lambda>od2.
       rbind (setStopPrice d 0 od2) (\<lambda>od3.
       rbind (setTrailAmount d 0 od3) (\<lambda>od4.
       let b1 = emit (OrderUpdated od4) b in
       if isMarket od4 then addMarketOrder d b1 od4 else addLimitOrder d b1 od4)))
     else if isTrailingStop od1 \<or> isTrailingStopLimit od1 then insertTrailingStopOrder d b od1
     else insertStopOrder d b od1)"

section \<open>Activation\<close>

definition activateStopOrder :: "build \<Rightarrow> MapOrderBook \<Rightarrow> Order \<Rightarrow> MapOrderBook res" where
  "activateStopOrder d b od =
     rbind (deleteOrder_notify d b (getOrderID od) False) (\<lambda>b1.
     rbind (setStopPrice d 0 od) (\<lambda>od1.
     rbind (setTrailAmount d 0 od1) (\<lambda>od2.
     if isStop od2 \<or> isTrailingStop od2 then
       rbind (setType d Market od2) (\<lambda>od3.
       addMarketOrder d (emit (OrderUpdated od3) b1) od3)
     else
       rbind (setType d Limit od2) (\<lambda>od3.
       addLimitOrder d (emit (OrderUpdated od3) b1) od3))))"

text \<open>
  The four activation loops differ in the map they read, the end they read it from, and the
  comparison with the market price, which each loop reads once, before it starts. The bid maps
  are read from \<open>begin()\<close> upwards, the ask maps from \<open>rbegin()\<close> downwards.
\<close>

definition next_stop_level :: "OrderSide \<Rightarrow> LevelMap \<Rightarrow> MapOrderBook \<Rightarrow> (u64 \<times> Level) option" where
  "next_stop_level s K b = (if s = Ask then om_rbegin (levels K b) else om_begin (levels K b))"

definition triggered :: "OrderSide \<Rightarrow> u64 \<Rightarrow> u64 \<Rightarrow> bool" where
  "triggered s last_price p \<longleftrightarrow> (if s = Ask then last_price \<le> p else p \<le> last_price)"

definition activate_front :: "build \<Rightarrow> MapOrderBook \<Rightarrow> Level \<Rightarrow> MapOrderBook res" where
  "activate_front d b l =
     rbind (Level_front d l) (\<lambda>i.
     rbind (find_order b i) (\<lambda>w.
     activateStopOrder d b (w_order w)))"

partial_function (option) activation_loop ::
  "build \<Rightarrow> OrderSide \<Rightarrow> LevelMap \<Rightarrow> u64 \<Rightarrow> MapOrderBook \<Rightarrow> bool
    \<Rightarrow> (MapOrderBook \<times> bool) res option" where
  "activation_loop d s K last_price b activated_orders =
     (case next_stop_level s K b of
        None \<Rightarrow> Some (Inr (b, activated_orders))
      | Some (p, l) \<Rightarrow>
          if triggered s last_price p then
            (case activate_front d b l of
               Inl e \<Rightarrow> Some (Inl e)
             | Inr b' \<Rightarrow> activation_loop d s K last_price b' True)
          else Some (Inr (b, activated_orders)))"

declare activation_loop.simps [code]

definition activateBidStopOrders :: "build \<Rightarrow> MapOrderBook \<Rightarrow> (MapOrderBook \<times> bool) res" where
  "activateBidStopOrders d b =
     rbind (returns (activation_loop d Bid StopBidLevels (lastTradedPriceAsk b) b False)) (\<lambda>(b1, a1).
     returns (activation_loop d Bid TrailingStopBidLevels (lastTradedPriceAsk b1) b1 a1))"

definition activateAskStopOrders :: "build \<Rightarrow> MapOrderBook \<Rightarrow> (MapOrderBook \<times> bool) res" where
  "activateAskStopOrders d b =
     rbind (returns (activation_loop d Ask StopAskLevels (lastTradedPriceBid b) b False)) (\<lambda>(b1, a1).
     returns (activation_loop d Ask TrailingStopAskLevels (lastTradedPriceBid b1) b1 a1))"

section \<open>Moving the trailing stop orders\<close>

definition trailing_map :: "OrderSide \<Rightarrow> LevelMap" where
  "trailing_map s = (if s = Ask then TrailingStopAskLevels else TrailingStopBidLevels)"

definition level_side :: "OrderSide \<Rightarrow> LevelSide" where
  "level_side s = (if s = Ask then LevelAsk else LevelBid)"

text \<open>
  The body of the inner loop: recompute the stop price of the front order, find or create its
  new level, point the order at it, unlink the order from the old level and link it to the new.
\<close>

definition move_front ::
  "build \<Rightarrow> OrderSide \<Rightarrow> u64 \<Rightarrow> MapOrderBook \<Rightarrow> MapOrderBook res" where
  "move_front d s p b =
     rbind (find_level b (trailing_map s, p)) (\<lambda>l.
     rbind (Level_front d l) (\<lambda>i.
     rbind (find_order b i) (\<lambda>w.
     rbind (calculateStopPrice d b (w_order w)) (\<lambda>stop_order.
     let new_stop_price = getStopPrice stop_order;
         b1 = store_order i stop_order b;
         b2 = b1\<lparr>new_trailing_levels := om_emplace new_stop_price
                (newLevel new_stop_price (level_side s) (book_symbol_id b1)) (new_trailing_levels b1)\<rparr>;
         b3 = b2\<lparr>orders := hm_store i
                \<lparr>w_order = stop_order, level_it = (NewTrailingLevels, new_stop_price)\<rparr> (orders b2)\<rparr> in
     rbind (Level_popFront d (book_heap b3) l) (\<lambda>l'.
     let b4 = store_level (trailing_map s, p) l' b3 in
     rbind (find_level b4 (NewTrailingLevels, new_stop_price)) (\<lambda>nl.
     rbind (Level_addOrder d (book_heap b4) stop_order nl) (\<lambda>nl'.
     Inr (emit (OrderUpdated stop_order)
           (store_level (NewTrailingLevels, new_stop_price) nl' b4)))))))))"

definition level_length :: "OrderSide \<Rightarrow> u64 \<Rightarrow> MapOrderBook \<Rightarrow> nat" where
  "level_length s p b =
     (case om_find p (levels (trailing_map s) b) of None \<Rightarrow> 0 | Some l \<Rightarrow> length (lv_orders l))"

lemma trailing_map_neq [simp]:
  "trailing_map s \<noteq> NewTrailingLevels" "NewTrailingLevels \<noteq> trailing_map s"
  by (simp_all add: trailing_map_def)

lemma level_length_move_front:
  assumes "move_front d s p b = Inr b'"
  shows "level_length s p b' < level_length s p b"
proof -
  have new: "levels (trailing_map s) (x\<lparr>new_trailing_levels := y\<rparr>) = levels (trailing_map s) x" for x y
    by (simp add: trailing_map_def)
  from assms show ?thesis
    by (auto simp: move_front_def level_length_def Let_def Level_popFront_eq_Inr store_level_def
        new om.find_store)
qed

function move_level :: "build \<Rightarrow> OrderSide \<Rightarrow> u64 \<Rightarrow> MapOrderBook \<Rightarrow> MapOrderBook res" where
  "move_level d s p b =
     rbind (find_level b (trailing_map s, p)) (\<lambda>l.
     if Level_empty l then Inr b
     else rbind (move_front d s p b) (\<lambda>b'. move_level d s p b'))"
  by pat_completeness auto
termination
  by (relation "measure (\<lambda>(d, s, p, b). level_length s p b)") (auto dest: level_length_move_front)

declare move_level.simps [simp del]

text \<open>The outer loop walks the keys of the old map, which its body does not change.\<close>

fun move_levels :: "build \<Rightarrow> OrderSide \<Rightarrow> u64 list \<Rightarrow> MapOrderBook \<Rightarrow> MapOrderBook res" where
  "move_levels d s [] b = Inr b"
| "move_levels d s (p # ps) b = rbind (move_level d s p b) (\<lambda>b'. move_levels d s ps b')"

text \<open>
  \<open>std::swap\<close> of the member with the local variable: iterators keep pointing to their elements,
  which are now in the other map. The local variable is then destroyed.
\<close>

definition swap_tag :: "OrderSide \<Rightarrow> LevelMap \<Rightarrow> LevelMap" where
  "swap_tag s K =
     (if K = NewTrailingLevels then trailing_map s
      else if K = trailing_map s then NewTrailingLevels else K)"

definition swap_trailing :: "OrderSide \<Rightarrow> MapOrderBook \<Rightarrow> MapOrderBook" where
  "swap_trailing s b =
     set_levels NewTrailingLevels [] (set_levels (trailing_map s) (new_trailing_levels b)
       (b\<lparr>orders := map (\<lambda>(i, w). (i, w\<lparr>level_it := (swap_tag s (fst (level_it w)), snd (level_it w))\<rparr>))
            (orders b)\<rparr>))"

definition updateBidStopOrders :: "build \<Rightarrow> MapOrderBook \<Rightarrow> MapOrderBook res" where
  "updateBidStopOrders d b =
     (if trailing_ask_price b \<le> lastTradedPriceAsk b \<or> trailing_stop_bid_levels b = []
      then Inr (b\<lparr>trailing_ask_price := last_traded_price b\<rparr>)
      else rbind (move_levels d Bid (map fst (trailing_stop_bid_levels b)) b) (\<lambda>b'.
        let b'' = swap_trailing Bid b' in
        Inr (b''\<lparr>trailing_ask_price := last_traded_price b''\<rparr>)))"

definition updateAskStopOrders :: "build \<Rightarrow> MapOrderBook \<Rightarrow> MapOrderBook res" where
  "updateAskStopOrders d b =
     (if lastTradedPriceBid b \<le> trailing_bid_price b \<or> trailing_stop_ask_levels b = []
      then Inr (b\<lparr>trailing_bid_price := last_traded_price b\<rparr>)
      else rbind (move_levels d Ask (map fst (trailing_stop_ask_levels b)) b) (\<lambda>b'.
        let b'' = swap_trailing Ask b' in
        Inr (b''\<lparr>trailing_bid_price := last_traded_price b''\<rparr>)))"

section \<open>The activation of all stop orders\<close>

definition activation_round :: "build \<Rightarrow> MapOrderBook \<Rightarrow> (MapOrderBook \<times> bool) res" where
  "activation_round d b =
     rbind (activateBidStopOrders d b) (\<lambda>(b1, a1).
     rbind (updateAskStopOrders d b1) (\<lambda>b2.
     rbind (activateAskStopOrders d b2) (\<lambda>(b3, a2).
     rbind (updateBidStopOrders d b3) (\<lambda>b4.
     Inr (b4, a2 \<or> a1)))))"

partial_function (option) activate_rounds :: "build \<Rightarrow> MapOrderBook \<Rightarrow> MapOrderBook res option" where
  "activate_rounds d b =
     (case activation_round d b of
        Inl e \<Rightarrow> Some (Inl e)
      | Inr (b', activate) \<Rightarrow> if activate then activate_rounds d b' else Some (Inr b'))"

declare activate_rounds.simps [code]

definition activateStopOrders :: "build \<Rightarrow> MapOrderBook \<Rightarrow> MapOrderBook res" where
  "activateStopOrders d b = returns (activate_rounds d b)"

end
