(* ===== verification/Book_Ops.thy ===== *)
theory Book_Ops
  imports Book_Stops
begin

text \<open>
  The public operations of \<open>MapOrderBook\<close> and the validation that each of them ends with in a
  debug build (\<open>VALIDATE_ORDERBOOK\<close>), from \<open>src/matching/orderbook/map_orderbook.cpp\<close>.
\<close>

section \<open>Validation\<close>

definition validate_level_entry ::
  "MapOrderBook \<Rightarrow> LevelSide \<Rightarrow> (OrderType \<Rightarrow> bool) \<Rightarrow> u64 \<times> Level \<Rightarrow> bool" where
  "validate_level_entry b s types e \<longleftrightarrow>
     (let (p, l) = e in
      \<not> Level_empty l \<and> Level_getPrice l = p \<and> Level_getSide l = s \<and>
      list_all (\<lambda>i. case book_heap b i of None \<Rightarrow> False
                  | Some od \<Rightarrow> \<not> isFilled od \<and> types (getType od)) (Level_getOrders l))"

definition validateLimitOrders :: "MapOrderBook \<Rightarrow> bool" where
  "validateLimitOrders b \<longleftrightarrow>
     (let current_best_ask = (case om_begin (ask_levels b) of None \<Rightarrow> u64_max | Some (p, l) \<Rightarrow> p);
          current_best_bid = (case om_rbegin (bid_levels b) of None \<Rightarrow> 0 | Some (p, l) \<Rightarrow> p)
      in current_best_bid < current_best_ask \<and>
         list_all (validate_level_entry b LevelAsk (\<lambda>t. t = Limit)) (ask_levels b) \<and>
         list_all (validate_level_entry b LevelBid (\<lambda>t. t = Limit)) (bid_levels b))"

definition validateStopOrders :: "MapOrderBook \<Rightarrow> bool" where
  "validateStopOrders b \<longleftrightarrow>
     list_all (\<lambda>e. fst e < last_traded_price b \<and>
       validate_level_entry b LevelAsk (\<lambda>t. t = Stop \<or> t = StopLimit) e) (stop_ask_levels b) \<and>
     list_all (\<lambda>e. last_traded_price b < fst e \<and>
       validate_level_entry b LevelBid (\<lambda>t. t = Stop \<or> t = StopLimit) e) (stop_bid_levels b)"

definition validateTrailingStopOrders :: "MapOrderBook \<Rightarrow> bool" where
  "validateTrailingStopOrders b \<longleftrightarrow>
     list_all (\<lambda>e. fst e < last_traded_price b \<and>
       validate_level_entry b LevelAsk (\<lambda>t. t = TrailingStop \<or> t = TrailingStopLimit) e)
       (trailing_stop_ask_levels b) \<and>
     list_all (\<lambda>e. last_traded_price b < fst e \<and>
       validate_level_entry b LevelBid (\<lambda>t. t = TrailingStop \<or> t = TrailingStopLimit) e)
       (trailing_stop_bid_levels b)"

definition validateOrderBook :: "MapOrderBook \<Rightarrow> bool" where
  "validateOrderBook b \<longleftrightarrow>
     validateLimitOrders b \<and> validateStopOrders b \<and> validateTrailingStopOrders b"

text \<open>The common end of every public operation.\<close>

definition settle :: "build \<Rightarrow> MapOrderBook \<Rightarrow> MapOrderBook res" where
  "settle d b =
     rbind (activateStopOrders d b) (\<lambda>b'. check d (validateOrderBook b') b')"

section \<open>Operations\<close>

definition submit :: "build \<Rightarrow> MapOrderBook \<Rightarrow> Order \<Rightarrow> MapOrderBook res" where
  "submit d b od =
     (case getType od of
        Limit \<Rightarrow> addLimitOrder d b od
      | Market \<Rightarrow> addMarketOrder d b od
      | Stop \<Rightarrow> addStopOrder d b od
      | StopLimit \<Rightarrow> addStopOrder d b od
      | TrailingStop \<Rightarrow> addStopOrder d b od
      | TrailingStopLimit \<Rightarrow> addStopOrder d b od)"

definition addOrder :: "build \<Rightarrow> MapOrderBook \<Rightarrow> Order \<Rightarrow> MapOrderBook res" where
  "addOrder d b od = rbind (submit d (emit (OrderAdded od) b) od) (settle d)"

text \<open>
  The two overloads of \<open>executeOrder\<close> share everything but the price: the caller's, or the
  price of the order itself. The price is narrowed to 32 bits when it reaches the order.
\<close>

definition execute_resting ::
  "build \<Rightarrow> MapOrderBook \<Rightarrow> u64 \<Rightarrow> u64 \<Rightarrow> (Order \<Rightarrow> u64) \<Rightarrow> MapOrderBook res" where
  "execute_resting d b order_id qty price_of =
     rbind (find_order b order_id) (\<lambda>w.
     rbind (find_level b (level_it w)) (\<lambda>executing_level.
     let executing_order = w_order w;
         executing_quantity = min qty (getOpenQuantity executing_order);
         executing_price = price_of executing_order in
     rbind (execute d (ucast executing_price) executing_quantity executing_order) (\<lambda>executed.
     let b1 = (store_order order_id executed b)\<lparr>last_traded_price := executing_price\<rparr>;
         b2 = emit (ExecutedOrder executed) b1 in
     rbind (Level_reduceVolume d (book_heap b2) (getLastExecutedQuantity executed) executing_level)
       (\<lambda>l'.
     let b3 = store_level (level_it w) l' b2 in
     if isFilled executed then deleteOrder_notify d b3 order_id True else Inr b3))))"

definition executeOrder_at ::
  "build \<Rightarrow> MapOrderBook \<Rightarrow> u64 \<Rightarrow> u64 \<Rightarrow> u64 \<Rightarrow> MapOrderBook res" where
  "executeOrder_at d b order_id qty pr =
     rbind (execute_resting d b order_id qty (\<lambda>_. pr)) (settle d)"

definition executeOrder :: "build \<Rightarrow> MapOrderBook \<Rightarrow> u64 \<Rightarrow> u64 \<Rightarrow> MapOrderBook res" where
  "executeOrder d b order_id qty =
     rbind (execute_resting d b order_id qty getPrice) (settle d)"

definition cancel_resting :: "build \<Rightarrow> MapOrderBook \<Rightarrow> u64 \<Rightarrow> u64 \<Rightarrow> MapOrderBook res" where
  "cancel_resting d b order_id qty =
     rbind (find_order b order_id) (\<lambda>w.
     rbind (find_level b (level_it w)) (\<lambda>cancelling_level.
     let cancelling_order = w_order w;
         pre_cancellation_quantity = getOpenQuantity cancelling_order in
     rbind (setQuantity d qty cancelling_order) (\<lambda>cancelled.
     let b2 = emit (OrderUpdated cancelled) (store_order order_id cancelled b) in
     rbind (Level_reduceVolume d (book_heap b2)
              (pre_cancellation_quantity - getOpenQuantity cancelled) cancelling_level) (\<lambda>l'.
     let b3 = store_level (level_it w) l' b2 in
     if isFilled cancelled then deleteOrder_notify d b3 order_id True else Inr b3))))"

definition cancelOrder :: "build \<Rightarrow> MapOrderBook \<Rightarrow> u64 \<Rightarrow> u64 \<Rightarrow> MapOrderBook res" where
  "cancelOrder d b order_id qty = rbind (cancel_resting d b order_id qty) (settle d)"

definition deleteOrder :: "build \<Rightarrow> MapOrderBook \<Rightarrow> u64 \<Rightarrow> MapOrderBook res" where
  "deleteOrder d b order_id = rbind (deleteOrder_notify d b order_id True) (settle d)"

definition replaceOrder ::
  "build \<Rightarrow> MapOrderBook \<Rightarrow> u64 \<Rightarrow> u64 \<Rightarrow> u64 \<Rightarrow> MapOrderBook res" where
  "replaceOrder d b order_id new_order_id new_price =
     rbind (find_order b order_id) (\<lambda>w.
     rbind (setOrderID d new_order_id (w_order w)) (\<lambda>new_order.
     rbind (setPrice d new_price new_order) (\<lambda>new_order'.
     rbind (deleteOrder_notify d b order_id True) (\<lambda>b1.
     rbind (addOrder d b1 new_order') (settle d)))))"

end
