(* ===== verification/Book_Views.thy ===== *)
theory Book_Views
  imports Book_Ops
begin

text \<open>
  The well-formedness of the book's shared structure. The orders live in the hash map, the levels
  hold their IDs, and every order points back to its level; a view of the book is the two lookup
  functions, and the elementary changes (link, unlink, execute, create or drop an empty level,
  swap) each keep the views well formed. The operations are compositions of these changes.
\<close>

section \<open>Orders\<close>

definition limit_kind :: "OrderType \<Rightarrow> bool" where
  "limit_kind t \<longleftrightarrow> t = Limit \<or> t = StopLimit \<or> t = TrailingStopLimit"

definition trailing_kind :: "OrderType \<Rightarrow> bool" where
  "trailing_kind t \<longleftrightarrow> t = TrailingStop \<or> t = TrailingStopLimit"

definition stop_kind :: "OrderType \<Rightarrow> bool" where
  "stop_kind t \<longleftrightarrow> t = Stop \<or> t = StopLimit \<or> trailing_kind t"

text \<open>
  Quantities matter to a debug build only, through \<open>validateOrder\<close>: what was executed and what is
  open never exceed the quantity of the order.
\<close>

definition quantity_ok :: "build \<Rightarrow> Order \<Rightarrow> bool" where
  "quantity_ok d od \<longleftrightarrow> (d = Debug \<longrightarrow>
     0 < quantity od \<and> last_executed_quantity od \<le> quantity od \<and>
     unat (executed_quantity od) + unat (open_quantity od) \<le> unat (quantity od))"

definition order_ok :: "build \<Rightarrow> Order \<Rightarrow> bool" where
  "order_ok d od \<longleftrightarrow>
     0 < oid od \<and>
     (limit_kind (otype od) \<longrightarrow> 0 < price od \<and> (side od = Bid \<longrightarrow> price od < u64_max)) \<and>
     (\<not> limit_kind (otype od) \<longrightarrow> time_in_force od \<noteq> GTC) \<and>
     (trailing_kind (otype od) \<longrightarrow> 0 < trail_amount od) \<and>
     quantity_ok d od"

lemma order_ok_validate: "order_ok d od \<Longrightarrow> d = Debug \<Longrightarrow> validateOrder od"
  by (cases "otype od")
    (auto simp: order_ok_def validateOrder_def quantity_ok_def limit_kind_def trailing_kind_def
      word_le_nat_alt)

lemma check_validate_order [simp]: "order_ok d od \<Longrightarrow> check d (validateOrder od) x = Inr x"
  by (auto simp: check_def dest: order_ok_validate)

lemma quantity_ok_execute:
  assumes "quantity_ok d od" and "q \<le> open_quantity od"
  shows "quantity_ok d (od\<lparr>open_quantity := open_quantity od - q,
    executed_quantity := executed_quantity od + q, last_executed_price := p,
    last_executed_quantity := q\<rparr>)"
proof (cases d)
  case Debug
  let ?e = "executed_quantity od" and ?a = "open_quantity od" and ?n = "quantity od"
  have le: "unat ?e + unat ?a \<le> unat ?n" and "0 < ?n"
    using assms(1) Debug by (auto simp: quantity_ok_def)
  have q: "unat q \<le> unat ?a" using assms(2) by (simp add: word_le_nat_alt)
  have "unat (?e + q) = unat ?e + unat q"
    using le q unat_u64_less [of ?n] by (intro unat_add_u64) linarith
  moreover have "unat (?a - q) = unat ?a - unat q" using assms(2) by (rule unat_sub_le)
  ultimately show ?thesis
    using Debug le q \<open>0 < ?n\<close> by (simp add: quantity_ok_def word_le_nat_alt)
qed (simp add: quantity_ok_def)

text \<open>What \<open>execute\<close> does to an order; the price passes through 32 bits.\<close>

definition executed :: "u64 \<Rightarrow> u64 \<Rightarrow> Order \<Rightarrow> Order" where
  "executed p q od = od\<lparr>open_quantity := open_quantity od - q,
     executed_quantity := executed_quantity od + q,
     last_executed_price := ucast (ucast p :: u32),
     last_executed_quantity := q\<rparr>"

lemma executed_simps [simp]:
  "otype (executed p q od) = otype od" "side (executed p q od) = side od"
  "time_in_force (executed p q od) = time_in_force od" "symbol_id (executed p q od) = symbol_id od"
  "price (executed p q od) = price od" "stop_price (executed p q od) = stop_price od"
  "trail_amount (executed p q od) = trail_amount od" "oid (executed p q od) = oid od"
  "quantity (executed p q od) = quantity od"
  "open_quantity (executed p q od) = open_quantity od - q"
  "last_executed_quantity (executed p q od) = q"
  by (simp_all add: executed_def)

lemma order_ok_executed:
  "order_ok d od \<Longrightarrow> q \<le> open_quantity od \<Longrightarrow> order_ok d (executed p q od)"
  using quantity_ok_execute [of d od q "ucast (ucast p :: u32)"]
  by (simp add: order_ok_def executed_def)

lemma execute_ok:
  "order_ok d od \<Longrightarrow> q \<le> open_quantity od \<Longrightarrow> execute d (ucast p) q od = Inr (executed p q od)"
  using order_ok_executed [of d od q p] by (simp add: execute_def executed_def Let_def)

text \<open>The fields that matching never changes.\<close>

definition same_terms :: "Order \<Rightarrow> Order \<Rightarrow> bool" where
  "same_terms od od' \<longleftrightarrow> otype od' = otype od \<and> side od' = side od \<and>
     time_in_force od' = time_in_force od \<and> symbol_id od' = symbol_id od \<and> price od' = price od \<and>
     stop_price od' = stop_price od \<and> trail_amount od' = trail_amount od \<and> oid od' = oid od \<and>
     quantity od' = quantity od"

lemma same_terms_refl [simp]: "same_terms od od"
  by (simp add: same_terms_def)

lemma same_terms_trans: "same_terms a b \<Longrightarrow> same_terms b c \<Longrightarrow> same_terms a c"
  by (simp add: same_terms_def)

lemma same_terms_executed [simp]: "same_terms od (executed p q od)"
  by (simp add: same_terms_def)

section \<open>Views\<close>

type_synonym order_view = "u64 \<Rightarrow> OrderWrapper option"
type_synonym level_view = "level_iterator \<Rightarrow> Level option"

definition order_view :: "MapOrderBook \<Rightarrow> order_view" where
  "order_view b = (\<lambda>i. hm_find i (orders b))"

definition level_view :: "MapOrderBook \<Rightarrow> level_view" where
  "level_view b = (\<lambda>it. om_find (snd it) (levels (fst it) b))"

definition view_heap :: "order_view \<Rightarrow> heap" where
  "view_heap ov = (\<lambda>i. map_option w_order (ov i))"

lemma book_heap_view: "book_heap b = view_heap (order_view b)"
  by (simp add: book_heap_def view_heap_def order_view_def)

text \<open>The map an order belongs to; in the middle of a move, the trailing orders have two.\<close>

definition fits :: "LevelMap \<Rightarrow> Order \<Rightarrow> bool" where
  "fits K od \<longleftrightarrow> erasing_map od = Some K \<or> K = NewTrailingLevels \<and> trailing_kind (otype od)"

definition map_side_ok :: "LevelMap \<Rightarrow> LevelSide \<Rightarrow> bool" where
  "map_side_ok K s \<longleftrightarrow>
     (K = AskLevels \<or> K = StopAskLevels \<or> K = TrailingStopAskLevels \<longrightarrow> s = LevelAsk) \<and>
     (K = BidLevels \<or> K = StopBidLevels \<or> K = TrailingStopBidLevels \<longrightarrow> s = LevelBid)"

definition wrapper_ok :: "build \<Rightarrow> u32 \<Rightarrow> u64 \<Rightarrow> OrderWrapper \<Rightarrow> bool" where
  "wrapper_ok d sid i w \<longleftrightarrow>
     oid (w_order w) = i \<and> symbol_id (w_order w) = sid \<and> order_ok d (w_order w) \<and>
     fits (fst (level_it w)) (w_order w) \<and> level_price_of (w_order w) = snd (level_it w)"

lemma wrapper_ok_same_terms:
  assumes "wrapper_ok d sid i w" and "same_terms (w_order w) od" and "order_ok d od"
  shows "wrapper_ok d sid i (w\<lparr>w_order := od\<rparr>)"
proof -
  have "erasing_map od = erasing_map (w_order w)" "level_price_of od = level_price_of (w_order w)"
    using assms(2) by (simp_all add: same_terms_def erasing_map_def level_price_of_def)
  with assms show ?thesis by (simp add: wrapper_ok_def fits_def same_terms_def)
qed

definition orders_ok :: "build \<Rightarrow> u32 \<Rightarrow> order_view \<Rightarrow> level_view \<Rightarrow> bool" where
  "orders_ok d sid ov lv \<longleftrightarrow>
     (\<forall>i w. ov i = Some w \<longrightarrow> wrapper_ok d sid i w \<and>
        (\<exists>l. lv (level_it w) = Some l \<and> i \<in> set (lv_orders l)))"

definition level_ok :: "u32 \<Rightarrow> order_view \<Rightarrow> level_iterator \<Rightarrow> Level \<Rightarrow> bool" where
  "level_ok sid ov it l \<longleftrightarrow>
     lv_price l = snd it \<and> lv_symbol_id l = sid \<and> map_side_ok (fst it) (lv_side l) \<and>
     distinct (lv_orders l) \<and>
     (\<forall>i \<in> set (lv_orders l). \<exists>w. ov i = Some w \<and> level_it w = it \<and>
        lv_side l = level_side (side (w_order w))) \<and>
     lv_volume l = actual_volume (view_heap ov) l"

definition views_ok :: "build \<Rightarrow> u32 \<Rightarrow> order_view \<Rightarrow> level_view \<Rightarrow> bool" where
  "views_ok d sid ov lv \<longleftrightarrow> orders_ok d sid ov lv \<and> (\<forall>it l. lv it = Some l \<longrightarrow> level_ok sid ov it l)"

lemma views_wrapper: "views_ok d sid ov lv \<Longrightarrow> ov i = Some w \<Longrightarrow> wrapper_ok d sid i w"
  by (simp add: views_ok_def orders_ok_def)

lemma views_level: "views_ok d sid ov lv \<Longrightarrow> lv it = Some l \<Longrightarrow> level_ok sid ov it l"
  unfolding views_ok_def by blast

lemma views_home:
  assumes "views_ok d sid ov lv" and "ov i = Some w"
  obtains l where "lv (level_it w) = Some l" and "i \<in> set (lv_orders l)"
  using assms unfolding views_ok_def orders_ok_def by blast

lemma views_member:
  assumes "views_ok d sid ov lv" and "lv it = Some l" and "i \<in> set (lv_orders l)"
  obtains w where "ov i = Some w" and "level_it w = it"
    and "lv_side l = level_side (side (w_order w))"
  using assms unfolding views_ok_def level_ok_def by blast

lemma views_not_member:
  assumes "views_ok d sid ov lv" and "ov i = Some w" and "lv it = Some l" and "it \<noteq> level_it w"
  shows "i \<notin> set (lv_orders l)"
proof
  assume "i \<in> set (lv_orders l)"
  with assms(1,3) obtain w' where "ov i = Some w'" and "level_it w' = it" by (rule views_member)
  with assms(2,4) show False by simp
qed

lemma views_absent:
  assumes "views_ok d sid ov lv" and "ov i = None" and "lv it = Some l"
  shows "i \<notin> set (lv_orders l)"
  using assms by (auto elim: views_member)

lemma actual_volume_cong:
  "(\<And>i. i \<in> set (lv_orders l) \<Longrightarrow> h i = h' i) \<Longrightarrow> actual_volume h l = actual_volume h' l"
  by (auto simp: actual_volume_def open_of_def intro!: sum_list_map_cong)

lemma level_ok_cong:
  assumes "level_ok sid ov it l" and "\<And>i. i \<in> set (lv_orders l) \<Longrightarrow> ov' i = ov i"
  shows "level_ok sid ov' it l"
proof -
  have "actual_volume (view_heap ov') l = actual_volume (view_heap ov) l"
    using assms(2) by (intro actual_volume_cong) (simp add: view_heap_def)
  with assms show ?thesis by (auto simp: level_ok_def)
qed

text \<open>A well-formed level passes the validation of \<open>Level\<close>.\<close>

lemma views_validateLevel:
  assumes V: "views_ok d sid ov lv" and l: "lv it = Some l"
  shows "validateLevel (view_heap ov) l"
proof -
  have ok: "level_ok sid ov it l" using V l by (rule views_level)
  have "valid_in_level l (w_order w)" if w: "ov i = Some w" "level_it w = it"
    "lv_side l = level_side (side (w_order w))" for i w
  proof -
    have "wrapper_ok d sid i w" using V w(1) by (rule views_wrapper)
    with w ok show ?thesis
      by (cases "side (w_order w)")
        (auto simp: valid_in_level_def wrapper_ok_def level_ok_def fits_def erasing_map_def
          trailing_kind_def level_side_def)
  qed
  with V l ok show ?thesis
    by (fastforce simp: validateLevel_def list_all_iff view_heap_def level_ok_def)
qed

lemma validateLevel_cong:
  assumes "\<And>i. i \<in> set (lv_orders l) \<Longrightarrow> h i = h' i"
  shows "validateLevel h l = validateLevel h' l"
  using assms actual_volume_cong [of l h h'] by (auto simp: validateLevel_def list_all_iff)

section \<open>The elementary changes\<close>

definition unlink_level :: "u64 \<Rightarrow> u64 \<Rightarrow> Level \<Rightarrow> Level" where
  "unlink_level i q l = l\<lparr>lv_volume := lv_volume l - q, lv_orders := remove1 i (lv_orders l)\<rparr>"

definition link_level :: "u64 \<Rightarrow> u64 \<Rightarrow> Level \<Rightarrow> Level" where
  "link_level i q l = l\<lparr>lv_volume := lv_volume l + q, lv_orders := lv_orders l @ [i]\<rparr>"

lemma views_unlink:
  assumes V: "views_ok d sid ov lv" and w: "ov i = Some w" and l: "lv (level_it w) = Some l"
  shows "views_ok d sid (ov(i := None)) (lv(level_it w \<mapsto> unlink_level i (open_quantity (w_order w)) l))"
    (is "views_ok d sid ?ov ?lv")
proof -
  let ?l = "unlink_level i (open_quantity (w_order w)) l"
  have ok: "level_ok sid ov (level_it w) l" using V l by (rule views_level)
  then have dist: "distinct (lv_orders l)" by (simp add: level_ok_def)
  have mem: "i \<in> set (lv_orders l)" using views_home [OF V w] l by auto
  have "orders_ok d sid ?ov ?lv"
    unfolding orders_ok_def
  proof (intro allI impI)
    fix j v assume "?ov j = Some v"
    then have j: "j \<noteq> i" "ov j = Some v" by (auto split: if_splits)
    obtain l' where l': "lv (level_it v) = Some l'" "j \<in> set (lv_orders l')"
      using V j(2) by (rule views_home)
    have "j \<in> set (remove1 i (lv_orders l))" if "level_it v = level_it w"
      using that l l' j(1) by simp
    with l' V j show "wrapper_ok d sid j v \<and> (\<exists>m. ?lv (level_it v) = Some m \<and> j \<in> set (lv_orders m))"
      by (auto simp: unlink_level_def dest: views_wrapper)
  qed
  moreover have "level_ok sid ?ov it m" if m: "?lv it = Some m" for it m
  proof (cases "it = level_it w")
    case True
    with m have m: "m = ?l" by simp
    have members: "i \<notin> set (lv_orders m)" "set (lv_orders m) \<subseteq> set (lv_orders l)"
      using m dist by (auto simp: unlink_level_def)
    have "actual_volume (view_heap ?ov) m = actual_volume (view_heap ov) m"
      using members by (intro actual_volume_cong) (auto simp: view_heap_def)
    also have "\<dots> = actual_volume (view_heap ov) l - open_quantity (w_order w)"
      using mem w by (simp add: m unlink_level_def actual_volume_def sum_list_remove1_word open_of_def
          view_heap_def)
    finally show ?thesis
      using True ok m members dist by (auto simp: level_ok_def unlink_level_def)
  next
    case False
    with m have "lv it = Some m" by simp
    then have "level_ok sid ov it m" and "i \<notin> set (lv_orders m)"
      using V w False views_level views_not_member by blast+
    then show ?thesis by (elim level_ok_cong) auto
  qed
  ultimately show ?thesis by (simp add: views_ok_def)
qed

lemma views_drop_empty:
  assumes V: "views_ok d sid ov lv" and l: "lv it = Some l" and e: "lv_orders l = []"
  shows "views_ok d sid ov (lv(it := None))"
proof -
  have "lv (level_it w) = Some m \<Longrightarrow> i \<in> set (lv_orders m) \<Longrightarrow> level_it w \<noteq> it" for i w m
    using l e by auto
  with V show ?thesis unfolding views_ok_def orders_ok_def by (auto, fastforce)
qed

lemma views_new_level:
  assumes V: "views_ok d sid ov lv" and n: "lv (K, p) = None" and s: "map_side_ok K s"
  shows "views_ok d sid ov (lv((K, p) \<mapsto> newLevel p s sid))"
proof -
  have "level_ok sid ov (K, p) (newLevel p s sid)"
    using s by (simp add: level_ok_def newLevel_def actual_volume_def)
  moreover have "orders_ok d sid ov (lv((K, p) \<mapsto> newLevel p s sid))"
    unfolding orders_ok_def
  proof (intro allI impI)
    fix i w assume w: "ov i = Some w"
    with V obtain l where "lv (level_it w) = Some l" "i \<in> set (lv_orders l)" by (rule views_home)
    with V w n show "wrapper_ok d sid i w \<and>
        (\<exists>l. (lv((K, p) \<mapsto> newLevel p s sid)) (level_it w) = Some l \<and> i \<in> set (lv_orders l))"
      by (auto dest: views_wrapper)
  qed
  ultimately show ?thesis using V by (auto simp: views_ok_def)
qed

lemma views_link:
  assumes V: "views_ok d sid ov lv" and n: "ov i = None" and l: "lv it = Some l"
    and w: "wrapper_ok d sid i w" "level_it w = it"
    and s: "lv_side l = level_side (side (w_order w))"
  shows "views_ok d sid (ov(i \<mapsto> w)) (lv(it \<mapsto> link_level i (open_quantity (w_order w)) l))"
    (is "views_ok d sid ?ov ?lv")
proof -
  let ?l = "link_level i (open_quantity (w_order w)) l"
  have ok: "level_ok sid ov it l" using V l by (rule views_level)
  have abs: "i \<notin> set (lv_orders m)" if "lv it' = Some m" for it' m
    using V n that by (rule views_absent)
  have "orders_ok d sid ?ov ?lv"
    unfolding orders_ok_def
  proof (intro allI impI)
    fix j v assume v: "?ov j = Some v"
    show "wrapper_ok d sid j v \<and> (\<exists>m. ?lv (level_it v) = Some m \<and> j \<in> set (lv_orders m))"
    proof (cases "j = i")
      case True
      with v w show ?thesis by (auto simp: link_level_def)
    next
      case False
      with v have v: "ov j = Some v" by simp
      with V obtain m where "lv (level_it v) = Some m" "j \<in> set (lv_orders m)" by (rule views_home)
      with V v l show ?thesis by (auto simp: link_level_def dest: views_wrapper)
    qed
  qed
  moreover have "level_ok sid ?ov it' m" if m: "?lv it' = Some m" for it' m
  proof (cases "it' = it")
    case True
    have "actual_volume (view_heap ?ov) l = actual_volume (view_heap ov) l"
      using abs [OF l] by (intro actual_volume_cong) (auto simp: view_heap_def)
    then have "actual_volume (view_heap ?ov) ?l =
        actual_volume (view_heap ov) l + open_quantity (w_order w)"
      by (simp add: link_level_def actual_volume_def open_of_def view_heap_def)
    with True m ok abs [OF l] w s show ?thesis by (auto simp: level_ok_def link_level_def)
  next
    case False
    with m have m: "lv it' = Some m" by simp
    show ?thesis using views_level [OF V m] abs [OF m] by (elim level_ok_cong) auto
  qed
  ultimately show ?thesis by (simp add: views_ok_def)
qed

text \<open>Executing (or cancelling) a part of a resting order, with the volume of its level.\<close>

lemma views_execute:
  assumes V: "views_ok d sid ov lv" and w: "ov i = Some w" and l: "lv (level_it w) = Some l"
    and od: "wrapper_ok d sid i (w\<lparr>w_order := od\<rparr>)" "side od = side (w_order w)"
    and q: "open_quantity od = open_quantity (w_order w) - q"
  shows "views_ok d sid (ov(i \<mapsto> w\<lparr>w_order := od\<rparr>)) (lv(level_it w \<mapsto> l\<lparr>lv_volume := lv_volume l - q\<rparr>))"
    (is "views_ok d sid ?ov ?lv")
proof -
  have ok: "level_ok sid ov (level_it w) l" using V l by (rule views_level)
  have mem: "i \<in> set (lv_orders l)" using views_home [OF V w] l by auto
  have "orders_ok d sid ?ov ?lv"
    unfolding orders_ok_def
  proof (intro allI impI)
    fix j v assume v: "?ov j = Some v"
    show "wrapper_ok d sid j v \<and> (\<exists>m. ?lv (level_it v) = Some m \<and> j \<in> set (lv_orders m))"
    proof (cases "j = i")
      case True
      with v od mem show ?thesis by auto
    next
      case False
      with v have v: "ov j = Some v" by simp
      with V obtain m where "lv (level_it v) = Some m" "j \<in> set (lv_orders m)" by (rule views_home)
      with V v l show ?thesis by (auto dest: views_wrapper)
    qed
  qed
  moreover have "level_ok sid ?ov it m" if m: "?lv it = Some m" for it m
  proof (cases "it = level_it w")
    case True
    have "open_of (view_heap ?ov) = (open_of (view_heap ov))(i := open_quantity od)"
      by (auto simp: open_of_def view_heap_def)
    then have "actual_volume (view_heap ?ov) l =
        actual_volume (view_heap ov) l - open_quantity (w_order w) + open_quantity od"
      using mem ok w
      by (simp only: actual_volume_def) (subst sum_list_fun_upd, auto simp: level_ok_def open_of_def
          view_heap_def)
    then have "actual_volume (view_heap ?ov) (l\<lparr>lv_volume := lv_volume l - q\<rparr>) = lv_volume l - q"
      using ok q by (simp add: actual_volume_def level_ok_def)
    moreover have "lv_side l = level_side (side (w_order w))"
      using ok mem w unfolding level_ok_def by fastforce
    ultimately show ?thesis using True m ok od w by (auto simp: level_ok_def)
  next
    case False
    with m have m: "lv it = Some m" by simp
    then have "i \<notin> set (lv_orders m)" using V w False views_not_member by blast
    with views_level [OF V m] show ?thesis by (elim level_ok_cong) auto
  qed
  ultimately show ?thesis by (simp add: views_ok_def)
qed

end
