(* ===== verification/Book_Wf.thy ===== *)
theory Book_Wf
  imports Book_Views
begin

text \<open>
  Well-formed books, and the building blocks of the operations on them: deleting an order,
  executing a part of a resting order, inserting an order. Each succeeds in both builds (no
  assertion fails, nothing is undefined) and keeps the book well formed.
\<close>

section \<open>Views of an updated book\<close>

lemma order_view_simps [simp]:
  "order_view (set_levels K m b) = order_view b"
  "order_view (store_level it l b) = order_view b"
  "order_view (erase_level it b) = order_view b"
  "order_view (emit e b) = order_view b"
  "order_view (b\<lparr>last_traded_price := x\<rparr>) = order_view b"
  "order_view (b\<lparr>trailing_bid_price := x\<rparr>) = order_view b"
  "order_view (b\<lparr>trailing_ask_price := x\<rparr>) = order_view b"
  "order_view (b\<lparr>orders := hm_erase i (orders b)\<rparr>) = (order_view b)(i := None)"
  by (auto simp: order_view_def hm.find_erase)

lemma order_view_store_order:
  "order_view b i = Some w \<Longrightarrow>
    order_view (store_order i od b) = (order_view b)(i \<mapsto> w\<lparr>w_order := od\<rparr>)"
  by (auto simp: order_view_def hm_find_store_order)

lemma level_view_simps [simp]:
  "level_view (emit e b) = level_view b"
  "level_view (store_order i od b) = level_view b"
  "level_view (b\<lparr>last_traded_price := x\<rparr>) = level_view b"
  "level_view (b\<lparr>trailing_bid_price := x\<rparr>) = level_view b"
  "level_view (b\<lparr>trailing_ask_price := x\<rparr>) = level_view b"
  "level_view (b\<lparr>orders := y\<rparr>) = level_view b"
  "level_view (erase_level it b) = (level_view b)(it := None)"
  by (auto simp: level_view_def erase_level_def om.find_erase fun_eq_iff prod_eq_iff)

lemma level_view_store_level:
  "level_view b it = Some l0 \<Longrightarrow> level_view (store_level it l b) = (level_view b)(it \<mapsto> l)"
  by (auto simp: level_view_def store_level_def om.find_store fun_eq_iff prod_eq_iff)

lemma find_level_view: "om_find (snd it) (levels (fst it) b) = level_view b it"
  by (simp add: level_view_def)

lemma find_order_view: "hm_find i (orders b) = order_view b i"
  by (simp add: order_view_def)

lemma find_order_eq: "find_order b i = deref (order_view b i)"
  by (simp add: find_order_def find_order_view)

lemma find_level_eq: "find_level b it = deref (level_view b it)"
  by (simp add: find_level_def find_level_view)

lemma hasOrder_eq: "hasOrder b i \<longleftrightarrow> order_view b i \<noteq> None"
  by (simp add: hasOrder_def find_order_view)

section \<open>Well-formed books\<close>

definition total_open :: "MapOrderBook \<Rightarrow> nat" where
  "total_open b = hm_total (\<lambda>w. unat (open_quantity (w_order w))) (orders b)"

definition wf_book :: "build \<Rightarrow> MapOrderBook \<Rightarrow> bool" where
  "wf_book d b \<longleftrightarrow>
     hm_inv (orders b) \<and> (\<forall>K. om_inv (levels K b)) \<and>
     views_ok d (book_symbol_id b) (order_view b) (level_view b) \<and>
     total_open b < 18446744073709551616"

lemma wf_book_views: "wf_book d b \<Longrightarrow> views_ok d (book_symbol_id b) (order_view b) (level_view b)"
  by (simp add: wf_book_def)

lemma wf_book_om: "wf_book d b \<Longrightarrow> om_inv (levels K b)"
  by (simp add: wf_book_def)

lemma total_open_simps [simp]:
  "total_open (set_levels K m b) = total_open b"
  "total_open (store_level it l b) = total_open b"
  "total_open (erase_level it b) = total_open b"
  "total_open (emit e b) = total_open b"
  "total_open (b\<lparr>last_traded_price := x\<rparr>) = total_open b"
  "total_open (b\<lparr>trailing_bid_price := x\<rparr>) = total_open b"
  "total_open (b\<lparr>trailing_ask_price := x\<rparr>) = total_open b"
  by (simp_all add: total_open_def)

lemma wf_book_frame [simp]:
  "wf_book d (emit e b) \<longleftrightarrow> wf_book d b"
  "wf_book d (b\<lparr>last_traded_price := x\<rparr>) \<longleftrightarrow> wf_book d b"
  "wf_book d (b\<lparr>trailing_bid_price := x\<rparr>) \<longleftrightarrow> wf_book d b"
  "wf_book d (b\<lparr>trailing_ask_price := x\<rparr>) \<longleftrightarrow> wf_book d b"
  by (simp_all add: wf_book_def)

lemma om_inv_store_level [simp]: "\<forall>K. om_inv (levels K b) \<Longrightarrow> om_inv (levels K (store_level it l b))"
  by (simp add: store_level_def om.inv_store)

lemma om_inv_erase_level [simp]: "\<forall>K. om_inv (levels K b) \<Longrightarrow> om_inv (levels K (erase_level it b))"
  by (simp add: erase_level_def om.inv_erase)

text \<open>No level overflows: its volume, read as a natural number, is a part of the total.\<close>

lemma unat_volume:
  assumes wf: "wf_book d b" and l: "level_view b it = Some l"
  shows "unat (lv_volume l) = sum_list (map (\<lambda>i. unat (open_of (book_heap b) i)) (lv_orders l))"
    and "sum_list (map (\<lambda>i. unat (open_of (book_heap b) i)) (lv_orders l)) \<le> total_open b"
proof -
  let ?s = "sum_list (map (\<lambda>i. unat (open_of (book_heap b) i)) (lv_orders l))"
  have ok: "level_ok (book_symbol_id b) (order_view b) it l"
    using wf_book_views [OF wf] l by (rule views_level)
  have "?s = sum_list (map (\<lambda>k. case hm_find k (orders b) of None \<Rightarrow> 0
      | Some w \<Rightarrow> unat (open_quantity (w_order w))) (lv_orders l))"
    by (intro sum_list_map_cong) (auto simp: open_of_def book_heap_def split: option.split)
  also have "\<dots> \<le> total_open b"
    unfolding total_open_def using wf ok
    by (intro hm.sum_le_total) (auto simp: wf_book_def level_ok_def order_view_def)
  finally show le: "?s \<le> total_open b" .
  have "lv_volume l = sum_list (map (open_of (book_heap b)) (lv_orders l))"
    using ok by (simp add: level_ok_def actual_volume_def book_heap_view)
  then show "unat (lv_volume l) = ?s"
    using le wf by (simp add: unat_sum_list wf_book_def)
qed

lemma open_le_volume:
  assumes wf: "wf_book d b" and w: "order_view b i = Some w"
    and l: "level_view b (level_it w) = Some l"
  shows "open_quantity (w_order w) \<le> lv_volume l"
proof -
  have mem: "i \<in> set (lv_orders l)"
    using views_home [OF wf_book_views [OF wf] w] l by auto
  have "unat (open_quantity (w_order w)) = unat (open_of (book_heap b) i)"
    using w by (simp add: open_of_def book_heap_view view_heap_def)
  also have "\<dots> \<le> unat (lv_volume l)"
    unfolding unat_volume(1) [OF wf l] using mem by (rule member_le_sum_list_nat)
  finally show ?thesis by (simp add: word_le_nat_alt)
qed

lemma total_open_erase:
  "wf_book d b \<Longrightarrow> order_view b i = Some w \<Longrightarrow>
    total_open b = unat (open_quantity (w_order w)) + total_open (b\<lparr>orders := hm_erase i (orders b)\<rparr>)"
  by (auto simp: total_open_def wf_book_def order_view_def intro: hm.total_erase)

section \<open>Deleting an order\<close>

lemma Level_deleteOrder_ok:
  assumes wf: "wf_book d b" and w: "order_view b i = Some w"
    and l: "level_view b (level_it w) = Some l"
  shows "Level_deleteOrder d (book_heap b) (w_order w) l
    = Inr (unlink_level i (open_quantity (w_order w)) l)"
proof -
  let ?l = "unlink_level i (open_quantity (w_order w)) l"
  note V = wf_book_views [OF wf]
  have id: "oid (w_order w) = i" using views_wrapper [OF V w] by (simp add: wrapper_ok_def)
  have mem: "i \<in> set (lv_orders l)" using views_home [OF V w] l by auto
  have dist: "distinct (lv_orders l)" using views_level [OF V l] by (simp add: level_ok_def)
  have "validateLevel (view_heap ((order_view b)(i := None))) ?l"
    by (rule views_validateLevel [OF views_unlink [OF V w l], of "level_it w"]) simp
  then have "validateLevel (book_heap b) ?l"
    using dist by (subst validateLevel_cong [where h' = "view_heap ((order_view b)(i := None))"])
      (auto simp: book_heap_view view_heap_def unlink_level_def)
  with mem id show ?thesis by (auto simp: Level_deleteOrder_eq_Inr unlink_level_def)
qed

lemma erase_empty_level_ok:
  assumes "wrapper_ok d sid i w" and "fst (level_it w) \<noteq> NewTrailingLevels"
  shows "erase_empty_level d (w_order w) (level_it w) b = Inr (erase_level (level_it w) b)"
  using assms by (auto simp: erase_empty_level_def wrapper_ok_def fits_def)

definition level_after_unlink :: "u64 \<Rightarrow> u64 \<Rightarrow> Level \<Rightarrow> Level option" where
  "level_after_unlink i q l =
     (if lv_orders (unlink_level i q l) = [] then None else Some (unlink_level i q l))"

lemma deleteOrder_notify_ok:
  assumes wf: "wf_book d b" and w: "order_view b i = Some w"
    and n: "fst (level_it w) \<noteq> NewTrailingLevels"
  obtains l b' where "level_view b (level_it w) = Some l"
    and "deleteOrder_notify d b i note = Inr b'" and "wf_book d b'"
    and "order_view b' = (order_view b)(i := None)"
    and "level_view b' = (level_view b)
      (level_it w := level_after_unlink i (open_quantity (w_order w)) l)"
    and "orders b' = hm_erase i (orders b)"
    and "total_open b = unat (open_quantity (w_order w)) + total_open b'"
    and "last_traded_price b' = last_traded_price b"
    and "trailing_bid_price b' = trailing_bid_price b"
    and "trailing_ask_price b' = trailing_ask_price b"
    and "book_symbol_id b' = book_symbol_id b"
    and "events b' = events b @ (if note then [OrderDeleted (w_order w)] else [])"
proof -
  note V = wf_book_views [OF wf]
  obtain l where l: "level_view b (level_it w) = Some l" using V w by (rule views_home)
  let ?q = "open_quantity (w_order w)" and ?it = "level_it w"
  let ?l = "unlink_level i ?q l"
  let ?b1 = "if note then emit (OrderDeleted (w_order w)) b else b"
  let ?b2 = "store_level ?it ?l ?b1"
  let ?b3 = "if lv_orders ?l = [] then erase_level ?it ?b2 else ?b2"
  let ?b = "?b3\<lparr>orders := hm_erase i (orders ?b3)\<rparr>"
  have heap: "book_heap ?b1 = book_heap b" by (simp add: book_heap_def)
  have w1: "order_view ?b1 i = Some w" "level_view ?b1 ?it = Some l" using w l by auto
  have run: "deleteOrder_notify d b i note = Inr ?b"
    using Level_deleteOrder_ok [OF wf w l] erase_empty_level_ok [OF views_wrapper [OF V w] n] w w1 heap
    by (simp add: deleteOrder_notify_def find_order_eq find_level_eq Let_def)
  have lv2: "level_view ?b2 = (level_view b)(?it \<mapsto> ?l)"
    using level_view_store_level [OF w1(2)] by simp
  have lv: "level_view ?b = (level_view b)(?it := level_after_unlink i ?q l)"
    using lv2 by (auto simp: level_after_unlink_def)
  have ov: "order_view ?b = (order_view b)(i := None)" by auto
  have "views_ok d (book_symbol_id b) (order_view ?b) (level_view ?b)"
    unfolding lv ov
  proof (cases "lv_orders ?l = []")
    case True
    have "views_ok d (book_symbol_id b) ((order_view b)(i := None))
        (((level_view b)(?it \<mapsto> ?l))(?it := None))"
      by (rule views_drop_empty [OF views_unlink [OF V w l]]) (auto simp: True)
    then show "views_ok d (book_symbol_id b) ((order_view b)(i := None))
        ((level_view b)(?it := level_after_unlink i ?q l))"
      by (simp add: level_after_unlink_def True)
  next
    case False
    then show "views_ok d (book_symbol_id b) ((order_view b)(i := None))
        ((level_view b)(?it := level_after_unlink i ?q l))"
      using views_unlink [OF V w l] by (simp add: level_after_unlink_def)
  qed
  moreover have tot: "total_open b = unat ?q + total_open ?b"
    using total_open_erase [OF wf w] by (auto simp: total_open_def)
  moreover have "hm_inv (orders ?b)" "\<forall>K. om_inv (levels K ?b)"
    using wf by (auto simp: wf_book_def hm.inv_erase)
  ultimately have "wf_book d ?b" using wf by (auto simp: wf_book_def)
  with l run lv ov tot show ?thesis by (intro that [of l ?b]) auto
qed

section \<open>Executing a part of a resting order\<close>

lemma reduceVolume_ok:
  assumes wf: "wf_book d b" and w: "order_view b i = Some w"
    and l: "level_view b (level_it w) = Some l"
    and od: "wrapper_ok d (book_symbol_id b) i (w\<lparr>w_order := od\<rparr>)" "side od = side (w_order w)"
    and q: "open_quantity od = open_quantity (w_order w) - q" "q \<le> open_quantity (w_order w)"
  shows "Level_reduceVolume d' (book_heap (store_order i od b)) q l
      = Inr (l\<lparr>lv_volume := lv_volume l - q\<rparr>)"
    and "wf_book d (store_level (level_it w) (l\<lparr>lv_volume := lv_volume l - q\<rparr>) (store_order i od b))"
proof -
  let ?l = "l\<lparr>lv_volume := lv_volume l - q\<rparr>"
  let ?b = "store_order i od b"
  note V = wf_book_views [OF wf]
  have ov: "order_view ?b = (order_view b)(i \<mapsto> w\<lparr>w_order := od\<rparr>)"
    using w by (rule order_view_store_order)
  have lv: "level_view (store_level (level_it w) ?l ?b) = (level_view b)(level_it w \<mapsto> ?l)"
    using level_view_store_level [of ?b "level_it w" l] l by simp
  have V': "views_ok d (book_symbol_id b) (order_view ?b)
      (level_view (store_level (level_it w) ?l ?b))"
    unfolding ov lv by (rule views_execute [OF V w l od q(1)])
  have "validateLevel (book_heap ?b) ?l"
    unfolding book_heap_view by (rule views_validateLevel [OF V', of "level_it w"]) (simp add: lv)
  moreover have "q \<le> lv_volume l" using open_le_volume [OF wf w l] q(2) by simp
  ultimately show "Level_reduceVolume d' (book_heap ?b) q l = Inr ?l"
    by (simp add: Level_reduceVolume_eq_Inr)
  have hw: "hm_find i (orders b) = Some w" using w by (simp add: order_view_def)
  then have ords: "orders ?b = hm_store i (w\<lparr>w_order := od\<rparr>) (orders b)"
    by (simp add: store_order_def)
  have "total_open ?b \<le> total_open b"
    unfolding total_open_def ords using wf hw q
    by (intro hm.store_total_le) (auto simp: wf_book_def unat_sub_le)
  then show "wf_book d (store_level (level_it w) ?l ?b)"
    using wf V' ords by (auto simp: wf_book_def hm.inv_store)
qed

lemma total_open_store_order:
  assumes wf: "wf_book d b" and w: "order_view b i = Some w"
    and q: "open_quantity od = open_quantity (w_order w) - q" "q \<le> open_quantity (w_order w)"
  shows "total_open b = total_open (store_order i od b) + unat q"
proof -
  have hw: "hm_find i (orders b) = Some w" using w by (simp add: order_view_def)
  have "total_open (store_order i od b) + unat (open_quantity (w_order w))
      = total_open b + unat (open_quantity od)"
    using hm.total_store [of "orders b" i w "\<lambda>w. unat (open_quantity (w_order w))"
        "w\<lparr>w_order := od\<rparr>"] wf hw
    by (simp add: total_open_def store_order_def wf_book_def)
  moreover have "unat (open_quantity od) = unat (open_quantity (w_order w)) - unat q"
    using q by (simp add: unat_sub_le)
  moreover have "unat q \<le> unat (open_quantity (w_order w))"
    using q(2) by (simp add: word_le_nat_alt)
  ultimately show ?thesis by linarith
qed

section \<open>Inserting an order\<close>

definition level_or_new :: "u64 \<Rightarrow> LevelSide \<Rightarrow> u32 \<Rightarrow> Level option \<Rightarrow> Level" where
  "level_or_new p s sid r = (case r of None \<Rightarrow> newLevel p s sid | Some l \<Rightarrow> l)"

lemma level_view_emplace:
  assumes "om_inv (levels K b)"
  shows "level_view (set_levels K (om_emplace p l (levels K b)) b)
    = (if level_view b (K, p) = None then (level_view b)((K, p) \<mapsto> l) else level_view b)"
  using assms by (auto simp: level_view_def om.find_emplace)

lemma views_emplace_level:
  assumes V: "views_ok d sid ov lv" and s: "map_side_ok K s"
  shows "views_ok d sid ov (lv((K, p) \<mapsto> level_or_new p s sid (lv (K, p))))"
  using V views_new_level [OF V _ s] by (cases "lv (K, p)") (auto simp: level_or_new_def fun_upd_idem)

lemma level_or_new_side:
  assumes V: "views_ok d sid ov lv" and s: "map_side_ok K s" and K: "K \<noteq> NewTrailingLevels"
  shows "lv_side (level_or_new p s sid (lv (K, p))) = s"
proof (cases "lv (K, p)")
  case (Some l)
  then have "map_side_ok K (lv_side l)" using views_level [OF V] by (fastforce simp: level_ok_def)
  with s K Some show ?thesis
    by (cases K; cases s; cases "lv_side l") (auto simp: map_side_ok_def level_or_new_def)
qed (simp add: level_or_new_def newLevel_def)

lemma insert_at_ok:
  assumes wf: "wf_book d b" and n: "order_view b (oid od) = None"
    and od: "wrapper_ok d (book_symbol_id b) (oid od) \<lparr>w_order = od, level_it = (K, p)\<rparr>"
    and s: "map_side_ok K s" "s = level_side (side od)" and K: "K \<noteq> NewTrailingLevels"
    and tot: "total_open b + unat (open_quantity od) < 18446744073709551616"
  obtains b' where "insert_at d K p s od b = Inr b'" and "wf_book d b'"
    and "order_view b' = (order_view b)(oid od \<mapsto> \<lparr>w_order = od, level_it = (K, p)\<rparr>)"
    and "level_view b' = (level_view b)((K, p) \<mapsto> link_level (oid od) (open_quantity od)
      (level_or_new p s (book_symbol_id b) (level_view b (K, p))))"
    and "orders b' = (oid od, \<lparr>w_order = od, level_it = (K, p)\<rparr>) # orders b"
    and "total_open b' = total_open b + unat (open_quantity od)"
    and "last_traded_price b' = last_traded_price b"
    and "trailing_bid_price b' = trailing_bid_price b"
    and "trailing_ask_price b' = trailing_ask_price b"
    and "book_symbol_id b' = book_symbol_id b" and "events b' = events b"
proof -
  note V = wf_book_views [OF wf]
  let ?sid = "book_symbol_id b" and ?w = "\<lparr>w_order = od, level_it = (K, p)\<rparr>"
  let ?l = "level_or_new p s ?sid (level_view b (K, p))"
  let ?l' = "link_level (oid od) (open_quantity od) ?l"
  let ?b1 = "set_levels K (om_emplace p (newLevel p s ?sid) (levels K b)) b"
  let ?b2 = "?b1\<lparr>orders := hm_emplace (oid od) ?w (orders ?b1)\<rparr>"
  let ?b = "store_level (K, p) ?l' ?b2"
  have om: "om_inv (levels K b)" using wf by (rule wf_book_om)
  have lv1: "level_view ?b1 = (level_view b)((K, p) \<mapsto> ?l)"
    unfolding level_view_emplace [OF om]
    by (cases "level_view b (K, p)") (auto simp: level_or_new_def fun_upd_idem)
  then have lv2: "level_view ?b2 = (level_view b)((K, p) \<mapsto> ?l)" by simp
  have ords: "orders ?b2 = (oid od, ?w) # orders b"
    using n by (simp add: hm_emplace_def order_view_def)
  have ov2: "order_view ?b2 = (order_view b)(oid od \<mapsto> ?w)"
    using ords by (auto simp: order_view_def hm_find_def)
  have lv: "level_view ?b = (level_view b)((K, p) \<mapsto> ?l')"
    using level_view_store_level [of ?b2 "(K, p)" ?l ?l'] lv2 by simp
  have V1: "views_ok d ?sid (order_view b) ((level_view b)((K, p) \<mapsto> ?l))"
    using views_emplace_level [OF V s(1)] .
  have side: "lv_side ?l = level_side (side od)" using level_or_new_side [OF V s(1) K] s(2) by simp
  have "views_ok d ?sid ((order_view b)(oid od \<mapsto> ?w)) (((level_view b)((K, p) \<mapsto> ?l))
      ((K, p) \<mapsto> link_level (oid od) (open_quantity (w_order ?w)) ?l))"
    by (rule views_link [OF V1 n]) (use od side in auto)
  then have V2: "views_ok d ?sid (order_view ?b) (level_view ?b)"
    using ov2 lv by simp
  have abs: "oid od \<notin> set (lv_orders ?l)" using views_absent [OF V1 n, of "(K, p)" ?l] by simp
  have "level_ok ?sid (order_view b) (K, p) ?l" using views_level [OF V1, of "(K, p)" ?l] by simp
  then have sym: "lv_symbol_id ?l = ?sid" by (simp add: level_ok_def)
  have "validateLevel (book_heap ?b2) ?l'"
    using views_validateLevel [OF V2, of "(K, p)" ?l'] lv by (simp add: book_heap_view)
  then have "Level_addOrder d (book_heap ?b2) od ?l = Inr ?l'"
    using abs sym side od
    by (cases "side od") (auto simp: Level_addOrder_eq_Inr link_level_def wrapper_ok_def level_side_def)
  then have run: "insert_at d K p s od b = Inr ?b"
    using n lv2 by (simp add: insert_at_def Let_def hasOrder_eq find_level_eq)
  have tot': "total_open ?b = total_open b + unat (open_quantity od)"
    using ords by (simp add: total_open_def hm_total_def)
  have "hm_inv (orders ?b)" using wf by (simp add: wf_book_def hm.inv_emplace)
  moreover have "\<forall>K'. om_inv (levels K' ?b2)"
    using wf by (auto simp: wf_book_def om.inv_emplace)
  ultimately have "wf_book d ?b" using V2 tot tot' by (simp add: wf_book_def)
  then show ?thesis using run ov2 lv ords tot' by (intro that [of ?b]) auto
qed

end
