(* ===== verification/Match_Proofs.thy ===== *)
theory Match_Proofs
  imports Book_Wf
begin

text \<open>
  Matching on well-formed books: an iteration, the loop, the fill-or-kill test, and adding limit
  and market orders. Nothing fails, the book stays well formed, and the open quantity that leaves
  the incoming order leaves the book as well.
\<close>

section \<open>Books between two steps\<close>

text \<open>Well formed, with no empty level, no filled order, and the local map of a move empty.\<close>

definition book_ok :: "build \<Rightarrow> MapOrderBook \<Rightarrow> bool" where
  "book_ok d b \<longleftrightarrow>
     wf_book d b \<and>
     (\<forall>it l. level_view b it = Some l \<longrightarrow> lv_orders l \<noteq> []) \<and>
     (\<forall>i w. order_view b i = Some w \<longrightarrow> open_quantity (w_order w) \<noteq> 0) \<and>
     (\<forall>p. level_view b (NewTrailingLevels, p) = None)"

lemma book_okI:
  assumes "wf_book d b" and "order_view b = ov" and "level_view b = lv"
    and "\<And>it l. lv it = Some l \<Longrightarrow> lv_orders l \<noteq> []"
    and "\<And>i w. ov i = Some w \<Longrightarrow> open_quantity (w_order w) \<noteq> 0"
    and "\<And>p. lv (NewTrailingLevels, p) = None"
  shows "book_ok d b"
  unfolding book_ok_def using assms by blast

lemma book_ok_new: "book_ok d b \<Longrightarrow> level_view b (NewTrailingLevels, p) = None"
  by (simp add: book_ok_def)

lemma book_ok_wf: "book_ok d b \<Longrightarrow> wf_book d b"
  by (simp add: book_ok_def)

lemma book_ok_nonempty: "book_ok d b \<Longrightarrow> level_view b it = Some l \<Longrightarrow> lv_orders l \<noteq> []"
  unfolding book_ok_def by blast

lemma book_ok_open: "book_ok d b \<Longrightarrow> order_view b i = Some w \<Longrightarrow> open_quantity (w_order w) \<noteq> 0"
  by (simp add: book_ok_def)

lemma book_ok_views: "book_ok d b \<Longrightarrow> views_ok d (book_symbol_id b) (order_view b) (level_view b)"
  by (simp add: book_ok_def wf_book_def)

lemma book_ok_frame [simp]:
  "book_ok d (emit e b) \<longleftrightarrow> book_ok d b"
  "book_ok d (b\<lparr>last_traded_price := x\<rparr>) \<longleftrightarrow> book_ok d b"
  "book_ok d (b\<lparr>trailing_bid_price := x\<rparr>) \<longleftrightarrow> book_ok d b"
  "book_ok d (b\<lparr>trailing_ask_price := x\<rparr>) \<longleftrightarrow> book_ok d b"
  by (simp_all add: book_ok_def)

lemma book_ok_home:
  assumes "book_ok d b" and "order_view b i = Some w"
  obtains l where "level_view b (level_it w) = Some l" and "i \<in> set (lv_orders l)"
    and "fst (level_it w) \<noteq> NewTrailingLevels"
proof -
  obtain l where l: "level_view b (level_it w) = Some l" "i \<in> set (lv_orders l)"
    using book_ok_views [OF assms(1)] assms(2) by (rule views_home)
  moreover have "fst (level_it w) \<noteq> NewTrailingLevels"
    using assms(1) l(1) by (cases "level_it w") (auto simp: book_ok_def)
  ultimately show ?thesis by (rule that)
qed

text \<open>The front of a level, with the wrapper it stands for.\<close>

lemma book_ok_front:
  assumes ok: "book_ok d b" and l: "level_view b it = Some l"
  obtains i rest w where "lv_orders l = i # rest" and "order_view b i = Some w"
    and "level_it w = it" and "wrapper_ok d (book_symbol_id b) i w"
    and "lv_side l = level_side (side (w_order w))" and "open_quantity (w_order w) \<noteq> 0"
proof -
  obtain i rest where i: "lv_orders l = i # rest"
    using book_ok_nonempty [OF ok l] by (cases "lv_orders l") auto
  obtain w where w: "order_view b i = Some w" "level_it w = it"
      "lv_side l = level_side (side (w_order w))"
    using views_member [OF book_ok_views [OF ok] l, of i] i by auto
  then show ?thesis
    using that i views_wrapper [OF book_ok_views [OF ok]] book_ok_open [OF ok] by blast
qed

lemma wrapper_ok_limit:
  assumes "wrapper_ok d sid i w" and "level_it w = (K, p)" and "K = AskLevels \<or> K = BidLevels"
  shows "otype (w_order w) = Limit" and "price (w_order w) = p"
    and "side (w_order w) = (if K = AskLevels then Ask else Bid)"
  using assms
  by (cases "otype (w_order w)"; cases "side (w_order w)";
      auto simp: wrapper_ok_def fits_def erasing_map_def level_price_of_def)+

section \<open>The opposite side\<close>

lemma opposite_map_cases: "opposite_map od = AskLevels \<or> opposite_map od = BidLevels"
  by (simp add: opposite_map_def)

lemma level_view_levels:
  "om_find p (ask_levels b) = level_view b (AskLevels, p)"
  "om_find p (bid_levels b) = level_view b (BidLevels, p)"
  by (simp_all add: level_view_def)

lemma wf_book_om_limit: "wf_book d b \<Longrightarrow> om_inv (ask_levels b)" "wf_book d b \<Longrightarrow> om_inv (bid_levels b)"
  using wf_book_om [of d b AskLevels] wf_book_om [of d b BidLevels] by simp_all

lemma best_opposite_Some:
  assumes "wf_book d b" and "best_opposite b od = Some (p, l)"
  shows "level_view b (opposite_map od, p) = Some l"
  using assms wf_book_om_limit [OF assms(1)]
  by (auto simp: best_opposite_def opposite_map_def om.first_Some om.final_Some level_view_levels
      split: if_splits)

text \<open>No level of the opposite side crosses the order if and only if its best level does not.\<close>

lemma best_opposite_crosses:
  assumes "wf_book d b"
  shows "(\<exists>p l. best_opposite b od = Some (p, l) \<and> crosses od p) \<longleftrightarrow>
    (\<exists>p l. level_view b (opposite_map od, p) = Some l \<and> crosses od p)"
proof
  assume "\<exists>p l. best_opposite b od = Some (p, l) \<and> crosses od p"
  then show "\<exists>p l. level_view b (opposite_map od, p) = Some l \<and> crosses od p"
    using best_opposite_Some [OF assms] by blast
next
  assume "\<exists>p l. level_view b (opposite_map od, p) = Some l \<and> crosses od p"
  then obtain p l where l: "level_view b (opposite_map od, p) = Some l" and c: "crosses od p"
    by blast
  note om = wf_book_om_limit [OF assms]
  show "\<exists>p l. best_opposite b od = Some (p, l) \<and> crosses od p"
  proof (cases "side od")
    case Ask
    with l have f: "om_find p (bid_levels b) = Some l"
      by (simp add: opposite_map_def level_view_levels)
    then obtain p' l' where r: "om_rbegin (bid_levels b) = Some (p', l')"
      using om.final_None [of "bid_levels b"] by (cases "om_rbegin (bid_levels b)") auto
    have "p \<le> p'" using om.final_ge [OF om(2) r f] .
    with r Ask c show ?thesis by (auto simp: best_opposite_def crosses_def)
  next
    case Bid
    with l have f: "om_find p (ask_levels b) = Some l"
      by (simp add: opposite_map_def level_view_levels)
    then obtain p' l' where r: "om_begin (ask_levels b) = Some (p', l')"
      using om.first_None [of "ask_levels b"] by (cases "om_begin (ask_levels b)") auto
    have "p' \<le> p" using om.first_le [OF om(1) r f] .
    with r Bid c show ?thesis by (auto simp: best_opposite_def crosses_def)
  qed
qed

section \<open>Counting the stop orders\<close>

definition stop_count :: "MapOrderBook \<Rightarrow> nat" where
  "stop_count b = hm_total (\<lambda>w. if stop_kind (otype (w_order w)) then 1 else 0) (orders b)"

lemma stop_count_simps [simp]:
  "stop_count (set_levels K m b) = stop_count b"
  "stop_count (store_level it l b) = stop_count b"
  "stop_count (emit e b) = stop_count b"
  "stop_count (b\<lparr>last_traded_price := x\<rparr>) = stop_count b"
  "stop_count (b\<lparr>trailing_bid_price := x\<rparr>) = stop_count b"
  "stop_count (b\<lparr>trailing_ask_price := x\<rparr>) = stop_count b"
  by (simp_all add: stop_count_def)

lemma stop_count_store_order:
  assumes "wf_book d b" and "order_view b i = Some w" and "otype od = otype (w_order w)"
  shows "stop_count (store_order i od b) = stop_count b"
  using assms hm.total_store [of "orders b" i w
      "\<lambda>w. if stop_kind (otype (w_order w)) then 1 else 0" "w\<lparr>w_order := od\<rparr>"]
  by (simp add: stop_count_def store_order_def wf_book_def order_view_def)

lemma stop_count_erase:
  assumes "wf_book d b" and "order_view b i = Some w" and "orders b' = hm_erase i (orders b)"
  shows "stop_count b = (if stop_kind (otype (w_order w)) then 1 else 0) + stop_count b'"
  using assms hm.total_erase [of "orders b" i w
      "\<lambda>w. if stop_kind (otype (w_order w)) then 1 else 0"]
  by (simp add: stop_count_def wf_book_def order_view_def)

section \<open>One iteration of the loop\<close>

lemma executeOrders_ok:
  assumes "order_ok d ask" and "order_ok d bid"
    and "q = min (open_quantity ask) (open_quantity bid)"
  shows "executeOrders d b ask bid p =
    Inr ((emit (ExecutedOrder (executed p q ask)) (emit (ExecutedOrder (executed p q bid)) b))
           \<lparr>last_traded_price := p\<rparr>, executed p q ask, executed p q bid)"
  using execute_ok [OF assms(1), of q p] execute_ok [OF assms(2), of q p] assms(3)
  by (simp add: executeOrders_def Let_def)

text \<open>The events of one execution: the bid first, then the ask.\<close>

definition execution_events :: "Order \<Rightarrow> Order \<Rightarrow> Event list" where
  "execution_events incoming resting =
     (if isAsk incoming then [ExecutedOrder resting, ExecutedOrder incoming]
      else [ExecutedOrder incoming, ExecutedOrder resting])"

lemma execute_incoming_ok:
  assumes "order_ok d od" and "order_ok d r" and "q = min (open_quantity od) (open_quantity r)"
  obtains b1 where "execute_incoming d b od r p = Inr (b1, executed p q od, executed p q r)"
    and "b1 = b\<lparr>events := events b @ execution_events (executed p q od) (executed p q r),
      last_traded_price := p\<rparr>"
  using assms executeOrders_ok [of d od r q b p] executeOrders_ok [of d r od q b p]
  by (auto simp: execute_incoming_def execution_events_def min.commute emit_def)

definition level_after_execution :: "u64 \<Rightarrow> u64 \<Rightarrow> bool \<Rightarrow> Level \<Rightarrow> Level option" where
  "level_after_execution i q filled l =
     (let l' = l\<lparr>lv_volume := lv_volume l - q\<rparr>
      in if filled then level_after_unlink i 0 l' else Some l')"

text \<open>A step up to the point where the resting order has been changed and its level reduced.\<close>

lemma match_step_reduced:
  assumes ok: "book_ok d b" and od: "order_ok d od" "open_quantity od \<noteq> 0"
    and l: "level_view b (opposite_map od, p) = Some l"
  obtains i w rest q b3 where "lv_orders l = i # rest" and "order_view b i = Some w"
    and "level_it w = (opposite_map od, p)" and "price (w_order w) = p"
    and "otype (w_order w) = Limit" and "side (w_order w) = (if isAsk od then Bid else Ask)"
    and "q = min (open_quantity od) (open_quantity (w_order w))" and "q \<noteq> 0" and "q \<le> open_quantity (w_order w)"
    and "match_step d b od (p, l) = (if q = open_quantity (w_order w)
      then rbind (deleteOrder_notify d b3 i True) (\<lambda>b'. Inr (b', executed p q od)) else Inr (b3, executed p q od))"
    and "wf_book d b3" and "order_view b3 = (order_view b)(i \<mapsto> w\<lparr>w_order := executed p q (w_order w)\<rparr>)"
    and "level_view b3 = (level_view b)((opposite_map od, p) \<mapsto> l\<lparr>lv_volume := lv_volume l - q\<rparr>)"
    and "total_open b = total_open b3 + unat q" and "stop_count b3 = stop_count b"
    and "last_traded_price b3 = p" and "trailing_bid_price b3 = trailing_bid_price b"
    and "trailing_ask_price b3 = trailing_ask_price b" and "book_symbol_id b3 = book_symbol_id b"
    and "events b3 = events b @ execution_events (executed p q od) (executed p q (w_order w))"
proof -
  let ?it = "(opposite_map od, p)"
  obtain i rest w where fr: "lv_orders l = i # rest" "order_view b i = Some w" "level_it w = ?it"
      "wrapper_ok d (book_symbol_id b) i w" "open_quantity (w_order w) \<noteq> 0"
    using ok l by (rule book_ok_front)
  have lim: "otype (w_order w) = Limit" "price (w_order w) = p"
      "side (w_order w) = (if isAsk od then Bid else Ask)"
    using wrapper_ok_limit [OF fr(4,3) opposite_map_cases] by (auto simp: opposite_map_def)
  define q where "q = min (open_quantity od) (open_quantity (w_order w))"
  have q: "q \<le> open_quantity od" "q \<le> open_quantity (w_order w)" "q \<noteq> 0"
    using od(2) fr(5) by (auto simp: q_def min_def)
  let ?r = "executed p q (w_order w)"
  have rok: "order_ok d (w_order w)" using fr(4) by (simp add: wrapper_ok_def)
  obtain b1 where ex: "execute_incoming d b od (w_order w) p = Inr (b1, executed p q od, ?r)"
    and b1: "b1 = b\<lparr>events := events b @ execution_events (executed p q od) ?r, last_traded_price := p\<rparr>"
    using od(1) rok q_def by (rule execute_incoming_ok)
  have b1v: "order_view b1 = order_view b" "level_view b1 = level_view b" "wf_book d b1"
      "total_open b1 = total_open b" "stop_count b1 = stop_count b" "orders b1 = orders b"
    using book_ok_wf [OF ok]
    by (simp_all add: b1 order_view_def level_view_def wf_book_def total_open_def stop_count_def)
  have w1: "order_view b1 i = Some w" "level_view b1 (level_it w) = Some l"
    using fr l by (simp_all add: b1v)
  have wr: "wrapper_ok d (book_symbol_id b1) i (w\<lparr>w_order := ?r\<rparr>)"
    using wrapper_ok_same_terms [OF fr(4), of ?r] order_ok_executed [OF rok q(2)] b1 by simp
  let ?l = "l\<lparr>lv_volume := lv_volume l - q\<rparr>" and ?b2 = "store_order i ?r b1"
  let ?b3 = "store_level ?it ?l ?b2"
  have red: "Level_reduceVolume d (book_heap ?b2) q l = Inr ?l" and wf3: "wf_book d ?b3"
    using reduceVolume_ok [OF b1v(3) w1 wr, of q] q(2) fr(3) by simp_all
  have ov3: "order_view ?b3 = (order_view b)(i \<mapsto> w\<lparr>w_order := ?r\<rparr>)"
    using order_view_store_order [OF w1(1), of ?r] b1v by simp
  have lv3: "level_view ?b3 = (level_view b)(?it \<mapsto> ?l)"
    using level_view_store_level [of ?b2 ?it l ?l] l b1v by simp
  have tot3: "total_open b = total_open ?b3 + unat q"
    using total_open_store_order [OF b1v(3) w1(1), of ?r q] q b1v by simp
  have sc3: "stop_count ?b3 = stop_count b"
    using stop_count_store_order [OF b1v(3) w1(1), of ?r] b1v by simp
  have hm: "hm_find i (orders b) = Some w" using fr(2) by (simp add: order_view_def)
  have idr: "oid ?r = i" using fr(4) by (simp add: wrapper_ok_def)
  have full: "open_quantity ?r = 0 \<longleftrightarrow> q = open_quantity (w_order w)" by auto
  have run: "match_step d b od (p, l) = (if q = open_quantity (w_order w)
      then rbind (deleteOrder_notify d ?b3 i True) (\<lambda>b'. Inr (b', executed p q od)) else Inr (?b3, executed p q od))"
    using fr(1) hm ex red lim(2) idr full
    by (simp add: match_step_def Level_front_eq_Inr find_order_def Let_def Level_front_def)
  show ?thesis
    by (rule that [of i rest w q ?b3]) (use fr lim q q_def run wf3 tot3 sc3 ov3 lv3 b1 in simp_all)
qed

lemma match_step_ok:
  assumes ok: "book_ok d b" and od: "order_ok d od" "open_quantity od \<noteq> 0"
    and l: "level_view b (opposite_map od, p) = Some l"
  obtains i w rest q b' where "lv_orders l = i # rest" and "order_view b i = Some w"
    and "level_it w = (opposite_map od, p)" and "price (w_order w) = p"
    and "otype (w_order w) = Limit" and "side (w_order w) = (if isAsk od then Bid else Ask)"
    and "q = min (open_quantity od) (open_quantity (w_order w))" and "q \<noteq> 0"
    and "match_step d b od (p, l) = Inr (b', executed p q od)" and "book_ok d b'"
    and "order_view b' = (order_view b)(i :=
      if q = open_quantity (w_order w) then None else Some (w\<lparr>w_order := executed p q (w_order w)\<rparr>))"
    and "level_view b' = (level_view b)((opposite_map od, p) :=
      level_after_execution i q (q = open_quantity (w_order w)) l)"
    and "total_open b = total_open b' + unat q" and "stop_count b' = stop_count b"
    and "last_traded_price b' = p" and "trailing_bid_price b' = trailing_bid_price b"
    and "trailing_ask_price b' = trailing_ask_price b" and "book_symbol_id b' = book_symbol_id b"
    and "events b' = events b @ execution_events (executed p q od) (executed p q (w_order w)) @
      (if q = open_quantity (w_order w) then [OrderDeleted (executed p q (w_order w))] else [])"
proof -
  let ?it = "(opposite_map od, p)"
  obtain i w rest q b3 where fr: "lv_orders l = i # rest" "order_view b i = Some w" "level_it w = ?it"
      "price (w_order w) = p" "otype (w_order w) = Limit" "side (w_order w) = (if isAsk od then Bid else Ask)"
    and q: "q = min (open_quantity od) (open_quantity (w_order w))" "q \<noteq> 0" "q \<le> open_quantity (w_order w)"
    and run: "match_step d b od (p, l) = (if q = open_quantity (w_order w)
      then rbind (deleteOrder_notify d b3 i True) (\<lambda>b'. Inr (b', executed p q od)) else Inr (b3, executed p q od))"
    and b3: "wf_book d b3" "order_view b3 = (order_view b)(i \<mapsto> w\<lparr>w_order := executed p q (w_order w)\<rparr>)"
      "level_view b3 = (level_view b)(?it \<mapsto> l\<lparr>lv_volume := lv_volume l - q\<rparr>)"
      "total_open b = total_open b3 + unat q" "stop_count b3 = stop_count b"
      "last_traded_price b3 = p" "trailing_bid_price b3 = trailing_bid_price b"
      "trailing_ask_price b3 = trailing_ask_price b" "book_symbol_id b3 = book_symbol_id b"
      "events b3 = events b @ execution_events (executed p q od) (executed p q (w_order w))"
    by (rule match_step_reduced [OF ok od l])
  let ?r = "executed p q (w_order w)" and ?l = "l\<lparr>lv_volume := lv_volume l - q\<rparr>"
  show ?thesis
  proof (cases "q = open_quantity (w_order w)")
    case False
    then have nf: "open_quantity ?r \<noteq> 0" by auto
    have ok3: "book_ok d b3"
      by (rule book_okI [OF b3(1-3)])
        (use ok nf fr(1) in \<open>auto simp: opposite_map_def book_ok_new split: if_splits
          dest: book_ok_nonempty book_ok_open\<close>)
    show ?thesis
      by (rule that [of i rest w q b3])
        (use fr q run ok3 False b3 in \<open>simp_all add: level_after_execution_def Let_def\<close>)
  next
    case True
    then have f: "open_quantity ?r = 0" by simp
    have w3: "order_view b3 i = Some (w\<lparr>w_order := ?r\<rparr>)" by (simp only: b3) simp
    have nn: "fst (level_it (w\<lparr>w_order := ?r\<rparr>)) \<noteq> NewTrailingLevels"
      using fr(3) by (simp add: opposite_map_def)
    obtain l0 b' where d: "level_view b3 (level_it (w\<lparr>w_order := ?r\<rparr>)) = Some l0"
      "deleteOrder_notify d b3 i True = Inr b'" "wf_book d b'" "order_view b' = (order_view b3)(i := None)"
      "level_view b' = (level_view b3)(level_it (w\<lparr>w_order := ?r\<rparr>) :=
          level_after_unlink i (open_quantity (w_order (w\<lparr>w_order := ?r\<rparr>))) l0)"
      "orders b' = hm_erase i (orders b3)"
      "total_open b3 = unat (open_quantity (w_order (w\<lparr>w_order := ?r\<rparr>))) + total_open b'"
      "last_traded_price b' = last_traded_price b3" "trailing_bid_price b' = trailing_bid_price b3"
      "trailing_ask_price b' = trailing_ask_price b3" "book_symbol_id b' = book_symbol_id b3"
      "events b' = events b3 @ (if True then [OrderDeleted (w_order (w\<lparr>w_order := ?r\<rparr>))] else [])"
      using deleteOrder_notify_ok [OF b3(1) w3 nn, of True] by metis
    have l0: "l0 = ?l" using d(1) fr(3) b3(3) by simp
    have ov': "order_view b' = (order_view b)(i := None)" using d(4) b3(2) by simp
    have lv': "level_view b' = (level_view b)(?it := level_after_unlink i 0 ?l)"
      using d(5) fr(3) b3(3) l0 f by simp
    have ok': "book_ok d b'"
      by (rule book_okI [OF d(3) ov' lv'])
        (use ok in \<open>auto simp: opposite_map_def book_ok_new level_after_unlink_def split: if_splits
          dest: book_ok_nonempty book_ok_open\<close>)
    have sc': "stop_count b' = stop_count b"
      using stop_count_erase [OF b3(1) w3 d(6)] b3(5) fr(5) by (simp add: stop_kind_def trailing_kind_def)
    show ?thesis
      by (rule that [of i rest w q b'])
        (use fr q run ok' True b3 d sc' ov' lv' f in \<open>simp_all add: level_after_execution_def Let_def\<close>)
  qed
qed

section \<open>The loop\<close>

text \<open>
  What any number of iterations leave alone, and what they change: the incoming order keeps its
  terms, its executed part leaves the book as well, only the opposite map and the orders in it
  change, and no level or order appears.
\<close>

definition match_rel :: "MapOrderBook \<Rightarrow> Order \<Rightarrow> MapOrderBook \<Rightarrow> Order \<Rightarrow> bool" where
  "match_rel b od b' od' \<longleftrightarrow>
     same_terms od od' \<and> open_quantity od' \<le> open_quantity od \<and>
     total_open b + unat (open_quantity od') = total_open b' + unat (open_quantity od) \<and>
     stop_count b' = stop_count b \<and> book_symbol_id b' = book_symbol_id b \<and>
     trailing_bid_price b' = trailing_bid_price b \<and> trailing_ask_price b' = trailing_ask_price b \<and>
     (\<forall>K p. K \<noteq> opposite_map od \<longrightarrow> level_view b' (K, p) = level_view b (K, p)) \<and>
     (\<forall>K p. level_view b (K, p) = None \<longrightarrow> level_view b' (K, p) = None) \<and>
     (\<forall>i w. order_view b i = Some w \<longrightarrow> fst (level_it w) \<noteq> opposite_map od \<longrightarrow>
        order_view b' i = Some w) \<and>
     (\<forall>i. order_view b i = None \<longrightarrow> order_view b' i = None)"

lemma match_rel_refl [simp]: "match_rel b od b od"
  by (simp add: match_rel_def)

lemma same_terms_opposite: "same_terms od od' \<Longrightarrow> opposite_map od' = opposite_map od"
  by (simp add: same_terms_def opposite_map_def)

lemma same_terms_crosses: "same_terms od od' \<Longrightarrow> crosses od' p = crosses od p"
  by (simp add: same_terms_def crosses_def)

lemma match_rel_trans:
  assumes "match_rel b od b' od'" and "match_rel b' od' b'' od''"
  shows "match_rel b od b'' od''"
proof -
  have op: "opposite_map od' = opposite_map od"
    using assms(1) by (simp add: match_rel_def same_terms_opposite)
  show ?thesis
    using assms unfolding match_rel_def op
    by (auto intro: same_terms_trans order_trans)
qed

lemma match_step_rel:
  assumes ok: "book_ok d b" and od: "order_ok d od" "open_quantity od \<noteq> 0"
    and l: "level_view b (opposite_map od, p) = Some l"
  obtains b' od' where "match_step d b od (p, l) = Inr (b', od')" and "book_ok d b'"
    and "order_ok d od'" and "match_rel b od b' od'" and "last_traded_price b' = p"
proof -
  obtain i w rest q b' where r: "order_view b i = Some w"
      "level_it w = (opposite_map od, p)"
      "q = min (open_quantity od) (open_quantity (w_order w))"
      "match_step d b od (p, l) = Inr (b', executed p q od)" "book_ok d b'"
      "order_view b' = (order_view b)(i :=
        if q = open_quantity (w_order w) then None
        else Some (w\<lparr>w_order := executed p q (w_order w)\<rparr>))"
      "level_view b' = (level_view b)((opposite_map od, p) :=
        level_after_execution i q (q = open_quantity (w_order w)) l)"
      "total_open b = total_open b' + unat q" "stop_count b' = stop_count b"
      "last_traded_price b' = p" "trailing_bid_price b' = trailing_bid_price b"
      "trailing_ask_price b' = trailing_ask_price b" "book_symbol_id b' = book_symbol_id b"
    using ok od l by (rule match_step_ok) blast
  have q: "q \<le> open_quantity od" using r(3) by simp
  have "unat (open_quantity od - q) = unat (open_quantity od) - unat q" "unat q \<le> unat (open_quantity od)"
    using q by (auto simp: unat_sub_le word_le_nat_alt)
  then have "total_open b + unat (open_quantity (executed p q od))
      = total_open b' + unat (open_quantity od)"
    using r(8) by simp
  moreover have "open_quantity od - q \<le> open_quantity od" using q by (rule word_sub_le)
  ultimately have "match_rel b od b' (executed p q od)"
    using r l by (auto simp: match_rel_def)
  then show ?thesis using that r order_ok_executed [OF od(1) q] by blast
qed

lemma match_loop_ok:
  assumes "book_ok d b" and "order_ok d od"
  shows "\<exists>b' od'. match_loop d b od = Inr (b', od') \<and> book_ok d b' \<and> order_ok d od' \<and>
    match_rel b od b' od' \<and>
    (isFilled od' \<or> (\<forall>p l. level_view b' (opposite_map od, p) = Some l \<longrightarrow> \<not> crosses od p))"
  using assms
proof (induction d b od rule: match_loop.induct)
  case (1 d b od)
  note wf = book_ok_wf [OF "1.prems"(1)]
  show ?case
  proof (cases "\<exists>p l. best_opposite b od = Some (p, l) \<and> crosses od p \<and> \<not> isFilled od")
    case False
    then have "match_loop d b od = Inr (b, od)"
      by (subst match_loop.simps) (auto split: option.split)
    moreover have "isFilled od \<or> (\<forall>p l. level_view b (opposite_map od, p) = Some l \<longrightarrow> \<not> crosses od p)"
      using False best_opposite_crosses [OF wf, of od] by blast
    ultimately show ?thesis using "1.prems" by auto
  next
    case True
    then obtain p l where best: "best_opposite b od = Some (p, l)" "crosses od p" "\<not> isFilled od"
      by blast
    have l: "level_view b (opposite_map od, p) = Some l"
      using best_opposite_Some [OF wf best(1)] .
    have o: "open_quantity od \<noteq> 0" using best(3) by simp
    obtain b1 od1 where s: "match_step d b od (p, l) = Inr (b1, od1)" "book_ok d b1"
        "order_ok d od1" "match_rel b od b1 od1"
      using "1.prems" o l by (rule match_step_rel) blast
    have terms: "same_terms od od1" using s(4) by (simp add: match_rel_def)
    have "\<exists>b' od'. match_loop d b1 od1 = Inr (b', od') \<and> book_ok d b' \<and> order_ok d od' \<and>
        match_rel b1 od1 b' od' \<and>
        (isFilled od' \<or> (\<forall>p l. level_view b' (opposite_map od1, p) = Some l \<longrightarrow> \<not> crosses od1 p))"
      using "1.IH" [of "(p, l)" "(b1, od1)"] best s by simp
    then obtain b' od' where IH: "match_loop d b1 od1 = Inr (b', od')" "book_ok d b'"
        "order_ok d od'" "match_rel b1 od1 b' od'"
        "isFilled od' \<or> (\<forall>p l. level_view b' (opposite_map od, p) = Some l \<longrightarrow> \<not> crosses od p)"
      using same_terms_opposite [OF terms] same_terms_crosses [OF terms] by auto
    have "match_loop d b od = Inr (b', od')"
      by (subst match_loop.simps) (use best s(1) IH(1) in simp)
    with IH match_rel_trans [OF s(4) IH(4)] show ?thesis by blast
  qed
qed

section \<open>Fill-or-kill\<close>

lemma can_match_loop_crossing:
  assumes c: "crosses od p" and v: "lv_volume l \<noteq> 0" and a: "avail \<le> req"
  shows "can_match_loop od (Some (p, l)) req avail = Some True"
  using a
proof (induction "unat (req - avail)" arbitrary: avail rule: less_induct)
  case less
  let ?n = "req - avail"
  let ?m = "min (lv_volume l) ?n"
  show ?case
  proof (cases "req \<le> avail + ?m")
    case True
    with c show ?thesis by (subst can_match_loop.simps) (simp add: Let_def)
  next
    case False
    have mn: "?m \<le> ?n" by simp
    have ne: "?n \<noteq> 0" using False less.prems by auto
    have m0: "?m \<noteq> 0" using v ne by (simp add: min_def)
    have un: "unat ?n = unat req - unat avail" using less.prems by (rule unat_sub_le)
    have um: "unat ?m \<le> unat ?n" using mn by (simp only: word_le_nat_alt)
    have add: "unat (avail + ?m) = unat avail + unat ?m"
      using un um less.prems unat_u64_less [of req]
      by (intro unat_add_u64) (simp add: word_le_nat_alt)
    have le: "avail + ?m \<le> req"
      using add un um less.prems by (simp add: word_le_nat_alt)
    have "unat (req - (avail + ?m)) = unat req - (unat avail + unat ?m)"
      using unat_sub_le [OF le] add by simp
    moreover have "0 < unat ?m" using m0 by (simp add: unat_gt_0)
    ultimately have "unat (req - (avail + ?m)) < unat ?n"
      using un um by linarith
    then have "can_match_loop od (Some (p, l)) req (avail + ?m) = Some True"
      using less.hyps le by blast
    with c False show ?thesis by (subst can_match_loop.simps) (simp add: Let_def)
  qed
qed

lemma best_opposite_volume:
  assumes "book_ok d b" and "best_opposite b od = Some (p, l)"
  shows "lv_volume l \<noteq> 0"
proof -
  have l: "level_view b (opposite_map od, p) = Some l"
    using best_opposite_Some [OF book_ok_wf [OF assms(1)] assms(2)] .
  obtain i rest w where w: "order_view b i = Some w" "level_it w = (opposite_map od, p)"
      "open_quantity (w_order w) \<noteq> 0"
    using assms(1) l by (rule book_ok_front)
  have "open_quantity (w_order w) \<le> lv_volume l"
    using open_le_volume [OF book_ok_wf [OF assms(1)] w(1)] w(2) l by simp
  with w(3) show ?thesis by unat_arith
qed

lemma canMatchOrder_eq:
  assumes "book_ok d b"
  shows "canMatchOrder b od = Some (\<exists>p l. best_opposite b od = Some (p, l) \<and> crosses od p)"
proof (cases "best_opposite b od")
  case None
  then show ?thesis by (simp add: canMatchOrder_def can_match_loop.simps)
next
  case (Some e)
  obtain p l where e: "e = (p, l)" by fastforce
  show ?thesis
  proof (cases "crosses od p")
    case True
    then show ?thesis
      using can_match_loop_crossing [OF True best_opposite_volume [OF assms Some [unfolded e]],
          of 0 "open_quantity od"] Some e
      by (simp add: canMatchOrder_def)
  next
    case False
    with Some e show ?thesis by (simp add: canMatchOrder_def can_match_loop.simps)
  qed
qed

lemma match_eq:
  assumes "book_ok d b"
  shows "match d b od = (if isFok od \<and> \<not> (\<exists>p l. best_opposite b od = Some (p, l) \<and> crosses od p)
    then Inr (b, od) else match_loop d b od)"
proof (cases "\<exists>p l. best_opposite b od = Some (p, l) \<and> crosses od p")
  case True
  then have "canMatchOrder b od = Some True" using canMatchOrder_eq [OF assms] by simp
  with True show ?thesis by (auto simp: match_def)
next
  case False
  then have "canMatchOrder b od = Some False" using canMatchOrder_eq [OF assms] by simp
  with False show ?thesis by (auto simp: match_def)
qed

lemma match_ok:
  assumes ok: "book_ok d b" and od: "order_ok d od"
  obtains b' od' where "match d b od = Inr (b', od')" and "book_ok d b'" and "order_ok d od'"
    and "match_rel b od b' od'"
    and "isFilled od' \<or> (\<forall>p l. level_view b' (opposite_map od, p) = Some l \<longrightarrow> \<not> crosses od p)"
proof (cases "isFok od \<and> \<not> (\<exists>p l. best_opposite b od = Some (p, l) \<and> crosses od p)")
  case True
  then have "match d b od = Inr (b, od)" using match_eq [OF ok] by simp
  moreover have "\<forall>p l. level_view b (opposite_map od, p) = Some l \<longrightarrow> \<not> crosses od p"
    using True best_opposite_crosses [OF book_ok_wf [OF ok], of od] by blast
  ultimately show ?thesis using that ok od by auto
next
  case False
  then have "match d b od = match_loop d b od" using match_eq [OF ok] by auto
  then show ?thesis using match_loop_ok [OF ok od] that by auto
qed

end
