(* ===== verification/Stop_Proofs.thy ===== *)
theory Stop_Proofs
  imports Match_Proofs
begin

text \<open>
  Adding orders and activating stop orders on well-formed books. The activation loops end because
  every activation removes one stop order from the book and none is ever created by matching.
\<close>

section \<open>The book is not crossed\<close>

definition uncrossed :: "MapOrderBook \<Rightarrow> bool" where
  "uncrossed b \<longleftrightarrow> (\<forall>p q. level_view b (BidLevels, p) \<noteq> None \<longrightarrow>
     level_view b (AskLevels, q) \<noteq> None \<longrightarrow> p < q)"

lemma uncrossed_mono:
  assumes "uncrossed b" and "\<forall>K p. level_view b (K, p) = None \<longrightarrow> level_view b' (K, p) = None"
  shows "uncrossed b'"
  unfolding uncrossed_def
proof (intro allI impI)
  fix p q assume "level_view b' (BidLevels, p) \<noteq> None" and "level_view b' (AskLevels, q) \<noteq> None"
  with assms(2) have "level_view b (BidLevels, p) \<noteq> None" "level_view b (AskLevels, q) \<noteq> None"
    by metis+
  with assms(1) show "p < q" by (simp add: uncrossed_def)
qed

lemma uncrossed_frame [simp]:
  "uncrossed (emit e b) \<longleftrightarrow> uncrossed b"
  "uncrossed (b\<lparr>last_traded_price := x\<rparr>) \<longleftrightarrow> uncrossed b"
  "uncrossed (b\<lparr>trailing_bid_price := x\<rparr>) \<longleftrightarrow> uncrossed b"
  "uncrossed (b\<lparr>trailing_ask_price := x\<rparr>) \<longleftrightarrow> uncrossed b"
  by (simp_all add: uncrossed_def)

section \<open>Adding limit and market orders\<close>

definition limit_map :: "LevelMap \<Rightarrow> bool" where
  "limit_map K \<longleftrightarrow> K = AskLevels \<or> K = BidLevels"

text \<open>What an order must satisfy to be handed to the book.\<close>

definition addable :: "build \<Rightarrow> MapOrderBook \<Rightarrow> Order \<Rightarrow> bool" where
  "addable d b od \<longleftrightarrow>
     order_ok d od \<and> open_quantity od \<noteq> 0 \<and> order_view b (oid od) = None \<and>
     symbol_id od = book_symbol_id b \<and>
     total_open b + unat (open_quantity od) < 18446744073709551616"

lemma addable_frame [simp]:
  "addable d (emit e b) od \<longleftrightarrow> addable d b od"
  "addable d (b\<lparr>last_traded_price := x\<rparr>) od \<longleftrightarrow> addable d b od"
  by (simp_all add: addable_def)

text \<open>What adding a limit or market order leaves alone: the stop orders and their levels.\<close>

definition add_rel :: "MapOrderBook \<Rightarrow> Order \<Rightarrow> MapOrderBook \<Rightarrow> bool" where
  "add_rel b od b' \<longleftrightarrow>
     book_symbol_id b' = book_symbol_id b \<and> trailing_bid_price b' = trailing_bid_price b \<and>
     trailing_ask_price b' = trailing_ask_price b \<and> stop_count b' = stop_count b \<and>
     total_open b' \<le> total_open b + unat (open_quantity od) \<and>
     (\<forall>K p. \<not> limit_map K \<longrightarrow> level_view b' (K, p) = level_view b (K, p)) \<and>
     (\<forall>i w. order_view b i = Some w \<longrightarrow> \<not> limit_map (fst (level_it w)) \<longrightarrow>
        order_view b' i = Some w) \<and>
     (\<forall>i. order_view b i = None \<longrightarrow> i \<noteq> oid od \<longrightarrow> order_view b' i = None) \<and>
     (uncrossed b \<longrightarrow> uncrossed b')"

lemma match_rel_add_rel:
  assumes "match_rel b od b' od'"
  shows "add_rel b od b'"
proof -
  have u: "uncrossed b'" if "uncrossed b"
    using that assms unfolding match_rel_def by (intro uncrossed_mono [of b b']) simp_all
  have "K \<noteq> opposite_map od" if "\<not> limit_map K" for K
    using that opposite_map_cases [of od] by (auto simp: limit_map_def)
  moreover have "total_open b + unat (open_quantity od') = total_open b' + unat (open_quantity od)"
      "unat (open_quantity od') \<le> unat (open_quantity od)"
    using assms by (simp_all add: match_rel_def word_le_nat_alt)
  then have "total_open b' \<le> total_open b + unat (open_quantity od)" by linarith
  ultimately show ?thesis using assms u by (auto simp: match_rel_def add_rel_def)
qed

lemma add_rel_frame [simp]:
  "add_rel b od (emit e b') \<longleftrightarrow> add_rel b od b'"
  "add_rel (emit e b) od b' \<longleftrightarrow> add_rel b od b'"
  by (simp_all add: add_rel_def)

text \<open>What is left of a limit order after matching goes into the book.\<close>

definition own_map :: "Order \<Rightarrow> LevelMap" where
  "own_map od = (if isAsk od then AskLevels else BidLevels)"

lemma rest_limit_order:
  assumes ok1: "book_ok d b1" and od1: "order_ok d od1" and rel: "match_rel b od b1 od1" and nf: "\<not> isFilled od1"
    and nc: "\<forall>p l. level_view b1 (opposite_map od, p) = Some l \<longrightarrow> \<not> crosses od p"
    and a: "addable d b od" and t: "otype od = Limit"
  shows "\<exists>b'. insertLimitOrder d b1 od1 = Inr b' \<and> book_ok d b' \<and> add_rel b od b' \<and>
    order_view b' = (order_view b1)(oid od \<mapsto> \<lparr>w_order = od1, level_it = (own_map od, price od)\<rparr>) \<and>
    level_view b' = (level_view b1)((own_map od, price od) \<mapsto> link_level (oid od) (open_quantity od1)
      (level_or_new (price od) (level_side (side od)) (book_symbol_id b1) (level_view b1 (own_map od, price od)))) \<and>
    total_open b' = total_open b1 + unat (open_quantity od1) \<and>
    last_traded_price b' = last_traded_price b1 \<and> events b' = events b1"
proof -
  have terms: "same_terms od od1" using rel by (simp add: match_rel_def)
  have n1: "order_view b1 (oid od) = None" using rel a by (simp add: match_rel_def addable_def)
  let ?K = "if isAsk od then AskLevels else BidLevels" and ?p = "price od"
  let ?s = "level_side (side od)"
  let ?w = "\<lparr>w_order = od1, level_it = (?K, ?p)\<rparr>"
  have ids: "oid od1 = oid od" "side od1 = side od" "price od1 = price od"
    using terms by (simp_all add: same_terms_def)
  have sym: "book_symbol_id b1 = book_symbol_id b" using rel by (simp add: match_rel_def)
  have w: "wrapper_ok d (book_symbol_id b1) (oid od1) ?w"
    using terms t od1 a sym
    by (auto simp: wrapper_ok_def fits_def erasing_map_def level_price_of_def same_terms_def
        addable_def)
  have s: "map_side_ok ?K ?s" "?s = level_side (side od1)" "?K \<noteq> NewTrailingLevels"
    using ids by (auto simp: map_side_ok_def level_side_def)
  have cons: "total_open b + unat (open_quantity od1) = total_open b1 + unat (open_quantity od)"
    using rel by (simp add: match_rel_def)
  have le: "unat (open_quantity od1) \<le> unat (open_quantity od)"
    using rel by (simp add: match_rel_def word_le_nat_alt)
  have tot: "total_open b1 + unat (open_quantity od1) < 18446744073709551616"
    using cons le a unfolding addable_def by linarith
  have n1': "order_view b1 (oid od1) = None" using n1 ids by simp
  obtain b' where i: "insert_at d ?K ?p ?s od1 b1 = Inr b'" "wf_book d b'"
      "order_view b' = (order_view b1)(oid od1 \<mapsto> ?w)"
      "level_view b' = (level_view b1)((?K, ?p) \<mapsto> link_level (oid od1) (open_quantity od1)
         (level_or_new ?p ?s (book_symbol_id b1) (level_view b1 (?K, ?p))))"
      "orders b' = (oid od1, ?w) # orders b1"
      "total_open b' = total_open b1 + unat (open_quantity od1)"
      "trailing_bid_price b' = trailing_bid_price b1"
      "trailing_ask_price b' = trailing_ask_price b1"
      "book_symbol_id b' = book_symbol_id b1"
    and i': "last_traded_price b' = last_traded_price b1" "events b' = events b1"
    using insert_at_ok [OF book_ok_wf [OF ok1] n1' w s tot] by metis
  have run: "insertLimitOrder d b1 od1 = Inr b'"
    using ids i(1) by (cases "side od") (auto simp: insertLimitOrder_def level_side_def)
  have ok': "book_ok d b'"
    by (rule book_okI [OF i(2) i(3) i(4)])
      (use ok1 nf in \<open>auto simp: link_level_def book_ok_new split: if_splits
        dest: book_ok_nonempty book_ok_open\<close>)
  have u: "uncrossed b'" if "uncrossed b"
  proof -
    have u1: "uncrossed b1" using match_rel_add_rel [OF rel] that by (simp add: add_rel_def)
    have "\<forall>p l. level_view b1 (opposite_map od, p) = Some l \<longrightarrow> \<not> crosses od p"
      using nc .
    then show ?thesis using u1 unfolding uncrossed_def i(4)
      by (cases "side od") (auto simp: opposite_map_def crosses_def not_le)
  qed
  have sc: "stop_count b' = stop_count b1"
    using i(5) terms t by (simp add: stop_count_def hm_total_def stop_kind_def trailing_kind_def
        same_terms_def)
  have r: "add_rel b od b1" using match_rel_add_rel [OF rel] .
  have "add_rel b od b'"
    unfolding add_rel_def
  proof (intro conjI allI impI)
    show "total_open b' \<le> total_open b + unat (open_quantity od)"
      using i(6) cons le by linarith
    show "level_view b' (K, p) = level_view b (K, p)" if "\<not> limit_map K" for K p
      using that r i(4) by (auto simp: add_rel_def limit_map_def)
    show "order_view b' j = Some v"
      if "order_view b j = Some v" "\<not> limit_map (fst (level_it v))" for j v
      using that r n1' i(3) by (auto simp: add_rel_def)
    show "order_view b' j = None" if "order_view b j = None" "j \<noteq> oid od" for j
      using that r i(3) ids by (auto simp: add_rel_def)
  qed (use r u i sc in \<open>auto simp: add_rel_def\<close>)
  with run ok' show ?thesis using i(3,4,6) i' ids by (auto simp: own_map_def)
qed

lemma addLimitOrder_ok:
  assumes ok: "book_ok d b" and a: "addable d b od" and t: "otype od = Limit"
  obtains b' where "addLimitOrder d b od = Inr b'" and "book_ok d b'" and "add_rel b od b'"
    and "time_in_force od \<noteq> GTC \<longrightarrow> order_view b' (oid od) = None"
proof -
  have od: "order_ok d od" using a by (simp add: addable_def)
  obtain b1 od1 where m: "match d b od = Inr (b1, od1)" "book_ok d b1" "order_ok d od1"
      "match_rel b od b1 od1"
      "isFilled od1 \<or> (\<forall>p l. level_view b1 (opposite_map od, p) = Some l \<longrightarrow> \<not> crosses od p)"
    using ok od by (rule match_ok)
  have terms: "same_terms od od1" using m(4) by (simp add: match_rel_def)
  have n1: "order_view b1 (oid od) = None" using m(4) a by (simp add: match_rel_def addable_def)
  show ?thesis
  proof (cases "\<not> isFilled od1 \<and> time_in_force od = GTC")
    case False
    then have "addLimitOrder d b od = Inr (emit (OrderDeleted od1) b1)"
      using m(1) terms by (cases "time_in_force od") (auto simp: addLimitOrder_def same_terms_def)
    with m(2) match_rel_add_rel [OF m(4)] n1 show ?thesis
      by (intro that [of "emit (OrderDeleted od1) b1"]) auto
  next
    case True
    have noncross: "\<forall>p l. level_view b1 (opposite_map od, p) = Some l \<longrightarrow> \<not> crosses od p" using m(5) True by simp
    obtain b' where b': "insertLimitOrder d b1 od1 = Inr b'" "book_ok d b'" "add_rel b od b'"
      using rest_limit_order [OF m(2,3,4) _ noncross a t] True by auto
    have "addLimitOrder d b od = insertLimitOrder d b1 od1"
      using m(1) True terms by (simp add: addLimitOrder_def same_terms_def)
    with b' True show ?thesis by (intro that) auto
  qed
qed

lemma addMarketOrder_ok:
  assumes ok: "book_ok d b" and a: "addable d b od" and t: "otype od = Market"
  obtains b' where "addMarketOrder d b od = Inr b'" and "book_ok d b'" and "add_rel b od b'"
    and "order_view b' (oid od) = None"
proof -
  let ?od = "od\<lparr>price := (if isAsk od then 0 else u64_max)\<rparr>"
  have od: "order_ok d ?od"
    using a t by (simp add: addable_def order_ok_def limit_kind_def trailing_kind_def quantity_ok_def)
  obtain b1 od1 where m: "match d b ?od = Inr (b1, od1)" "book_ok d b1" "match_rel b ?od b1 od1"
    using ok od by (rule match_ok)
  have "addMarketOrder d b od = Inr (emit (OrderDeleted od1) b1)"
    using m(1) check_validate_order [OF od] by (simp add: addMarketOrder_def setPrice_def Let_def)
  moreover have "add_rel b od b1"
    using match_rel_add_rel [OF m(3)] by (simp add: add_rel_def)
  moreover have "order_view b1 (oid od) = None"
    using m(3) a by (simp add: match_rel_def addable_def)
  ultimately show ?thesis using m(2) by (intro that [of "emit (OrderDeleted od1) b1"]) auto
qed

section \<open>Activated orders\<close>

text \<open>A stop order whose price was reached becomes a market order, a stop limit a limit order.\<close>

definition activated :: "Order \<Rightarrow> Order" where
  "activated od = od\<lparr>otype := (if isStop od \<or> isTrailingStop od then Market else Limit),
     stop_price := 0, trail_amount := 0\<rparr>"

lemma activated_simps [simp]:
  "oid (activated od) = oid od" "side (activated od) = side od"
  "open_quantity (activated od) = open_quantity od" "symbol_id (activated od) = symbol_id od"
  "time_in_force (activated od) = time_in_force od"
  by (simp_all add: activated_def)

lemma order_ok_activated: "order_ok d od \<Longrightarrow> stop_kind (otype od) \<Longrightarrow> order_ok d (activated od)"
  by (cases "otype od")
    (auto simp: order_ok_def activated_def stop_kind_def trailing_kind_def limit_kind_def
      quantity_ok_def)

lemma validate_stop_fields [simp]:
  "validateOrder (od\<lparr>stop_price := x\<rparr>) = validateOrder od"
  "validateOrder (od\<lparr>trail_amount := x\<rparr>) = validateOrder od"
  by (simp_all add: validateOrder_def)

lemma validateOrder_activated:
  "validateOrder od \<Longrightarrow> stop_kind (otype od) \<Longrightarrow>
    validateOrder (od\<lparr>otype := (if isStop od \<or> isTrailingStop od then Market else Limit)\<rparr>)"
  by (cases "otype od") (auto simp: validateOrder_def stop_kind_def trailing_kind_def)

lemma addable_activated: "addable d b od \<Longrightarrow> stop_kind (otype od) \<Longrightarrow> addable d b (activated od)"
  by (simp add: addable_def order_ok_activated)

lemma add_activated_ok:
  assumes ok: "book_ok d b" and a: "addable d b od" and t: "stop_kind (otype od)"
  obtains b' where "(if isMarket (activated od) then addMarketOrder d b (activated od)
      else addLimitOrder d b (activated od)) = Inr b'"
    and "book_ok d b'" and "add_rel b od b'"
    and "time_in_force od \<noteq> GTC \<longrightarrow> order_view b' (oid od) = None"
proof -
  have a': "addable d b (activated od)" using a t by (rule addable_activated)
  have rel: "add_rel b (activated od) b' = add_rel b od b'" for b' by (simp add: add_rel_def)
  show ?thesis
  proof (cases "isMarket (activated od)")
    case True
    then have "otype (activated od) = Market" by simp
    then obtain b' where "addMarketOrder d b (activated od) = Inr b'" "book_ok d b'"
      "add_rel b (activated od) b'" "order_view b' (oid (activated od)) = None"
      by (rule addMarketOrder_ok [OF ok a'])
    with True rel show ?thesis by (intro that) auto
  next
    case False
    then have "otype (activated od) = Limit" by (auto simp: activated_def split: if_splits)
    then obtain b' where "addLimitOrder d b (activated od) = Inr b'" "book_ok d b'"
      "add_rel b (activated od) b'"
      "time_in_force (activated od) \<noteq> GTC \<longrightarrow> order_view b' (oid (activated od)) = None"
      by (rule addLimitOrder_ok [OF ok a'])
    with False rel show ?thesis by (intro that) auto
  qed
qed

lemma stop_fields_twist:
  "od\<lparr>stop_price := x, trail_amount := y, otype := t\<rparr>
    = od\<lparr>otype := t, stop_price := x, trail_amount := y\<rparr>"
  by (cases od) simp

lemma activateStopOrder_eq:
  assumes "order_ok d od" and "stop_kind (otype od)"
  shows "activateStopOrder d b od = rbind (deleteOrder_notify d b (oid od) False) (\<lambda>b1.
    let b2 = emit (OrderUpdated (activated od)) b1 in
    if isMarket (activated od) then addMarketOrder d b2 (activated od)
    else addLimitOrder d b2 (activated od))"
proof -
  have v: "d = Debug \<Longrightarrow> validateOrder od" using assms(1) by (rule order_ok_validate)
  note v' = validateOrder_activated [OF v assms(2)]
  show ?thesis
    using v v'
    by (cases "otype od")
      (use assms(2) in \<open>auto simp: activateStopOrder_def setStopPrice_def setTrailAmount_def
        setType_def Let_def activated_def check_def validateOrder_def stop_kind_def
        trailing_kind_def stop_fields_twist\<close>)
qed

end
