(* ===== verification/Activation_Proofs.thy ===== *)
theory Activation_Proofs
  imports Stop_Proofs
begin

text \<open>
  The activation loops on well-formed books: activating the front order of a stop level, and the
  loop over a map, which ends with no level left that the market price has reached.
\<close>

section \<open>Activating one order\<close>

definition stop_map :: "OrderSide \<Rightarrow> LevelMap \<Rightarrow> bool" where
  "stop_map s K \<longleftrightarrow> K = (if s = Ask then StopAskLevels else StopBidLevels) \<or> K = trailing_map s"

lemma stop_map_simps [simp]:
  "stop_map Bid StopBidLevels" "stop_map Bid TrailingStopBidLevels"
  "stop_map Ask StopAskLevels" "stop_map Ask TrailingStopAskLevels"
  by (simp_all add: stop_map_def trailing_map_def)

lemma stop_map_not:
  "stop_map s K \<Longrightarrow> \<not> limit_map K" "stop_map s K \<Longrightarrow> K \<noteq> NewTrailingLevels"
  by (auto simp: stop_map_def limit_map_def trailing_map_def split: if_splits)

lemma fits_stop_map:
  "stop_map s K \<Longrightarrow> fits K od \<Longrightarrow> stop_kind (otype od) \<and> side od = s"
  by (cases "otype od"; cases "side od"; cases s)
    (auto simp: stop_map_def fits_def erasing_map_def stop_kind_def trailing_kind_def trailing_map_def)

text \<open>What activations leave alone.\<close>

definition activation_rel :: "MapOrderBook \<Rightarrow> MapOrderBook \<Rightarrow> bool" where
  "activation_rel b b' \<longleftrightarrow>
     book_symbol_id b' = book_symbol_id b \<and> trailing_bid_price b' = trailing_bid_price b \<and>
     trailing_ask_price b' = trailing_ask_price b \<and>
     total_open b' \<le> total_open b \<and> stop_count b' \<le> stop_count b \<and>
     (\<forall>i. order_view b i = None \<longrightarrow> order_view b' i = None) \<and>
     (uncrossed b \<longrightarrow> uncrossed b')"

lemma activation_rel_refl [simp]: "activation_rel b b"
  by (simp add: activation_rel_def)

lemma activation_rel_trans:
  "activation_rel b b' \<Longrightarrow> activation_rel b' b'' \<Longrightarrow> activation_rel b b''"
  by (auto simp: activation_rel_def)

lemma book_ok_unlinked:
  assumes ok: "book_ok d b" and wf: "wf_book d b'"
    and ov: "order_view b' = (order_view b)(i := None)"
    and lv: "level_view b' = (level_view b)(it := level_after_unlink i q l)"
    and n: "fst it \<noteq> NewTrailingLevels"
  shows "book_ok d b'"
  by (rule book_okI [OF wf ov lv])
    (use ok n in \<open>auto simp: level_after_unlink_def book_ok_new split: if_splits
      dest: book_ok_nonempty book_ok_open\<close>)

lemma uncrossed_unlinked:
  assumes "uncrossed b" and "level_view b it = Some l"
    and "level_view b' = (level_view b)(it := x)"
  shows "uncrossed b'"
  by (rule uncrossed_mono [OF assms(1)]) (use assms(2,3) in auto)

text \<open>Deleting any order of a consistent book.\<close>

lemma book_ok_delete:
  assumes ok: "book_ok d b" and w: "order_view b i = Some w"
  obtains b' where "deleteOrder_notify d b i note = Inr b'" and "book_ok d b'"
    and "order_view b' = (order_view b)(i := None)"
    and "total_open b = unat (open_quantity (w_order w)) + total_open b'"
    and "stop_count b = (if stop_kind (otype (w_order w)) then 1 else 0) + stop_count b'"
    and "activation_rel b b'"
    and "\<forall>K p. (K, p) \<noteq> level_it w \<longrightarrow> level_view b' (K, p) = level_view b (K, p)"
    and "last_traded_price b' = last_traded_price b"
    and "events b' = events b @ (if note then [OrderDeleted (w_order w)] else [])"
proof -
  have n: "fst (level_it w) \<noteq> NewTrailingLevels" using ok w by (rule book_ok_home)
  obtain l b' where r: "level_view b (level_it w) = Some l"
      "deleteOrder_notify d b i note = Inr b'" "wf_book d b'"
      "order_view b' = (order_view b)(i := None)"
      "level_view b' = (level_view b)
         (level_it w := level_after_unlink i (open_quantity (w_order w)) l)"
      "orders b' = hm_erase i (orders b)"
      "total_open b = unat (open_quantity (w_order w)) + total_open b'"
      "last_traded_price b' = last_traded_price b"
      "trailing_bid_price b' = trailing_bid_price b"
      "trailing_ask_price b' = trailing_ask_price b"
      "book_symbol_id b' = book_symbol_id b"
      "events b' = events b @ (if note then [OrderDeleted (w_order w)] else [])"
    using deleteOrder_notify_ok [OF book_ok_wf [OF ok] w n] by metis
  have sc: "stop_count b = (if stop_kind (otype (w_order w)) then 1 else 0) + stop_count b'"
    using stop_count_erase [OF book_ok_wf [OF ok] w r(6)] .
  have "activation_rel b b'"
    using r sc uncrossed_unlinked [OF _ r(1,5)] by (auto simp: activation_rel_def)
  then show ?thesis
    using that [of b'] r sc book_ok_unlinked [OF ok r(3,4,5) n] by auto
qed

lemma activate_front_ok:
  assumes ok: "book_ok d b" and K: "stop_map s K" and l: "level_view b (K, p) = Some l"
  obtains b' where "activate_front d b l = Inr b'" and "book_ok d b'" and "activation_rel b b'"
    and "stop_count b' < stop_count b"
proof -
  obtain i rest w where fr: "lv_orders l = i # rest" "order_view b i = Some w" "level_it w = (K, p)"
      "wrapper_ok d (book_symbol_id b) i w" "open_quantity (w_order w) \<noteq> 0"
    using ok l by (rule book_ok_front)
  let ?od = "w_order w"
  have t: "stop_kind (otype ?od)" using fits_stop_map [OF K] fr(3,4) by (simp add: wrapper_ok_def)
  have od: "order_ok d ?od" "oid ?od = i" "symbol_id ?od = book_symbol_id b"
    using fr(4) by (simp_all add: wrapper_ok_def)
  obtain b1 where d: "deleteOrder_notify d b i False = Inr b1" "book_ok d b1"
      "order_view b1 = (order_view b)(i := None)"
      "total_open b = unat (open_quantity ?od) + total_open b1"
      "stop_count b = (if stop_kind (otype ?od) then 1 else 0) + stop_count b1"
      "activation_rel b b1"
    using ok fr(2) by (rule book_ok_delete)
  let ?b1 = "emit (OrderUpdated (activated ?od)) b1"
  have "total_open b < 18446744073709551616" using book_ok_wf [OF ok] by (simp add: wf_book_def)
  then have a: "addable d ?b1 ?od"
    using od d fr(5) by (simp add: addable_def activation_rel_def)
  obtain b' where b': "(if isMarket (activated ?od) then addMarketOrder d ?b1 (activated ?od)
      else addLimitOrder d ?b1 (activated ?od)) = Inr b'" "book_ok d b'" "add_rel ?b1 ?od b'"
    using add_activated_ok [OF _ a t] d(2) by auto
  have run: "activate_front d b l = Inr b'"
    using fr(1,2) od d(1) b'(1) activateStopOrder_eq [OF od(1) t]
    by (simp add: activate_front_def Level_front_def find_order_eq Let_def)
  have "order_view b' j = None" if "order_view b j = None" for j
    using that b'(3) d(3) fr(2) od(2) by (cases "j = i") (auto simp: add_rel_def)
  then have "activation_rel b b'"
    using d b'(3) t by (auto simp: activation_rel_def add_rel_def)
  moreover have "stop_count b' < stop_count b"
    using d(5) b'(3) t by (simp add: add_rel_def)
  ultimately show ?thesis using that run b'(2) by blast
qed

section \<open>The loop over a map\<close>

lemma next_stop_level_Some:
  assumes "wf_book d b" and "next_stop_level s K b = Some (p, l)"
  shows "level_view b (K, p) = Some l"
  using assms wf_book_om [OF assms(1), of K]
  by (auto simp: next_stop_level_def level_view_def om.first_Some om.final_Some split: if_splits)

text \<open>The level the loop looks at is the first one to be triggered.\<close>

lemma next_stop_level_triggered:
  assumes "wf_book d b" and "\<forall>p l. next_stop_level s K b = Some (p, l) \<longrightarrow> \<not> triggered s x p"
    and "level_view b (K, p) = Some l"
  shows "\<not> triggered s x p"
proof (cases s)
  case Ask
  have "\<forall>k v. om_rbegin (levels K b) = Some (k, v) \<longrightarrow> k < x"
    using assms(2) Ask by (auto simp: next_stop_level_def triggered_def not_le)
  then have "p < x"
    using om.final_below_iff [OF wf_book_om [OF assms(1)]] assms(3) by (auto simp: level_view_def)
  with Ask show ?thesis by (simp add: triggered_def)
next
  case Bid
  have "\<forall>k v. om_begin (levels K b) = Some (k, v) \<longrightarrow> x < k"
    using assms(2) Bid by (auto simp: next_stop_level_def triggered_def not_le)
  then have "x < p"
    using om.first_above_iff [OF wf_book_om [OF assms(1)]] assms(3) by (auto simp: level_view_def)
  with Bid show ?thesis by (simp add: triggered_def)
qed

lemma activation_loop_ok:
  assumes "book_ok d b" and "stop_map s K"
  shows "\<exists>b' a'. activation_loop d s K x b a = Some (Inr (b', a')) \<and> book_ok d b' \<and>
    activation_rel b b' \<and> (\<forall>p l. level_view b' (K, p) = Some l \<longrightarrow> \<not> triggered s x p) \<and>
    (b' = b \<and> a' = a \<or> a' \<and> stop_count b' < stop_count b)"
  using assms
proof (induction "stop_count b" arbitrary: b a rule: less_induct)
  case less
  note wf = book_ok_wf [OF less.prems(1)]
  show ?case
  proof (cases "\<exists>p l. next_stop_level s K b = Some (p, l) \<and> triggered s x p")
    case False
    then have "activation_loop d s K x b a = Some (Inr (b, a))"
      by (subst activation_loop.simps) (auto split: option.split)
    moreover have "\<forall>p l. level_view b (K, p) = Some l \<longrightarrow> \<not> triggered s x p"
      using next_stop_level_triggered [OF wf] False by blast
    ultimately show ?thesis using less.prems by auto
  next
    case True
    then obtain p l where n: "next_stop_level s K b = Some (p, l)" "triggered s x p" by blast
    obtain b1 where b1: "activate_front d b l = Inr b1" "book_ok d b1" "activation_rel b b1"
        "stop_count b1 < stop_count b"
      using less.prems next_stop_level_Some [OF wf n(1)] by (rule activate_front_ok)
    obtain b' a' where IH: "activation_loop d s K x b1 True = Some (Inr (b', a'))" "book_ok d b'"
        "activation_rel b1 b'" "\<forall>p l. level_view b' (K, p) = Some l \<longrightarrow> \<not> triggered s x p"
        "b' = b1 \<and> a' = True \<or> a' \<and> stop_count b' < stop_count b1"
      using less.hyps [OF b1(4,2) less.prems(2), of True] by auto
    have "activation_loop d s K x b a = Some (Inr (b', a'))"
      by (subst activation_loop.simps) (use n b1(1) IH(1) in simp)
    moreover have "a' \<and> stop_count b' < stop_count b" using IH(5) b1(4) by auto
    ultimately show ?thesis
      using IH(2,4) activation_rel_trans [OF b1(3) IH(3)] by blast
  qed
qed

text \<open>Both maps of a side: nothing was activated, and nothing could be, or a stop order is gone.\<close>

definition none_triggered :: "OrderSide \<Rightarrow> u64 \<Rightarrow> MapOrderBook \<Rightarrow> bool" where
  "none_triggered s x b \<longleftrightarrow>
     (\<forall>K p l. stop_map s K \<longrightarrow> level_view b (K, p) = Some l \<longrightarrow> \<not> triggered s x p)"

lemma none_triggeredI:
  assumes "\<forall>p l. level_view b (if s = Ask then StopAskLevels else StopBidLevels, p) = Some l \<longrightarrow>
      \<not> triggered s x p"
    and "\<forall>p l. level_view b (trailing_map s, p) = Some l \<longrightarrow> \<not> triggered s x p"
  shows "none_triggered s x b"
  using assms unfolding none_triggered_def stop_map_def by blast

definition market_price :: "OrderSide \<Rightarrow> MapOrderBook \<Rightarrow> u64" where
  "market_price s b = (if s = Ask then lastTradedPriceBid b else lastTradedPriceAsk b)"

definition activate_side :: "build \<Rightarrow> OrderSide \<Rightarrow> MapOrderBook \<Rightarrow> (MapOrderBook \<times> bool) res" where
  "activate_side d s b = (if s = Ask then activateAskStopOrders d b else activateBidStopOrders d b)"

lemma activate_side_eq:
  "activate_side d s b =
     rbind (returns (activation_loop d s (if s = Ask then StopAskLevels else StopBidLevels)
       (market_price s b) b False)) (\<lambda>(b1, a1).
     returns (activation_loop d s (trailing_map s) (market_price s b1) b1 a1))"
  by (cases s) (simp_all add: activate_side_def activateAskStopOrders_def activateBidStopOrders_def
      market_price_def trailing_map_def)

lemma activate_side_ok:
  assumes ok: "book_ok d b"
  shows "\<exists>b' a. activate_side d s b = Inr (b', a) \<and> book_ok d b' \<and> activation_rel b b' \<and>
    (\<not> a \<and> b' = b \<and> none_triggered s (market_price s b) b \<or> a \<and> stop_count b' < stop_count b)"
proof -
  let ?K = "if s = Ask then StopAskLevels else StopBidLevels"
  have K: "stop_map s ?K" "stop_map s (trailing_map s)" by (simp_all add: stop_map_def)
  obtain b1 a1 where 1: "activation_loop d s ?K (market_price s b) b False = Some (Inr (b1, a1))"
      "book_ok d b1" "activation_rel b b1"
      "\<forall>p l. level_view b1 (?K, p) = Some l \<longrightarrow> \<not> triggered s (market_price s b) p"
      "b1 = b \<and> a1 = False \<or> a1 \<and> stop_count b1 < stop_count b"
    using activation_loop_ok [OF ok K(1), of "market_price s b" False] by auto
  obtain b2 a2 where 2:
      "activation_loop d s (trailing_map s) (market_price s b1) b1 a1 = Some (Inr (b2, a2))"
      "book_ok d b2" "activation_rel b1 b2"
      "\<forall>p l. level_view b2 (trailing_map s, p) = Some l \<longrightarrow> \<not> triggered s (market_price s b1) p"
      "b2 = b1 \<and> a2 = a1 \<or> a2 \<and> stop_count b2 < stop_count b1"
    using activation_loop_ok [OF 1(2) K(2), of "market_price s b1" a1] by auto
  have run: "activate_side d s b = Inr (b2, a2)"
    using 1(1) 2(1) by (simp add: activate_side_eq)
  have "stop_count b1 \<le> stop_count b" using 1(3) by (simp add: activation_rel_def)
  then have "\<not> a2 \<and> b2 = b \<and> none_triggered s (market_price s b) b \<or> a2 \<and> stop_count b2 < stop_count b"
    using 1(4,5) 2(4,5) none_triggeredI [of b s "market_price s b"] by auto
  with run 2(2) activation_rel_trans [OF 1(3) 2(3)] show ?thesis by blast
qed

end
