(* ===== verification/Update_Proofs.thy ===== *)
theory Update_Proofs
  imports Activation_Proofs
begin

text \<open>
  Moving the trailing stop orders when the market price moves, on well-formed books: every order
  of the side is taken from its level and linked into the level of its new stop price, nothing
  else of the book changes, and the book is consistent again after the swap.
\<close>

section \<open>The new stop price\<close>

definition new_stop :: "OrderSide \<Rightarrow> MapOrderBook \<Rightarrow> u64 \<Rightarrow> u64" where
  "new_stop s b t =
     (if s = Ask then (if t < lastTradedPriceBid b then lastTradedPriceBid b - t else 0)
      else (if lastTradedPriceAsk b < u64_max - t then lastTradedPriceAsk b + t else u64_max))"

lemma new_stop_frame [simp]:
  "new_stop s (emit e b) t = new_stop s b t"
  "new_stop s (store_level it l b) t = new_stop s b t"
  "new_stop s (store_order i od b) t = new_stop s b t"
  by (simp_all add: new_stop_def lastTradedPriceAsk_def lastTradedPriceBid_def)

lemma calculateStopPrice_eq:
  assumes "order_ok d od"
  shows "calculateStopPrice d b od = Inr (od\<lparr>stop_price := new_stop (side od) b (trail_amount od)\<rparr>)"
  using assms
  by (cases "side od") (auto simp: calculateStopPrice_def new_stop_def setStopPrice_def Let_def check_def
      dest: order_ok_validate)

lemma calculateStopPrice_ok [simp]:
  "order_ok d od \<Longrightarrow> order_ok d (od\<lparr>stop_price := p\<rparr>)"
  by (simp add: order_ok_def quantity_ok_def)

text \<open>A positive trail keeps the new stop price off the market price, on the right side.\<close>

lemma new_stop_not_triggered:
  assumes t: "0 < t" and ask: "s = Ask \<Longrightarrow> market_price Ask b \<noteq> 0"
    and bid: "s = Bid \<Longrightarrow> market_price Bid b \<noteq> u64_max"
  shows "\<not> triggered s (market_price s b) (new_stop s b t)"
proof (cases s)
  case Ask
  let ?m = "lastTradedPriceBid b"
  have "?m - t < ?m" if "t < ?m"
    using that t by (simp add: word_less_nat_alt unat_sub_le word_le_nat_alt)
  with Ask ask show ?thesis
    by (auto simp: new_stop_def triggered_def market_price_def not_le word_gt_0)
next
  case Bid
  let ?m = "lastTradedPriceAsk b"
  have "?m < ?m + t" if "?m < u64_max - t"
  proof -
    have "unat ?m < unat u64_max - unat t"
      using that unat_sub_le [OF u64_le_max [of t]] by (simp add: word_less_nat_alt)
    then have "unat (?m + t) = unat ?m + unat t"
      by (intro unat_add_u64) (simp add: unat_u64_max)
    then show ?thesis using t by (simp add: word_less_nat_alt)
  qed
  moreover have "?m < u64_max"
    using bid Bid u64_le_max [of ?m] by (auto simp: market_price_def order_less_le)
  ultimately show ?thesis using Bid
    by (auto simp: new_stop_def triggered_def market_price_def not_le)
qed

section \<open>In the middle of a move\<close>

text \<open>
  The old levels of the side may be empty; the new ones hold orders of the side.
\<close>

definition moving :: "build \<Rightarrow> OrderSide \<Rightarrow> MapOrderBook \<Rightarrow> bool" where
  "moving d s b \<longleftrightarrow>
     wf_book d b \<and>
     (\<forall>i w. order_view b i = Some w \<longrightarrow> open_quantity (w_order w) \<noteq> 0) \<and>
     (\<forall>K p l. level_view b (K, p) = Some l \<longrightarrow> K \<noteq> trailing_map s \<longrightarrow> lv_orders l \<noteq> []) \<and>
     (\<forall>p l. level_view b (NewTrailingLevels, p) = Some l \<longrightarrow> lv_side l = level_side s)"

text \<open>An order of the side after its move.\<close>

definition moved_wrapper :: "OrderSide \<Rightarrow> MapOrderBook \<Rightarrow> OrderWrapper \<Rightarrow> OrderWrapper" where
  "moved_wrapper s b w =
     (let np = new_stop s b (trail_amount (w_order w)) in
      \<lparr>w_order = (w_order w)\<lparr>stop_price := np\<rparr>, level_it = (NewTrailingLevels, np)\<rparr>)"

text \<open>
  What a move leaves alone: everything but the levels of the side, and of its orders everything
  but the stop price.
\<close>

definition move_rel :: "OrderSide \<Rightarrow> MapOrderBook \<Rightarrow> MapOrderBook \<Rightarrow> bool" where
  "move_rel s b b' \<longleftrightarrow>
     book_symbol_id b' = book_symbol_id b \<and> last_traded_price b' = last_traded_price b \<and>
     trailing_bid_price b' = trailing_bid_price b \<and>
     trailing_ask_price b' = trailing_ask_price b \<and>
     total_open b' = total_open b \<and> stop_count b' = stop_count b \<and>
     (\<forall>i. order_view b i = None \<longrightarrow> order_view b' i = None) \<and>
     (\<forall>i w. order_view b i = Some w \<longrightarrow> order_view b' i = Some w \<or>
        fst (level_it w) = trailing_map s \<and> order_view b' i = Some (moved_wrapper s b w)) \<and>
     (\<forall>K p. K \<noteq> trailing_map s \<longrightarrow> K \<noteq> NewTrailingLevels \<longrightarrow>
        level_view b' (K, p) = level_view b (K, p))"

lemma move_rel_refl [simp]: "move_rel s b b"
  by (simp add: move_rel_def)

lemma new_stop_cong: "last_traded_price b' = last_traded_price b \<Longrightarrow> new_stop s b' t = new_stop s b t"
  by (simp add: new_stop_def lastTradedPriceAsk_def lastTradedPriceBid_def)

lemma move_rel_trans:
  assumes 1: "move_rel s b b'" and 2: "move_rel s b' b''"
  shows "move_rel s b b''"
proof -
  have "last_traded_price b' = last_traded_price b" using 1 by (simp add: move_rel_def)
  then have m: "moved_wrapper s b' w = moved_wrapper s b w" for w
    by (simp only: moved_wrapper_def new_stop_cong [of b' b])
  have n: "fst (level_it (moved_wrapper s b w)) \<noteq> trailing_map s" for w
    by (simp add: moved_wrapper_def Let_def)
  have "order_view b'' i = Some w \<or>
      fst (level_it w) = trailing_map s \<and> order_view b'' i = Some (moved_wrapper s b w)"
    if w: "order_view b i = Some w" for i w
  proof -
    have step: "order_view b'' i = Some v \<or>
        fst (level_it v) = trailing_map s \<and> order_view b'' i = Some (moved_wrapper s b v)"
      if "order_view b' i = Some v" for v
      using 2 that by (simp add: move_rel_def m)
    have "order_view b' i = Some w \<or>
        fst (level_it w) = trailing_map s \<and> order_view b' i = Some (moved_wrapper s b w)"
      using 1 w by (simp add: move_rel_def)
    then show ?thesis using step [of w] step [of "moved_wrapper s b w"] n [of w] by auto
  qed
  with 1 2 show ?thesis by (simp add: move_rel_def)
qed

text \<open>The price of every new level is the new stop price of a positive trail amount.\<close>

definition new_keys_ok :: "OrderSide \<Rightarrow> MapOrderBook \<Rightarrow> bool" where
  "new_keys_ok s b \<longleftrightarrow> (\<forall>p. level_view b (NewTrailingLevels, p) \<noteq> None \<longrightarrow>
     (\<exists>t. 0 < t \<and> p = new_stop s b t))"

section \<open>Moving the front order of a level\<close>

lemma hm_store_twice [simp]: "hm_store i v (hm_store i u m) = hm_store i v m"
  by (simp add: hm_store_def case_prod_unfold)

lemma hm_total_same:
  assumes "hm_inv m" and "hm_find i m = Some v" and "f v' = f v"
  shows "hm_total f (hm_store i v' m) = hm_total f m"
  using hm.total_store [OF assms(1,2), of f v'] assms(3) by simp

lemma wrapper_ok_trailing:
  assumes "wrapper_ok d sid i w" and "fst (level_it w) = trailing_map s"
  shows "trailing_kind (otype (w_order w))" and "side (w_order w) = s"
    and "0 < trail_amount (w_order w)" and "order_ok d (w_order w)" and "oid (w_order w) = i"
    and "symbol_id (w_order w) = sid"
proof -
  have o: "order_ok d (w_order w)" "oid (w_order w) = i" "symbol_id (w_order w) = sid"
    "fits (trailing_map s) (w_order w)"
    using assms by (simp_all add: wrapper_ok_def)
  then have "trailing_kind (otype (w_order w)) \<and> side (w_order w) = s"
    by (cases "otype (w_order w)"; cases "side (w_order w)"; cases s)
      (auto simp: fits_def erasing_map_def trailing_kind_def trailing_map_def)
  with o show "trailing_kind (otype (w_order w))" "side (w_order w) = s"
    "0 < trail_amount (w_order w)" "order_ok d (w_order w)" "oid (w_order w) = i"
    "symbol_id (w_order w) = sid"
    by (auto simp: order_ok_def)
qed

text \<open>The two views after the front order has been moved, and that they are well formed.\<close>

lemma wrapper_ok_moved:
  assumes "wrapper_ok d sid i w" and "fst (level_it w) = trailing_map s"
  shows "wrapper_ok d sid i (moved_wrapper s b w)"
  using wrapper_ok_trailing [OF assms]
  by (auto simp: wrapper_ok_def moved_wrapper_def Let_def fits_def level_price_of_def trailing_kind_def)

lemma views_move_front:
  assumes V: "views_ok d sid ov lv" and w: "ov i = Some w" and l: "lv (level_it w) = Some l"
    and K: "level_it w = (trailing_map s, p)" and w': "w' = moved_wrapper s b w"
    and side: "\<forall>p m. lv (NewTrailingLevels, p) = Some m \<longrightarrow> lv_side m = level_side s"
    and q: "q = open_quantity (w_order w)" and np: "np = snd (level_it w')"
    and nl: "nl = level_or_new np (level_side s) sid (lv (NewTrailingLevels, np))"
  shows "views_ok d sid (ov(i := None)) (lv(level_it w \<mapsto> unlink_level i q l))"
    and "i \<notin> set (lv_orders nl)" and "lv_side nl = level_side s" and "lv_symbol_id nl = sid"
    and "views_ok d sid (ov(i \<mapsto> w'))
      (lv(level_it w \<mapsto> unlink_level i q l, (NewTrailingLevels, np) \<mapsto> link_level i q nl))"
proof -
  let ?lv = "lv(level_it w \<mapsto> unlink_level i q l)"
  show V1: "views_ok d sid (ov(i := None)) ?lv" unfolding q using V w l by (rule views_unlink)
  have "map_side_ok NewTrailingLevels (level_side s)" by (simp add: map_side_ok_def)
  from views_emplace_level [OF V1 this, of np]
  have V2: "views_ok d sid (ov(i := None)) (?lv((NewTrailingLevels, np) \<mapsto> nl))"
    by (simp add: nl K)
  show side': "lv_side nl = level_side s"
    using side by (cases "lv (NewTrailingLevels, np)") (auto simp: nl level_or_new_def newLevel_def)
  show "i \<notin> set (lv_orders nl)"
    using views_absent [OF V2, of i "(NewTrailingLevels, np)" nl] by simp
  show "lv_symbol_id nl = sid"
    using views_level [OF V2, of "(NewTrailingLevels, np)" nl] by (simp add: level_ok_def)
  note wr = views_wrapper [OF V w]
  have "side (w_order w) = s" using wrapper_ok_trailing(2) [OF wr] K by simp
  then have w'': "wrapper_ok d sid i w'" "level_it w' = (NewTrailingLevels, np)"
      "open_quantity (w_order w') = q" "side (w_order w') = s"
    using wrapper_ok_moved [OF wr] K by (simp_all add: w' np moved_wrapper_def Let_def q)
  have "views_ok d sid ((ov(i := None))(i \<mapsto> w'))
      ((?lv((NewTrailingLevels, np) \<mapsto> nl))((NewTrailingLevels, np) \<mapsto>
        link_level i (open_quantity (w_order w')) nl))"
    by (rule views_link [OF V2 _ _ w''(1,2)]) (use side' w'' in auto)
  then show "views_ok d sid (ov(i \<mapsto> w'))
      (lv(level_it w \<mapsto> unlink_level i q l, (NewTrailingLevels, np) \<mapsto> link_level i q nl))"
    by (simp add: w''(3))
qed

lemma moved_book_ok:
  assumes wf: "wf_book d b" and w: "order_view b i = Some w" "level_it w = (trailing_map s, p)"
    and l: "level_view b (trailing_map s, p) = Some l"
    and side: "\<forall>x m. level_view b (NewTrailingLevels, x) = Some m \<longrightarrow> lv_side m = level_side s"
    and defs: "w' = moved_wrapper s b w" "q = open_quantity (w_order w)" "np = snd (level_it w')"
      "nl = level_or_new np (level_side s) (book_symbol_id b) (level_view b (NewTrailingLevels, np))"
    and b3: "b3 = (let b1 = store_order i (w_order w') b;
        b2 = set_levels NewTrailingLevels (om_emplace np (newLevel np (level_side s) (book_symbol_id b))
          (levels NewTrailingLevels b1)) b1
      in b2\<lparr>orders := hm_store i w' (orders b2)\<rparr>)"
    and b4: "b4 = store_level (trailing_map s, p) (unlink_level i q l) b3"
    and b5: "b5 = store_level (NewTrailingLevels, np) (link_level i q nl) b4"
  shows "wf_book d b5" and "order_view b3 = (order_view b)(i \<mapsto> w')" and "order_view b5 = (order_view b)(i \<mapsto> w')"
    and "level_view b4 = (level_view b)((NewTrailingLevels, np) \<mapsto> nl, (trailing_map s, p) \<mapsto> unlink_level i q l)"
    and "level_view b5 = (level_view b)((trailing_map s, p) \<mapsto> unlink_level i q l,
      (NewTrailingLevels, np) \<mapsto> link_level i q nl)"
    and "total_open b5 = total_open b" and "stop_count b5 = stop_count b"
proof -
  note V = wf_book_views [OF wf]
  let ?N = NewTrailingLevels and ?lv = "level_view b" and ?b1 = "store_order i (w_order w') b"
  let ?ul = "unlink_level i q l" and ?ll = "link_level i q nl"
  note new = levels.simps(7) set_levels.simps(7)
  have l': "?lv (level_it w) = Some l" using l w by simp
  note vm = views_move_front [OF V w(1) l' w(2) defs(1) side defs(2,3,4)]
  have w'_eq: "w' = \<lparr>w_order = (w_order w)\<lparr>stop_price := np\<rparr>, level_it = (?N, np)\<rparr>"
    by (simp add: defs(1,3) moved_wrapper_def Let_def)
  have om: "\<forall>K. om_inv (levels K b)" using wf by (simp add: wf_book_def)
  have hf: "hm_inv (orders b)" "hm_find i (orders b) = Some w"
    using wf w(1) by (simp_all add: wf_book_def order_view_def)
  have ords: "orders b3 = hm_store i w' (orders b)"
    using hf by (simp add: b3 store_order_def Let_def del: new)
  show ov3: "order_view b3 = (order_view b)(i \<mapsto> w')"
    using hf unfolding order_view_def ords by (auto simp: hm.find_store)
  have lv3: "level_view b3 = ?lv((?N, np) \<mapsto> nl)"
    using level_view_emplace [of ?N ?b1 np "newLevel np (level_side s) (book_symbol_id b)"] om
    by (auto simp: b3 Let_def defs(4) level_or_new_def fun_eq_iff simp del: new split: option.split)
  show lv4: "level_view b4 = ?lv((?N, np) \<mapsto> nl, (trailing_map s, p) \<mapsto> ?ul)"
    using level_view_store_level [of b3 "(trailing_map s, p)" l ?ul] l unfolding b4 lv3 by simp
  show lv5: "level_view b5 = ?lv((trailing_map s, p) \<mapsto> ?ul, (?N, np) \<mapsto> ?ll)"
    using level_view_store_level [of b4 "(?N, np)" nl ?ll] unfolding lv4 b5
    by (simp add: fun_upd_twist [of "(?N, np)"])
  show ov5: "order_view b5 = (order_view b)(i \<mapsto> w')" using ov3 by (simp add: b4 b5 del: new)
  have V5: "views_ok d (book_symbol_id b) (order_view b5) (level_view b5)"
    unfolding ov5 lv5 using vm(5) by (simp add: w(2))
  have ords5: "orders b5 = hm_store i w' (orders b)" by (simp add: b4 b5 ords)
  show tot: "total_open b5 = total_open b" "stop_count b5 = stop_count b"
    using hm_total_same [OF hf] by (simp_all add: total_open_def stop_count_def ords5 w'_eq)
  show "wf_book d b5"
    using wf V5 om ords5 tot
    by (auto simp: wf_book_def b3 b4 b5 Let_def hm.inv_store om.inv_emplace simp del: new)
qed

lemma move_front_run:
  assumes mv: "moving d s b" and l: "level_view b (trailing_map s, p) = Some l"
    and ne: "lv_orders l \<noteq> []"
  obtains b' i w w' nl where "move_front d s p b = Inr b'" and "wf_book d b'"
    and "order_view b i = Some w" and "level_it w = (trailing_map s, p)"
    and "w' = moved_wrapper s b w" and "0 < trail_amount (w_order w)"
    and "order_view b' = (order_view b)(i \<mapsto> w')"
    and "level_view b' = (level_view b)
      ((trailing_map s, p) \<mapsto> unlink_level i (open_quantity (w_order w)) l,
       level_it w' \<mapsto> link_level i (open_quantity (w_order w)) nl)"
    and "lv_side nl = level_side s"
    and "total_open b' = total_open b" and "stop_count b' = stop_count b"
    and "book_symbol_id b' = book_symbol_id b" and "last_traded_price b' = last_traded_price b"
    and "trailing_bid_price b' = trailing_bid_price b"
    and "trailing_ask_price b' = trailing_ask_price b"
    and "events b' = events b @ [OrderUpdated (w_order w')]"
proof -
  have wf: "wf_book d b" using mv by (simp add: moving_def)
  note V = wf_book_views [OF wf]
  let ?sid = "book_symbol_id b" and ?ov = "order_view b" and ?lv = "level_view b"
  let ?N = NewTrailingLevels
  obtain i rest where i: "lv_orders l = i # rest" using ne by (cases "lv_orders l") auto
  obtain w where w: "?ov i = Some w" "level_it w = (trailing_map s, p)"
    using views_member [OF V l, of i] i by auto
  have l': "?lv (level_it w) = Some l" using l w by simp
  note wr = views_wrapper [OF V w(1)]
  have tr: "side (w_order w) = s" "0 < trail_amount (w_order w)" "order_ok d (w_order w)"
      "oid (w_order w) = i" "symbol_id (w_order w) = ?sid"
    using wrapper_ok_trailing [OF wr] w(2) by simp_all
  define w' where "w' = moved_wrapper s b w"
  define np where "np = snd (level_it w')"
  define q where "q = open_quantity (w_order w)"
  define nl where "nl = level_or_new np (level_side s) ?sid (?lv (?N, np))"
  have np: "np = new_stop s b (trail_amount (w_order w))"
    by (simp add: np_def w'_def moved_wrapper_def Let_def)
  have w'_eq: "w' = \<lparr>w_order = (w_order w)\<lparr>stop_price := np\<rparr>, level_it = (?N, np)\<rparr>"
    by (simp add: w'_def moved_wrapper_def Let_def np)
  have side: "\<forall>x m. ?lv (?N, x) = Some m \<longrightarrow> lv_side m = level_side s"
    using mv by (simp add: moving_def)
  note vm = views_move_front [OF V w(1) l' w(2) w'_def side q_def np_def nl_def]
  let ?so = "w_order w'"
  let ?b1 = "store_order i ?so b"
  let ?b2 = "set_levels ?N (om_emplace np (newLevel np (level_side s) ?sid) (levels ?N ?b1)) ?b1"
  let ?b3 = "?b2\<lparr>orders := hm_store i w' (orders ?b2)\<rparr>"
  let ?ul = "unlink_level i q l" and ?ll = "link_level i q nl"
  let ?b4 = "store_level (trailing_map s, p) ?ul ?b3"
  let ?b5 = "store_level (?N, np) ?ll ?b4"
  let ?b = "emit (OrderUpdated ?so) ?b5"
  note new = levels.simps(7) set_levels.simps(7)
  note moved = moved_book_ok [OF wf w l side w'_def q_def np_def nl_def, unfolded Let_def, OF refl refl refl]
  note ov3 = moved(2) and ov5 = moved(3) and lv4 = moved(4) and lv5 = moved(5)
  have V1: "views_ok d ?sid (?ov(i := None)) (?lv((trailing_map s, p) \<mapsto> ?ul))"
    using vm(1) by (simp add: w(2))
  have V5: "views_ok d ?sid (order_view ?b5) (level_view ?b5)"
    unfolding ov5 lv5 using vm(5) by (simp add: w(2))
  have dist: "distinct (lv_orders l)" using views_level [OF V l] by (simp add: level_ok_def)
  then have ul: "?ul = l\<lparr>lv_volume := lv_volume l - q, lv_orders := rest\<rparr>" "i \<notin> set rest"
    using i by (simp_all add: unlink_level_def)
  have heap3: "book_heap ?b3 = view_heap (?ov(i \<mapsto> w'))"
    unfolding book_heap_view ov3 ..
  have qw: "open_of (book_heap ?b3) i = q"
    unfolding heap3 by (simp add: open_of_def view_heap_def w'_eq q_def)
  have "validateLevel (view_heap (?ov(i := None))) ?ul"
    by (rule views_validateLevel [OF V1, of "(trailing_map s, p)"]) simp
  then have "validateLevel (book_heap ?b3) ?ul"
    unfolding heap3 using ul
    by (subst validateLevel_cong [where h' = "view_heap (?ov(i := None))"])
      (auto simp: view_heap_def)
  then have pop: "Level_popFront d (book_heap ?b3) l = Inr ?ul"
    using i qw ul by (simp add: Level_popFront_eq_Inr del: new)
  have heap4: "book_heap ?b4 = view_heap (order_view ?b5)"
    by (simp add: book_heap_view del: new)
  have "validateLevel (view_heap (order_view ?b5)) ?ll"
    by (rule views_validateLevel [OF V5, of "(?N, np)"]) (simp only: lv5 fun_upd_same)
  then have add: "Level_addOrder d (book_heap ?b4) ?so nl = Inr ?ll"
    unfolding heap4 using vm(2,3,4) tr
    by (cases s) (auto simp: Level_addOrder_eq_Inr link_level_def w'_eq q_def level_side_def)
  have calc: "calculateStopPrice d b (w_order w) = Inr ?so" "getStopPrice ?so = np"
    using calculateStopPrice_eq [OF tr(3)] by (simp_all add: w'_eq np tr(1))
  have b2: "?b1\<lparr>new_trailing_levels := om_emplace np
      (newLevel np (level_side s) (book_symbol_id ?b1)) (new_trailing_levels ?b1)\<rparr> = ?b2"
    using levels_set_levels [of ?N ?N "[]" ?b1] by (simp add: store_order_def split: option.split)
  have w'': "\<lparr>w_order = ?so, level_it = (?N, np)\<rparr> = w'" by (simp add: w'_eq)
  have fl: "find_level ?b4 (?N, np) = Inr nl" by (simp only: find_level_eq lv4) simp
  have run: "move_front d s p b = Inr ?b"
    using l i w(1) unfolding move_front_def
    by (simp only: find_level_eq find_order_eq deref_simps rbind_simps Let_def
        Level_front_eq_Inr [THEN iffD2, OF exI, OF i] calc b2 w'' pop fl [unfolded find_level_eq] add)
  have w'_it: "level_it w' = (?N, np)" by (simp add: w'_eq)
  show ?thesis
    by (rule that [of ?b i w w' nl])
      (use run moved(1,6,7) w w'_def tr(2) ov5 lv5 w'_it q_def vm(3) in \<open>simp_all del: new\<close>)
qed

lemma move_front_ok:
  assumes mv: "moving d s b" and l: "level_view b (trailing_map s, p) = Some l"
    and ne: "lv_orders l \<noteq> []" and keys: "new_keys_ok s b"
  obtains b' where "move_front d s p b = Inr b'" and "moving d s b'" and "move_rel s b b'"
    and "new_keys_ok s b'"
    and "\<forall>p'. (level_view b' (trailing_map s, p') = None) = (level_view b (trailing_map s, p') = None)"
    and "\<forall>p'. p' \<noteq> p \<longrightarrow> level_view b' (trailing_map s, p') = level_view b (trailing_map s, p')"
proof -
  obtain b' i w w' nl where r: "move_front d s p b = Inr b'" "wf_book d b'"
      "order_view b i = Some w" "level_it w = (trailing_map s, p)"
      "w' = moved_wrapper s b w" "0 < trail_amount (w_order w)"
      "order_view b' = (order_view b)(i \<mapsto> w')"
      "level_view b' = (level_view b)
        ((trailing_map s, p) \<mapsto> unlink_level i (open_quantity (w_order w)) l,
         level_it w' \<mapsto> link_level i (open_quantity (w_order w)) nl)"
      "lv_side nl = level_side s" "total_open b' = total_open b" "stop_count b' = stop_count b"
      "book_symbol_id b' = book_symbol_id b" "last_traded_price b' = last_traded_price b"
      "trailing_bid_price b' = trailing_bid_price b"
      "trailing_ask_price b' = trailing_ask_price b"
    using move_front_run [OF mv l ne] by metis
  let ?np = "new_stop s b (trail_amount (w_order w))"
  have w': "level_it w' = (NewTrailingLevels, ?np)" "w_order w' = (w_order w)\<lparr>stop_price := ?np\<rparr>"
    by (simp_all add: r(5) moved_wrapper_def Let_def)
  have "moving d s b'"
    unfolding moving_def r(7,8) w'(1)
    using mv r(2,3,9) w'(2) by (auto simp: moving_def link_level_def)
  moreover have "move_rel s b b'"
    using r w' unfolding move_rel_def by auto
  moreover have "new_stop s b' t = new_stop s b t" for t
    using r(13) by (simp add: new_stop_def lastTradedPriceAsk_def lastTradedPriceBid_def)
  then have "new_keys_ok s b'"
    using keys r(6) unfolding new_keys_ok_def r(8) w'(1) by auto
  ultimately show ?thesis using r(1) w'(1) l by (intro that) (auto simp: r(8) split: if_splits)
qed

section \<open>Moving all levels of a side\<close>

text \<open>The levels of the side among \<open>ps\<close> are drained; the others are as they were.\<close>

definition move_state :: "build \<Rightarrow> OrderSide \<Rightarrow> MapOrderBook \<Rightarrow> MapOrderBook \<Rightarrow> bool" where
  "move_state d s b b' \<longleftrightarrow> moving d s b' \<and> move_rel s b b' \<and> new_keys_ok s b' \<and>
     (\<forall>p. (level_view b' (trailing_map s, p) = None) = (level_view b (trailing_map s, p) = None))"

lemma move_state_trans: "move_state d s b b' \<Longrightarrow> move_state d s b' b'' \<Longrightarrow> move_state d s b b''"
  unfolding move_state_def using move_rel_trans by blast

lemma move_level_ok:
  assumes "moving d s b" and "new_keys_ok s b" and "level_view b (trailing_map s, p) \<noteq> None"
  shows "\<exists>b' l. move_level d s p b = Inr b' \<and> move_state d s b b' \<and>
    level_view b' (trailing_map s, p) = Some l \<and> lv_orders l = [] \<and>
    (\<forall>p'. p' \<noteq> p \<longrightarrow> level_view b' (trailing_map s, p') = level_view b (trailing_map s, p'))"
  using assms
proof (induction "level_length s p b" arbitrary: b rule: less_induct)
  case less
  then obtain l where l: "level_view b (trailing_map s, p) = Some l" by blast
  then have f: "find_level b (trailing_map s, p) = Inr l" by (simp add: find_level_eq)
  show ?case
  proof (cases "lv_orders l = []")
    case True
    then have "move_level d s p b = Inr b" using f by (simp add: move_level.simps)
    with True l less.prems show ?thesis by (auto simp: move_state_def)
  next
    case False
    obtain b1 where b1: "move_front d s p b = Inr b1" "moving d s b1" "move_rel s b b1"
        "new_keys_ok s b1" "\<forall>p'. (level_view b1 (trailing_map s, p') = None)
          = (level_view b (trailing_map s, p') = None)"
        "\<forall>p'. p' \<noteq> p \<longrightarrow> level_view b1 (trailing_map s, p') = level_view b (trailing_map s, p')"
      using less.prems(1) l False less.prems(2) by (rule move_front_ok)
    have "level_view b1 (trailing_map s, p) \<noteq> None" using b1(5) l by simp
    from less.hyps [OF level_length_move_front [OF b1(1)] b1(2,4) this]
    obtain b' l' where IH: "move_level d s p b1 = Inr b'" "move_state d s b1 b'"
        "level_view b' (trailing_map s, p) = Some l'" "lv_orders l' = []"
        "\<forall>p'. p' \<noteq> p \<longrightarrow> level_view b' (trailing_map s, p') = level_view b1 (trailing_map s, p')"
      by blast
    have "move_level d s p b = Inr b'"
      using f False b1(1) IH(1) by (subst move_level.simps) simp
    moreover have "move_state d s b b1" unfolding move_state_def using b1(2,3,4,5) by blast
    then have "move_state d s b b'" using IH(2) by (rule move_state_trans)
    ultimately show ?thesis using IH(3,4,5) b1(6) by auto
  qed
qed

lemma move_levels_ok:
  assumes "moving d s b" and "new_keys_ok s b"
    and "\<forall>p \<in> set ps. level_view b (trailing_map s, p) \<noteq> None" and "distinct ps"
  shows "\<exists>b'. move_levels d s ps b = Inr b' \<and> move_state d s b b' \<and>
    (\<forall>p l. level_view b' (trailing_map s, p) = Some l \<longrightarrow> p \<in> set ps \<longrightarrow> lv_orders l = []) \<and>
    (\<forall>p. p \<notin> set ps \<longrightarrow> level_view b' (trailing_map s, p) = level_view b (trailing_map s, p))"
  using assms
proof (induction ps arbitrary: b)
  case Nil
  then show ?case by (auto simp: move_state_def)
next
  case (Cons p ps)
  then obtain b1 l1 where b1: "move_level d s p b = Inr b1" "move_state d s b b1"
      "level_view b1 (trailing_map s, p) = Some l1" "lv_orders l1 = []"
      "\<forall>p'. p' \<noteq> p \<longrightarrow> level_view b1 (trailing_map s, p') = level_view b (trailing_map s, p')"
    using move_level_ok [OF Cons.prems(1,2), of p] by auto
  have "\<forall>p' \<in> set ps. level_view b1 (trailing_map s, p') \<noteq> None"
    using Cons.prems(3) b1(2) by (simp add: move_state_def)
  then obtain b' where b': "move_levels d s ps b1 = Inr b'" "move_state d s b1 b'"
      "\<forall>p l. level_view b' (trailing_map s, p) = Some l \<longrightarrow> p \<in> set ps \<longrightarrow> lv_orders l = []"
      "\<forall>p. p \<notin> set ps \<longrightarrow> level_view b' (trailing_map s, p) = level_view b1 (trailing_map s, p)"
    using Cons.IH [of b1] b1(2) Cons.prems(4) by (auto simp: move_state_def)
  have "move_levels d s (p # ps) b = Inr b'" using b1(1) b'(1) by simp
  moreover have "lv_orders l = []"
    if "level_view b' (trailing_map s, x) = Some l" "x \<in> set (p # ps)" for x l
    using that b'(3,4) b1(3,4) Cons.prems(4) by auto
  ultimately show ?case
    using move_state_trans [OF b1(2) b'(2)] b'(4) b1(5) by auto
qed

section \<open>The swap\<close>

definition swap_it :: "OrderSide \<Rightarrow> level_iterator \<Rightarrow> level_iterator" where
  "swap_it s it = (swap_tag s (fst it), snd it)"

lemma swap_tag_involutive [simp]: "swap_tag s (swap_tag s K) = K"
  by (auto simp: swap_tag_def)

lemma swap_it_eq_iff: "swap_it s it = it' \<longleftrightarrow> it = swap_it s it'"
  by (cases it; cases it') (auto simp: swap_it_def)

lemma swap_it_involutive [simp]: "swap_it s (swap_it s it) = it"
  by (simp add: swap_it_def)

lemma map_of_map_values:
  "map_of (map (\<lambda>(i, w). (i, f w)) m) = map_option f \<circ> map_of m"
  by (induction m) (auto simp: fun_eq_iff)

lemma order_view_swap:
  "order_view (swap_trailing s b) i
    = map_option (\<lambda>w. w\<lparr>level_it := swap_it s (level_it w)\<rparr>) (order_view b i)"
proof -
  have "orders (swap_trailing s b)
      = map (\<lambda>(i, w). (i, w\<lparr>level_it := swap_it s (level_it w)\<rparr>)) (orders b)"
    by (cases s) (simp_all add: swap_trailing_def trailing_map_def swap_it_def)
  then show ?thesis
    by (simp add: order_view_def hm_find_def map_of_map_values)
qed

lemma level_view_swap:
  "level_view (swap_trailing s b) (K, p) =
     (if K = NewTrailingLevels then None
      else if K = trailing_map s then level_view b (NewTrailingLevels, p)
      else level_view b (K, p))"
  by (cases s; cases K) (simp_all add: level_view_def swap_trailing_def trailing_map_def)

lemma swap_trailing_frame [simp]:
  "book_symbol_id (swap_trailing s b) = book_symbol_id b"
  "last_traded_price (swap_trailing s b) = last_traded_price b"
  "trailing_bid_price (swap_trailing s b) = trailing_bid_price b"
  "trailing_ask_price (swap_trailing s b) = trailing_ask_price b"
  "events (swap_trailing s b) = events b"
  "total_open (swap_trailing s b) = total_open b"
  "stop_count (swap_trailing s b) = stop_count b"
  by (cases s; simp add: swap_trailing_def trailing_map_def total_open_def stop_count_def
      hm_total_def comp_def case_prod_unfold)+

lemma wrapper_ok_swap:
  assumes w: "wrapper_ok d sid i w" and K: "fst (level_it w) \<noteq> trailing_map s"
    and side: "fst (level_it w) = NewTrailingLevels \<Longrightarrow> side (w_order w) = s"
  shows "wrapper_ok d sid i (w\<lparr>level_it := swap_it s (level_it w)\<rparr>)"
proof -
  have "fits (swap_tag s (fst (level_it w))) (w_order w)"
    using w K side
    by (cases "otype (w_order w)"; cases s)
      (auto simp: wrapper_ok_def fits_def swap_tag_def erasing_map_def trailing_kind_def
        trailing_map_def)
  with w show ?thesis by (simp add: wrapper_ok_def swap_it_def)
qed

text \<open>
  Once the old levels are drained, no order points into them, and the new ones take their place.
\<close>

lemma drained_wrapper:
  assumes V: "views_ok d sid ov lv" and w: "ov i = Some w"
    and drained: "\<forall>p l. lv (trailing_map s, p) = Some l \<longrightarrow> lv_orders l = []"
    and side: "\<forall>p l. lv (NewTrailingLevels, p) = Some l \<longrightarrow> lv_side l = level_side s"
  shows "fst (level_it w) \<noteq> trailing_map s"
    and "fst (level_it w) = NewTrailingLevels \<Longrightarrow> side (w_order w) = s"
proof -
  obtain l where l: "lv (level_it w) = Some l" "i \<in> set (lv_orders l)"
    using V w by (rule views_home)
  then show "fst (level_it w) \<noteq> trailing_map s"
    using drained by (cases "level_it w") auto
  obtain w' where "ov i = Some w'" "lv_side l = level_side (side (w_order w'))"
    using V l by (rule views_member)
  with w have "lv_side l = level_side (side (w_order w))" by simp
  then show "side (w_order w) = s" if "fst (level_it w) = NewTrailingLevels"
    using that side l(1)
    by (cases "level_it w"; cases s; cases "side (w_order w)") (auto simp: level_side_def)
qed

lemma views_swap:
  assumes V: "views_ok d sid ov lv"
    and drained: "\<forall>p l. lv (trailing_map s, p) = Some l \<longrightarrow> lv_orders l = []"
    and side: "\<forall>p l. lv (NewTrailingLevels, p) = Some l \<longrightarrow> lv_side l = level_side s"
    and ov': "\<And>i. ov' i = map_option (\<lambda>w. w\<lparr>level_it := swap_it s (level_it w)\<rparr>) (ov i)"
    and lv': "\<And>K p. lv' (K, p) = (if K = NewTrailingLevels then None
      else if K = trailing_map s then lv (NewTrailingLevels, p) else lv (K, p))"
  shows "views_ok d sid ov' lv'"
proof -
  have heap: "view_heap ov' = view_heap ov"
    by (simp add: view_heap_def ov' option.map_comp comp_def)
  have "orders_ok d sid ov' lv'"
    unfolding orders_ok_def
  proof (intro allI impI)
    fix i v assume "ov' i = Some v"
    then obtain w where w: "ov i = Some w" "v = w\<lparr>level_it := swap_it s (level_it w)\<rparr>"
      by (auto simp: ov')
    obtain l where l: "lv (level_it w) = Some l" "i \<in> set (lv_orders l)"
      using V w(1) by (rule views_home)
    note dw = drained_wrapper [OF V w(1) drained side]
    have "wrapper_ok d sid i v" using wrapper_ok_swap [OF views_wrapper [OF V w(1)] dw] w(2) by simp
    moreover have "lv' (level_it v) = Some l"
      using l(1) dw(1) w(2) by (cases "level_it w") (auto simp: lv' swap_it_def swap_tag_def)
    ultimately show "wrapper_ok d sid i v \<and> (\<exists>m. lv' (level_it v) = Some m \<and> i \<in> set (lv_orders m))"
      using l(2) by blast
  qed
  moreover have "level_ok sid ov' it l" if l: "lv' it = Some l" for it l
  proof -
    have lv: "lv (swap_it s it) = Some l" and N: "fst it \<noteq> NewTrailingLevels"
      using l by (cases it; auto simp: lv' swap_it_def swap_tag_def split: if_splits)+
    have ok: "level_ok sid ov (swap_it s it) l" using V lv by (rule views_level)
    have "map_side_ok (fst it) (lv_side l)"
    proof (cases "fst it = trailing_map s")
      case True
      then have "lv_side l = level_side s" using lv side by (simp add: swap_it_def swap_tag_def)
      with True show ?thesis by (cases s) (simp_all add: map_side_ok_def trailing_map_def level_side_def)
    next
      case False
      with N have "swap_it s it = it" by (cases it) (simp add: swap_it_def swap_tag_def)
      with ok show ?thesis by (simp add: level_ok_def)
    qed
    moreover have "\<exists>w. ov' i = Some w \<and> level_it w = it \<and> lv_side l = level_side (side (w_order w))"
      if i: "i \<in> set (lv_orders l)" for i
    proof -
      obtain w where "ov i = Some w" "level_it w = swap_it s it"
          "lv_side l = level_side (side (w_order w))"
        using V lv i by (rule views_member)
      then show ?thesis by (simp add: ov')
    qed
    ultimately show ?thesis using ok by (simp add: level_ok_def heap swap_it_def)
  qed
  ultimately show ?thesis by (simp add: views_ok_def)
qed

lemma hm_inv_map_values [simp]: "hm_inv (map (\<lambda>(i, w). (i, f w)) m) = hm_inv m"
  by (simp add: hm_inv_def comp_def case_prod_unfold)

lemma swap_trailing_ok:
  assumes mv: "moving d s b"
    and drained: "\<forall>p l. level_view b (trailing_map s, p) = Some l \<longrightarrow> lv_orders l = []"
  shows "book_ok d (swap_trailing s b)"
proof -
  have wf: "wf_book d b" using mv by (simp add: moving_def)
  have "views_ok d (book_symbol_id b) (order_view (swap_trailing s b)) (level_view (swap_trailing s b))"
    using mv by (intro views_swap [OF wf_book_views [OF wf] drained] order_view_swap level_view_swap)
      (simp add: moving_def)
  moreover have "om_inv (levels K (swap_trailing s b))" for K
    using wf [unfolded wf_book_def] by (cases s; cases K) (auto simp: swap_trailing_def trailing_map_def
        dest: spec [of _ K] spec [of _ NewTrailingLevels])
  moreover have "hm_inv (orders (swap_trailing s b))"
    using wf by (cases s) (simp_all add: swap_trailing_def trailing_map_def wf_book_def)
  ultimately have "wf_book d (swap_trailing s b)" using wf by (simp add: wf_book_def)
  moreover have "lv_orders l \<noteq> []" if "level_view (swap_trailing s b) it = Some l" for it l
    using that mv by (cases it) (auto simp: level_view_swap moving_def split: if_splits)
  ultimately show ?thesis
    using mv by (auto simp: book_ok_def order_view_swap level_view_swap moving_def)
qed

section \<open>Updating a side\<close>

definition update_side :: "build \<Rightarrow> OrderSide \<Rightarrow> MapOrderBook \<Rightarrow> MapOrderBook res" where
  "update_side d s b = (if s = Ask then updateAskStopOrders d b else updateBidStopOrders d b)"

text \<open>An order of the side after the update, and all orders of the book.\<close>

definition trailed :: "OrderSide \<Rightarrow> MapOrderBook \<Rightarrow> OrderWrapper \<Rightarrow> OrderWrapper" where
  "trailed s b w =
     (let np = new_stop s b (trail_amount (w_order w)) in
      \<lparr>w_order = (w_order w)\<lparr>stop_price := np\<rparr>, level_it = (trailing_map s, np)\<rparr>)"

definition all_trailed :: "OrderSide \<Rightarrow> MapOrderBook \<Rightarrow> MapOrderBook \<Rightarrow> bool" where
  "all_trailed s b b' \<longleftrightarrow> (\<forall>i. order_view b' i =
     map_option (\<lambda>w. if fst (level_it w) = trailing_map s then trailed s b w else w) (order_view b i))"

text \<open>The market moved in the direction that the side follows.\<close>

definition market_moved :: "OrderSide \<Rightarrow> MapOrderBook \<Rightarrow> bool" where
  "market_moved s b \<longleftrightarrow>
     (if s = Ask then trailing_bid_price b < lastTradedPriceBid b
      else lastTradedPriceAsk b < trailing_ask_price b)"

definition update_rel :: "OrderSide \<Rightarrow> MapOrderBook \<Rightarrow> MapOrderBook \<Rightarrow> bool" where
  "update_rel s b b' \<longleftrightarrow>
     book_symbol_id b' = book_symbol_id b \<and> last_traded_price b' = last_traded_price b \<and>
     total_open b' = total_open b \<and> stop_count b' = stop_count b \<and>
     (\<forall>i. order_view b i = None \<longrightarrow> order_view b' i = None) \<and>
     (\<forall>i w. order_view b i = Some w \<longrightarrow> order_view b' i = Some w \<or>
        fst (level_it w) = trailing_map s \<and> order_view b' i = Some (trailed s b w)) \<and>
     (\<forall>K p. K \<noteq> trailing_map s \<longrightarrow> level_view b' (K, p) = level_view b (K, p)) \<and>
     (\<forall>p. level_view b' (trailing_map s, p) \<noteq> None \<longrightarrow> level_view b (trailing_map s, p) \<noteq> None \<or>
        (\<exists>q. level_view b (trailing_map s, q) \<noteq> None) \<and> (\<exists>t. 0 < t \<and> p = new_stop s b t))"

lemma update_rel_refl [simp]: "update_rel s b b"
  by (simp add: update_rel_def)

lemma update_rel_frame [simp]:
  "update_rel s b (b'\<lparr>trailing_ask_price := x\<rparr>) = update_rel s b b'"
  "update_rel s b (b'\<lparr>trailing_bid_price := x\<rparr>) = update_rel s b b'"
  by (simp_all add: update_rel_def)

lemma book_ok_moving: "book_ok d b \<Longrightarrow> moving d s b \<and> new_keys_ok s b"
  by (auto simp: book_ok_def moving_def new_keys_ok_def)

lemma set_keys_om: "om_inv m \<Longrightarrow> p \<in> set (map fst m) \<longleftrightarrow> om_find p m \<noteq> None"
  by (auto simp: om_find_def map_of_eq_None_iff)

lemma moved_wrapper_swapped:
  "(moved_wrapper s b w)\<lparr>level_it := swap_it s (level_it (moved_wrapper s b w))\<rparr> = trailed s b w"
  by (simp add: moved_wrapper_def trailed_def Let_def swap_it_def swap_tag_def)

text \<open>Once the side is drained, every one of its orders has been moved.\<close>

lemma all_trailed_swap:
  assumes ok: "book_ok d b" and mv: "moving d s b'" and rel: "move_rel s b b'"
    and drained: "\<forall>p l. level_view b' (trailing_map s, p) = Some l \<longrightarrow> lv_orders l = []"
  shows "all_trailed s b (swap_trailing s b')"
  unfolding all_trailed_def
proof
  fix i
  have V: "views_ok d (book_symbol_id b') (order_view b') (level_view b')"
    using mv by (simp add: moving_def wf_book_def)
  have side: "\<forall>p l. level_view b' (NewTrailingLevels, p) = Some l \<longrightarrow> lv_side l = level_side s"
    using mv by (simp add: moving_def)
  show "order_view (swap_trailing s b') i = map_option
      (\<lambda>w. if fst (level_it w) = trailing_map s then trailed s b w else w) (order_view b i)"
  proof (cases "order_view b i")
    case None
    with rel show ?thesis by (simp add: order_view_swap move_rel_def)
  next
    case (Some w)
    have n: "fst (level_it w) \<noteq> NewTrailingLevels" using ok Some by (rule book_ok_home)
    consider "order_view b' i = Some w" |
        "fst (level_it w) = trailing_map s" "order_view b' i = Some (moved_wrapper s b w)"
      using rel Some unfolding move_rel_def by blast
    then show ?thesis
    proof cases
      case 1
      then have "fst (level_it w) \<noteq> trailing_map s" by (rule drained_wrapper(1) [OF V _ drained side])
      with 1 n Some show ?thesis by (simp add: order_view_swap swap_it_def swap_tag_def)
    next
      case 2
      with Some show ?thesis by (simp add: order_view_swap moved_wrapper_swapped)
    qed
  qed
qed

lemma move_and_swap_ok:
  assumes ok: "book_ok d b" and ne: "levels (trailing_map s) b \<noteq> []"
  obtains b' where "move_levels d s (map fst (levels (trailing_map s) b)) b = Inr b'"
    and "book_ok d (swap_trailing s b')" and "update_rel s b (swap_trailing s b')"
    and "all_trailed s b (swap_trailing s b')"
    and "trailing_bid_price b' = trailing_bid_price b"
    and "trailing_ask_price b' = trailing_ask_price b"
proof -
  let ?ps = "map fst (levels (trailing_map s) b)"
  have om: "om_inv (levels (trailing_map s) b)" using book_ok_wf [OF ok] by (rule wf_book_om)
  have present: "p \<in> set ?ps \<longleftrightarrow> level_view b (trailing_map s, p) \<noteq> None" for p
    using set_keys_om [OF om] by (simp add: level_view_def)
  obtain q where q: "level_view b (trailing_map s, q) \<noteq> None"
    using present [of "fst (hd (levels (trailing_map s) b))"] ne by auto
  have mv: "moving d s b" "new_keys_ok s b" using book_ok_moving [OF ok] by auto
  obtain b' where b': "move_levels d s ?ps b = Inr b'" "move_state d s b b'"
      "\<forall>p l. level_view b' (trailing_map s, p) = Some l \<longrightarrow> p \<in> set ?ps \<longrightarrow> lv_orders l = []"
    using move_levels_ok [OF mv _ om_inv_distinct [OF om]] present by blast
  have st: "moving d s b'" "move_rel s b b'" "new_keys_ok s b'"
      "\<forall>p. (level_view b' (trailing_map s, p) = None) = (level_view b (trailing_map s, p) = None)"
    using b'(2) unfolding move_state_def by blast+
  have "lv_orders l = []" if l: "level_view b' (trailing_map s, p) = Some l" for p l
  proof -
    have "p \<in> set ?ps" using present [of p] st(4) l by (metis option.distinct(1))
    with b'(3) l show ?thesis by blast
  qed
  then have drained: "\<forall>p l. level_view b' (trailing_map s, p) = Some l \<longrightarrow> lv_orders l = []" by blast
  have ok': "book_ok d (swap_trailing s b')" using st(1) drained by (rule swap_trailing_ok)
  have stop: "new_stop s b' t = new_stop s b t" for t
    using st(2) by (intro new_stop_cong) (simp add: move_rel_def)
  have trailed: "all_trailed s b (swap_trailing s b')" using ok st(1,2) drained by (rule all_trailed_swap)
  then have "order_view (swap_trailing s b') i = Some w \<or> fst (level_it w) = trailing_map s \<and>
      order_view (swap_trailing s b') i = Some (trailed s b w)"
    if "order_view b i = Some w" for i w
    using that by (simp add: all_trailed_def)
  moreover have "level_view (swap_trailing s b') (K, p) = level_view b (K, p)"
    if "K \<noteq> trailing_map s" for K p
    using that st(2) ok by (auto simp: level_view_swap move_rel_def book_ok_new)
  ultimately have "update_rel s b (swap_trailing s b')"
    using st(2,3) q stop
    unfolding update_rel_def by (auto simp: move_rel_def order_view_swap level_view_swap new_keys_ok_def)
  with b'(1) ok' st(2) trailed show ?thesis by (intro that [of b']) (auto simp: move_rel_def)
qed

lemma all_trailed_frame [simp]:
  "all_trailed s b (b'\<lparr>trailing_ask_price := x\<rparr>) = all_trailed s b b'"
  "all_trailed s b (b'\<lparr>trailing_bid_price := x\<rparr>) = all_trailed s b b'"
  by (simp_all add: all_trailed_def)

lemma all_trailed_empty:
  assumes ok: "book_ok d b" and "levels (trailing_map s) b = []"
  shows "all_trailed s b b"
proof -
  have none: "level_view b (trailing_map s, p) = None" for p using assms(2) by (simp add: level_view_def)
  have "fst (level_it w) \<noteq> trailing_map s" if w: "order_view b i = Some w" for i w
  proof -
    obtain l where "level_view b (level_it w) = Some l" using ok w by (rule book_ok_home)
    with none show ?thesis by (cases "level_it w") auto
  qed
  then show ?thesis by (auto simp: all_trailed_def split: option.split intro!: option.map_ident_strong [symmetric])
qed

lemma update_side_ok:
  assumes ok: "book_ok d b"
  shows "\<exists>b'. update_side d s b = Inr b' \<and> book_ok d b' \<and> update_rel s b b' \<and>
    (if market_moved s b then all_trailed s b b'
     else order_view b' = order_view b \<and> level_view b' = level_view b)"
proof (cases "levels (trailing_map s) b = []")
  case True
  then show ?thesis
    using ok all_trailed_empty [OF ok True]
    by (cases s) (auto simp: update_side_def updateAskStopOrders_def updateBidStopOrders_def
        trailing_map_def)
next
  case False
  obtain b' where "move_levels d s (map fst (levels (trailing_map s) b)) b = Inr b'"
      "book_ok d (swap_trailing s b')" "update_rel s b (swap_trailing s b')"
      "all_trailed s b (swap_trailing s b')"
    using move_and_swap_ok [OF ok False] by metis
  then show ?thesis
    using ok False by (cases s) (auto simp: update_side_def updateAskStopOrders_def
        updateBidStopOrders_def trailing_map_def Let_def market_moved_def)
qed

end
