(* ===== verification/Settle_Proofs.thy ===== *)
theory Settle_Proofs
  imports Update_Proofs
begin

text \<open>
  Activating all stop orders ends, with no stop order left that the market price has reached, and
  the book then passes its own validation.
\<close>

section \<open>Quiet books\<close>

text \<open>The market price has reached the stop price of no stop order of the book.\<close>

definition quiet :: "MapOrderBook \<Rightarrow> bool" where
  "quiet b \<longleftrightarrow> (\<forall>s. none_triggered s (market_price s b) b)"

lemma none_triggered_market:
  assumes "none_triggered s (market_price s b) b" and "stop_map s K"
    and "level_view b (K, p) = Some l"
  shows "s = Ask \<Longrightarrow> market_price Ask b \<noteq> 0" and "s = Bid \<Longrightarrow> market_price Bid b \<noteq> u64_max"
  using assms unfolding none_triggered_def triggered_def by (auto simp: not_le)

lemma market_price_cong:
  "last_traded_price b' = last_traded_price b \<Longrightarrow> market_price s b' = market_price s b"
  by (simp add: market_price_def lastTradedPriceAsk_def lastTradedPriceBid_def)

text \<open>Moving the orders of a side cannot make one of them reachable.\<close>

lemma update_none_triggered:
  assumes u: "update_rel s b b'" and n: "none_triggered s (market_price s b) b"
  shows "none_triggered s (market_price s b') b'"
proof -
  have m: "market_price s b' = market_price s b"
    using u by (intro market_price_cong) (simp add: update_rel_def)
  have "\<not> triggered s (market_price s b) p" if l: "level_view b' (K, p) = Some l" and K: "stop_map s K"
    for K p l
  proof (cases "level_view b (K, p) = None")
    case False
    with n K show ?thesis unfolding none_triggered_def by blast
  next
    case True
    then have "K = trailing_map s" using u l by (auto simp: update_rel_def)
    then obtain q t where "level_view b (trailing_map s, q) \<noteq> None" "0 < t" "p = new_stop s b t"
      using u l True unfolding update_rel_def by (metis option.distinct(1))
    moreover have "stop_map s (trailing_map s)" by (simp add: stop_map_def)
    ultimately show ?thesis
      using new_stop_not_triggered [of t s b] none_triggered_market [OF n] by blast
  qed
  then show ?thesis by (simp add: none_triggered_def m)
qed

lemma update_other_side:
  assumes u: "update_rel s b b'" and s: "s \<noteq> s'" and n: "none_triggered s' (market_price s' b) b"
  shows "none_triggered s' (market_price s' b') b'"
proof -
  have m: "market_price s' b' = market_price s' b"
    using u by (intro market_price_cong) (simp add: update_rel_def)
  have "K \<noteq> trailing_map s" if "stop_map s' K" for K
    using that s by (cases s; cases s') (auto simp: stop_map_def trailing_map_def)
  with u n show ?thesis by (simp add: none_triggered_def m update_rel_def)
qed

section \<open>Rounds\<close>

definition settle_rel :: "MapOrderBook \<Rightarrow> MapOrderBook \<Rightarrow> bool" where
  "settle_rel b b' \<longleftrightarrow>
     book_symbol_id b' = book_symbol_id b \<and> total_open b' \<le> total_open b \<and>
     stop_count b' \<le> stop_count b \<and>
     (\<forall>i. order_view b i = None \<longrightarrow> order_view b' i = None) \<and> (uncrossed b \<longrightarrow> uncrossed b')"

lemma settle_rel_refl [simp]: "settle_rel b b"
  by (simp add: settle_rel_def)

lemma settle_rel_trans: "settle_rel b b' \<Longrightarrow> settle_rel b' b'' \<Longrightarrow> settle_rel b b''"
  by (auto simp: settle_rel_def)

lemma settle_rel_activation: "activation_rel b b' \<Longrightarrow> settle_rel b b'"
  by (simp add: settle_rel_def activation_rel_def)

lemma settle_rel_update: "update_rel s b b' \<Longrightarrow> settle_rel b b'"
  by (auto simp: settle_rel_def update_rel_def uncrossed_def trailing_map_def split: if_splits)

lemma activation_round_eq:
  "activation_round d b =
     rbind (activate_side d Bid b) (\<lambda>(b1, a1).
     rbind (update_side d Ask b1) (\<lambda>b2.
     rbind (activate_side d Ask b2) (\<lambda>(b3, a2).
     rbind (update_side d Bid b3) (\<lambda>b4.
     Inr (b4, a2 \<or> a1)))))"
  by (simp add: activation_round_def activate_side_def update_side_def)

lemma activation_round_ok:
  assumes ok: "book_ok d b"
  shows "\<exists>b' a. activation_round d b = Inr (b', a) \<and> book_ok d b' \<and> settle_rel b b' \<and>
    (a \<longrightarrow> stop_count b' < stop_count b) \<and>
    (\<not> a \<longrightarrow> quiet b' \<and> last_traded_price b' = last_traded_price b)"
proof -
  obtain b1 a1 where 1: "activate_side d Bid b = Inr (b1, a1)" "book_ok d b1" "activation_rel b b1"
      "\<not> a1 \<and> b1 = b \<and> none_triggered Bid (market_price Bid b) b \<or> a1 \<and> stop_count b1 < stop_count b"
    using activate_side_ok [OF ok, of Bid] by blast
  obtain b2 where 2: "update_side d Ask b1 = Inr b2" "book_ok d b2" "update_rel Ask b1 b2"
    using update_side_ok [OF 1(2), of Ask] by blast
  obtain b3 a2 where 3: "activate_side d Ask b2 = Inr (b3, a2)" "book_ok d b3" "activation_rel b2 b3"
      "\<not> a2 \<and> b3 = b2 \<and> none_triggered Ask (market_price Ask b2) b2 \<or>
        a2 \<and> stop_count b3 < stop_count b2"
    using activate_side_ok [OF 2(2), of Ask] by blast
  obtain b4 where 4: "update_side d Bid b3 = Inr b4" "book_ok d b4" "update_rel Bid b3 b4"
    using update_side_ok [OF 3(2), of Bid] by blast
  have run: "activation_round d b = Inr (b4, a2 \<or> a1)"
    using 1(1) 2(1) 3(1) 4(1) by (simp add: activation_round_eq)
  have rel: "settle_rel b b1" "settle_rel b1 b2" "settle_rel b2 b3" "settle_rel b3 b4"
    using settle_rel_activation [OF 1(3)] settle_rel_update [OF 2(3)] settle_rel_activation [OF 3(3)]
      settle_rel_update [OF 4(3)] by simp_all
  then have "settle_rel b b4" by (blast intro: settle_rel_trans)
  moreover have "stop_count b4 < stop_count b" if "a2 \<or> a1"
    using that 1(4) 3(4) rel unfolding settle_rel_def by linarith
  moreover have "quiet b4 \<and> last_traded_price b4 = last_traded_price b" if "\<not> (a2 \<or> a1)"
  proof -
    have e: "b1 = b" "b3 = b2" "none_triggered Bid (market_price Bid b) b"
        "none_triggered Ask (market_price Ask b2) b2"
      using that 1(4) 3(4) by auto
    have "none_triggered Bid (market_price Bid b3) b3"
      using update_other_side [OF 2(3), of Bid] e by simp
    then have "none_triggered s (market_price s b4) b4" for s
      using update_none_triggered [OF 4(3)] update_other_side [OF 4(3), of Ask] e by (cases s) simp_all
    then show ?thesis using 2(3) 4(3) e by (simp add: quiet_def update_rel_def)
  qed
  ultimately show ?thesis using run 4(2) by blast
qed

lemma activate_rounds_ok:
  assumes "book_ok d b"
  shows "\<exists>b'. activate_rounds d b = Some (Inr b') \<and> book_ok d b' \<and> settle_rel b b' \<and> quiet b'"
  using assms
proof (induction "stop_count b" arbitrary: b rule: less_induct)
  case less
  obtain b1 a where r: "activation_round d b = Inr (b1, a)" "book_ok d b1" "settle_rel b b1"
      "a \<longrightarrow> stop_count b1 < stop_count b" "\<not> a \<longrightarrow> quiet b1"
    using activation_round_ok [OF less.prems] by blast
  show ?case
  proof (cases a)
    case True
    then obtain b' where "activate_rounds d b1 = Some (Inr b')" "book_ok d b'" "settle_rel b1 b'"
        "quiet b'"
      using less.hyps [of b1] r by blast
    then show ?thesis
      using r(1,3) True by (subst activate_rounds.simps) (auto intro: settle_rel_trans)
  next
    case False
    then show ?thesis using r by (subst activate_rounds.simps) auto
  qed
qed

section \<open>The invariant of the book\<close>

text \<open>What holds between two public operations.\<close>

definition book_inv :: "build \<Rightarrow> MapOrderBook \<Rightarrow> bool" where
  "book_inv d b \<longleftrightarrow> book_ok d b \<and> uncrossed b \<and> quiet b"

lemma book_inv_ok: "book_inv d b \<Longrightarrow> book_ok d b"
  by (simp add: book_inv_def)

definition map_types :: "LevelMap \<Rightarrow> OrderType \<Rightarrow> bool" where
  "map_types K t \<longleftrightarrow>
     (if limit_map K then t = Limit
      else if K = StopAskLevels \<or> K = StopBidLevels then t = Stop \<or> t = StopLimit
      else t = TrailingStop \<or> t = TrailingStopLimit)"

definition map_side :: "LevelMap \<Rightarrow> LevelSide" where
  "map_side K =
     (if K = AskLevels \<or> K = StopAskLevels \<or> K = TrailingStopAskLevels then LevelAsk else LevelBid)"

lemma fits_map_types: "fits K od \<Longrightarrow> K \<noteq> NewTrailingLevels \<Longrightarrow> map_types K (otype od)"
  by (cases "otype od"; cases "side od") (auto simp: fits_def erasing_map_def map_types_def limit_map_def)

lemma validate_level_entry_ok:
  assumes ok: "book_ok d b" and e: "e \<in> set (levels K b)" and K: "K \<noteq> NewTrailingLevels"
  shows "validate_level_entry b (map_side K) (map_types K) e"
proof -
  obtain p l where pl: "e = (p, l)" by fastforce
  have "om_inv (levels K b)" using book_ok_wf [OF ok] by (rule wf_book_om)
  then have l: "level_view b (K, p) = Some l" using e pl by (simp add: level_view_def om_find_Some_iff)
  note V = book_ok_views [OF ok]
  have lok: "level_ok (book_symbol_id b) (order_view b) (K, p) l" using V l by (rule views_level)
  have "case book_heap b i of None \<Rightarrow> False | Some od \<Rightarrow> \<not> isFilled od \<and> map_types K (getType od)"
    if i: "i \<in> set (lv_orders l)" for i
  proof -
    obtain w where w: "order_view b i = Some w" "level_it w = (K, p)"
      using V l i by (rule views_member)
    have "fits K (w_order w)" using views_wrapper [OF V w(1)] w(2) by (simp add: wrapper_ok_def)
    then show ?thesis
      using w K fits_map_types book_ok_open [OF ok w(1)] by (simp add: book_heap_view view_heap_def)
  qed
  moreover have "lv_side l = map_side K"
    using lok K by (cases K; cases "lv_side l") (simp_all add: level_ok_def map_side_ok_def map_side_def)
  ultimately show ?thesis
    using lok book_ok_nonempty [OF ok l]
    by (auto simp: validate_level_entry_def pl level_ok_def list_all_iff)
qed

lemma map_types_simps:
  "map_types AskLevels = (\<lambda>t. t = Limit)" "map_types BidLevels = (\<lambda>t. t = Limit)"
  "map_types StopAskLevels = (\<lambda>t. t = Stop \<or> t = StopLimit)"
  "map_types StopBidLevels = (\<lambda>t. t = Stop \<or> t = StopLimit)"
  "map_types TrailingStopAskLevels = (\<lambda>t. t = TrailingStop \<or> t = TrailingStopLimit)"
  "map_types TrailingStopBidLevels = (\<lambda>t. t = TrailingStop \<or> t = TrailingStopLimit)"
  "map_side AskLevels = LevelAsk" "map_side BidLevels = LevelBid"
  "map_side StopAskLevels = LevelAsk" "map_side StopBidLevels = LevelBid"
  "map_side TrailingStopAskLevels = LevelAsk" "map_side TrailingStopBidLevels = LevelBid"
  by (auto simp: map_types_def map_side_def limit_map_def)

lemma bid_price_less_max:
  assumes ok: "book_ok d b" and l: "level_view b (BidLevels, p) = Some l"
  shows "p < u64_max"
proof -
  obtain i rest w where w: "order_view b i = Some w" "level_it w = (BidLevels, p)"
      "wrapper_ok d (book_symbol_id b) i w"
    using ok l by (rule book_ok_front)
  have "otype (w_order w) = Limit" "price (w_order w) = p" "side (w_order w) = Bid"
    using wrapper_ok_limit [OF w(3,2)] by simp_all
  with w(3) show ?thesis by (simp add: wrapper_ok_def order_ok_def limit_kind_def)
qed

lemma ask_price_positive:
  assumes ok: "book_ok d b" and l: "level_view b (AskLevels, p) = Some l"
  shows "0 < p"
proof -
  obtain i rest w where w: "order_view b i = Some w" "level_it w = (AskLevels, p)"
      "wrapper_ok d (book_symbol_id b) i w"
    using ok l by (rule book_ok_front)
  have "otype (w_order w) = Limit" "price (w_order w) = p"
    using wrapper_ok_limit [OF w(3,2)] by simp_all
  with w(3) show ?thesis by (simp add: wrapper_ok_def order_ok_def limit_kind_def)
qed

lemma best_prices:
  assumes ok: "book_ok d b" and u: "uncrossed b"
  shows "bestBid b < bestAsk b"
proof -
  note om = wf_book_om_limit [OF book_ok_wf [OF ok]]
  have bid: "level_view b (BidLevels, p) = Some l" if "om_rbegin (bid_levels b) = Some (p, l)" for p l
    using that om(2) by (simp add: om.final_Some level_view_def)
  have ask: "level_view b (AskLevels, p) = Some l" if "om_begin (ask_levels b) = Some (p, l)" for p l
    using that om(1) by (simp add: om.first_Some level_view_def)
  show ?thesis
  proof (cases "om_rbegin (bid_levels b)"; cases "om_begin (ask_levels b)")
    fix x y assume x: "om_rbegin (bid_levels b) = Some x" and y: "om_begin (ask_levels b) = Some y"
    then have "fst x < fst y"
      using u bid [of "fst x" "snd x"] ask [of "fst y" "snd y"] by (simp add: uncrossed_def)
    with x y show ?thesis by (simp add: bestBid_def bestAsk_def case_prod_unfold)
  next
    fix x assume x: "om_rbegin (bid_levels b) = Some x" and "om_begin (ask_levels b) = None"
    then show ?thesis
      using bid_price_less_max [OF ok bid, of "fst x" "snd x"]
      by (simp add: bestBid_def bestAsk_def case_prod_unfold)
  next
    fix y assume "om_rbegin (bid_levels b) = None" and y: "om_begin (ask_levels b) = Some y"
    then show ?thesis
      using ask_price_positive [OF ok ask, of "fst y" "snd y"]
      by (simp add: bestBid_def bestAsk_def case_prod_unfold)
  qed (simp add: bestBid_def bestAsk_def word_gt_0)
qed

lemma quiet_keys:
  assumes "quiet b" and "level_view b (K, p) = Some l"
  shows "K = StopAskLevels \<or> K = TrailingStopAskLevels \<Longrightarrow> p < last_traded_price b"
    and "K = StopBidLevels \<or> K = TrailingStopBidLevels \<Longrightarrow> last_traded_price b < p"
proof -
  have n: "\<not> triggered s (market_price s b) p" if "stop_map s K" for s
    using assms that unfolding quiet_def none_triggered_def by blast
  show "p < last_traded_price b" if "K = StopAskLevels \<or> K = TrailingStopAskLevels"
    using that n [of Ask]
    by (auto simp: stop_map_def trailing_map_def triggered_def market_price_def lastTradedPriceBid_def)
  show "last_traded_price b < p" if "K = StopBidLevels \<or> K = TrailingStopBidLevels"
    using that n [of Bid]
    by (auto simp: stop_map_def trailing_map_def triggered_def market_price_def
        lastTradedPriceAsk_def split: if_splits)
qed

lemma level_view_entry:
  assumes "book_ok d b" and "e \<in> set (levels K b)"
  shows "level_view b (K, fst e) = Some (snd e)"
proof -
  have "om_inv (levels K b)" using book_ok_wf [OF assms(1)] by (rule wf_book_om)
  with assms(2) show ?thesis by (simp add: level_view_def om_find_Some_iff)
qed

lemma validateLimitOrders_ok:
  assumes ok: "book_ok d b" and u: "uncrossed b"
  shows "validateLimitOrders b"
  using best_prices [OF ok u] validate_level_entry_ok [OF ok, where K = AskLevels]
    validate_level_entry_ok [OF ok, where K = BidLevels]
  by (simp add: validateLimitOrders_def bestBid_def bestAsk_def map_types_simps list_all_iff)

lemma validateStopOrders_ok:
  assumes ok: "book_ok d b" and q: "quiet b"
  shows "validateStopOrders b"
  using validate_level_entry_ok [OF ok, where K = StopAskLevels]
    validate_level_entry_ok [OF ok, where K = StopBidLevels]
    quiet_keys(1) [OF q level_view_entry [OF ok, where K = StopAskLevels]]
    quiet_keys(2) [OF q level_view_entry [OF ok, where K = StopBidLevels]]
  by (simp add: validateStopOrders_def map_types_simps list_all_iff)

lemma validateTrailingStopOrders_ok:
  assumes ok: "book_ok d b" and q: "quiet b"
  shows "validateTrailingStopOrders b"
  using validate_level_entry_ok [OF ok, where K = TrailingStopAskLevels]
    validate_level_entry_ok [OF ok, where K = TrailingStopBidLevels]
    quiet_keys(1) [OF q level_view_entry [OF ok, where K = TrailingStopAskLevels]]
    quiet_keys(2) [OF q level_view_entry [OF ok, where K = TrailingStopBidLevels]]
  by (simp add: validateTrailingStopOrders_def map_types_simps list_all_iff)

lemma validateOrderBook_ok: "book_inv d b \<Longrightarrow> validateOrderBook b"
  unfolding book_inv_def validateOrderBook_def
  by (metis validateLimitOrders_ok validateStopOrders_ok validateTrailingStopOrders_ok)

lemma settle_ok:
  assumes "book_ok d b" and "uncrossed b"
  obtains b' where "settle d b = Inr b'" and "book_inv d b'" and "settle_rel b b'"
proof -
  obtain b' where b': "activate_rounds d b = Some (Inr b')" "book_ok d b'" "settle_rel b b'" "quiet b'"
    using activate_rounds_ok [OF assms(1)] by blast
  then have "book_inv d b'" using assms(2) by (simp add: book_inv_def settle_rel_def)
  with b' that show ?thesis
    by (simp add: settle_def activateStopOrders_def check_def validateOrderBook_ok)
qed

end
