(* ===== verification/Op_Proofs.thy ===== *)
theory Op_Proofs
  imports Settle_Proofs
begin

text \<open>
  The public operations: under the conditions their callers owe them, none fails in either build,
  and each keeps the invariant of the book.
\<close>

section \<open>Adding a stop order\<close>

definition submit_rel :: "MapOrderBook \<Rightarrow> Order \<Rightarrow> MapOrderBook \<Rightarrow> bool" where
  "submit_rel b od b' \<longleftrightarrow>
     book_symbol_id b' = book_symbol_id b \<and>
     total_open b' \<le> total_open b + unat (open_quantity od) \<and>
     (\<forall>i. order_view b i = None \<longrightarrow> i \<noteq> oid od \<longrightarrow> order_view b' i = None) \<and>
     (uncrossed b \<longrightarrow> uncrossed b')"

lemma add_rel_submit: "add_rel b od b' \<Longrightarrow> submit_rel b od b'"
  by (auto simp: add_rel_def submit_rel_def)

text \<open>Where a stop order that is not triggered goes.\<close>

definition stop_home :: "Order \<Rightarrow> LevelMap" where
  "stop_home od =
     (if trailing_kind (otype od) then trailing_map (side od)
      else if isAsk od then StopAskLevels else StopBidLevels)"

lemma insert_stop_ok:
  assumes ok: "book_ok d b" and a: "addable d b od" and t: "stop_kind (otype od)"
  obtains b' where "insert_at d (stop_home od) (stop_price od) (level_side (side od)) od b = Inr b'"
    and "book_ok d b'" and "submit_rel b od b'"
    and "order_view b' = (order_view b)(oid od \<mapsto> \<lparr>w_order = od, level_it = (stop_home od, stop_price od)\<rparr>)"
    and "\<forall>it. it \<noteq> (stop_home od, stop_price od) \<longrightarrow> level_view b' it = level_view b it"
    and "total_open b' = total_open b + unat (open_quantity od)"
    and "last_traded_price b' = last_traded_price b" and "events b' = events b"
proof -
  let ?K = "stop_home od" and ?p = "stop_price od" and ?s = "level_side (side od)"
  let ?w = "\<lparr>w_order = od, level_it = (?K, ?p)\<rparr>"
  have w: "wrapper_ok d (book_symbol_id b) (oid od) ?w"
    using a t by (cases "otype od"; cases "side od")
      (auto simp: wrapper_ok_def addable_def fits_def erasing_map_def level_price_of_def stop_home_def
        trailing_kind_def stop_kind_def trailing_map_def)
  have K: "map_side_ok ?K ?s" "?K \<noteq> NewTrailingLevels" "\<not> limit_map ?K"
    by (cases "side od"; simp add: stop_home_def trailing_map_def map_side_ok_def level_side_def
        limit_map_def)+
  have n: "order_view b (oid od) = None" and tot: "total_open b + unat (open_quantity od) < 18446744073709551616"
    using a by (simp_all add: addable_def)
  obtain b' where i: "insert_at d ?K ?p ?s od b = Inr b'" "wf_book d b'"
      "order_view b' = (order_view b)(oid od \<mapsto> ?w)"
      "level_view b' = (level_view b)((?K, ?p) \<mapsto> link_level (oid od) (open_quantity od)
         (level_or_new ?p ?s (book_symbol_id b) (level_view b (?K, ?p))))"
      "total_open b' = total_open b + unat (open_quantity od)"
      "book_symbol_id b' = book_symbol_id b" "last_traded_price b' = last_traded_price b" "events b' = events b"
    using insert_at_ok [OF book_ok_wf [OF ok] n w K(1) refl K(2) tot] by metis
  have "book_ok d b'"
    by (rule book_okI [OF i(2,3,4)])
      (use ok K(2) a in \<open>auto simp: link_level_def book_ok_new addable_def split: if_splits
        dest: book_ok_nonempty book_ok_open\<close>)
  moreover have "uncrossed b \<Longrightarrow> uncrossed b'"
    using K(3) by (auto simp: uncrossed_def i(4) limit_map_def)
  ultimately show ?thesis
    using i by (intro that [of b']) (auto simp: submit_rel_def)
qed

text \<open>A trailing stop order enters the book with the stop price that follows the market.\<close>

definition with_stop_price :: "MapOrderBook \<Rightarrow> Order \<Rightarrow> Order" where
  "with_stop_price b od =
     (if trailing_kind (otype od) then od\<lparr>stop_price := new_stop (side od) b (trail_amount od)\<rparr> else od)"

lemma with_stop_price_simps [simp]:
  "otype (with_stop_price b od) = otype od" "oid (with_stop_price b od) = oid od"
  "side (with_stop_price b od) = side od"
  "open_quantity (with_stop_price b od) = open_quantity od"
  "symbol_id (with_stop_price b od) = symbol_id od"
  "time_in_force (with_stop_price b od) = time_in_force od"
  by (simp_all add: with_stop_price_def)

lemma addable_with_stop_price: "addable d b od \<Longrightarrow> addable d b (with_stop_price b od)"
  by (simp add: addable_def with_stop_price_def)

lemma submit_rel_cong:
  "oid od' = oid od \<Longrightarrow> open_quantity od' = open_quantity od \<Longrightarrow> submit_rel b od' b' = submit_rel b od b'"
  by (simp add: submit_rel_def)

lemma addStopOrder_eq:
  assumes od: "order_ok d od" and t: "stop_kind (otype od)"
  shows "addStopOrder d b od =
    (let od1 = with_stop_price b od in
     if stop_matches b od1 then
       let b1 = emit (OrderUpdated (activated od1)) b in
       if isMarket (activated od1) then addMarketOrder d b1 (activated od1)
       else addLimitOrder d b1 (activated od1)
     else insert_at d (stop_home od1) (stop_price od1) (level_side (side od1)) od1 b)"
proof -
  let ?od = "with_stop_price b od"
  have od1: "order_ok d ?od" using od by (simp add: with_stop_price_def)
  have v: "d = Debug \<Longrightarrow> validateOrder ?od" using od1 by (rule order_ok_validate)
  note v' = validateOrder_activated [OF v]
  have first: "(if isTrailingStop od \<or> isTrailingStopLimit od then calculateStopPrice d b od
      else Inr od) = Inr ?od"
    using calculateStopPrice_eq [OF od] by (simp add: with_stop_price_def trailing_kind_def)
  show ?thesis
    unfolding addStopOrder_def first rbind_simps Let_def
    using v v' t
    by (cases "otype od"; cases "side od")
      (auto simp: setStopPrice_def setTrailAmount_def setType_def Let_def activated_def check_def
        validateOrder_def stop_kind_def trailing_kind_def stop_home_def trailing_map_def
        insertTrailingStopOrder_def insertStopOrder_def level_side_def)
qed

lemma addStopOrder_ok:
  assumes ok: "book_ok d b" and a: "addable d b od" and t: "stop_kind (otype od)"
  shows "\<exists>b'. addStopOrder d b od = Inr b' \<and> book_ok d b' \<and> submit_rel b od b'"
proof -
  let ?od = "with_stop_price b od"
  have a1: "addable d b ?od" using a by (rule addable_with_stop_price)
  have t1: "stop_kind (otype ?od)" using t by simp
  have eq: "addStopOrder d b od = (let od1 = ?od in
     if stop_matches b od1 then
       let b1 = emit (OrderUpdated (activated od1)) b in
       if isMarket (activated od1) then addMarketOrder d b1 (activated od1)
       else addLimitOrder d b1 (activated od1)
     else insert_at d (stop_home od1) (stop_price od1) (level_side (side od1)) od1 b)"
    using a t by (intro addStopOrder_eq) (simp_all add: addable_def)
  show ?thesis
  proof (cases "stop_matches b ?od")
    case True
    let ?b = "emit (OrderUpdated (activated ?od)) b"
    obtain b' where "(if isMarket (activated ?od) then addMarketOrder d ?b (activated ?od)
        else addLimitOrder d ?b (activated ?od)) = Inr b'" "book_ok d b'" "add_rel ?b ?od b'"
      using add_activated_ok [of d ?b ?od] ok a1 t1 by auto
    then show ?thesis
      using True add_rel_submit [of b ?od b'] by (auto simp: eq Let_def submit_rel_cong [of ?od od])
  next
    case False
    obtain b' where "insert_at d (stop_home ?od) (stop_price ?od) (level_side (side ?od)) ?od b = Inr b'"
        "book_ok d b'" "submit_rel b ?od b'"
      using insert_stop_ok [OF ok a1 t1] by metis
    with False show ?thesis by (auto simp: eq Let_def submit_rel_cong [of ?od od])
  qed
qed

section \<open>Submitting an order\<close>

text \<open>Orders that can never rest in the book.\<close>

definition transient :: "Order \<Rightarrow> bool" where
  "transient od \<longleftrightarrow> otype od = Market \<or> otype od = Limit \<and> time_in_force od \<noteq> GTC"

lemma submit_ok:
  assumes ok: "book_ok d b" and a: "addable d b od"
  shows "\<exists>b'. submit d b od = Inr b' \<and> book_ok d b' \<and> submit_rel b od b' \<and>
    (transient od \<longrightarrow> order_view b' (oid od) = None)"
proof (cases "stop_kind (otype od)")
  case True
  then have "submit d b od = addStopOrder d b od" "\<not> transient od"
    by (cases "otype od"; simp add: submit_def stop_kind_def trailing_kind_def transient_def)+
  then show ?thesis using addStopOrder_ok [OF ok a True] by auto
next
  case False
  then consider "otype od = Limit" | "otype od = Market"
    by (cases "otype od") (auto simp: stop_kind_def trailing_kind_def)
  then show ?thesis
  proof cases
    case 1
    then show ?thesis
      using addLimitOrder_ok [OF ok a 1]
      by (auto simp: submit_def transient_def intro: add_rel_submit)
  next
    case 2
    then show ?thesis
      using addMarketOrder_ok [OF ok a 2]
      by (auto simp: submit_def transient_def intro: add_rel_submit)
  qed
qed

lemma addable_emit: "addable d (emit e b) od = addable d b od"
  by simp

lemma submit_rel_emit [simp]: "submit_rel (emit e b) od b' = submit_rel b od b'"
  by (simp add: submit_rel_def)

lemma submit_settle_rel:
  assumes "submit_rel b od b1" and "settle_rel b1 b'"
  shows "submit_rel b od b'"
  using assms by (auto simp: submit_rel_def settle_rel_def)

lemma addOrder_ok:
  assumes inv: "book_inv d b" and a: "addable d b od"
  shows "\<exists>b'. addOrder d b od = Inr b' \<and> book_inv d b' \<and> submit_rel b od b' \<and>
    (transient od \<longrightarrow> order_view b' (oid od) = None)"
proof -
  have ok: "book_ok d (emit (OrderAdded od) b)" and u: "uncrossed b"
    using inv by (simp_all add: book_inv_def)
  obtain b1 where 1: "submit d (emit (OrderAdded od) b) od = Inr b1" "book_ok d b1"
      "submit_rel b od b1" "transient od \<longrightarrow> order_view b1 (oid od) = None"
    using submit_ok [OF ok] a by auto
  have "uncrossed b1" using 1(3) u by (simp add: submit_rel_def)
  with 1(2) obtain b' where 2: "settle d b1 = Inr b'" "book_inv d b'" "settle_rel b1 b'"
    by (rule settle_ok)
  have "transient od \<longrightarrow> order_view b' (oid od) = None" using 1(4) 2(3) by (simp add: settle_rel_def)
  with 1(1) 2(1,2) submit_settle_rel [OF 1(3) 2(3)] show ?thesis by (simp add: addOrder_def)
qed

section \<open>Deleting an order\<close>

lemma hasOrder_obtain:
  assumes "hasOrder b i"
  obtains w where "order_view b i = Some w"
  using assms by (auto simp: hasOrder_eq)

lemma deleteOrder_ok:
  assumes inv: "book_inv d b" and h: "hasOrder b i"
  shows "\<exists>b'. deleteOrder d b i = Inr b' \<and> book_inv d b' \<and> settle_rel b b' \<and> \<not> hasOrder b' i"
proof -
  have ok: "book_ok d b" and u: "uncrossed b" using inv by (simp_all add: book_inv_def)
  obtain w where w: "order_view b i = Some w" using h by (rule hasOrder_obtain)
  obtain b1 where 1: "deleteOrder_notify d b i True = Inr b1" "book_ok d b1"
      "order_view b1 = (order_view b)(i := None)" "activation_rel b b1"
    using book_ok_delete [OF ok w] by metis
  have "uncrossed b1" using 1(4) u by (simp add: activation_rel_def)
  with 1(2) obtain b' where 2: "settle d b1 = Inr b'" "book_inv d b'" "settle_rel b1 b'"
    by (rule settle_ok)
  have "\<not> hasOrder b' i" using 1(3) 2(3) by (simp add: settle_rel_def hasOrder_eq)
  with 1(1) 2 settle_rel_trans [OF settle_rel_activation [OF 1(4)] 2(3)] show ?thesis
    by (simp add: deleteOrder_def)
qed

section \<open>Reducing a resting order\<close>

text \<open>
  The common part of executing and cancelling: the order and the volume of its level shrink by the
  same quantity, and the order is deleted when nothing of it is left open.
\<close>

definition reduced_to :: "u64 \<Rightarrow> Order \<Rightarrow> OrderWrapper \<Rightarrow> MapOrderBook \<Rightarrow> MapOrderBook \<Rightarrow> bool" where
  "reduced_to i od w b b' \<longleftrightarrow>
     order_view b' = (order_view b)
       (i := if isFilled od then None else Some (w\<lparr>w_order := od\<rparr>)) \<and>
     (\<forall>it. it \<noteq> level_it w \<longrightarrow> level_view b' it = level_view b it)"

text \<open>The book after a resting order has been changed and its level reduced, before it is removed.\<close>

lemma reduced_book_ok:
  assumes ok: "book_ok d b" and w: "order_view b i = Some w"
    and l: "level_view b (level_it w) = Some l"
    and terms: "wrapper_ok d (book_symbol_id b) i (w\<lparr>w_order := od\<rparr>)" "side od = side (w_order w)"
      "otype od = otype (w_order w)"
    and q: "open_quantity od = open_quantity (w_order w) - q" "q \<le> open_quantity (w_order w)"
    and b2: "b2 = emit e ((store_order i od b)\<lparr>last_traded_price := x\<rparr>)"
    and b3: "b3 = store_level (level_it w) (l\<lparr>lv_volume := lv_volume l - q\<rparr>) b2"
  shows "wf_book d b3" and "order_view b3 = (order_view b)(i \<mapsto> w\<lparr>w_order := od\<rparr>)"
    and "level_view b3 = (level_view b)(level_it w \<mapsto> l\<lparr>lv_volume := lv_volume l - q\<rparr>)"
    and "total_open b = total_open b3 + unat q" and "stop_count b3 = stop_count b"
    and "book_symbol_id b3 = book_symbol_id b" and "events b3 = events b @ [e]" and "last_traded_price b3 = x"
    and "uncrossed b \<Longrightarrow> uncrossed b3"
proof -
  note wf = book_ok_wf [OF ok]
  let ?l = "l\<lparr>lv_volume := lv_volume l - q\<rparr>" and ?b1 = "store_order i od b"
  have "wf_book d (store_level (level_it w) ?l ?b1)"
    using reduceVolume_ok(2) [OF wf w l terms(1,2) q] .
  moreover have ov1: "order_view ?b1 = (order_view b)(i \<mapsto> w\<lparr>w_order := od\<rparr>)"
    using w by (rule order_view_store_order)
  moreover have lv1: "level_view (store_level (level_it w) ?l ?b1) = (level_view b)(level_it w \<mapsto> ?l)"
    using level_view_store_level [of ?b1 "level_it w" l ?l] l by simp
  moreover have same: "orders b3 = orders ?b1" "book_symbol_id b3 = book_symbol_id b"
      "level_view b3 = level_view (store_level (level_it w) ?l ?b1)"
      "om_inv (levels K b3) = om_inv (levels K (store_level (level_it w) ?l ?b1))" for K
    by (simp_all add: b3 b2 level_view_def store_level_def cong: if_cong)
  moreover have ov3: "order_view b3 = order_view ?b1" and tot3: "total_open b3 = total_open ?b1"
      "stop_count b3 = stop_count ?b1"
    by (simp_all add: order_view_def total_open_def stop_count_def same)
  ultimately have wf3: "wf_book d b3" by (simp add: wf_book_def)
  have tot: "total_open b = total_open ?b1 + unat q" using total_open_store_order [OF wf w q] .
  have sc: "stop_count ?b1 = stop_count b" using stop_count_store_order [OF wf w terms(3)] .
  have lv3: "level_view b3 = (level_view b)(level_it w \<mapsto> ?l)" using same(3) lv1 by simp
  have ev3: "events b3 = events b @ [e]" "last_traded_price b3 = x" by (simp_all add: b3 b2)
  have u3: "uncrossed b \<Longrightarrow> uncrossed b3"
    by (elim uncrossed_mono) (use l in \<open>auto simp: lv3\<close>)
  show "wf_book d b3" by (rule wf3)
  show "order_view b3 = (order_view b)(i \<mapsto> w\<lparr>w_order := od\<rparr>)" by (simp add: ov3 ov1)
  show "level_view b3 = (level_view b)(level_it w \<mapsto> ?l)" by (rule lv3)
  show "total_open b = total_open b3 + unat q" "stop_count b3 = stop_count b" using tot tot3 sc by simp_all
  show "uncrossed b3" if "uncrossed b" by (rule u3 [OF that])
qed (simp_all add: b3 b2)

lemma reduce_resting_ok:
  assumes ok: "book_ok d b" and w: "order_view b i = Some w"
    and l: "level_view b (level_it w) = Some l"
    and terms: "wrapper_ok d (book_symbol_id b) i (w\<lparr>w_order := od\<rparr>)" "side od = side (w_order w)"
      "otype od = otype (w_order w)"
    and q: "open_quantity od = open_quantity (w_order w) - q" "q \<le> open_quantity (w_order w)"
    and b2: "b2 = emit e ((store_order i od b)\<lparr>last_traded_price := x\<rparr>)"
    and b3: "b3 = store_level (level_it w) (l\<lparr>lv_volume := lv_volume l - q\<rparr>) b2"
  shows "Level_reduceVolume d' (book_heap b2) q l = Inr (l\<lparr>lv_volume := lv_volume l - q\<rparr>)"
    and "\<exists>b'. (if isFilled od then deleteOrder_notify d b3 i True else Inr b3) = Inr b' \<and>
      book_ok d b' \<and> settle_rel b b' \<and> reduced_to i od w b b' \<and> last_traded_price b' = x \<and>
      total_open b = total_open b' + unat q \<and>
      events b' = events b @ e # (if isFilled od then [OrderDeleted od] else [])"
proof -
  note wf = book_ok_wf [OF ok]
  let ?l = "l\<lparr>lv_volume := lv_volume l - q\<rparr>" and ?b1 = "store_order i od b"
  have heap: "book_heap b2 = book_heap ?b1" by (simp add: b2 book_heap_def)
  show "Level_reduceVolume d' (book_heap b2) q l = Inr ?l"
    unfolding heap using reduceVolume_ok(1) [OF wf w l terms(1,2) q] .
  note r3 = reduced_book_ok [OF assms]
  have n: "fst (level_it w) \<noteq> NewTrailingLevels" using ok w by (rule book_ok_home)
  have n': "level_it w \<noteq> (NewTrailingLevels, p)" "(NewTrailingLevels, p) \<noteq> level_it w" for p
    using n by (cases "level_it w"; simp)+
  show "\<exists>b'. (if isFilled od then deleteOrder_notify d b3 i True else Inr b3) = Inr b' \<and>
      book_ok d b' \<and> settle_rel b b' \<and> reduced_to i od w b b' \<and> last_traded_price b' = x \<and>
      total_open b = total_open b' + unat q \<and>
      events b' = events b @ e # (if isFilled od then [OrderDeleted od] else [])"
  proof (cases "isFilled od")
    case False
    have "book_ok d b3"
      by (rule book_okI [OF r3(1-3)])
        (use ok l n' False in \<open>auto simp: book_ok_new split: if_splits
          dest: book_ok_nonempty book_ok_open\<close>)
    moreover have "settle_rel b b3"
      using r3(4-6,9) w by (auto simp: settle_rel_def r3(2))
    ultimately show ?thesis
      using False r3(4,7,8) by (auto simp: reduced_to_def r3(2,3))
  next
    case True
    have w3: "order_view b3 i = Some (w\<lparr>w_order := od\<rparr>)" by (simp add: r3(2))
    have n3: "fst (level_it (w\<lparr>w_order := od\<rparr>)) \<noteq> NewTrailingLevels" using n by simp
    obtain l3 b' where r: "level_view b3 (level_it w) = Some l3"
        "deleteOrder_notify d b3 i True = Inr b'" "wf_book d b'"
        "order_view b' = (order_view b3)(i := None)"
        "level_view b' = (level_view b3)(level_it w := level_after_unlink i (open_quantity od) l3)"
        "orders b' = hm_erase i (orders b3)"
        "total_open b3 = unat (open_quantity od) + total_open b'"
        "last_traded_price b' = last_traded_price b3"
        "book_symbol_id b' = book_symbol_id b3" "events b' = events b3 @ [OrderDeleted od]"
      by (rule deleteOrder_notify_ok [OF r3(1) w3 n3, of True], rule that) simp_all
    have ov: "order_view b' = (order_view b)(i := None)" by (simp add: r(4) r3(2))
    have lv: "level_view b' = (level_view b)(level_it w := level_after_unlink i (open_quantity od) l3)"
      by (simp add: r(5) r3(3))
    have "book_ok d b'" using ok r(3) ov lv n by (rule book_ok_unlinked)
    moreover have "stop_count b' \<le> stop_count b3"
      using stop_count_erase [OF r3(1) w3 r(6)] by simp
    moreover have "uncrossed b \<Longrightarrow> uncrossed b'" using uncrossed_unlinked [OF _ l lv] .
    ultimately show ?thesis
      using True r(2,7-10) r3(4-8)
      by (auto simp: settle_rel_def reduced_to_def ov lv)
  qed
qed

section \<open>Executing a resting order\<close>

definition executed_quantity_of :: "u64 \<Rightarrow> Order \<Rightarrow> u64" where
  "executed_quantity_of qty od = min qty (open_quantity od)"

lemma execute_resting_ok:
  assumes ok: "book_ok d b" and w: "order_view b i = Some w"
    and od: "od = executed (price_of (w_order w)) (executed_quantity_of qty (w_order w)) (w_order w)"
  shows "\<exists>b'. execute_resting d b i qty price_of = Inr b' \<and> book_ok d b' \<and> settle_rel b b' \<and>
    reduced_to i od w b b' \<and> last_traded_price b' = price_of (w_order w) \<and>
    total_open b = total_open b' + unat (executed_quantity_of qty (w_order w)) \<and>
    events b' = events b @ ExecutedOrder od # (if isFilled od then [OrderDeleted od] else [])"
proof -
  let ?q = "executed_quantity_of qty (w_order w)" and ?x = "price_of (w_order w)"
  note V = book_ok_views [OF ok]
  obtain l where l: "level_view b (level_it w) = Some l" using ok w by (rule book_ok_home)
  have wr: "wrapper_ok d (book_symbol_id b) i w" using V w by (rule views_wrapper)
  then have ok_od: "order_ok d (w_order w)" by (simp add: wrapper_ok_def)
  have q: "?q \<le> open_quantity (w_order w)" by (simp add: executed_quantity_of_def)
  have wr': "wrapper_ok d (book_symbol_id b) i (w\<lparr>w_order := od\<rparr>)"
    unfolding od by (rule wrapper_ok_same_terms [OF wr same_terms_executed order_ok_executed [OF ok_od q]])
  have ex: "execute d (ucast ?x) ?q (w_order w) = Inr od"
    unfolding od by (rule execute_ok [OF ok_od q])
  note r = reduce_resting_ok [OF ok w l wr' _ _ _ q refl refl, where e = "ExecutedOrder od" and x = ?x]
  have same: "side od = side (w_order w)" "otype od = otype (w_order w)"
      "open_quantity od = open_quantity (w_order w) - ?q" "last_executed_quantity od = ?q"
    by (simp_all add: od)
  have "execute_resting d b i qty price_of =
      (let b3 = store_level (level_it w) (l\<lparr>lv_volume := lv_volume l - ?q\<rparr>)
         (emit (ExecutedOrder od) ((store_order i od b)\<lparr>last_traded_price := ?x\<rparr>))
       in if isFilled od then deleteOrder_notify d b3 i True else Inr b3)"
    using w l ex same r(1) [OF same(1-3)]
    by (simp add: execute_resting_def find_order_eq find_level_eq Let_def executed_quantity_of_def)
  with r(2) [OF same(1-3)] show ?thesis by (simp add: Let_def)
qed

lemma executed_then_settled:
  assumes inv: "book_inv d b" and h: "hasOrder b i"
  shows "\<exists>b'. rbind (execute_resting d b i qty price_of) (settle d) = Inr b' \<and> book_inv d b' \<and>
    settle_rel b b'"
proof -
  have ok: "book_ok d b" and u: "uncrossed b" using inv by (simp_all add: book_inv_def)
  obtain w where w: "order_view b i = Some w" using h by (rule hasOrder_obtain)
  obtain b1 where 1: "execute_resting d b i qty price_of = Inr b1" "book_ok d b1" "settle_rel b b1"
    using execute_resting_ok [OF ok w refl] by blast
  have "uncrossed b1" using 1(3) u by (simp add: settle_rel_def)
  with 1(2) obtain b' where "settle d b1 = Inr b'" "book_inv d b'" "settle_rel b1 b'"
    by (rule settle_ok)
  with 1(1,3) show ?thesis by (auto intro: settle_rel_trans)
qed

section \<open>Cancelling a part of a resting order\<close>

text \<open>
  What a caller must respect: the quantity is at most the open quantity and, since the order's
  quantity becomes the cancelled one, a debug build also wants what was executed and what stays
  open to fit into it.
\<close>

definition cancellable :: "build \<Rightarrow> u64 \<Rightarrow> Order \<Rightarrow> bool" where
  "cancellable d qty od \<longleftrightarrow> qty \<le> open_quantity od \<and>
     quantity_ok d (od\<lparr>quantity := qty, open_quantity := open_quantity od - qty\<rparr>)"

lemma cancel_resting_ok:
  assumes ok: "book_ok d b" and w: "order_view b i = Some w" and c: "cancellable d qty (w_order w)"
    and od: "od = (w_order w)\<lparr>quantity := qty, open_quantity := open_quantity (w_order w) - qty\<rparr>"
  shows "\<exists>b'. cancel_resting d b i qty = Inr b' \<and> book_ok d b' \<and> settle_rel b b' \<and>
    reduced_to i od w b b' \<and> last_traded_price b' = last_traded_price b \<and>
    total_open b = total_open b' + unat qty \<and>
    events b' = events b @ OrderUpdated od # (if isFilled od then [OrderDeleted od] else [])"
proof -
  note V = book_ok_views [OF ok]
  obtain l where l: "level_view b (level_it w) = Some l" using ok w by (rule book_ok_home)
  have wr: "wrapper_ok d (book_symbol_id b) i w" using V w by (rule views_wrapper)
  have q: "qty \<le> open_quantity (w_order w)" using c by (simp add: cancellable_def)
  have ok_od: "order_ok d od" using wr c by (auto simp: wrapper_ok_def od order_ok_def cancellable_def)
  have eqs: "erasing_map od = erasing_map (w_order w)" "level_price_of od = level_price_of (w_order w)"
      "otype od = otype (w_order w)" "oid od = oid (w_order w)" "symbol_id od = symbol_id (w_order w)"
    by (simp_all add: od erasing_map_def level_price_of_def)
  have wr': "wrapper_ok d (book_symbol_id b) i (w\<lparr>w_order := od\<rparr>)"
    using wr ok_od eqs by (simp add: wrapper_ok_def fits_def)
  have set: "setQuantity d qty (w_order w) = Inr od"
    using q ok_od by (simp add: setQuantity_def Let_def od min_def)
  have keep: "(store_order i od b)\<lparr>last_traded_price := last_traded_price b\<rparr> = store_order i od b"
    by (simp add: store_order_def split: option.split)
  note r = reduce_resting_ok [OF ok w l wr' _ _ _ q refl refl, where e = "OrderUpdated od"
      and x = "last_traded_price b", unfolded keep]
  have same: "side od = side (w_order w)" "otype od = otype (w_order w)"
      "open_quantity od = open_quantity (w_order w) - qty"
      "open_quantity (w_order w) - open_quantity od = qty"
    by (simp_all add: od)
  have "cancel_resting d b i qty =
      (let b3 = store_level (level_it w) (l\<lparr>lv_volume := lv_volume l - qty\<rparr>)
         (emit (OrderUpdated od) (store_order i od b))
       in if isFilled od then deleteOrder_notify d b3 i True else Inr b3)"
    using w l set same r(1) [OF same(1-3)]
    by (simp add: cancel_resting_def find_order_eq find_level_eq Let_def)
  with r(2) [OF same(1-3)] show ?thesis by (simp add: Let_def)
qed

lemma cancelOrder_ok:
  assumes inv: "book_inv d b" and w: "order_view b i = Some w" and c: "cancellable d qty (w_order w)"
  shows "\<exists>b'. cancelOrder d b i qty = Inr b' \<and> book_inv d b' \<and> settle_rel b b' \<and>
    (qty = open_quantity (w_order w) \<longrightarrow> \<not> hasOrder b' i)"
proof -
  have ok: "book_ok d b" and u: "uncrossed b" using inv by (simp_all add: book_inv_def)
  obtain b1 where 1: "cancel_resting d b i qty = Inr b1" "book_ok d b1" "settle_rel b b1"
      "qty = open_quantity (w_order w) \<longrightarrow> order_view b1 i = None"
    using cancel_resting_ok [OF ok w c refl] by (auto simp: reduced_to_def)
  have "uncrossed b1" using 1(3) u by (simp add: settle_rel_def)
  with 1(2) obtain b' where 2: "settle d b1 = Inr b'" "book_inv d b'" "settle_rel b1 b'"
    by (rule settle_ok)
  have "qty = open_quantity (w_order w) \<longrightarrow> \<not> hasOrder b' i"
    using 1(4) 2(3) by (simp add: settle_rel_def hasOrder_eq)
  with 1(1) 2 settle_rel_trans [OF 1(3) 2(3)] show ?thesis by (simp add: cancelOrder_def)
qed

section \<open>Replacing an order\<close>

text \<open>The new ID is not taken and the new price is legal for the order.\<close>

definition replaceable :: "MapOrderBook \<Rightarrow> u64 \<Rightarrow> u64 \<Rightarrow> u64 \<Rightarrow> Order \<Rightarrow> bool" where
  "replaceable b order_id new_order_id new_price od \<longleftrightarrow>
     0 < new_order_id \<and> (new_order_id = order_id \<or> \<not> hasOrder b new_order_id) \<and>
     (limit_kind (otype od) \<longrightarrow> 0 < new_price \<and> (side od = Bid \<longrightarrow> new_price < u64_max))"

lemma order_ok_replaced:
  assumes "order_ok d od" and "replaceable b i j p od"
  shows "order_ok d (od\<lparr>oid := j\<rparr>)" and "order_ok d (od\<lparr>oid := j, price := p\<rparr>)"
  using assms by (auto simp: order_ok_def replaceable_def quantity_ok_def)

lemma replaceOrder_ok:
  assumes inv: "book_inv d b" and w: "order_view b i = Some w"
    and r: "replaceable b i j p (w_order w)"
  shows "\<exists>b'. replaceOrder d b i j p = Inr b' \<and> book_inv d b' \<and>
    book_symbol_id b' = book_symbol_id b \<and> total_open b' \<le> total_open b \<and>
    (\<forall>k. k \<noteq> j \<longrightarrow> k = i \<or> \<not> hasOrder b k \<longrightarrow> \<not> hasOrder b' k)"
proof -
  have ok: "book_ok d b" and u: "uncrossed b" and q: "quiet b" using inv by (simp_all add: book_inv_def)
  let ?od = "(w_order w)\<lparr>oid := j, price := p\<rparr>"
  have wr: "wrapper_ok d (book_symbol_id b) i w" using book_ok_views [OF ok] w by (rule views_wrapper)
  then have od: "order_ok d (w_order w)" by (simp add: wrapper_ok_def)
  note od' = order_ok_replaced [OF od r]
  obtain b1 where 1: "deleteOrder_notify d b i True = Inr b1" "book_ok d b1"
      "order_view b1 = (order_view b)(i := None)"
      "total_open b = unat (open_quantity (w_order w)) + total_open b1" "activation_rel b b1"
    using book_ok_delete [OF ok w] by metis
  have "total_open b < 18446744073709551616" using book_ok_wf [OF ok] by (simp add: wf_book_def)
  then have a: "addable d b1 ?od"
    using od'(2) book_ok_open [OF ok w] 1(3,4,5) wr r
    by (auto simp: addable_def replaceable_def hasOrder_eq wrapper_ok_def activation_rel_def)
  have u1: "uncrossed b1" using 1(5) u by (simp add: activation_rel_def)
  have ok1: "book_ok d (emit (OrderAdded ?od) b1)" using 1(2) by simp
  obtain b2 where 2: "submit d (emit (OrderAdded ?od) b1) ?od = Inr b2" "book_ok d b2"
      "submit_rel b1 ?od b2"
    using submit_ok [OF ok1] a by auto
  have u2: "uncrossed b2" using 2(3) u1 by (simp add: submit_rel_def)
  obtain b3 where 3: "settle d b2 = Inr b3" "book_inv d b3" "settle_rel b2 b3"
    using 2(2) u2 by (rule settle_ok)
  then obtain b' where 4: "settle d b3 = Inr b'" "book_inv d b'" "settle_rel b3 b'"
    using settle_ok [of d b3] by (auto simp: book_inv_def)
  have "replaceOrder d b i j p = Inr b'"
    using w od' 1(1) 2(1) 3(1) 4(1)
    by (simp add: replaceOrder_def find_order_eq setOrderID_def setPrice_def Let_def addOrder_def)
  moreover have rel: "submit_rel b1 ?od b'"
    using submit_settle_rel [OF submit_settle_rel [OF 2(3) 3(3)] 4(3)] .
  moreover have "\<not> hasOrder b' k" if "k \<noteq> j" "k = i \<or> \<not> hasOrder b k" for k
    using that rel 1(3) by (auto simp: submit_rel_def hasOrder_eq)
  moreover have "total_open b' \<le> total_open b" using rel 1(4) by (simp add: submit_rel_def)
  moreover have "book_symbol_id b' = book_symbol_id b"
    using rel 1(5) by (simp add: submit_rel_def activation_rel_def)
  ultimately show ?thesis using 4(2) by blast
qed

section \<open>The empty book\<close>

lemma book_inv_new: "book_inv d (newMapOrderBook s)"
proof -
  have lv: "level_view (newMapOrderBook s) = Map.empty"
  proof
    fix it show "level_view (newMapOrderBook s) it = None"
      by (cases "fst it") (simp_all add: level_view_def newMapOrderBook_def)
  qed
  have ov: "order_view (newMapOrderBook s) = Map.empty"
    by (simp add: order_view_def newMapOrderBook_def fun_eq_iff)
  have om: "om_inv (levels K (newMapOrderBook s))" for K
    by (cases K) (simp_all add: newMapOrderBook_def)
  have "wf_book d (newMapOrderBook s)"
    using om by (simp add: wf_book_def views_ok_def orders_ok_def ov lv)
      (simp add: newMapOrderBook_def total_open_def hm_total_def)
  then show ?thesis
    by (simp add: book_inv_def book_ok_def ov lv uncrossed_def quiet_def none_triggered_def)
qed

lemma settle_rel_inv: "settle_rel b b' \<Longrightarrow> order_view b i = None \<Longrightarrow> order_view b' i = None"
  by (simp add: settle_rel_def)

end
