(* ===== verification/Priority.thy ===== *)
theory Priority
  imports Op_Proofs
begin

text \<open>
  Price-time priority. The opposite side of the book, read as one queue of orders by price and
  then by arrival, is consumed by an incoming order from its front: this is what \<open>match\<close> does, in
  terms of a function over lists that knows nothing of levels, iterators or assertions.
\<close>

section \<open>The queue of a side\<close>

type_synonym entry = "u64 \<times> u64 \<times> u64"

definition level_entries :: "heap \<Rightarrow> u64 \<times> Level \<Rightarrow> entry list" where
  "level_entries h e = map (\<lambda>i. (i, fst e, open_of h i)) (lv_orders (snd e))"

text \<open>The levels that an incoming order of side \<open>s\<close> meets, best first.\<close>

definition best_first :: "OrderSide \<Rightarrow> MapOrderBook \<Rightarrow> (u64 \<times> Level) list" where
  "best_first s b = (if s = Ask then rev (bid_levels b) else ask_levels b)"

definition opposite_queue :: "OrderSide \<Rightarrow> MapOrderBook \<Rightarrow> entry list" where
  "opposite_queue s b = concat (map (level_entries (book_heap b)) (best_first s b))"

section \<open>The specification\<close>

definition acceptable :: "OrderSide \<Rightarrow> u64 \<Rightarrow> u64 \<Rightarrow> bool" where
  "acceptable s limit p \<longleftrightarrow> (if s = Ask then limit \<le> p else p \<le> limit)"

text \<open>
  Fills of an incoming order with \<open>q\<close> to trade, what is left of the queue, what is left of \<open>q\<close>.
\<close>

fun fill :: "OrderSide \<Rightarrow> u64 \<Rightarrow> u64 \<Rightarrow> entry list \<Rightarrow> entry list \<times> entry list \<times> u64" where
  "fill s limit q [] = ([], [], q)"
| "fill s limit q ((i, p, n) # queue) =
     (if q = 0 \<or> \<not> acceptable s limit p then ([], (i, p, n) # queue, q)
      else if n \<le> q then
        (case fill s limit (q - n) queue of (fills, rest, left) \<Rightarrow> ((i, p, n) # fills, rest, left))
      else ([(i, p, q)], (i, p, n - q) # queue, 0))"

text \<open>The trades that a list of events reports for the resting side.\<close>

definition resting_trades :: "OrderSide \<Rightarrow> Event list \<Rightarrow> entry list" where
  "resting_trades s es = concat (map (\<lambda>e. case e of
       ExecutedOrder r \<Rightarrow>
         if side r \<noteq> s then [(oid r, price r, last_executed_quantity r)] else []
     | _ \<Rightarrow> []) es)"

lemma resting_trades_append [simp]:
  "resting_trades s (es @ es') = resting_trades s es @ resting_trades s es'"
  by (simp add: resting_trades_def)

section \<open>Updates of the best level\<close>

lemma om_ext:
  assumes "om_inv m" and "om_inv m'" and "\<And>k. om_find k m = om_find k m'"
  shows "m = m'"
proof -
  have "set m = set m'" using assms om_find_Some_iff by (metis subrelI subset_antisym)
  moreover have "inj_on fst (set m)"
    using om_inv_distinct [OF assms(1)] by (simp add: distinct_map)
  ultimately show ?thesis
    using assms(1,2) by (intro map_sorted_distinct_set_unique [of fst])
      (auto simp: om_inv_def strict_sorted_iff)
qed

lemma levels_after_update:
  assumes "wf_book d b" and "wf_book d b'"
    and lv: "level_view b' = (level_view b)((K, p) := x)" and "level_view b (K, p) \<noteq> None"
  shows "levels K b' = (case x of None \<Rightarrow> om_erase p (levels K b) | Some l \<Rightarrow> om_store p l (levels K b))"
proof -
  have om: "om_inv (levels K b)" "om_inv (levels K b')" using assms(1,2) by (simp_all add: wf_book_om)
  have "om_find k (levels K b') = level_view b' (K, k)" for k by (simp add: level_view_def)
  then have f: "om_find k (levels K b') = (if k = p then x else om_find k (levels K b))" for k
    unfolding lv by (simp add: level_view_def)
  have "om_find p (levels K b) \<noteq> None" using assms(4) by (simp add: level_view_def)
  then show ?thesis
    using om f by (intro om_ext) (auto simp: om.inv_erase om.inv_store om.find_erase om.find_store
        split: option.split)
qed

lemma rev_om_erase: "rev (om_erase p m) = om_erase p (rev m)"
  by (simp add: om_erase_def rev_filter)

lemma rev_om_store: "rev (om_store p l m) = om_store p l (rev m)"
  by (simp add: om_store_def rev_map)

lemma best_first_levels:
  "best_first (side od) b = (if isAsk od then rev else id) (levels (opposite_map od) b)"
  by (simp add: best_first_def opposite_map_def)

lemma best_first_after_update:
  assumes "wf_book d b" and "wf_book d b'"
    and "level_view b' = (level_view b)((opposite_map od, p) := x)"
    and b: "best_first (side od) b = (p, l) # tail"
  shows "best_first (side od) b' = (case x of None \<Rightarrow> tail | Some l' \<Rightarrow> (p, l') # tail)"
proof -
  have om: "om_inv (levels (opposite_map od) b)" using assms(1) by (rule wf_book_om)
  have "distinct (map fst (best_first (side od) b))"
    using om_inv_distinct [OF om] by (simp add: best_first_levels rev_map [symmetric])
  then have p: "p \<notin> fst ` set tail" using b by simp
  have "set (best_first (side od) b) = set (levels (opposite_map od) b)"
    by (simp add: best_first_levels)
  then have "(p, l) \<in> set (levels (opposite_map od) b)" using b by auto
  then have "level_view b (opposite_map od, p) \<noteq> None"
    using om_find_Some_iff [OF om] by (auto simp: level_view_def)
  note up = levels_after_update [OF assms(1-3) this]
  have "best_first (side od) b' = (case x of None \<Rightarrow> om_erase p (best_first (side od) b)
      | Some l' \<Rightarrow> om_store p l' (best_first (side od) b))"
    unfolding best_first_levels up by (simp add: rev_om_erase rev_om_store split: option.split)
  also have "\<dots> = (case x of None \<Rightarrow> tail | Some l' \<Rightarrow> (p, l') # tail)"
    using p unfolding b
    by (force simp: om_erase_def om_store_def filter_id_conv intro!: map_idI split: option.split)
  finally show ?thesis .
qed

lemma best_opposite_best_first:
  "best_opposite b od = (case best_first (side od) b of [] \<Rightarrow> None | e # _ \<Rightarrow> Some e)"
proof (cases "side od")
  case Ask
  then show ?thesis
    by (cases "bid_levels b" rule: rev_cases) (auto simp: best_opposite_def best_first_def om_rbegin_def)
next
  case Bid
  then show ?thesis
    by (cases "ask_levels b") (auto simp: best_opposite_def best_first_def om_begin_def)
qed

section \<open>One execution\<close>

lemma level_entries_cong:
  "(\<And>i. i \<in> set (lv_orders (snd e)) \<Longrightarrow> h i = h' i) \<Longrightarrow> level_entries h e = level_entries h' e"
  by (simp add: level_entries_def open_of_def)

lemma best_first_view:
  assumes "wf_book d b" and "e \<in> set (best_first (side od) b)"
  shows "level_view b (opposite_map od, fst e) = Some (snd e)"
proof -
  have "om_inv (levels (opposite_map od) b)" using assms(1) by (rule wf_book_om)
  moreover have "e \<in> set (levels (opposite_map od) b)"
    using assms(2) by (auto simp: best_first_levels split: if_splits)
  ultimately show ?thesis by (simp add: level_view_def om_find_Some_iff)
qed

lemma acceptable_crosses: "acceptable (side od) (price od) p = crosses od p"
  by (cases "side od") (simp_all add: acceptable_def crosses_def)

text \<open>
  An iteration of the loop takes the front of the queue: all of it, or as much as the incoming
  order still wants.
\<close>

lemma match_step_queue:
  assumes ok: "book_ok d b" and od: "order_ok d od" "open_quantity od \<noteq> 0"
    and best: "best_opposite b od = Some (p, l)"
  obtains i n queue q b' where "opposite_queue (side od) b = (i, p, n) # queue"
    and "q = min (open_quantity od) n" and "n \<noteq> 0"
    and "match_step d b od (p, l) = Inr (b', executed p q od)" and "book_ok d b'"
    and "opposite_queue (side od) b' = (if q = n then queue else (i, p, n - q) # queue)"
    and "\<exists>es. events b' = events b @ es \<and> resting_trades (side od) es = [(i, p, q)]"
    and "last_traded_price b' = p"
proof -
  let ?K = "opposite_map od"
  note wf = book_ok_wf [OF ok]
  obtain tail where bf: "best_first (side od) b = (p, l) # tail"
    using best by (auto simp: best_opposite_best_first split: list.splits)
  have l: "level_view b (?K, p) = Some l" using best_first_view [OF wf, of "(p, l)" od] bf by simp
  obtain i w rest q b' where r: "lv_orders l = i # rest" "order_view b i = Some w"
      "level_it w = (?K, p)" "price (w_order w) = p"
      "side (w_order w) = (if isAsk od then Bid else Ask)"
      "q = min (open_quantity od) (open_quantity (w_order w))" "q \<noteq> 0"
      "match_step d b od (p, l) = Inr (b', executed p q od)" "book_ok d b'"
      "order_view b' = (order_view b)(i :=
        if q = open_quantity (w_order w) then None
        else Some (w\<lparr>w_order := executed p q (w_order w)\<rparr>))"
      "level_view b' = (level_view b)((?K, p) :=
        level_after_execution i q (q = open_quantity (w_order w)) l)"
      "last_traded_price b' = p"
      "events b' = events b @ execution_events (executed p q od) (executed p q (w_order w)) @
        (if q = open_quantity (w_order w) then [OrderDeleted (executed p q (w_order w))] else [])"
    using ok od l by (rule match_step_ok) blast
  let ?n = "open_quantity (w_order w)"
  let ?h = "book_heap b" and ?h' = "book_heap b'"
  have heap: "?h' j = ?h j" if "j \<noteq> i" for j
    using that by (simp add: book_heap_view view_heap_def r(10))
  have dist: "i \<notin> set rest"
    using views_level [OF book_ok_views [OF ok] l] r(1) by (simp add: level_ok_def)
  have "i \<notin> set (lv_orders (snd e))" if e: "e \<in> set tail" for e
  proof -
    have "level_view b (?K, fst e) = Some (snd e)" using best_first_view [OF wf, of e od] bf e by simp
    moreover have "distinct (map fst (best_first (side od) b))"
      using om_inv_distinct [OF wf_book_om [OF wf, of ?K]]
      by (simp add: best_first_levels rev_map [symmetric])
    then have "fst e \<noteq> p" using bf e by auto
    ultimately show ?thesis using views_not_member [OF book_ok_views [OF ok] r(2)] r(3) by simp
  qed
  then have tail: "concat (map (level_entries ?h') tail) = concat (map (level_entries ?h) tail)"
    using heap by (intro arg_cong [where f = concat] map_cong refl level_entries_cong) metis
  have le: "level_entries h (p, m) = map (\<lambda>j. (j, p, open_of h j)) (lv_orders m)" for h m
    by (simp add: level_entries_def)
  have "open_of ?h' j = open_of ?h j" if "j \<in> set rest" for j
    using that heap dist by (metis open_of_def)
  then have rest: "map (\<lambda>j. (j, p, open_of ?h' j)) rest = map (\<lambda>j. (j, p, open_of ?h j)) rest"
    by simp
  let ?queue = "map (\<lambda>j. (j, p, open_of ?h j)) rest @ concat (map (level_entries ?h) tail)"
  have "open_of ?h i = ?n" by (simp add: open_of_def book_heap_view view_heap_def r(2))
  then have q1: "opposite_queue (side od) b = (i, p, ?n) # ?queue"
    by (simp add: opposite_queue_def bf le r(1))
  have "open_of ?h' i = ?n - q" if "q \<noteq> ?n"
    using that by (simp add: open_of_def book_heap_view view_heap_def r(10))
  then have q2: "opposite_queue (side od) b' = (if q = ?n then ?queue else (i, p, ?n - q) # ?queue)"
    unfolding opposite_queue_def best_first_after_update [OF wf book_ok_wf [OF r(9)] r(11) bf]
    using tail rest r(1)
    by (auto simp: level_after_execution_def level_after_unlink_def unlink_level_def Let_def le)
  have "resting_trades (side od) (execution_events (executed p q od) (executed p q (w_order w)) @
      (if q = ?n then [OrderDeleted (executed p q (w_order w))] else [])) = [(i, p, q)]"
    using r(4,5) views_wrapper [OF book_ok_views [OF ok] r(2)]
    by (cases "side od") (auto simp: resting_trades_def execution_events_def wrapper_ok_def)
  with r(13) have tr: "\<exists>es. events b' = events b @ es \<and> resting_trades (side od) es = [(i, p, q)]"
    by blast
  show ?thesis by (rule that [OF q1 r(6) _ r(8,9) q2 tr r(12)]) (use r(6,7) in auto)
qed

section \<open>The loop\<close>

definition matches_fill :: "MapOrderBook \<Rightarrow> Order \<Rightarrow> MapOrderBook \<Rightarrow> Order \<Rightarrow> bool" where
  "matches_fill b od b' od' \<longleftrightarrow>
     (\<exists>es. events b' = events b @ es \<and>
        fill (side od) (price od) (open_quantity od) (opposite_queue (side od) b)
          = (resting_trades (side od) es, opposite_queue (side od) b', open_quantity od') \<and>
        last_traded_price b' = (case resting_trades (side od) es of [] \<Rightarrow> last_traded_price b
          | t # ts \<Rightarrow> fst (snd (last (t # ts)))))"

lemma matches_fill_none:
  assumes "\<not> (\<exists>p l. best_opposite b od = Some (p, l) \<and> crosses od p \<and> \<not> isFilled od)"
    and ok: "book_ok d b"
  shows "matches_fill b od b od"
proof (cases "opposite_queue (side od) b")
  case Nil
  then show ?thesis by (simp add: matches_fill_def resting_trades_def)
next
  case (Cons e queue)
  obtain i p n where e: "e = (i, p, n)" by (cases e)
  obtain p' l tail where bf: "best_first (side od) b = (p', l) # tail"
    using Cons by (cases "best_first (side od) b") (auto simp: opposite_queue_def)
  have "level_view b (opposite_map od, p') = Some l"
    using best_first_view [OF book_ok_wf [OF ok], of "(p', l)" od] bf by simp
  then have "lv_orders l \<noteq> []" by (rule book_ok_nonempty [OF ok])
  then have "p = p'"
    using Cons bf e by (cases "lv_orders l") (auto simp: opposite_queue_def level_entries_def)
  moreover have "best_opposite b od = Some (p', l)" by (simp add: best_opposite_best_first bf)
  ultimately have "isFilled od \<or> \<not> crosses od p" using assms(1) by blast
  then have "open_quantity od = 0 \<or> \<not> acceptable (side od) (price od) p"
    by (simp add: acceptable_crosses)
  then show ?thesis unfolding matches_fill_def Cons e by (auto simp: resting_trades_def)
qed

lemma match_loop_fill:
  assumes "book_ok d b" and "order_ok d od"
  shows "\<exists>b' od'. match_loop d b od = Inr (b', od') \<and> matches_fill b od b' od'"
  using assms
proof (induction d b od rule: match_loop.induct)
  case (1 d b od)
  show ?case
  proof (cases "\<exists>p l. best_opposite b od = Some (p, l) \<and> crosses od p \<and> \<not> isFilled od")
    case False
    then have "match_loop d b od = Inr (b, od)"
      by (subst match_loop.simps) (auto split: option.split)
    with matches_fill_none [OF False "1.prems"(1)] show ?thesis by blast
  next
    case True
    then obtain p l where best: "best_opposite b od = Some (p, l)" "crosses od p" "\<not> isFilled od"
      by blast
    have o: "open_quantity od \<noteq> 0" using best(3) by simp
    obtain i n queue q b1 where s: "opposite_queue (side od) b = (i, p, n) # queue"
        "q = min (open_quantity od) n" "n \<noteq> 0"
        "match_step d b od (p, l) = Inr (b1, executed p q od)" "book_ok d b1"
        "opposite_queue (side od) b1 = (if q = n then queue else (i, p, n - q) # queue)"
        "\<exists>es. events b1 = events b @ es \<and> resting_trades (side od) es = [(i, p, q)]"
        "last_traded_price b1 = p"
      using "1.prems" o best(1) by (rule match_step_queue)
    let ?od = "executed p q od"
    have "order_ok d ?od" using "1.prems"(2) s(2) by (intro order_ok_executed) auto
    then obtain b' od' where IH: "match_loop d b1 ?od = Inr (b', od')" "matches_fill b1 ?od b' od'"
      using "1.IH" [of "(p, l)" "(b1, ?od)"] best s(4,5) by auto
    have run: "match_loop d b od = Inr (b', od')"
      by (subst match_loop.simps) (use best s(4) IH(1) in simp)
    obtain es es' where es: "events b1 = events b @ es" "resting_trades (side od) es = [(i, p, q)]"
        "events b' = events b1 @ es'"
        "fill (side od) (price od) (open_quantity od - q) (opposite_queue (side od) b1)
          = (resting_trades (side od) es', opposite_queue (side od) b', open_quantity od')"
        "last_traded_price b' = (case resting_trades (side od) es' of [] \<Rightarrow> last_traded_price b1
          | t # ts \<Rightarrow> fst (snd (last (t # ts))))"
      using s(7) IH(2) by (auto simp: matches_fill_def)
    have acc: "acceptable (side od) (price od) p" using best(2) by (simp add: acceptable_crosses)
    have "fill (side od) (price od) (open_quantity od) (opposite_queue (side od) b)
        = (resting_trades (side od) (es @ es'), opposite_queue (side od) b', open_quantity od')"
    proof (cases "n \<le> open_quantity od")
      case True
      then have "q = n" using s(2) by (simp add: min_def)
      with True s(1,6) es(2,4) acc o show ?thesis by simp
    next
      case False
      then have "q = open_quantity od" "q \<noteq> n" using s(2) by (auto simp: min_def)
      with False s(1,6) es(2,4) acc o show ?thesis by simp
    qed
    moreover have "events b' = events b @ (es @ es')" using es(1,3) by simp
    moreover have "last_traded_price b' = (case resting_trades (side od) (es @ es') of
        [] \<Rightarrow> last_traded_price b | t # ts \<Rightarrow> fst (snd (last (t # ts))))"
      using es(2,5) s(8) by (simp split: list.split)
    ultimately have "matches_fill b od b' od'" unfolding matches_fill_def by blast
    with run show ?thesis by blast
  qed
qed

lemma match_fill:
  assumes ok: "book_ok d b" and od: "order_ok d od"
  shows "\<exists>b' od'. match d b od = Inr (b', od') \<and> matches_fill b od b' od'"
proof (cases "isFok od \<and> \<not> (\<exists>p l. best_opposite b od = Some (p, l) \<and> crosses od p)")
  case True
  then have "match d b od = Inr (b, od)" using match_eq [OF ok] by simp
  moreover have "matches_fill b od b od" using True by (intro matches_fill_none [OF _ ok]) blast
  ultimately show ?thesis by blast
next
  case False
  then have "match d b od = match_loop d b od" using match_eq [OF ok] by auto
  then show ?thesis using match_loop_fill [OF ok od] by simp
qed

end
