(* ===== verification/Book_Requests.thy ===== *)
theory Book_Requests
  imports Priority
begin

text \<open>
  The interface \<open>OrderBook\<close> (\<open>include/matching/orderbook/orderbook.h\<close>) as a set of requests, what
  the caller of each must see to, documented or not, and the books that requests can lead to. The
  locale \<open>order_book\<close> is the contract the market relies on; \<open>MapOrderBook\<close> is its interpretation.
\<close>

section \<open>Requests\<close>

datatype request =
    AddOrder Order
  | ExecuteOrderAt u64 u64 u64
  | ExecuteOrder u64 u64
  | DeleteOrder u64
  | CancelOrder u64 u64
  | ReplaceOrder u64 u64 u64

fun perform :: "build \<Rightarrow> MapOrderBook \<Rightarrow> request \<Rightarrow> MapOrderBook res" where
  "perform d b (AddOrder od) = addOrder d b od"
| "perform d b (ExecuteOrderAt i qty pr) = executeOrder_at d b i qty pr"
| "perform d b (ExecuteOrder i qty) = executeOrder d b i qty"
| "perform d b (DeleteOrder i) = deleteOrder d b i"
| "perform d b (CancelOrder i qty) = cancelOrder d b i qty"
| "perform d b (ReplaceOrder i j pr) = replaceOrder d b i j pr"

text \<open>
  When a request is permitted. This asks for more than the documentation does; \<open>permitted_iff\<close> below tells
  what is documented from what is not.
\<close>

definition on_order :: "MapOrderBook \<Rightarrow> u64 \<Rightarrow> (Order \<Rightarrow> bool) \<Rightarrow> bool" where
  "on_order b i P \<longleftrightarrow> (case order_view b i of None \<Rightarrow> False | Some w \<Rightarrow> P (w_order w))"

fun permitted :: "build \<Rightarrow> MapOrderBook \<Rightarrow> request \<Rightarrow> bool" where
  "permitted d b (AddOrder od) = addable d b od"
| "permitted d b (ExecuteOrderAt i qty pr) = hasOrder b i"
| "permitted d b (ExecuteOrder i qty) = hasOrder b i"
| "permitted d b (DeleteOrder i) = hasOrder b i"
| "permitted d b (CancelOrder i qty) = on_order b i (cancellable d qty)"
| "permitted d b (ReplaceOrder i j pr) = on_order b i (replaceable b i j pr)"

lemma on_order_obtain:
  assumes "on_order b i P"
  obtains w where "order_view b i = Some w" and "P (w_order w)"
  using assms by (auto simp: on_order_def split: option.splits)

section \<open>What is documented and what is not\<close>

text \<open>
  The documentation (\<open>orderbook.h\<close>, and \<open>order.h\<close> for the orders that the factories make) asks that the ID of
  the request is in use, that prices and quantities are positive, and that a new order has the fields of its type.
\<close>

definition documented_order :: "build \<Rightarrow> Order \<Rightarrow> bool" where
  "documented_order d od \<longleftrightarrow> 0 < oid od \<and> open_quantity od \<noteq> 0 \<and> quantity_ok d od \<and>
     (limit_kind (otype od) \<longrightarrow> 0 < price od) \<and> (\<not> limit_kind (otype od) \<longrightarrow> time_in_force od \<noteq> GTC) \<and>
     (trailing_kind (otype od) \<longrightarrow> 0 < trail_amount od)"

fun documented :: "build \<Rightarrow> MapOrderBook \<Rightarrow> request \<Rightarrow> bool" where
  "documented d b (AddOrder od) = documented_order d od"
| "documented d b (ReplaceOrder i j pr) = on_order b i (\<lambda>od. limit_kind (otype od) \<longrightarrow> 0 < pr)"
| "documented d b (ExecuteOrderAt i qty pr) = hasOrder b i"
| "documented d b (ExecuteOrder i qty) = hasOrder b i"
| "documented d b (DeleteOrder i) = hasOrder b i"
| "documented d b (CancelOrder i qty) = hasOrder b i"

text \<open>
  What the code needs in addition. The ID of a new order, or of a replacement, is free and not 0, and a new order
  is for the symbol of the book; no bid is at the largest price, which \<open>bestAsk\<close> returns when there are no asks;
  the open quantities of the book fit into 64 bits together; and a cancellation takes no more than is open and, in
  a debug build, names a quantity that covers what was executed and what stays open, because it becomes the
  quantity of the order.
\<close>

fun supported :: "build \<Rightarrow> MapOrderBook \<Rightarrow> request \<Rightarrow> bool" where
  "supported d b (AddOrder od) = (\<not> hasOrder b (oid od) \<and> symbol_id od = book_symbol_id b \<and>
     (limit_kind (otype od) \<longrightarrow> side od = Bid \<longrightarrow> price od < u64_max) \<and>
     total_open b + unat (open_quantity od) < 18446744073709551616)"
| "supported d b (CancelOrder i qty) = on_order b i (\<lambda>od. qty \<le> open_quantity od \<and> (d = Debug \<longrightarrow> 0 < qty \<and>
     last_executed_quantity od \<le> qty \<and> unat (executed_quantity od) + unat (open_quantity od - qty) \<le> unat qty))"
| "supported d b (ReplaceOrder i j pr) = on_order b i (\<lambda>od. 0 < j \<and> (j = i \<or> \<not> hasOrder b j) \<and>
     (limit_kind (otype od) \<longrightarrow> side od = Bid \<longrightarrow> pr < u64_max))"
| "supported d b (ExecuteOrderAt i qty pr) = True"
| "supported d b (ExecuteOrder i qty) = True"
| "supported d b (DeleteOrder i) = True"

lemma on_order_hasOrder: "on_order b i P \<Longrightarrow> hasOrder b i"
  by (auto simp: on_order_def hasOrder_eq split: option.splits)

lemma permitted_iff: "permitted d b r \<longleftrightarrow> documented d b r \<and> supported d b r"
proof (cases r)
  case (AddOrder od)
  then show ?thesis by (auto simp: addable_def order_ok_def documented_order_def hasOrder_eq)
next
  case (CancelOrder i qty)
  then show ?thesis using on_order_hasOrder [of b i]
    by (auto simp: on_order_def cancellable_def quantity_ok_def split: option.splits)
next
  case (ReplaceOrder i j pr)
  then show ?thesis by (auto simp: on_order_def replaceable_def split: option.splits)
qed simp_all

section \<open>Every permitted request succeeds\<close>

lemma executeOrder_at_ok:
  assumes "book_inv d b" and "hasOrder b i"
  shows "\<exists>b'. executeOrder_at d b i qty pr = Inr b' \<and> book_inv d b' \<and> settle_rel b b'"
  using executed_then_settled [OF assms] by (simp add: executeOrder_at_def)

lemma executeOrder_ok:
  assumes "book_inv d b" and "hasOrder b i"
  shows "\<exists>b'. executeOrder d b i qty = Inr b' \<and> book_inv d b' \<and> settle_rel b b'"
  using executed_then_settled [OF assms] by (simp add: executeOrder_def)

lemma settle_rel_symbol: "settle_rel b b' \<Longrightarrow> book_symbol_id b' = book_symbol_id b"
  by (simp add: settle_rel_def)

lemma perform_ok:
  assumes inv: "book_inv d b" and p: "permitted d b r"
  shows "\<exists>b'. perform d b r = Inr b' \<and> book_inv d b' \<and> book_symbol_id b' = book_symbol_id b"
proof (cases r)
  case (AddOrder od)
  with p addOrder_ok [OF inv, of od] show ?thesis by (auto simp: submit_rel_def)
next
  case (ExecuteOrderAt i qty pr)
  with p executeOrder_at_ok [OF inv, of i qty pr] show ?thesis by (auto intro: settle_rel_symbol)
next
  case (ExecuteOrder i qty)
  with p executeOrder_ok [OF inv, of i qty] show ?thesis by (auto intro: settle_rel_symbol)
next
  case (DeleteOrder i)
  with p deleteOrder_ok [OF inv, of i] show ?thesis by (auto intro: settle_rel_symbol)
next
  case (CancelOrder i qty)
  with p obtain w where "order_view b i = Some w" "cancellable d qty (w_order w)"
    by (auto elim: on_order_obtain)
  from cancelOrder_ok [OF inv this] CancelOrder show ?thesis by (auto intro: settle_rel_symbol)
next
  case (ReplaceOrder i j pr)
  with p obtain w where "order_view b i = Some w" "replaceable b i j pr (w_order w)"
    by (auto elim: on_order_obtain)
  from replaceOrder_ok [OF inv this] ReplaceOrder show ?thesis by auto
qed

section \<open>The contract\<close>

text \<open>
  A book under a discipline of requests: what is permitted succeeds and keeps the invariant and
  the symbol of the book.
\<close>

locale order_book =
  fixes fresh :: "'s \<Rightarrow> 'b"
    and act :: "'b \<Rightarrow> 'r \<Rightarrow> 'b res"
    and allowed :: "'b \<Rightarrow> 'r \<Rightarrow> bool"
    and inv :: "'b \<Rightarrow> bool"
    and symbol :: "'b \<Rightarrow> 's"
  assumes inv_fresh: "inv (fresh s)"
    and symbol_fresh: "symbol (fresh s) = s"
    and act_ok: "inv b \<Longrightarrow> allowed b r \<Longrightarrow>
      \<exists>b'. act b r = Inr b' \<and> inv b' \<and> symbol b' = symbol b"
begin

lemma act_inv:
  assumes "inv b" and "allowed b r" and "act b r = Inr b'"
  shows "inv b'" and "symbol b' = symbol b"
  using act_ok [OF assms(1,2)] assms(3) by auto

lemma act_not_fails: "inv b \<Longrightarrow> allowed b r \<Longrightarrow> act b r \<noteq> Inl e"
  using act_ok by fastforce

text \<open>A run: requests that are each permitted when their turn comes.\<close>

inductive run :: "'s \<Rightarrow> 'b \<Rightarrow> bool" for s where
  start: "run s (fresh s)"
| step: "run s b \<Longrightarrow> allowed b r \<Longrightarrow> act b r = Inr b' \<Longrightarrow> run s b'"

lemma run_inv: "run s b \<Longrightarrow> inv b \<and> symbol b = s"
proof (induction rule: run.induct)
  case start
  show ?case by (simp add: inv_fresh symbol_fresh)
next
  case (step b r b')
  then show ?case using act_inv [of b r b'] by simp
qed

end

interpretation map_book: order_book newMapOrderBook "perform d" "permitted d" "book_inv d"
    book_symbol_id for d
  by unfold_locales (simp_all add: book_inv_new perform_ok newMapOrderBook_def [THEN arg_cong [where f = book_symbol_id]])

section \<open>Reachable books\<close>

inductive reachable :: "build \<Rightarrow> u32 \<Rightarrow> MapOrderBook \<Rightarrow> bool" for d s where
  reachable_new: "reachable d s (newMapOrderBook s)"
| reachable_step: "reachable d s b \<Longrightarrow> permitted d b r \<Longrightarrow> perform d b r = Inr b' \<Longrightarrow> reachable d s b'"

inductive_cases reachable_cases: "reachable d s b"

lemma reachable_run: "reachable d s b \<Longrightarrow> map_book.run d s b"
  by (induction rule: reachable.induct) (auto intro: map_book.run.intros)

lemma reachable_inv: "reachable d s b \<Longrightarrow> book_inv d b \<and> book_symbol_id b = s"
  using reachable_run map_book.run_inv by blast

section \<open>A run of requests\<close>

fun performs :: "build \<Rightarrow> MapOrderBook \<Rightarrow> request list \<Rightarrow> MapOrderBook res" where
  "performs d b [] = Inr b"
| "performs d b (r # rs) = rbind (perform d b r) (\<lambda>b'. performs d b' rs)"

fun all_permitted :: "build \<Rightarrow> MapOrderBook \<Rightarrow> request list \<Rightarrow> bool" where
  "all_permitted d b [] = True"
| "all_permitted d b (r # rs) =
     (permitted d b r \<and> (case perform d b r of Inl e \<Rightarrow> False | Inr b' \<Rightarrow> all_permitted d b' rs))"

lemma performs_reachable:
  "reachable d s b \<Longrightarrow> all_permitted d b rs \<Longrightarrow> performs d b rs = Inr b' \<Longrightarrow> reachable d s b'"
proof (induction rs arbitrary: b)
  case (Cons r rs)
  then obtain b1 where "perform d b r = Inr b1" "all_permitted d b1 rs" "performs d b1 rs = Inr b'"
    by (auto split: sum.splits)
  with Cons show ?case by (auto intro: reachable_step)
qed simp

end
