(* ===== verification/Samples.thy ===== *)
theory Samples
  imports Book_Requests
begin

text \<open>
  A concrete book, built by requests, on which the properties are instantiated: asks at two
  prices, a bid, a stop order and two trailing stop orders, after one trade.
\<close>

text \<open>
  Evaluation: the bounds on quantities are compared as integers, since natural numbers compute in
  unary.
\<close>

lemma quantity_ok_code [code]:
  "quantity_ok d od \<longleftrightarrow> (d = Debug \<longrightarrow>
     0 < quantity od \<and> last_executed_quantity od \<le> quantity od \<and>
     uint (executed_quantity od) + uint (open_quantity od) \<le> uint (quantity od))"
  by (simp add: quantity_ok_def flip: of_nat_le_iff [where 'a = int])

definition total_open_int :: "MapOrderBook \<Rightarrow> int" where
  "total_open_int b = sum_list (map (\<lambda>(i, w). uint (open_quantity (w_order w))) (orders b))"

lemma total_open_int: "int (total_open b) = total_open_int b"
proof -
  have "int (sum_list (map (\<lambda>(i, w). unat (open_quantity (w_order w))) m))
      = sum_list (map (\<lambda>(i, w). uint (open_quantity (w_order w))) m)" for m :: "(u64, OrderWrapper) hmap"
    by (induction m) auto
  then show ?thesis by (simp add: total_open_def hm_total_def total_open_int_def)
qed

lemma addable_code [code]:
  "addable d b od \<longleftrightarrow> order_ok d od \<and> open_quantity od \<noteq> 0 \<and> Option.is_none (order_view b (oid od)) \<and>
     symbol_id od = book_symbol_id b \<and>
     total_open_int b + uint (open_quantity od) < 18446744073709551616"
proof -
  have "total_open b + unat (open_quantity od) < 18446744073709551616 \<longleftrightarrow>
      int (total_open b + unat (open_quantity od)) < int 18446744073709551616"
    by (rule of_nat_less_iff [symmetric])
  then show ?thesis by (simp add: addable_def total_open_int [symmetric] Option.is_none_def)
qed

definition sample_order ::
  "OrderType \<Rightarrow> OrderSide \<Rightarrow> OrderTimeInForce \<Rightarrow> u64 \<Rightarrow> u64 \<Rightarrow> u64 \<Rightarrow> u64 \<Rightarrow> u64 \<Rightarrow> Order" where
  "sample_order t s tif pr stop trail qty i =
     \<lparr>otype = t, side = s, time_in_force = tif, symbol_id = 1, price = pr, stop_price = stop,
      trail_amount = trail, last_executed_price = 0, oid = i, quantity = qty,
      executed_quantity = 0, open_quantity = qty, last_executed_quantity = 0\<rparr>"

definition sample_requests :: "request list" where
  "sample_requests =
     [AddOrder (sample_order Limit Ask GTC 100 0 0 50 1),
      AddOrder (sample_order Limit Ask GTC 100 0 0 30 2),
      AddOrder (sample_order Limit Ask GTC 105 0 0 40 3),
      AddOrder (sample_order Limit Bid GTC 100 0 0 20 4),
      AddOrder (sample_order Limit Bid GTC 90 0 0 60 5),
      AddOrder (sample_order StopLimit Ask GTC 80 95 0 10 6),
      AddOrder (sample_order TrailingStop Ask IOC 0 0 15 10 7),
      AddOrder (sample_order TrailingStopLimit Bid GTC 120 0 7 10 8)]"

definition sample_book :: MapOrderBook where
  "sample_book = (case performs Debug (newMapOrderBook 1) sample_requests of
     Inl e \<Rightarrow> newMapOrderBook 1 | Inr b \<Rightarrow> b)"

lemma sample_permitted: "all_permitted Debug (newMapOrderBook 1) sample_requests"
  by code_simp

lemma sample_performs: "performs Debug (newMapOrderBook 1) sample_requests = Inr sample_book"
proof -
  have "case performs Debug (newMapOrderBook 1) sample_requests of Inl e \<Rightarrow> False | Inr b \<Rightarrow> True"
    by code_simp
  then show ?thesis by (auto simp: sample_book_def split: sum.splits)
qed

lemma sample_reachable: "reachable Debug 1 sample_book"
  using performs_reachable [OF reachable_new sample_permitted sample_performs] .

lemma sample_inv: "book_inv Debug sample_book"
  using reachable_inv [OF sample_reachable] by simp

lemma sample_ok: "book_ok Debug sample_book"
  using sample_inv by (rule book_inv_ok)

end
