(* ===== verification/Book_Properties.thy ===== *)
theory Book_Properties
  imports Samples
begin

text \<open>
  The properties of the order book, each with an instance on the sample book where it has
  hypotheses. The build is a variable: they hold for debug and release builds alike.
\<close>

section \<open>The book as a whole\<close>

text \<open>
  C1. On every reachable book, in both builds, a request succeeds if it meets the documented preconditions and
  the limits of the code that are not documented: no assertion fails, nothing is undefined, every loop ends, and
  the result is reachable again. Documented (\<open>documented\<close>) is that the ID of the request is in use, that a limit
  price is positive and that a new order has the fields of its type. Not documented (\<open>supported\<close>) is that the ID of
  a new order or of a replacement is free and positive and a new order is for the symbol of the book, that no bid
  is at \<open>2 ^ 64 - 1\<close>, that the open quantities of the book stay below \<open>2 ^ 64\<close> in all, and that a cancellation is for
  no more than is open and, in a debug build, for no less than what was executed and what stays open together.
  These limits are there for a reason: \<open>limits_matter\<close> in \<open>Book_Deviations\<close> has requests beyond them that fail, and
  \<open>Cancellations\<close> says what exactly becomes of a cancellation beyond them.
\<close>

theorem reachable_progress:
  assumes "reachable d s b" and "documented d b r" and "supported d b r"
  shows "\<exists>b'. perform d b r = Inr b' \<and> reachable d s b'"
proof -
  have p: "permitted d b r" using assms(2,3) by (simp add: permitted_iff)
  have "book_inv d b" using reachable_inv [OF assms(1)] by simp
  with p perform_ok obtain b' where "perform d b r = Inr b'" by blast
  with assms(1) p show ?thesis by (blast intro: reachable_step)
qed

theorem reachable_progress_witness:
  "\<exists>b'. perform Debug sample_book (CancelOrder 3 40) = Inr b' \<and> reachable Debug 1 b'"
proof -
  have "documented Debug sample_book (CancelOrder 3 40)" "supported Debug sample_book (CancelOrder 3 40)"
    by code_simp+
  with sample_reachable show ?thesis by (rule reachable_progress)
qed



section \<open>Matching\<close>

text \<open>
  C6. Price-time priority. On a consistent book \<open>match\<close> consumes the opposite side exactly as
  \<open>fill\<close> consumes the queue of its orders, best price first and oldest first within a price: the
  executions it reports, the queue it leaves, what is left of the incoming order and the last
  traded price are those of the specification.
\<close>

theorem match_price_time_priority:
  assumes "book_ok d b" and "order_ok d od"
  shows "\<exists>b' od' es. match d b od = Inr (b', od') \<and> events b' = events b @ es \<and>
    fill (side od) (price od) (open_quantity od) (opposite_queue (side od) b)
      = (resting_trades (side od) es, opposite_queue (side od) b', open_quantity od') \<and>
    last_traded_price b' = (case resting_trades (side od) es of [] \<Rightarrow> last_traded_price b
      | t # ts \<Rightarrow> fst (snd (last (t # ts))))"
  using match_fill [OF assms] unfolding matches_fill_def by blast

theorem match_price_time_priority_witness:
  "opposite_queue Bid sample_book = [(1, 100, 30), (2, 100, 30), (3, 105, 40)] \<and>
   (\<exists>b' od' es. match Debug sample_book (sample_order Limit Bid GTC 105 0 0 75 9) = Inr (b', od') \<and>
      events b' = events sample_book @ es \<and>
      resting_trades Bid es = [(1, 100, 30), (2, 100, 30), (3, 105, 15)] \<and>
      opposite_queue Bid b' = [(3, 105, 25)] \<and> open_quantity od' = 0 \<and>
      last_traded_price b' = 105)"
proof -
  let ?od = "sample_order Limit Bid GTC 105 0 0 75 9"
  have ok: "order_ok Debug ?od" by code_simp
  have q: "opposite_queue Bid sample_book = [(1, 100, 30), (2, 100, 30), (3, 105, 40)]" by code_simp
  have od: "side ?od = Bid" "price ?od = 105" "open_quantity ?od = 75" by (simp_all add: sample_order_def)
  have f: "fill Bid 105 75 [(1, 100, 30), (2, 100, 30), (3, 105, 40)]
      = ([(1, 100, 30), (2, 100, 30), (3, 105, 15)], [(3, 105, 25)], 0)" by code_simp
  from match_price_time_priority [OF sample_ok ok, unfolded od q f] obtain b' od' es where
    m: "match Debug sample_book ?od = Inr (b', od')" "events b' = events sample_book @ es"
      "([(1, 100, 30), (2, 100, 30), (3, 105, 15)], [(3, 105, 25)], 0)
        = (resting_trades Bid es, opposite_queue Bid b', open_quantity od')"
      "last_traded_price b' = (case resting_trades Bid es of [] \<Rightarrow> last_traded_price sample_book
        | t # ts \<Rightarrow> fst (snd (last (t # ts))))"
    by blast
  then have "resting_trades Bid es = [(1, 100, 30), (2, 100, 30), (3, 105, 15)]"
    "opposite_queue Bid b' = [(3, 105, 25)]" "open_quantity od' = 0" by simp_all
  moreover from this m(4) have "last_traded_price b' = 105" by simp
  moreover note m(1,2)
  ultimately have "\<exists>b' od' es. match Debug sample_book ?od = Inr (b', od') \<and>
      events b' = events sample_book @ es \<and>
      resting_trades Bid es = [(1, 100, 30), (2, 100, 30), (3, 105, 15)] \<and>
      opposite_queue Bid b' = [(3, 105, 25)] \<and> open_quantity od' = 0 \<and>
      last_traded_price b' = 105" by blast
  with q show ?thesis by blast
qed



section \<open>Stop orders\<close>

text \<open>
  C8. \<open>activateStopOrders\<close> ends on every consistent book, without a failure, and when it does, the
  market price has reached the stop price of no stop or trailing stop order that is left.
\<close>

theorem activateStopOrders_quiet:
  assumes "book_ok d b"
  shows "\<exists>b'. activateStopOrders d b = Inr b' \<and> book_ok d b' \<and> stop_count b' \<le> stop_count b \<and>
    (\<forall>K p. level_view b' (K, p) \<noteq> None \<longrightarrow>
      (K = StopAskLevels \<or> K = TrailingStopAskLevels \<longrightarrow> p < lastTradedPriceBid b') \<and>
      (K = StopBidLevels \<or> K = TrailingStopBidLevels \<longrightarrow> lastTradedPriceAsk b' < p))"
proof -
  obtain b' where b': "activate_rounds d b = Some (Inr b')" "book_ok d b'" "settle_rel b b'" "quiet b'"
    using activate_rounds_ok [OF assms] by blast
  have n: "\<not> triggered s (market_price s b') p" if "stop_map s K" "level_view b' (K, p) \<noteq> None" for s K p
    using that b'(4) unfolding quiet_def none_triggered_def by blast
  have "p < lastTradedPriceBid b'"
    if "level_view b' (K, p) \<noteq> None" "K = StopAskLevels \<or> K = TrailingStopAskLevels" for K p
    using n [of Ask K p] that by (auto simp: triggered_def market_price_def)
  moreover have "lastTradedPriceAsk b' < p"
    if "level_view b' (K, p) \<noteq> None" "K = StopBidLevels \<or> K = TrailingStopBidLevels" for K p
    using n [of Bid K p] that by (auto simp: triggered_def market_price_def)
  ultimately show ?thesis
    using b' by (auto simp: activateStopOrders_def settle_rel_def)
qed

theorem activateStopOrders_quiet_witness:
  "\<exists>b'. activateStopOrders Debug sample_book = Inr b' \<and> book_ok Debug b'"
  using activateStopOrders_quiet [OF sample_ok] by blast

text \<open>
  C9. The stop price of a trailing stop order follows the market at the distance of its trail
  amount and saturates instead of wrapping around: an ask stop is the market price less the trail,
  at least 0; a bid stop is the market price plus the trail, at most the largest 64-bit value.
\<close>

theorem calculateStopPrice_saturates:
  assumes "order_ok d od"
  shows "\<exists>od'. calculateStopPrice d b od = Inr od' \<and> od' = od\<lparr>stop_price := stop_price od'\<rparr> \<and>
    unat (stop_price od') =
      (if isAsk od then unat (lastTradedPriceBid b) - unat (trail_amount od)
       else min (unat (lastTradedPriceAsk b) + unat (trail_amount od)) (2 ^ 64 - 1))"
proof (cases "side od")
  case Ask
  let ?m = "lastTradedPriceBid b" and ?t = "trail_amount od"
  have "unat (new_stop Ask b ?t) = unat ?m - unat ?t"
    using unat_sub_le [of ?t ?m] by (cases "?t < ?m") (auto simp: new_stop_def word_less_nat_alt word_le_nat_alt)
  with Ask show ?thesis by (simp add: calculateStopPrice_eq [OF assms])
next
  case Bid
  let ?m = "lastTradedPriceAsk b" and ?t = "trail_amount od"
  have sub: "unat (u64_max - ?t) = unat u64_max - unat ?t" by (rule unat_sub_le) simp
  have "unat (new_stop Bid b ?t) = min (unat ?m + unat ?t) (2 ^ 64 - 1)"
  proof (cases "?m < u64_max - ?t")
    case True
    then have less: "unat ?m + unat ?t < 2 ^ 64 - 1"
      using sub by (simp only: word_less_nat_alt unat_u64_max less_diff_conv)
    then have "unat (?m + ?t) = unat ?m + unat ?t" by (intro unat_add_u64) simp
    with True less show ?thesis by (simp add: new_stop_def)
  next
    case False
    then have "2 ^ 64 - 1 \<le> unat ?m + unat ?t"
      using sub by (simp only: word_less_nat_alt unat_u64_max not_less le_diff_conv)
    with False show ?thesis by (simp add: new_stop_def unat_u64_max)
  qed
  with Bid show ?thesis by (simp add: calculateStopPrice_eq [OF assms])
qed

theorem calculateStopPrice_saturates_witness:
  "\<exists>od'. calculateStopPrice Debug sample_book (sample_order TrailingStop Ask IOC 0 0 500 10 9) = Inr od' \<and>
    unat (stop_price od') = 0"
proof -
  let ?od = "sample_order TrailingStop Ask IOC 0 0 500 10 9"
  have "order_ok Debug ?od" by code_simp
  from calculateStopPrice_saturates [OF this, of sample_book] obtain od' where
    "calculateStopPrice Debug sample_book ?od = Inr od'"
    "unat (stop_price od') = unat (lastTradedPriceBid sample_book) - unat (500::u64)"
    by (auto simp: sample_order_def)
  moreover have "lastTradedPriceBid sample_book = 100" by code_simp
  ultimately show ?thesis by simp
qed

text \<open>
  C10. When the market has risen, \<open>updateAskStopOrders\<close> gives every trailing ask order the stop price
  that follows the market and files it under that price, and otherwise changes no order; in both
  cases the other maps are untouched and the local map is empty again.
\<close>

theorem updateAskStopOrders_trails:
  assumes "book_ok d b"
  shows "\<exists>b'. updateAskStopOrders d b = Inr b' \<and> book_ok d b' \<and>
    last_traded_price b' = last_traded_price b \<and>
    order_view b' = (\<lambda>i. map_option (\<lambda>w.
      if fst (level_it w) = TrailingStopAskLevels \<and> trailing_bid_price b < lastTradedPriceBid b
      then (let stop = new_stop Ask b (trail_amount (w_order w)) in
        \<lparr>w_order = (w_order w)\<lparr>stop_price := stop\<rparr>, level_it = (TrailingStopAskLevels, stop)\<rparr>)
      else w) (order_view b i)) \<and>
    (\<forall>K p. K \<noteq> TrailingStopAskLevels \<longrightarrow> level_view b' (K, p) = level_view b (K, p))"
proof -
  obtain b' where b': "updateAskStopOrders d b = Inr b'" "book_ok d b'" "update_rel Ask b b'"
      "if market_moved Ask b then all_trailed Ask b b'
       else order_view b' = order_view b \<and> level_view b' = level_view b"
    using update_side_ok [OF assms, of Ask] by (auto simp: update_side_def)
  have "order_view b' = (\<lambda>i. map_option (\<lambda>w.
      if fst (level_it w) = TrailingStopAskLevels \<and> trailing_bid_price b < lastTradedPriceBid b
      then (let stop = new_stop Ask b (trail_amount (w_order w)) in
        \<lparr>w_order = (w_order w)\<lparr>stop_price := stop\<rparr>, level_it = (TrailingStopAskLevels, stop)\<rparr>)
      else w) (order_view b i))"
    using b'(4) by (simp add: market_moved_def all_trailed_def trailed_def [abs_def] trailing_map_def
        fun_eq_iff option.map_ident cong: if_cong split: if_splits)
  with b'(1-3) show ?thesis by (simp add: update_rel_def trailing_map_def)
qed

theorem updateAskStopOrders_trails_witness:
  "\<exists>b'. updateAskStopOrders Debug (sample_book\<lparr>last_traded_price := 130\<rparr>) = Inr b' \<and> book_ok Debug b' \<and>
    last_traded_price b' = 130"
proof -
  have "book_ok Debug (sample_book\<lparr>last_traded_price := 130\<rparr>)" using sample_ok by simp
  from updateAskStopOrders_trails [OF this] show ?thesis by auto
qed

section \<open>The operations\<close>

text \<open>
  C11. \<open>addOrder\<close> admits no order under any ID but that of the new order, and a market order, an
  immediate-or-cancel or a fill-or-kill limit order is never left in the book.
\<close>

theorem addOrder_never_rests_transient:
  assumes "book_inv d b" and "addable d b od"
  shows "\<exists>b'. addOrder d b od = Inr b' \<and> book_inv d b' \<and>
    (\<forall>i. hasOrder b' i \<longrightarrow> hasOrder b i \<or> i = oid od) \<and>
    (otype od = Market \<or> otype od = Limit \<and> (isIoc od \<or> isFok od) \<longrightarrow> \<not> hasOrder b' (oid od))"
proof -
  obtain b' where b': "addOrder d b od = Inr b'" "book_inv d b'" "submit_rel b od b'"
      "transient od \<longrightarrow> order_view b' (oid od) = None"
    using addOrder_ok [OF assms] by blast
  have "transient od" if "otype od = Market \<or> otype od = Limit \<and> (isIoc od \<or> isFok od)"
    using that by (auto simp: transient_def)
  with b' show ?thesis by (auto simp: submit_rel_def hasOrder_eq)
qed

theorem addOrder_never_rests_transient_witness:
  "\<exists>b'. addOrder Debug sample_book (sample_order Limit Bid IOC 105 0 0 500 9) = Inr b' \<and> \<not> hasOrder b' 9"
proof -
  let ?od = "sample_order Limit Bid IOC 105 0 0 500 9"
  have "addable Debug sample_book ?od" by code_simp
  from addOrder_never_rests_transient [OF sample_inv this] show ?thesis
    by (auto simp: sample_order_def)
qed

text \<open>
  C12. Executing a resting order trades the smaller of the requested and the open quantity at the
  given price, reports it, lowers the volume of the book by exactly that quantity, removes the order
  if and only if nothing of it is left open, and changes no other order and no other level.
\<close>

theorem execute_resting_contract:
  assumes "book_ok d b" and "order_view b i = Some w"
  shows "\<exists>b' od. execute_resting d b i qty price_of = Inr b' \<and> book_ok d b' \<and>
    od = executed (price_of (w_order w)) (min qty (open_quantity (w_order w))) (w_order w) \<and>
    order_view b' = (order_view b)
      (i := if qty < open_quantity (w_order w) then Some (w\<lparr>w_order := od\<rparr>) else None) \<and>
    (\<forall>it. it \<noteq> level_it w \<longrightarrow> level_view b' it = level_view b it) \<and>
    last_traded_price b' = price_of (w_order w) \<and>
    total_open b = total_open b' + unat (min qty (open_quantity (w_order w))) \<and>
    events b' = events b @ ExecutedOrder od #
      (if qty < open_quantity (w_order w) then [] else [OrderDeleted od])"
proof -
  let ?od = "executed (price_of (w_order w)) (executed_quantity_of qty (w_order w)) (w_order w)"
  have q: "executed_quantity_of qty (w_order w) = min qty (open_quantity (w_order w))"
    by (simp add: executed_quantity_of_def)
  have "isFilled ?od \<longleftrightarrow> \<not> qty < open_quantity (w_order w)"
    by (auto simp: q min_def)
  then show ?thesis
    using execute_resting_ok [OF assms refl, of qty price_of] by (auto simp: q reduced_to_def)
qed

theorem execute_resting_contract_witness:
  "\<exists>b'. execute_resting Debug sample_book 2 12 getPrice = Inr b' \<and> book_ok Debug b' \<and>
    last_traded_price b' = 100 \<and> total_open sample_book = total_open b' + 12"
proof -
  obtain w where w: "order_view sample_book 2 = Some w"
    and "price (w_order w) = 100" "open_quantity (w_order w) = 30"
  proof -
    have "case order_view sample_book 2 of None \<Rightarrow> False
      | Some w \<Rightarrow> price (w_order w) = 100 \<and> open_quantity (w_order w) = 30" by code_simp
    then show thesis using that by (auto split: option.splits)
  qed
  with execute_resting_contract [OF sample_ok w, of 12 getPrice] show ?thesis by auto
qed

text \<open>
  Deleting an order removes it, reports the deletion first, and lets no other order in; the
  stop orders are then settled and the invariant holds again.
\<close>

lemma deleteOrder_removes:
  assumes "book_inv d b" and "hasOrder b i"
  shows "\<exists>b'. deleteOrder d b i = Inr b' \<and> book_inv d b' \<and> \<not> hasOrder b' i \<and>
    (\<forall>j. hasOrder b' j \<longrightarrow> hasOrder b j) \<and> total_open b' \<le> total_open b"
proof -
  obtain b' where b': "deleteOrder d b i = Inr b'" "book_inv d b'" "settle_rel b b'" "\<not> hasOrder b' i"
    using deleteOrder_ok [OF assms] by blast
  moreover have "hasOrder b j" if "hasOrder b' j" for j
    using that b'(3) by (auto simp: hasOrder_eq settle_rel_def)
  ultimately show ?thesis by (auto simp: settle_rel_def)
qed

lemma deleteOrder_removes_witness:
  "\<exists>b'. deleteOrder Debug sample_book 5 = Inr b' \<and> book_inv Debug b' \<and> \<not> hasOrder b' 5"
proof -
  have "hasOrder sample_book 5" by code_simp
  from deleteOrder_removes [OF sample_inv this] show ?thesis by blast
qed

text \<open>
  \<open>bestBid\<close> and \<open>bestAsk\<close> are the largest price of a bid level and the smallest price of an ask
  level, and their defaults exactly when there is no such level.
\<close>

lemma best_prices_extreme:
  assumes "book_ok d b"
  shows "(\<forall>p. level_view b (BidLevels, p) \<noteq> None \<longrightarrow> p \<le> bestBid b) \<and>
    (\<forall>p. level_view b (AskLevels, p) \<noteq> None \<longrightarrow> bestAsk b \<le> p) \<and>
    (level_view b (BidLevels, bestBid b) \<noteq> None \<or>
      bestBid b = 0 \<and> (\<forall>p. level_view b (BidLevels, p) = None)) \<and>
    (level_view b (AskLevels, bestAsk b) \<noteq> None \<or>
      bestAsk b = u64_max \<and> (\<forall>p. level_view b (AskLevels, p) = None))"
proof -
  note om = wf_book_om_limit [OF book_ok_wf [OF assms]]
  have "(\<forall>p. level_view b (BidLevels, p) \<noteq> None \<longrightarrow> p \<le> bestBid b) \<and>
      (level_view b (BidLevels, bestBid b) \<noteq> None \<or>
        bestBid b = 0 \<and> (\<forall>p. level_view b (BidLevels, p) = None))"
    using om.final_Some [OF om(2)] om.final_None [of "bid_levels b"]
    by (cases "om_rbegin (bid_levels b)") (auto simp: bestBid_def level_view_def)
  moreover have "(\<forall>p. level_view b (AskLevels, p) \<noteq> None \<longrightarrow> bestAsk b \<le> p) \<and>
      (level_view b (AskLevels, bestAsk b) \<noteq> None \<or>
        bestAsk b = u64_max \<and> (\<forall>p. level_view b (AskLevels, p) = None))"
    using om.first_Some [OF om(1)] om.first_None [of "ask_levels b"]
    by (cases "om_begin (ask_levels b)") (auto simp: bestAsk_def level_view_def)
  ultimately show ?thesis by blast
qed

lemma best_prices_extreme_witness:
  "level_view sample_book (AskLevels, 105) \<noteq> None \<and> bestAsk sample_book \<le> 105"
proof -
  have "\<not> Option.is_none (level_view sample_book (AskLevels, 105))" by code_simp
  then have "level_view sample_book (AskLevels, 105) \<noteq> None" by (simp add: Option.is_none_def)
  with best_prices_extreme [OF sample_ok] show ?thesis by blast
qed

end
