(* ===== verification/Book_Deviations.thy ===== *)
theory Book_Deviations
  imports Samples
begin

text \<open>
  Where the code departs from its documentation: the fill-or-kill test, the meaning of the quantity
  of a cancellation, the width of the execution price, and the ratchet of trailing stop orders; and requests
  that meet the documentation but not the limits of the code.
\<close>

text \<open>
  C16. The fill-or-kill test does not look at the quantity of the order: its loop never advances
  its iterator, so on a consistent book \<open>canMatchOrder\<close> ends with \<open>true\<close> as soon as the best
  opposite level crosses the order, however little it offers.
\<close>

theorem canMatchOrder_ignores_quantity:
  assumes "book_ok d b"
  shows "canMatchOrder b od =
    Some (\<exists>p. level_view b (opposite_map od, p) \<noteq> None \<and> crosses od p)"
  using canMatchOrder_eq [OF assms, of od] best_opposite_crosses [OF book_ok_wf [OF assms], of od]
  by auto

theorem canMatchOrder_ignores_quantity_witness:
  "canMatchOrder sample_book (sample_order Limit Bid FOK 100 0 0 1000000 9) =
    Some (\<exists>p. level_view sample_book (AskLevels, p) \<noteq> None \<and> p \<le> 100)"
  using canMatchOrder_ignores_quantity [OF sample_ok, of "sample_order Limit Bid FOK 100 0 0 1000000 9"]
  by (simp add: opposite_map_def crosses_def sample_order_def)

text \<open>
  A fill-or-kill order can be executed in part: on the sample book, which offers 100 up to the
  limit price, an order for 200 trades 100 and the rest of it is then deleted.
\<close>

lemma fok_executed_in_part:
  "case addOrder Debug sample_book (sample_order Limit Bid FOK 105 0 0 200 9) of
     Inl e \<Rightarrow> False
   | Inr b' \<Rightarrow> resting_trades Bid (drop (length (events sample_book)) (events b'))
         = [(1, 100, 30), (2, 100, 30), (3, 105, 40)] \<and> \<not> hasOrder b' 9"
  by code_simp

text \<open>
  \<open>cancelOrder\<close> overwrites the quantity of the order with the cancelled quantity (the general law is in
  \<open>Cancellations\<close>). A run: after an order of 200 was reduced by 50, executing 100 of the 150 that are open
  fails the order's own validation in a debug build; a release build executes them.
\<close>

definition cancelled_then_executed :: "request list" where
  "cancelled_then_executed =
     [AddOrder (sample_order Limit Ask GTC 100 0 0 200 1), CancelOrder 1 50, ExecuteOrder 1 100]"

definition open_after :: "MapOrderBook res \<Rightarrow> u64 \<Rightarrow> u64 option" where
  "open_after r i = (case r of Inl e \<Rightarrow> None
     | Inr b \<Rightarrow> map_option (\<lambda>w. open_quantity (w_order w)) (order_view b i))"

definition fails_with :: "'a res \<Rightarrow> failure \<Rightarrow> bool" where
  "fails_with r e \<longleftrightarrow> (case r of Inl e' \<Rightarrow> e' = e | Inr x \<Rightarrow> False)"

lemma cancelled_then_executed_run:
  "open_after (performs Debug (newMapOrderBook 1) (take 2 cancelled_then_executed)) 1 = Some 150 \<and>
   fails_with (performs Debug (newMapOrderBook 1) cancelled_then_executed) AssertionFailure \<and>
   open_after (performs Release (newMapOrderBook 1) cancelled_then_executed) 1 = Some 50"
  by code_simp

text \<open>
  Cancelling more than the open quantity does not remove the order, as documented: the open
  quantity wraps around (the general law is in \<open>Cancellations\<close>). On the sample book, where 40 of order 3
  are open, cancelling 41 stops a debug build and leaves \<open>2 ^ 64 - 1\<close> open in a release build.
\<close>

lemma cancelOrder_beyond_open:
  "open_after (Inr sample_book) 3 = Some 40 \<and>
   fails_with (cancelOrder Debug sample_book 3 41) AssertionFailure \<and>
   open_after (cancelOrder Release sample_book 3 41) 3 = Some 18446744073709551615"
  by code_simp

text \<open>
  C19. The price of an execution is narrowed to 32 bits: whatever price it happens at, the price
  that is recorded in the order and reported to the event handler is the price modulo \<open>2 ^ 32\<close>.
\<close>

theorem executed_price_truncated:
  assumes "order_ok d od" and "q \<le> open_quantity od"
  shows "\<exists>od'. execute d (ucast p) q od = Inr od' \<and>
    unat (last_executed_price od') = unat (p :: u64) mod 2 ^ 32 \<and>
    last_executed_quantity od' = q \<and> open_quantity od' = open_quantity od - q"
  using execute_ok [OF assms, of p]
  by (simp add: executed_def unsigned_ucast_eq take_bit_eq_mod unat_mod_distrib)

theorem executed_price_truncated_witness:
  "\<exists>od'. execute Debug (ucast (4294967297 :: u64)) 10 (sample_order Limit Ask GTC 4294967297 0 0 10 9) = Inr od' \<and>
    unat (last_executed_price od') = 1"
proof -
  let ?od = "sample_order Limit Ask GTC 4294967297 0 0 10 9"
  have "order_ok Debug ?od" by code_simp
  moreover have "10 \<le> open_quantity ?od" by (simp add: sample_order_def)
  ultimately show ?thesis using executed_price_truncated [of Debug ?od 10 4294967297] by auto
qed

text \<open>
  Trailing stop orders are not ratcheted: \<open>updateAskStopOrders\<close> also records a market price
  that has fallen, so the next rise moves the stop price down. A trailing stop that sells 10 below
  the market has stop price 110 after the market has been at 120, and 108 after it then went to
  115 and to 118.
\<close>

definition trailing_run :: "request list" where
  "trailing_run =
     [AddOrder (sample_order Limit Ask GTC 200 0 0 100 1),
      ExecuteOrderAt 1 1 100,
      AddOrder (sample_order TrailingStop Ask IOC 0 0 10 5 2),
      ExecuteOrderAt 1 1 120,
      ExecuteOrderAt 1 1 115,
      ExecuteOrderAt 1 1 118]"

definition stop_after :: "MapOrderBook res \<Rightarrow> u64 \<Rightarrow> u64 option" where
  "stop_after r i = (case r of Inl e \<Rightarrow> None
     | Inr b \<Rightarrow> map_option (\<lambda>w. stop_price (w_order w)) (order_view b i))"

lemma trailing_stop_moves_back:
  "stop_after (performs Debug (newMapOrderBook 1) (take 3 trailing_run)) 2 = Some 90 \<and>
   stop_after (performs Debug (newMapOrderBook 1) (take 4 trailing_run)) 2 = Some 110 \<and>
   stop_after (performs Debug (newMapOrderBook 1) (take 5 trailing_run)) 2 = Some 110 \<and>
   stop_after (performs Debug (newMapOrderBook 1) (take 6 trailing_run)) 2 = Some 108"
  by code_simp

text \<open>
  Requests that are documented but not supported, and what a debug build makes of them: a bid at the largest
  price fails the validation of the book, since \<open>bestAsk\<close> is that price as well when there are no asks; when two
  orders of \<open>2 ^ 63\<close> share a level, its volume is 0, and neither can be executed; a cancellation beyond what is
  open fails at once, and one of less than what stays open makes a later execution fail; a replacement cannot
  have ID 0. The last requests of the first lists are documented, but not supported; nothing in the second lists
  is out of order.
\<close>

lemma documented_limit_order:
  "documented d b (AddOrder (sample_order Limit s GTC p 0 0 q i)) \<longleftrightarrow> 0 < p \<and> 0 < q \<and> 0 < i"
  by (auto simp: documented_order_def sample_order_def quantity_ok_def limit_kind_def trailing_kind_def word_gt_0)

definition unsupported_runs :: "(request list \<times> request list) list" where
  "unsupported_runs =
   [([AddOrder (sample_order Limit Bid GTC 18446744073709551615 0 0 10 1)], []),
    ([AddOrder (sample_order Limit Ask GTC 100 0 0 9223372036854775808 1),
      AddOrder (sample_order Limit Ask GTC 100 0 0 9223372036854775808 2)], [ExecuteOrder 1 10]),
    ([AddOrder (sample_order Limit Ask GTC 100 0 0 200 1), CancelOrder 1 201], []),
    ([AddOrder (sample_order Limit Ask GTC 100 0 0 200 1), CancelOrder 1 50], [ExecuteOrder 1 100]),
    ([AddOrder (sample_order Limit Ask GTC 100 0 0 200 1), ReplaceOrder 1 0 100], [])]"

lemma limits_matter:
  "list_all (\<lambda>(rs, more). fails_with (performs Debug (newMapOrderBook 1) (rs @ more)) AssertionFailure)
     unsupported_runs"
  by code_simp

end
