(* ===== verification/Release_Build.thy ===== *)
theory Release_Build
  imports Samples
begin

text \<open>
  The release build, without assertions, computes what the debug build computes wherever the debug
  build does not stop: no operation of the book depends on its assertions.
\<close>

section \<open>Orders and levels\<close>

lemma refines_order_ops [refines_intros]:
  "refines (execute Debug x q od) (execute Release x q od)"
  "refines (setPrice Debug p od) (setPrice Release p od)"
  "refines (setStopPrice Debug p od) (setStopPrice Release p od)"
  "refines (setTrailAmount Debug p od) (setTrailAmount Release p od)"
  "refines (setQuantity Debug p od) (setQuantity Release p od)"
  "refines (setOrderID Debug p od) (setOrderID Release p od)"
  "refines (setType Debug t od) (setType Release t od)"
  unfolding order_op_defs Let_def by (intro refines_intros)+

lemma refines_case_list [refines_intros]:
  "refines m m' \<Longrightarrow> (\<And>x xs. refines (f x xs) (f' x xs)) \<Longrightarrow>
    refines (case l of [] \<Rightarrow> m | x # xs \<Rightarrow> f x xs) (case l of [] \<Rightarrow> m' | x # xs \<Rightarrow> f' x xs)"
  by (cases l) auto

lemma refines_if [refines_intros]:
  "refines a a' \<Longrightarrow> refines b b' \<Longrightarrow> refines (if P then a else b) (if P then a' else b')"
  by simp

lemma refines_case_option [refines_intros]:
  "refines m m' \<Longrightarrow> (\<And>x. refines (f x) (f' x)) \<Longrightarrow>
    refines (case r of None \<Rightarrow> m | Some x \<Rightarrow> f x) (case r of None \<Rightarrow> m' | Some x \<Rightarrow> f' x)"
  by (cases r) auto

lemma refines_case_prod [refines_intros]:
  "(\<And>x y. refines (f x y) (f' x y)) \<Longrightarrow> refines (case r of (x, y) \<Rightarrow> f x y) (case r of (x, y) \<Rightarrow> f' x y)"
  by (cases r) auto

lemma refines_level_ops [refines_intros]:
  "refines (Level_addOrder Debug h od l) (Level_addOrder Release h od l)"
  "refines (Level_popFront Debug h l) (Level_popFront Release h l)"
  "refines (Level_popBack Debug h l) (Level_popBack Release h l)"
  "refines (Level_deleteOrder Debug h od l) (Level_deleteOrder Release h od l)"
  "refines (Level_reduceVolume Debug h q l) (Level_reduceVolume Release h q l)"
  "refines (Level_front Debug l) (Level_front Release l)"
  "refines (Level_back Debug l) (Level_back Release l)"
  unfolding level_op_defs Let_def by (intro refines_intros)+

section \<open>The book\<close>

lemma refines_deleteOrder_notify [refines_intros]:
  "refines (deleteOrder_notify Debug b i n) (deleteOrder_notify Release b i n)"
  unfolding deleteOrder_notify_def erase_empty_level_def Let_def by (intro refines_intros)

lemma refines_insert_at [refines_intros]:
  "refines (insert_at Debug K p s od b) (insert_at Release K p s od b)"
  unfolding insert_at_def Let_def by (intro refines_intros)

lemma refines_match_step [refines_intros]:
  "refines (match_step Debug b od lev) (match_step Release b od lev)"
  unfolding match_step_def execute_incoming_def executeOrders_def Let_def by (intro refines_intros)

lemma refines_match_loop [refines_intros]: "refines (match_loop Debug b od) (match_loop Release b od)"
proof -
  have "d = Debug \<Longrightarrow> refines (match_loop d b od) (match_loop Release b od)" for d
  proof (induction d b od rule: match_loop.induct)
    case (1 d b od)
    show ?case
    proof (cases "best_opposite b od")
      case None
      then show ?thesis by (simp add: match_loop.simps refines_refl)
    next
      case (Some lev)
      show ?thesis
      proof (cases "crosses od (fst lev) \<and> \<not> isFilled od")
        case False
        then show ?thesis
          using Some by (subst (1 2) match_loop.simps) (auto simp: refines_refl)
      next
        case True
        have "refines (match_step d b od lev) (match_step Release b od lev)"
          using "1.prems" by (simp add: refines_match_step)
        then have "refines (rbind (match_step d b od lev) (\<lambda>r. match_loop d (fst r) (snd r)))
            (rbind (match_step Release b od lev) (\<lambda>r. match_loop Release (fst r) (snd r)))"
          using "1.IH" [OF Some True] "1.prems" by (auto simp: refines_def)
        then show ?thesis using Some True by (subst (1 2) match_loop.simps) simp
      qed
    qed
  qed
  then show ?thesis by simp
qed

lemma refines_add [refines_intros]:
  "refines (addLimitOrder Debug b od) (addLimitOrder Release b od)"
  "refines (addMarketOrder Debug b od) (addMarketOrder Release b od)"
  unfolding addLimitOrder_def addMarketOrder_def match_def insertLimitOrder_def
  by (intro refines_intros)+

lemma refines_calculateStopPrice [refines_intros]:
  "refines (calculateStopPrice Debug b od) (calculateStopPrice Release b od)"
  unfolding calculateStopPrice_def Let_def by (intro refines_intros)

lemma refines_addStopOrder [refines_intros]:
  "refines (addStopOrder Debug b od) (addStopOrder Release b od)"
  unfolding addStopOrder_def insertTrailingStopOrder_def insertStopOrder_def Let_def
  by (intro refines_intros)

lemma refines_activate_front [refines_intros]:
  "refines (activate_front Debug b l) (activate_front Release b l)"
  unfolding activate_front_def activateStopOrder_def Let_def by (intro refines_intros)

lemma refines_move_front [refines_intros]:
  "refines (move_front Debug s p b) (move_front Release s p b)"
  unfolding move_front_def Let_def by (intro refines_intros)

lemma refines_move_level [refines_intros]: "refines (move_level Debug s p b) (move_level Release s p b)"
proof -
  have "d = Debug \<Longrightarrow> refines (move_level d s p b) (move_level Release s p b)" for d
  proof (induction d s p b rule: move_level.induct)
    case (1 d s p b)
    show ?case
    proof (cases "find_level b (trailing_map s, p)")
      case (Inl e)
      then show ?thesis by (subst (1 2) move_level.simps) (simp add: refines_refl)
    next
      case (Inr l)
      show ?thesis
      proof (cases "Level_empty l")
        case True
        then show ?thesis
          using Inr by (subst (1 2) move_level.simps) (simp add: refines_refl del: find_level_eq_Inr)
      next
        case False
        have "refines (move_front d s p b) (move_front Release s p b)"
          using "1.prems" by (simp add: refines_move_front)
        then have "refines (rbind (move_front d s p b) (\<lambda>b'. move_level d s p b'))
            (rbind (move_front Release s p b) (\<lambda>b'. move_level Release s p b'))"
          using "1.IH" [OF Inr False] "1.prems" by (auto simp: refines_def)
        then show ?thesis
          using Inr False by (subst (1 2) move_level.simps) (simp del: find_level_eq_Inr)
      qed
    qed
  qed
  then show ?thesis by simp
qed

lemma refines_move_levels [refines_intros]:
  "refines (move_levels Debug s ps b) (move_levels Release s ps b)"
  by (induction ps arbitrary: b) (simp_all add: refines_refl refines_rbind refines_move_level)

lemma refines_update [refines_intros]:
  "refines (updateAskStopOrders Debug b) (updateAskStopOrders Release b)"
  "refines (updateBidStopOrders Debug b) (updateBidStopOrders Release b)"
  unfolding updateAskStopOrders_def updateBidStopOrders_def Let_def by (intro refines_intros)+

section \<open>The activation loops\<close>

lemma refines_returns:
  "(\<And>r. m = Some (Inr r) \<Longrightarrow> m' = Some (Inr r)) \<Longrightarrow> refines (returns m) (returns m')"
  by (cases m) (auto simp: refines_def)

lemma activation_loop_release:
  assumes "activation_loop d s K x b a = Some y"
  shows "d = Debug \<longrightarrow> (\<forall>r. y = Inr r \<longrightarrow> activation_loop Release s K x b a = Some (Inr r))"
proof (rule activation_loop.raw_induct [OF _ assms], intro impI allI)
  fix loop d s K x b a y r
  assume IH: "\<And>d s K x b a y. loop d s K x b a = Some y \<Longrightarrow>
      d = Debug \<longrightarrow> (\<forall>r. y = Inr r \<longrightarrow> activation_loop Release s K x b a = Some (Inr r))"
    and step: "(case next_stop_level s K b of None \<Rightarrow> Some (Inr (b, a))
      | Some (p, l) \<Rightarrow>
          if triggered s x p
          then case activate_front d b l of Inl e \<Rightarrow> Some (Inl e) | Inr b' \<Rightarrow> loop d s K x b' True
          else Some (Inr (b, a))) = Some y"
    and d: "d = Debug" and y: "y = Inr r"
  show "activation_loop Release s K x b a = Some (Inr r)"
  proof (cases "\<exists>p l. next_stop_level s K b = Some (p, l) \<and> triggered s x p")
    case False
    then have "y = Inr (b, a)" using step by (auto split: option.splits)
    with False y show ?thesis by (subst activation_loop.simps) (auto split: option.split)
  next
    case True
    then obtain p l where n: "next_stop_level s K b = Some (p, l)" "triggered s x p" by blast
    obtain b1 where b1: "activate_front Debug b l = Inr b1" "loop d s K x b1 True = Some y"
      using n step y d by (auto split: sum.splits)
    have "activate_front Release b l = Inr b1"
      using b1(1) refines_activate_front by (auto simp: refines_def)
    moreover have "activation_loop Release s K x b1 True = Some (Inr r)"
      using IH [OF b1(2)] d y by simp
    ultimately show ?thesis using n by (subst activation_loop.simps) simp
  qed
qed

lemma refines_activation_loop [refines_intros]:
  "refines (returns (activation_loop Debug s K x b a)) (returns (activation_loop Release s K x b a))"
  by (rule refines_returns) (simp add: activation_loop_release)

lemma refines_activate_side [refines_intros]:
  "refines (activateBidStopOrders Debug b) (activateBidStopOrders Release b)"
  "refines (activateAskStopOrders Debug b) (activateAskStopOrders Release b)"
  unfolding activateBidStopOrders_def activateAskStopOrders_def by (intro refines_intros)+

lemma refines_activation_round [refines_intros]:
  "refines (activation_round Debug b) (activation_round Release b)"
  unfolding activation_round_def by (intro refines_intros)

lemma activate_rounds_release:
  assumes "activate_rounds d b = Some y"
  shows "d = Debug \<longrightarrow> (\<forall>r. y = Inr r \<longrightarrow> activate_rounds Release b = Some (Inr r))"
proof (rule activate_rounds.raw_induct [OF _ assms], intro impI allI)
  fix rounds d b y r
  assume IH: "\<And>d b y. rounds d b = Some y \<Longrightarrow>
      d = Debug \<longrightarrow> (\<forall>r. y = Inr r \<longrightarrow> activate_rounds Release b = Some (Inr r))"
    and step: "(case activation_round d b of Inl e \<Rightarrow> Some (Inl e)
      | Inr (b', activate) \<Rightarrow> if activate then rounds d b' else Some (Inr b')) = Some y"
    and d: "d = Debug" and y: "y = Inr r"
  obtain b1 act where a: "activation_round Debug b = Inr (b1, act)"
      "(if act then rounds d b1 else Some (Inr b1)) = Some y"
    using step d y by (auto split: sum.splits)
  have a': "activation_round Release b = Inr (b1, act)"
    using a(1) refines_activation_round by (auto simp: refines_def)
  show "activate_rounds Release b = Some (Inr r)"
  proof (cases act)
    case True
    then have "activate_rounds Release b1 = Some (Inr r)" using IH [of d b1 y] a(2) d y by simp
    with a' True show ?thesis by (subst activate_rounds.simps) simp
  next
    case False
    with a(2) a' y show ?thesis by (subst activate_rounds.simps) simp
  qed
qed

lemma refines_settle [refines_intros]: "refines (settle Debug b) (settle Release b)"
proof -
  have "refines (activateStopOrders Debug b) (activateStopOrders Release b)" for b
    unfolding activateStopOrders_def
    by (rule refines_returns) (simp add: activate_rounds_release)
  then show ?thesis unfolding settle_def by (intro refines_intros)
qed

section \<open>The operations\<close>

lemma refines_submit [refines_intros]: "refines (submit Debug b od) (submit Release b od)"
  by (cases "otype od") (simp_all add: submit_def refines_add refines_addStopOrder)

lemma refines_addOrder [refines_intros]: "refines (addOrder Debug b od) (addOrder Release b od)"
  unfolding addOrder_def by (intro refines_intros)

lemma refines_resting [refines_intros]:
  "refines (execute_resting Debug b i qty price_of) (execute_resting Release b i qty price_of)"
  "refines (cancel_resting Debug b i qty) (cancel_resting Release b i qty)"
  unfolding execute_resting_def cancel_resting_def Let_def by (intro refines_intros)+

text \<open>
  A release build gives the result of the debug build for every request on every book, well formed or not, on
  which the debug build does not stop. The conditions of the assertions have no side effects in the source, and
  the model, where they are values of type \<open>bool\<close>, could not express any.
\<close>

lemma release_refines_debug: "refines (perform Debug b r) (perform Release b r)"
proof (cases r)
  case (ReplaceOrder i j p)
  show ?thesis
    unfolding ReplaceOrder perform.simps replaceOrder_def by (intro refines_intros)
qed (simp_all add: executeOrder_at_def executeOrder_def deleteOrder_def cancelOrder_def
    refines_addOrder refines_rbind refines_resting refines_settle refines_deleteOrder_notify)

end
