(* ===== verification/Markets.thy ===== *)
theory Markets
  imports Book_Requests
begin

text \<open>
  The market (\<open>include/matching/market/market.h\<close>, \<open>src/matching/market/market.cpp\<close>): an
  \<open>OrderBookHandler\<close> keeps one book per symbol and forwards each operation to the book of its
  symbol; a \<open>Market\<close> keeps the symbols and owns a handler.

  All books of a handler report to its one event handler, by reference. In the model a book holds
  the events; a call on a book starts from the events of the handler and gives them back, so the
  events of all books are recorded in the order of the calls.
\<close>

section \<open>Data\<close>

record Symbol =
  symbol_number :: u32
  symbol_name :: string

definition newSymbol :: "u32 \<Rightarrow> string \<Rightarrow> Symbol" where
  "newSymbol new_id new_name = \<lparr>symbol_number = new_id, symbol_name = new_name\<rparr>"

record OrderBookHandler =
  id_to_book :: "(u32, MapOrderBook) hmap"
  handler_events :: "Event list"

record Market =
  orderbook_handler :: OrderBookHandler
  id_to_symbol :: "(u32, Symbol) hmap"

definition newOrderBookHandler :: OrderBookHandler where
  "newOrderBookHandler = \<lparr>id_to_book = [], handler_events = []\<rparr>"

definition newMarket :: Market where
  "newMarket = \<lparr>orderbook_handler = newOrderBookHandler, id_to_symbol = []\<rparr>"

section \<open>The handler\<close>

definition find_book :: "OrderBookHandler \<Rightarrow> u32 \<Rightarrow> MapOrderBook option" where
  "find_book h sid = hm_find sid (id_to_book h)"

definition notify :: "Event \<Rightarrow> OrderBookHandler \<Rightarrow> OrderBookHandler" where
  "notify e h = h\<lparr>handler_events := handler_events h @ [e]\<rparr>"

definition addOrderBook :: "build \<Rightarrow> OrderBookHandler \<Rightarrow> u32 \<Rightarrow> string \<Rightarrow> OrderBookHandler res" where
  "addOrderBook d h sid name =
     rbind (check d (find_book h sid = None) ()) (\<lambda>_.
     Inr (notify (SymbolAdded sid name)
       (h\<lparr>id_to_book := hm_emplace sid (newMapOrderBook sid) (id_to_book h)\<rparr>)))"

definition deleteOrderBook :: "build \<Rightarrow> OrderBookHandler \<Rightarrow> u32 \<Rightarrow> string \<Rightarrow> OrderBookHandler res" where
  "deleteOrderBook d h sid name =
     rbind (check d (find_book h sid \<noteq> None) ()) (\<lambda>_.
     rbind (deref (find_book h sid)) (\<lambda>_.
     Inr (notify (SymbolDeleted sid name) (h\<lparr>id_to_book := hm_erase sid (id_to_book h)\<rparr>))))"

text \<open>
  The shape of the forwarding operations: look the book up, check the arguments, call the book.
\<close>

definition on_book ::
  "build \<Rightarrow> OrderBookHandler \<Rightarrow> u32 \<Rightarrow> bool \<Rightarrow> (MapOrderBook \<Rightarrow> MapOrderBook res)
    \<Rightarrow> OrderBookHandler res" where
  "on_book d h sid arguments_ok call =
     rbind (check d (find_book h sid \<noteq> None) ()) (\<lambda>_.
     rbind (check d arguments_ok ()) (\<lambda>_.
     rbind (deref (find_book h sid)) (\<lambda>b.
     rbind (call (b\<lparr>events := handler_events h\<rparr>)) (\<lambda>b'.
     Inr (h\<lparr>id_to_book := hm_store sid b' (id_to_book h), handler_events := events b'\<rparr>)))))"

definition handler_addOrder :: "build \<Rightarrow> OrderBookHandler \<Rightarrow> Order \<Rightarrow> OrderBookHandler res" where
  "handler_addOrder d h od = on_book d h (getSymbolID od) True (\<lambda>b. addOrder d b od)"

definition handler_deleteOrder :: "build \<Rightarrow> OrderBookHandler \<Rightarrow> u32 \<Rightarrow> u64 \<Rightarrow> OrderBookHandler res" where
  "handler_deleteOrder d h sid order_id = on_book d h sid True (\<lambda>b. deleteOrder d b order_id)"

definition handler_cancelOrder ::
  "build \<Rightarrow> OrderBookHandler \<Rightarrow> u32 \<Rightarrow> u64 \<Rightarrow> u64 \<Rightarrow> OrderBookHandler res" where
  "handler_cancelOrder d h sid order_id cancelled_quantity =
     on_book d h sid (0 < cancelled_quantity) (\<lambda>b. cancelOrder d b order_id cancelled_quantity)"

definition handler_replaceOrder ::
  "build \<Rightarrow> OrderBookHandler \<Rightarrow> u32 \<Rightarrow> u64 \<Rightarrow> u64 \<Rightarrow> u64 \<Rightarrow> OrderBookHandler res" where
  "handler_replaceOrder d h sid order_id new_order_id new_price =
     on_book d h sid (0 < new_order_id \<and> 0 < new_price)
       (\<lambda>b. replaceOrder d b order_id new_order_id new_price)"

definition handler_executeOrder_at ::
  "build \<Rightarrow> OrderBookHandler \<Rightarrow> u32 \<Rightarrow> u64 \<Rightarrow> u64 \<Rightarrow> u64 \<Rightarrow> OrderBookHandler res" where
  "handler_executeOrder_at d h sid order_id qty pr =
     on_book d h sid (0 < qty \<and> 0 < pr) (\<lambda>b. executeOrder_at d b order_id qty pr)"

definition handler_executeOrder ::
  "build \<Rightarrow> OrderBookHandler \<Rightarrow> u32 \<Rightarrow> u64 \<Rightarrow> u64 \<Rightarrow> OrderBookHandler res" where
  "handler_executeOrder d h sid order_id qty =
     on_book d h sid (0 < order_id \<and> 0 < qty) (\<lambda>b. executeOrder d b order_id qty)"

section \<open>The market\<close>

definition addSymbol :: "build \<Rightarrow> Market \<Rightarrow> u32 \<Rightarrow> string \<Rightarrow> Market res" where
  "addSymbol d m sid name =
     (let m1 = m\<lparr>id_to_symbol := hm_emplace sid (newSymbol sid name) (id_to_symbol m)\<rparr> in
      rbind (addOrderBook d (orderbook_handler m1) sid name) (\<lambda>h.
      Inr (m1\<lparr>orderbook_handler := h\<rparr>)))"

definition deleteSymbol :: "build \<Rightarrow> Market \<Rightarrow> u32 \<Rightarrow> Market res" where
  "deleteSymbol d m sid =
     rbind (deref (hm_find sid (id_to_symbol m))) (\<lambda>s.
     rbind (deleteOrderBook d (orderbook_handler m) sid (symbol_name s)) (\<lambda>h.
     Inr (m\<lparr>orderbook_handler := h, id_to_symbol := hm_erase sid (id_to_symbol m)\<rparr>)))"

definition hasSymbol :: "Market \<Rightarrow> u32 \<Rightarrow> bool" where
  "hasSymbol m sid \<longleftrightarrow> hm_find sid (id_to_symbol m) \<noteq> None"

definition on_handler ::
  "Market \<Rightarrow> (OrderBookHandler \<Rightarrow> OrderBookHandler res) \<Rightarrow> Market res" where
  "on_handler m call = rbind (call (orderbook_handler m)) (\<lambda>h. Inr (m\<lparr>orderbook_handler := h\<rparr>))"

definition market_addOrder :: "build \<Rightarrow> Market \<Rightarrow> Order \<Rightarrow> Market res" where
  "market_addOrder d m od = on_handler m (\<lambda>h. handler_addOrder d h od)"

definition market_deleteOrder :: "build \<Rightarrow> Market \<Rightarrow> u32 \<Rightarrow> u64 \<Rightarrow> Market res" where
  "market_deleteOrder d m sid order_id = on_handler m (\<lambda>h. handler_deleteOrder d h sid order_id)"

definition market_cancelOrder :: "build \<Rightarrow> Market \<Rightarrow> u32 \<Rightarrow> u64 \<Rightarrow> u64 \<Rightarrow> Market res" where
  "market_cancelOrder d m sid order_id cancelled_quantity =
     on_handler m (\<lambda>h. handler_cancelOrder d h sid order_id cancelled_quantity)"

definition market_replaceOrder :: "build \<Rightarrow> Market \<Rightarrow> u32 \<Rightarrow> u64 \<Rightarrow> u64 \<Rightarrow> u64 \<Rightarrow> Market res" where
  "market_replaceOrder d m sid order_id new_order_id new_price =
     on_handler m (\<lambda>h. handler_replaceOrder d h sid order_id new_order_id new_price)"

definition market_executeOrder_at :: "build \<Rightarrow> Market \<Rightarrow> u32 \<Rightarrow> u64 \<Rightarrow> u64 \<Rightarrow> u64 \<Rightarrow> Market res" where
  "market_executeOrder_at d m sid order_id qty pr =
     on_handler m (\<lambda>h. handler_executeOrder_at d h sid order_id qty pr)"

definition market_executeOrder :: "build \<Rightarrow> Market \<Rightarrow> u32 \<Rightarrow> u64 \<Rightarrow> u64 \<Rightarrow> Market res" where
  "market_executeOrder d m sid order_id qty =
     on_handler m (\<lambda>h. handler_executeOrder d h sid order_id qty)"

end
