(* ===== verification/Market_Proofs.thy ===== *)
theory Market_Proofs
  imports Markets
begin

text \<open>
  The market as a family of independent books: what a request on one symbol does, and that it
  leaves every other book alone. The family is proved once from the contracts of a hash map and of
  a book.
\<close>

section \<open>Events do not matter to the invariant\<close>

lemma levels_events [simp]: "levels K (b\<lparr>events := es\<rparr>) = levels K b"
  by (cases K) simp_all

lemma views_events [simp]:
  "order_view (b\<lparr>events := es\<rparr>) = order_view b" "level_view (b\<lparr>events := es\<rparr>) = level_view b"
  by (simp_all add: order_view_def level_view_def)

lemma book_inv_events [simp]: "book_inv d (b\<lparr>events := es\<rparr>) = book_inv d b"
  by (simp add: book_inv_def book_ok_def wf_book_def total_open_def uncrossed_def quiet_def
      none_triggered_def market_price_def lastTradedPriceAsk_def lastTradedPriceBid_def)

lemma permitted_events [simp]: "permitted d (b\<lparr>events := es\<rparr>) r = permitted d b r"
  by (cases r) (auto simp: addable_def total_open_def hasOrder_def on_order_def replaceable_def
      split: option.split)

section \<open>A family of books\<close>

text \<open>
  Books in a hash map, under their symbols; \<open>redirect\<close> points a book to another event sink.
\<close>

locale book_family = order_book fresh act allowed book_fine symbol +
  store: hash_map find emplace update erase total map_fine
  for fresh :: "'s \<Rightarrow> 'b" and act :: "'b \<Rightarrow> 'r \<Rightarrow> 'b res" and allowed book_fine and symbol :: "'b \<Rightarrow> 's"
    and find :: "'s \<Rightarrow> 'm \<Rightarrow> 'b option" and emplace update erase total map_fine +
  fixes redirect :: "'e \<Rightarrow> 'b \<Rightarrow> 'b"
  assumes fine_redirect: "book_fine (redirect e b) = book_fine b"
    and allowed_redirect: "allowed (redirect e b) r = allowed b r"
    and symbol_redirect: "symbol (redirect e b) = symbol b"
begin

definition fine :: "'m \<Rightarrow> bool" where
  "fine m \<longleftrightarrow> map_fine m \<and> (\<forall>s b. find s m = Some b \<longrightarrow> book_fine b \<and> symbol b = s)"

lemma fine_emplace: "fine m \<Longrightarrow> fine (emplace s (fresh s) m)"
  by (auto simp: fine_def store.inv_emplace store.find_emplace inv_fresh symbol_fresh split: if_splits)

lemma fine_erase: "fine m \<Longrightarrow> fine (erase s m)"
  by (auto simp: fine_def store.inv_erase store.find_erase split: if_splits)

lemma fine_act:
  assumes m: "fine m" and b: "find s m = Some b" and r: "allowed b r"
  obtains b' where "act (redirect e b) r = Inr b'" and "fine (update s b' m)"
    and "find s (update s b' m) = Some b'" and "\<forall>t. t \<noteq> s \<longrightarrow> find t (update s b' m) = find t m"
proof -
  have "book_fine (redirect e b)" "allowed (redirect e b) r"
    using m b r by (auto simp: fine_def fine_redirect allowed_redirect)
  then obtain b' where b': "act (redirect e b) r = Inr b'" "book_fine b'" "symbol b' = symbol (redirect e b)"
    using act_ok by blast
  have "fine (update s b' m)"
    using m b b'(2,3) by (auto simp: fine_def store.inv_store store.find_store symbol_redirect split: if_splits)
  then show ?thesis using that b'(1) b by (simp add: store.find_store)
qed

end

interpretation books: book_family newMapOrderBook "perform d" "permitted d" "book_inv d" book_symbol_id
    hm_find hm_emplace hm_store hm_erase hm_total hm_inv "\<lambda>es b. b\<lparr>events := es\<rparr>" for d
  by unfold_locales simp_all

section \<open>Requests of a market\<close>

datatype market_request =
    AddSymbol u32 string
  | DeleteSymbol u32
  | BookRequest u32 request

fun market_perform :: "build \<Rightarrow> Market \<Rightarrow> market_request \<Rightarrow> Market res" where
  "market_perform d m (AddSymbol sid name) = addSymbol d m sid name"
| "market_perform d m (DeleteSymbol sid) = deleteSymbol d m sid"
| "market_perform d m (BookRequest sid (AddOrder od)) = market_addOrder d m od"
| "market_perform d m (BookRequest sid (ExecuteOrderAt i qty pr)) = market_executeOrder_at d m sid i qty pr"
| "market_perform d m (BookRequest sid (ExecuteOrder i qty)) = market_executeOrder d m sid i qty"
| "market_perform d m (BookRequest sid (DeleteOrder i)) = market_deleteOrder d m sid i"
| "market_perform d m (BookRequest sid (CancelOrder i qty)) = market_cancelOrder d m sid i qty"
| "market_perform d m (BookRequest sid (ReplaceOrder i j pr)) = market_replaceOrder d m sid i j pr"

text \<open>The arguments that the handler checks itself, and the symbol an order request goes to.\<close>

fun arguments_ok :: "u32 \<Rightarrow> request \<Rightarrow> bool" where
  "arguments_ok sid (AddOrder od) = (symbol_id od = sid)"
| "arguments_ok sid (ExecuteOrderAt i qty pr) = (0 < qty \<and> 0 < pr)"
| "arguments_ok sid (ExecuteOrder i qty) = (0 < i \<and> 0 < qty)"
| "arguments_ok sid (DeleteOrder i) = True"
| "arguments_ok sid (CancelOrder i qty) = (0 < qty)"
| "arguments_ok sid (ReplaceOrder i j pr) = (0 < j \<and> 0 < pr)"

definition market_book :: "Market \<Rightarrow> u32 \<Rightarrow> MapOrderBook option" where
  "market_book m sid = find_book (orderbook_handler m) sid"

definition market_events :: "Market \<Rightarrow> Event list" where
  "market_events m = handler_events (orderbook_handler m)"

fun market_permitted :: "build \<Rightarrow> Market \<Rightarrow> market_request \<Rightarrow> bool" where
  "market_permitted d m (AddSymbol sid name) = (\<not> hasSymbol m sid)"
| "market_permitted d m (DeleteSymbol sid) = hasSymbol m sid"
| "market_permitted d m (BookRequest sid r) = (arguments_ok sid r \<and>
     (case market_book m sid of None \<Rightarrow> False | Some b \<Rightarrow> permitted d b r))"

text \<open>The symbols and the books agree, and every book is sound.\<close>

definition market_inv :: "build \<Rightarrow> Market \<Rightarrow> bool" where
  "market_inv d m \<longleftrightarrow> books.fine d (id_to_book (orderbook_handler m)) \<and> hm_inv (id_to_symbol m) \<and>
     (\<forall>sid. hasSymbol m sid \<longleftrightarrow> market_book m sid \<noteq> None) \<and>
     (\<forall>sid s. hm_find sid (id_to_symbol m) = Some s \<longrightarrow> symbol_number s = sid)"

lemma market_inv_new: "market_inv d newMarket"
  by (simp add: market_inv_def newMarket_def newOrderBookHandler_def books.fine_def hasSymbol_def
      market_book_def find_book_def)

lemma market_perform_book:
  assumes "arguments_ok sid r" and "market_book m sid = Some b"
  shows "market_perform d m (BookRequest sid r) =
    rbind (perform d (b\<lparr>events := market_events m\<rparr>) r) (\<lambda>b'.
    Inr (m\<lparr>orderbook_handler := (orderbook_handler m)
      \<lparr>id_to_book := hm_store sid b' (id_to_book (orderbook_handler m)), handler_events := events b'\<rparr>\<rparr>))"
  using assms
  by (cases r) (auto simp: market_addOrder_def market_executeOrder_at_def market_executeOrder_def
      market_deleteOrder_def market_cancelOrder_def market_replaceOrder_def on_handler_def
      handler_addOrder_def handler_executeOrder_at_def handler_executeOrder_def
      handler_deleteOrder_def handler_cancelOrder_def handler_replaceOrder_def on_book_def
      market_book_def market_events_def rbind_def split: sum.split)

lemma book_request_ok:
  assumes inv: "market_inv d m" and b: "market_book m sid = Some b"
    and r: "arguments_ok sid r" "permitted d b r"
  obtains m' b' where "market_perform d m (BookRequest sid r) = Inr m'" and "market_inv d m'"
    and "perform d (b\<lparr>events := market_events m\<rparr>) r = Inr b'" and "market_book m' sid = Some b'"
    and "\<forall>t. t \<noteq> sid \<longrightarrow> market_book m' t = market_book m t"
    and "market_events m' = events b'" and "id_to_symbol m' = id_to_symbol m"
proof -
  have fine: "books.fine d (id_to_book (orderbook_handler m))" using inv by (simp add: market_inv_def)
  have b': "hm_find sid (id_to_book (orderbook_handler m)) = Some b"
    using b by (simp add: market_book_def find_book_def)
  obtain c where c: "perform d (b\<lparr>events := market_events m\<rparr>) r = Inr c"
      "books.fine d (hm_store sid c (id_to_book (orderbook_handler m)))"
      "hm_find sid (hm_store sid c (id_to_book (orderbook_handler m))) = Some c"
      "\<forall>t. t \<noteq> sid \<longrightarrow> hm_find t (hm_store sid c (id_to_book (orderbook_handler m)))
        = hm_find t (id_to_book (orderbook_handler m))"
    using fine b' r(2) by (rule books.fine_act)
  let ?m = "m\<lparr>orderbook_handler := (orderbook_handler m)
      \<lparr>id_to_book := hm_store sid c (id_to_book (orderbook_handler m)), handler_events := events c\<rparr>\<rparr>"
  have book: "market_book ?m t = (if t = sid then Some c else market_book m t)" for t
    using c(3,4) by (simp add: market_book_def find_book_def)
  have "market_inv d ?m"
    using inv c(2) b by (auto simp: market_inv_def hasSymbol_def book)
  then show ?thesis
    using that [of ?m c] market_perform_book [OF r(1) b] c(1) book by (simp add: market_events_def)
qed

lemma add_symbol_ok:
  assumes inv: "market_inv d m" and n: "\<not> hasSymbol m sid"
  obtains m' where "addSymbol d m sid name = Inr m'" and "market_inv d m'"
    and "market_book m' sid = Some (newMapOrderBook sid)"
    and "\<forall>t. t \<noteq> sid \<longrightarrow> market_book m' t = market_book m t"
    and "market_events m' = market_events m @ [SymbolAdded sid name]"
    and "\<forall>t. hasSymbol m' t \<longleftrightarrow> t = sid \<or> hasSymbol m t"
proof -
  let ?h = "orderbook_handler m"
  let ?h' = "notify (SymbolAdded sid name) (?h\<lparr>id_to_book := hm_emplace sid (newMapOrderBook sid) (id_to_book ?h)\<rparr>)"
  let ?m = "m\<lparr>id_to_symbol := hm_emplace sid (newSymbol sid name) (id_to_symbol m), orderbook_handler := ?h'\<rparr>"
  have free: "hm_find sid (id_to_symbol m) = None" using n by (simp add: hasSymbol_def)
  have none: "find_book ?h sid = None" using inv n by (auto simp: market_inv_def market_book_def)
  have run: "addSymbol d m sid name = Inr ?m"
    using none by (simp add: addSymbol_def addOrderBook_def Let_def)
  have book: "market_book ?m t = (if t = sid then Some (newMapOrderBook sid) else market_book m t)" for t
    using none by (simp add: market_book_def find_book_def notify_def hm.find_emplace)
  have symb: "hm_find t (id_to_symbol ?m) = (if t = sid then Some (newSymbol sid name)
      else hm_find t (id_to_symbol m))" for t
    using free by (simp add: hm.find_emplace)
  have "market_inv d ?m"
    using inv book symb books.fine_emplace [of d "id_to_book ?h" sid]
    by (auto simp: market_inv_def hasSymbol_def newSymbol_def notify_def hm.inv_emplace)
  then show ?thesis
    using that [of ?m] run book symb by (auto simp: hasSymbol_def market_events_def notify_def)
qed

lemma delete_symbol_ok:
  assumes inv: "market_inv d m" and h: "hasSymbol m sid"
  obtains m' s where "deleteSymbol d m sid = Inr m'" and "market_inv d m'"
    and "hm_find sid (id_to_symbol m) = Some s"
    and "\<forall>t. market_book m' t = (if t = sid then None else market_book m t)"
    and "market_events m' = market_events m @ [SymbolDeleted sid (symbol_name s)]"
    and "\<forall>t. hasSymbol m' t \<longleftrightarrow> t \<noteq> sid \<and> hasSymbol m t"
proof -
  let ?h = "orderbook_handler m"
  obtain s where s: "hm_find sid (id_to_symbol m) = Some s" using h by (auto simp: hasSymbol_def)
  obtain b where b: "find_book ?h sid = Some b" using inv h by (auto simp: market_inv_def market_book_def)
  let ?h' = "notify (SymbolDeleted sid (symbol_name s)) (?h\<lparr>id_to_book := hm_erase sid (id_to_book ?h)\<rparr>)"
  let ?m = "m\<lparr>orderbook_handler := ?h', id_to_symbol := hm_erase sid (id_to_symbol m)\<rparr>"
  have run: "deleteSymbol d m sid = Inr ?m"
    using s b by (simp add: deleteSymbol_def deleteOrderBook_def)
  have book: "market_book ?m t = (if t = sid then None else market_book m t)" for t
    by (simp add: market_book_def find_book_def notify_def hm.find_erase)
  have symb: "hm_find t (id_to_symbol ?m) = (if t = sid then None else hm_find t (id_to_symbol m))" for t
    by (simp add: hm.find_erase)
  have "market_inv d ?m"
    using inv book symb books.fine_erase [of d "id_to_book ?h" sid]
    by (auto simp: market_inv_def hasSymbol_def notify_def hm.inv_erase)
  then show ?thesis
    using that [of ?m s] run s book symb by (auto simp: hasSymbol_def market_events_def notify_def)
qed

lemma market_perform_ok:
  assumes inv: "market_inv d m" and p: "market_permitted d m r"
  shows "\<exists>m'. market_perform d m r = Inr m' \<and> market_inv d m'"
proof (cases r)
  case (AddSymbol sid name)
  with p add_symbol_ok [OF inv, of sid name] show ?thesis by (metis market_permitted.simps(1) market_perform.simps(1))
next
  case (DeleteSymbol sid)
  with p delete_symbol_ok [OF inv, of sid] show ?thesis by (metis market_permitted.simps(2) market_perform.simps(2))
next
  case (BookRequest sid q)
  with p obtain b where "market_book m sid = Some b" "arguments_ok sid q" "permitted d b q"
    by (auto split: option.splits)
  then show ?thesis using book_request_ok [OF inv, of sid b q] BookRequest by metis
qed

inductive market_reachable :: "build \<Rightarrow> Market \<Rightarrow> bool" for d where
  market_reachable_new: "market_reachable d newMarket"
| market_reachable_step: "market_reachable d m \<Longrightarrow> market_permitted d m r \<Longrightarrow>
    market_perform d m r = Inr m' \<Longrightarrow> market_reachable d m'"

inductive_cases market_reachable_cases: "market_reachable d m"

lemma market_reachable_inv: "market_reachable d m \<Longrightarrow> market_inv d m"
proof (induction rule: market_reachable.induct)
  case market_reachable_new
  show ?case by (rule market_inv_new)
next
  case (market_reachable_step m r m')
  then show ?case using market_perform_ok [of d m r] by auto
qed

end
