(* ===== verification/Market_Properties.thy ===== *)
theory Market_Properties
  imports Market_Proofs Samples
begin

text \<open>
  The properties of the market, with a sample market of two symbols.
\<close>

section \<open>A sample market\<close>

definition sample_market_requests :: "market_request list" where
  "sample_market_requests =
     [AddSymbol 1 ''GOOG'', AddSymbol 2 ''AAPL'',
      BookRequest 1 (AddOrder (sample_order Limit Ask GTC 100 0 0 50 1)),
      BookRequest 1 (AddOrder (sample_order Limit Bid GTC 100 0 0 20 2))]"

fun market_performs :: "build \<Rightarrow> Market \<Rightarrow> market_request list \<Rightarrow> Market res" where
  "market_performs d m [] = Inr m"
| "market_performs d m (r # rs) = rbind (market_perform d m r) (\<lambda>m'. market_performs d m' rs)"

fun market_all_permitted :: "build \<Rightarrow> Market \<Rightarrow> market_request list \<Rightarrow> bool" where
  "market_all_permitted d m [] = True"
| "market_all_permitted d m (r # rs) = (market_permitted d m r \<and>
     (case market_perform d m r of Inl e \<Rightarrow> False | Inr m' \<Rightarrow> market_all_permitted d m' rs))"

lemma market_performs_reachable:
  "market_reachable d m \<Longrightarrow> market_all_permitted d m rs \<Longrightarrow> market_performs d m rs = Inr m' \<Longrightarrow>
    market_reachable d m'"
proof (induction rs arbitrary: m)
  case (Cons r rs)
  then obtain m1 where "market_perform d m r = Inr m1" "market_all_permitted d m1 rs"
      "market_performs d m1 rs = Inr m'"
    by (auto split: sum.splits)
  with Cons show ?case by (auto intro: market_reachable_step)
qed simp

definition sample_market :: Market where
  "sample_market = (case market_performs Debug newMarket sample_market_requests of
     Inl e \<Rightarrow> newMarket | Inr m \<Rightarrow> m)"

lemma sample_market_reachable: "market_reachable Debug sample_market"
proof -
  have p: "market_all_permitted Debug newMarket sample_market_requests"
    by code_simp
  have "case market_performs Debug newMarket sample_market_requests of Inl e \<Rightarrow> False | Inr m \<Rightarrow> True"
    by code_simp
  then have "market_performs Debug newMarket sample_market_requests = Inr sample_market"
    by (auto simp: sample_market_def split: sum.splits)
  with p show ?thesis by (rule market_performs_reachable [OF market_reachable_new])
qed

lemma sample_market_inv: "market_inv Debug sample_market"
  using sample_market_reachable by (rule market_reachable_inv)

section \<open>Properties\<close>

text \<open>
  C20. Every market that requests can lead to is consistent: it has exactly one book for every
  symbol, each book is a valid, uncrossed book of its own symbol, and every further request that
  respects its preconditions succeeds.
\<close>

theorem market_sound:
  assumes "market_reachable d m"
  shows "(\<forall>sid. hasSymbol m sid \<longleftrightarrow> market_book m sid \<noteq> None) \<and>
    (\<forall>sid b. market_book m sid = Some b \<longrightarrow>
      validateOrderBook b \<and> bestBid b < bestAsk b \<and> book_symbol_id b = sid) \<and>
    (\<forall>r. market_permitted d m r \<longrightarrow> (\<exists>m'. market_perform d m r = Inr m' \<and> market_reachable d m'))"
proof (intro conjI allI impI)
  have inv: "market_inv d m" using assms by (rule market_reachable_inv)
  show "hasSymbol m sid \<longleftrightarrow> market_book m sid \<noteq> None" for sid using inv by (simp add: market_inv_def)
  fix sid b assume "market_book m sid = Some b"
  then have b: "book_inv d b" "book_symbol_id b = sid"
    using inv by (auto simp: market_inv_def books.fine_def market_book_def find_book_def)
  then show "validateOrderBook b" "bestBid b < bestAsk b" "book_symbol_id b = sid"
    using validateOrderBook_ok [OF b(1)] best_prices by (auto simp: book_inv_def)
next
  fix r assume p: "market_permitted d m r"
  obtain m' where "market_perform d m r = Inr m'"
    using market_perform_ok [OF market_reachable_inv [OF assms] p] by blast
  with assms p show "\<exists>m'. market_perform d m r = Inr m' \<and> market_reachable d m'"
    by (blast intro: market_reachable_step)
qed

theorem market_sound_witness:
  "\<exists>m'. market_perform Debug sample_market (BookRequest 1 (ExecuteOrder 1 5)) = Inr m' \<and>
    market_reachable Debug m'"
proof -
  have "market_permitted Debug sample_market (BookRequest 1 (ExecuteOrder 1 5))" by code_simp
  with market_sound [OF sample_market_reachable] show ?thesis by blast
qed

text \<open>
  C21. Books are isolated: a request on a symbol has exactly the effect that the book of that symbol
  gives it, its events are appended to those of the market, and the books of all other symbols and
  the set of symbols stay as they were.
\<close>

theorem market_request_isolated:
  assumes "market_inv d m" and "market_book m sid = Some b"
    and "arguments_ok sid r" and "permitted d b r"
  shows "\<exists>m' b'. market_perform d m (BookRequest sid r) = Inr m' \<and> market_inv d m' \<and>
    perform d (b\<lparr>events := market_events m\<rparr>) r = Inr b' \<and> market_book m' sid = Some b' \<and>
    (\<forall>t. t \<noteq> sid \<longrightarrow> market_book m' t = market_book m t) \<and>
    market_events m' = events b' \<and> id_to_symbol m' = id_to_symbol m"
  using book_request_ok [OF assms] by metis

theorem market_request_isolated_witness:
  "\<exists>m'. market_perform Debug sample_market (BookRequest 1 (DeleteOrder 1)) = Inr m' \<and>
    market_book m' 2 = market_book sample_market 2"
proof -
  obtain b where b: "market_book sample_market 1 = Some b" "permitted Debug b (DeleteOrder 1)"
  proof -
    have "case market_book sample_market 1 of None \<Rightarrow> False | Some b \<Rightarrow> permitted Debug b (DeleteOrder 1)"
      by code_simp
    then show thesis using that by (auto split: option.splits)
  qed
  have a: "arguments_ok 1 (DeleteOrder 1)" by simp
  obtain m' where "market_perform Debug sample_market (BookRequest 1 (DeleteOrder 1)) = Inr m'"
      "\<forall>t. t \<noteq> 1 \<longrightarrow> market_book m' t = market_book sample_market t"
    using market_request_isolated [OF sample_market_inv b(1) a b(2)] by blast
  then show ?thesis by (intro exI [of _ m']) simp
qed

text \<open>
  C22. A new symbol gets an empty book of its own and nothing else changes; deleting a symbol removes
  its book and nothing else. Both are reported to the event handler.
\<close>

theorem market_symbols:
  assumes "market_inv d m"
  shows "(\<not> hasSymbol m sid \<longrightarrow> (\<exists>m'. addSymbol d m sid name = Inr m' \<and> market_inv d m' \<and>
      (\<forall>t. market_book m' t = (if t = sid then Some (newMapOrderBook sid) else market_book m t)) \<and>
      (\<forall>t. hasSymbol m' t \<longleftrightarrow> t = sid \<or> hasSymbol m t) \<and>
      market_events m' = market_events m @ [SymbolAdded sid name])) \<and>
    (hasSymbol m sid \<longrightarrow> (\<exists>m' s. deleteSymbol d m sid = Inr m' \<and> market_inv d m' \<and>
      hm_find sid (id_to_symbol m) = Some s \<and>
      (\<forall>t. market_book m' t = (if t = sid then None else market_book m t)) \<and>
      (\<forall>t. hasSymbol m' t \<longleftrightarrow> t \<noteq> sid \<and> hasSymbol m t) \<and>
      market_events m' = market_events m @ [SymbolDeleted sid (symbol_name s)]))"
proof (intro conjI impI)
  assume "\<not> hasSymbol m sid"
  with assms obtain m' where "addSymbol d m sid name = Inr m'" "market_inv d m'"
      "market_book m' sid = Some (newMapOrderBook sid)"
      "\<forall>t. t \<noteq> sid \<longrightarrow> market_book m' t = market_book m t"
      "market_events m' = market_events m @ [SymbolAdded sid name]"
      "\<forall>t. hasSymbol m' t \<longleftrightarrow> t = sid \<or> hasSymbol m t"
    by (rule add_symbol_ok)
  then show "\<exists>m'. addSymbol d m sid name = Inr m' \<and> market_inv d m' \<and>
      (\<forall>t. market_book m' t = (if t = sid then Some (newMapOrderBook sid) else market_book m t)) \<and>
      (\<forall>t. hasSymbol m' t \<longleftrightarrow> t = sid \<or> hasSymbol m t) \<and>
      market_events m' = market_events m @ [SymbolAdded sid name]"
    by (intro exI [of _ m']) auto
next
  assume "hasSymbol m sid"
  with assms obtain m' s where "deleteSymbol d m sid = Inr m'" "market_inv d m'"
      "hm_find sid (id_to_symbol m) = Some s"
      "\<forall>t. market_book m' t = (if t = sid then None else market_book m t)"
      "market_events m' = market_events m @ [SymbolDeleted sid (symbol_name s)]"
      "\<forall>t. hasSymbol m' t \<longleftrightarrow> t \<noteq> sid \<and> hasSymbol m t"
    by (rule delete_symbol_ok)
  then show "\<exists>m' s. deleteSymbol d m sid = Inr m' \<and> market_inv d m' \<and>
      hm_find sid (id_to_symbol m) = Some s \<and>
      (\<forall>t. market_book m' t = (if t = sid then None else market_book m t)) \<and>
      (\<forall>t. hasSymbol m' t \<longleftrightarrow> t \<noteq> sid \<and> hasSymbol m t) \<and>
      market_events m' = market_events m @ [SymbolDeleted sid (symbol_name s)]"
    by (intro exI [of _ m'] exI [of _ s]) simp
qed

theorem market_symbols_witness:
  "\<exists>m'. addSymbol Debug sample_market 3 ''TSLA'' = Inr m' \<and> market_book m' 3 = Some (newMapOrderBook 3)"
proof -
  have "\<not> hasSymbol sample_market 3" by code_simp
  with market_symbols [OF sample_market_inv, of 3 "''TSLA''"] show ?thesis by auto
qed

text \<open>
  A request on a symbol the market does not have never goes unnoticed: a debug build stops at
  the handler's assertion, and a release build dereferences a past-the-end iterator.
\<close>

lemma market_unknown_symbol:
  assumes "market_book m sid = None" and "arguments_ok sid r"
  shows "market_perform Debug m (BookRequest sid r) = Inl AssertionFailure \<and>
    market_perform Release m (BookRequest sid r) = Inl UndefinedBehaviour"
  using assms
  by (cases r) (simp_all add: market_book_def market_addOrder_def market_executeOrder_at_def
      market_executeOrder_def market_deleteOrder_def market_cancelOrder_def market_replaceOrder_def
      on_handler_def handler_addOrder_def handler_executeOrder_at_def handler_executeOrder_def
      handler_deleteOrder_def handler_cancelOrder_def handler_replaceOrder_def on_book_def check_def)

lemma market_unknown_symbol_witness:
  "market_perform Debug sample_market (BookRequest 3 (DeleteOrder 1)) = Inl AssertionFailure"
proof -
  have "Option.is_none (market_book sample_market 3)" by code_simp
  then have "market_book sample_market 3 = None" by (simp add: Option.is_none_def)
  with market_unknown_symbol [of sample_market 3 "DeleteOrder 1"] show ?thesis by simp
qed

end
