(* ===== verification/Thread_Pool.thy ===== *)
theory Thread_Pool
  imports Prelude
begin

text \<open>
  The thread-safe queue (\<open>include/concurrent/queue.h\<close>) and the thread pool
  (\<open>include/concurrent/thread_pool.h\<close>, \<open>thread_joiner.h\<close>). Each method of the queue holds its mutex
  from the first to the last statement, so it is one atomic step. The pool has one queue and one
  worker thread per index; a worker takes tasks from its own queue only.
\<close>

section \<open>The queue\<close>

type_synonym 'a Queue = "'a list"

definition queue_new :: "'a Queue" where
  "queue_new = []"

definition queue_push :: "'a \<Rightarrow> 'a Queue \<Rightarrow> 'a Queue" where
  "queue_push data q = q @ [data]"

text \<open>\<open>waitAndPop\<close> blocks on an empty queue: \<open>None\<close> is a call that has to wait.\<close>

definition waitAndPop :: "'a Queue \<Rightarrow> ('a \<times> 'a Queue) option" where
  "waitAndPop q = (case q of [] \<Rightarrow> None | x # xs \<Rightarrow> Some (x, xs))"

text \<open>The overload that returns a pointer makes a default value when the queue is empty.\<close>

definition tryPop_pointer :: "'a \<Rightarrow> 'a Queue \<Rightarrow> 'a \<times> 'a Queue" where
  "tryPop_pointer default_value q = (case q of [] \<Rightarrow> (default_value, []) | x # xs \<Rightarrow> (x, xs))"

text \<open>The overload that reports success: whether there was an element, and the element.\<close>

definition tryPop :: "'a Queue \<Rightarrow> 'a option \<times> 'a Queue" where
  "tryPop q = (case q of [] \<Rightarrow> (None, []) | x # xs \<Rightarrow> (Some x, xs))"

definition queue_empty :: "'a Queue \<Rightarrow> bool" where
  "queue_empty q \<longleftrightarrow> q = []"

text \<open>What the pool relies on: first in, first out, nothing lost, nothing invented.\<close>

locale fifo =
  fixes new :: 'q and push :: "'a \<Rightarrow> 'q \<Rightarrow> 'q" and try_pop :: "'q \<Rightarrow> 'a option \<times> 'q"
    and is_empty :: "'q \<Rightarrow> bool" and contents :: "'q \<Rightarrow> 'a list"
  assumes contents_new: "contents new = []"
    and contents_push: "contents (push x q) = contents q @ [x]"
    and contents_try_pop: "contents q = (case try_pop q of (None, q') \<Rightarrow> [] | (Some x, q') \<Rightarrow> x # contents q')"
    and try_pop_None: "try_pop q = (None, q') \<Longrightarrow> contents q' = []"
    and is_empty_contents: "is_empty q \<longleftrightarrow> contents q = []"
begin

lemma try_pop_Some: "try_pop q = (Some x, q') \<Longrightarrow> contents q = x # contents q'"
  using contents_try_pop [of q] by simp

lemma not_empty_pops: "\<not> is_empty q \<Longrightarrow> \<exists>x q'. try_pop q = (Some x, q')"
  using contents_try_pop [of q] is_empty_contents [of q] by (cases "try_pop q"; cases "fst (try_pop q)") auto

lemma contents_pushes: "contents (fold push xs q) = contents q @ xs"
  by (induction xs arbitrary: q) (simp_all add: contents_push)

text \<open>\<open>n\<close> calls of \<open>try_pop\<close>, and the elements they return.\<close>

fun pops :: "nat \<Rightarrow> 'q \<Rightarrow> 'a list" where
  "pops 0 q = []"
| "pops (Suc n) q = (case try_pop q of (None, q') \<Rightarrow> [] | (Some x, q') \<Rightarrow> x # pops n q')"

lemma pops_take: "pops n q = take n (contents q)"
proof (induction n arbitrary: q)
  case (Suc n)
  show ?case
    using Suc.IH contents_try_pop [of q] by (auto split: prod.splits option.splits)
qed simp

lemma fifo_order: "pops (length xs) (fold push xs new) = xs"
  by (simp add: pops_take contents_pushes contents_new)

end

interpretation queue: fifo queue_new queue_push tryPop queue_empty "\<lambda>q. q"
  by unfold_locales
    (auto simp: queue_new_def queue_push_def tryPop_def queue_empty_def split: list.splits)

section \<open>The pool\<close>

text \<open>
  A thread is joinable from its start until it is joined, whether or not its function has returned.
\<close>

record 'task ThreadPool =
  running :: bool
  num_threads :: nat
  thread_queues :: "'task Queue list"
  thread_joinable :: "bool list"
  worker_returned :: "bool list"

definition newThreadPool :: "build \<Rightarrow> nat \<Rightarrow> 'task ThreadPool res" where
  "newThreadPool d n =
     check d (0 < n) \<lparr>running = True, num_threads = n, thread_queues = replicate n queue_new,
       thread_joinable = replicate n True, worker_returned = replicate n False\<rparr>"

definition submitTask :: "nat \<Rightarrow> 'task \<Rightarrow> 'task ThreadPool \<Rightarrow> 'task ThreadPool res" where
  "submitTask queue_index task p =
     require (queue_index < length (thread_queues p))
       (p\<lparr>thread_queues := (thread_queues p)
          [queue_index := queue_push task (thread_queues p ! queue_index)]\<rparr>)"

text \<open>
  \<open>start\<close> assigns new threads to the elements of \<open>threads\<close>; assigning to a joinable \<open>std::thread\<close>
  calls \<open>std::terminate\<close>.
\<close>

definition start :: "build \<Rightarrow> 'task ThreadPool \<Rightarrow> 'task ThreadPool res" where
  "start d p =
     rbind (check d (\<not> running p) ()) (\<lambda>_.
     if list_ex id (thread_joinable p) then Inl Terminated
     else Inr (p\<lparr>running := True, thread_joinable := replicate (num_threads p) True,
                 worker_returned := replicate (num_threads p) False\<rparr>))"

definition stop :: "build \<Rightarrow> 'task ThreadPool \<Rightarrow> 'task ThreadPool res" where
  "stop d p = rbind (check d (running p) ()) (\<lambda>_. Inr (p\<lparr>running := False\<rparr>))"

definition isStarted :: "'task ThreadPool \<Rightarrow> bool" where
  "isStarted p \<longleftrightarrow> running p"

definition numberOfThreads :: "'task ThreadPool \<Rightarrow> nat" where
  "numberOfThreads p = num_threads p"

text \<open>The destructor clears the flag; \<open>ThreadJoiner\<close> then joins the threads that can be joined.\<close>

definition destroy :: "'task ThreadPool \<Rightarrow> 'task ThreadPool" where
  "destroy p = p\<lparr>running := False\<rparr>"

definition join_all :: "'task ThreadPool \<Rightarrow> 'task ThreadPool" where
  "join_all p = p\<lparr>thread_joinable := map (\<lambda>_. False) (thread_joinable p)\<rparr>"

text \<open>
  One turn of the loop of \<open>workerThread\<close>: the worker returns when the pool has stopped and its
  queue is empty, takes a task if there is one, and yields otherwise.
\<close>

datatype 'task turn = Return | Run 'task | Yield

definition worker_turn :: "nat \<Rightarrow> 'task ThreadPool \<Rightarrow> 'task turn \<times> 'task ThreadPool" where
  "worker_turn i p =
     (if running p \<or> \<not> queue_empty (thread_queues p ! i) then
        (case tryPop (thread_queues p ! i) of
           (Some task, q) \<Rightarrow> (Run task, p\<lparr>thread_queues := (thread_queues p)[i := q]\<rparr>)
         | (None, q) \<Rightarrow> (Yield, p))
      else (Return, p\<lparr>worker_returned := (worker_returned p)[i := True]\<rparr>))"

section \<open>Lemmas\<close>

lemma worker_turn_Run:
  "worker_turn i p = (Run t, p') \<longleftrightarrow>
    (\<exists>q. thread_queues p ! i = t # q \<and> p' = p\<lparr>thread_queues := (thread_queues p)[i := q]\<rparr>)"
  by (cases "thread_queues p ! i") (auto simp: worker_turn_def tryPop_def queue_empty_def)

lemma worker_turn_Return:
  "worker_turn i p = (Return, p') \<longleftrightarrow> \<not> running p \<and> thread_queues p ! i = [] \<and>
    p' = p\<lparr>worker_returned := (worker_returned p)[i := True]\<rparr>"
  by (cases "thread_queues p ! i") (auto simp: worker_turn_def tryPop_def queue_empty_def)

lemma submitTask_eq_Inr:
  "submitTask i t p = Inr p' \<longleftrightarrow> i < length (thread_queues p) \<and>
    p' = p\<lparr>thread_queues := (thread_queues p)[i := thread_queues p ! i @ [t]]\<rparr>"
  by (auto simp: submitTask_def queue_push_def)

end
