(* ===== verification/Concurrent.thy ===== *)
theory Concurrent
  imports Market_Proofs Thread_Pool
begin

text \<open>
  The concurrent market (\<open>include/matching/market/concurrent_market.h\<close>,
  \<open>src/matching/market/concurrent_market.cpp\<close>). It owns one handler per worker thread, files every
  symbol under a handler, and turns each request into a task for the queue of that handler's worker.

  A task is what the lambda of the source captures: the handler (by its index) and the call.
  \<open>deleteSymbol\<close> captures an iterator of \<open>id_to_symbol\<close>: the symbol and the number of modifications
  of the map when it was taken. Using it is defined only as long as the map has not been modified.
\<close>

section \<open>Tasks\<close>

datatype handler_call =
    CallAddOrderBook u32 string
  | CallDeleteOrderBook u32 nat
  | CallBook u32 request

type_synonym task = "nat \<times> handler_call"

fun handler_perform :: "build \<Rightarrow> OrderBookHandler \<Rightarrow> u32 \<Rightarrow> request \<Rightarrow> OrderBookHandler res" where
  "handler_perform d h sid (AddOrder od) = handler_addOrder d h od"
| "handler_perform d h sid (ExecuteOrderAt i qty pr) = handler_executeOrder_at d h sid i qty pr"
| "handler_perform d h sid (ExecuteOrder i qty) = handler_executeOrder d h sid i qty"
| "handler_perform d h sid (DeleteOrder i) = handler_deleteOrder d h sid i"
| "handler_perform d h sid (CancelOrder i qty) = handler_cancelOrder d h sid i qty"
| "handler_perform d h sid (ReplaceOrder i j pr) = handler_replaceOrder d h sid i j pr"

section \<open>State\<close>

text \<open>
  \<open>map_version\<close> counts the modifications of \<open>c_id_to_symbol\<close>; \<open>deleting\<close> is set between the
  submission of the task of \<open>deleteSymbol\<close> and the erasures that follow it.
\<close>

record ConcurrentMarket =
  orderbook_handlers :: "OrderBookHandler list"
  c_id_to_symbol :: "(u32, Symbol) hmap"
  id_to_submission_index :: "(u32, u32) hmap"
  thread_pool :: "task ThreadPool"
  symbol_submission_index :: u32
  map_version :: nat
  deleting :: "u32 option"

definition newConcurrentMarket :: "build \<Rightarrow> nat \<Rightarrow> 8 word \<Rightarrow> ConcurrentMarket res" where
  "newConcurrentMarket d n_event_handlers n_threads =
     rbind (newThreadPool d (unat n_threads)) (\<lambda>p.
     rbind (check d (0 < n_threads) ()) (\<lambda>_.
     rbind (check d (n_event_handlers = unat n_threads) ()) (\<lambda>_.
     require (unat n_threads \<le> n_event_handlers)
       \<lparr>orderbook_handlers = replicate (unat n_threads) newOrderBookHandler, c_id_to_symbol = [],
        id_to_submission_index = [], thread_pool = p, symbol_submission_index = 0,
        map_version = 0, deleting = None\<rparr>)))"

section \<open>Operations of the client\<close>

definition getSubmissionIndex :: "ConcurrentMarket \<Rightarrow> u32 \<Rightarrow> u32" where
  "getSubmissionIndex cm sid =
     (case hm_find sid (id_to_submission_index cm) of None \<Rightarrow> 0 | Some i \<Rightarrow> i)"

definition updateSymbolSubmissionIndex :: "ConcurrentMarket \<Rightarrow> ConcurrentMarket" where
  "updateSymbolSubmissionIndex cm = cm\<lparr>symbol_submission_index :=
     of_nat (unat (symbol_submission_index cm + 1) mod length (orderbook_handlers cm))\<rparr>"

text \<open>Takes the handler at an index and submits a call on it to a queue.\<close>

definition submit_call :: "nat \<Rightarrow> nat \<Rightarrow> handler_call \<Rightarrow> ConcurrentMarket \<Rightarrow> ConcurrentMarket res" where
  "submit_call handler_index queue_index call cm =
     rbind (require (handler_index < length (orderbook_handlers cm)) ()) (\<lambda>_.
     rbind (submitTask queue_index (handler_index, call) (thread_pool cm)) (\<lambda>p.
     Inr (cm\<lparr>thread_pool := p\<rparr>)))"

definition concurrent_addSymbol :: "build \<Rightarrow> ConcurrentMarket \<Rightarrow> u32 \<Rightarrow> string \<Rightarrow> ConcurrentMarket res" where
  "concurrent_addSymbol d cm sid name =
     rbind (check d (hm_find sid (c_id_to_symbol cm) = None) ()) (\<lambda>_.
     let cm1 = cm\<lparr>c_id_to_symbol := hm_emplace sid (newSymbol sid name) (c_id_to_symbol cm),
          map_version := Suc (map_version cm),
          id_to_submission_index :=
            hm_emplace sid (symbol_submission_index cm) (id_to_submission_index cm)\<rparr>;
        i = unat (symbol_submission_index cm1) in
     rbind (submit_call i i (CallAddOrderBook sid name) cm1) (\<lambda>cm2.
     Inr (updateSymbolSubmissionIndex cm2)))"

text \<open>
  \<open>deleteSymbol\<close> up to the submission of its task, and the two erasures after it: the worker may run
  in between.
\<close>

definition concurrent_deleteSymbol :: "build \<Rightarrow> ConcurrentMarket \<Rightarrow> u32 \<Rightarrow> ConcurrentMarket res" where
  "concurrent_deleteSymbol d cm sid =
     rbind (check d (hm_find sid (c_id_to_symbol cm) \<noteq> None) ()) (\<lambda>_.
     rbind (submit_call (unat (symbol_submission_index cm)) (unat (getSubmissionIndex cm sid))
        (CallDeleteOrderBook sid (map_version cm)) cm) (\<lambda>cm1.
     Inr (cm1\<lparr>deleting := Some sid\<rparr>)))"

definition erase_symbol :: "u32 \<Rightarrow> ConcurrentMarket \<Rightarrow> ConcurrentMarket" where
  "erase_symbol sid cm = cm\<lparr>c_id_to_symbol := hm_erase sid (c_id_to_symbol cm),
     map_version := Suc (map_version cm),
     id_to_submission_index := hm_erase sid (id_to_submission_index cm), deleting := None\<rparr>"

definition submit_request :: "ConcurrentMarket \<Rightarrow> u32 \<Rightarrow> request \<Rightarrow> ConcurrentMarket res" where
  "submit_request cm sid r =
     (let i = unat (getSubmissionIndex cm sid) in submit_call i i (CallBook sid r) cm)"

definition concurrent_addOrder :: "ConcurrentMarket \<Rightarrow> Order \<Rightarrow> ConcurrentMarket res" where
  "concurrent_addOrder cm od = submit_request cm (getSymbolID od) (AddOrder od)"

definition concurrent_deleteOrder :: "ConcurrentMarket \<Rightarrow> u32 \<Rightarrow> u64 \<Rightarrow> ConcurrentMarket res" where
  "concurrent_deleteOrder cm sid order_id = submit_request cm sid (DeleteOrder order_id)"

definition concurrent_cancelOrder :: "ConcurrentMarket \<Rightarrow> u32 \<Rightarrow> u64 \<Rightarrow> u64 \<Rightarrow> ConcurrentMarket res" where
  "concurrent_cancelOrder cm sid order_id cancelled_quantity =
     submit_request cm sid (CancelOrder order_id cancelled_quantity)"

definition concurrent_replaceOrder ::
  "ConcurrentMarket \<Rightarrow> u32 \<Rightarrow> u64 \<Rightarrow> u64 \<Rightarrow> u64 \<Rightarrow> ConcurrentMarket res" where
  "concurrent_replaceOrder cm sid order_id new_order_id new_price =
     submit_request cm sid (ReplaceOrder order_id new_order_id new_price)"

definition concurrent_executeOrder_at ::
  "ConcurrentMarket \<Rightarrow> u32 \<Rightarrow> u64 \<Rightarrow> u64 \<Rightarrow> u64 \<Rightarrow> ConcurrentMarket res" where
  "concurrent_executeOrder_at cm sid order_id qty pr = submit_request cm sid (ExecuteOrderAt order_id qty pr)"

definition concurrent_executeOrder :: "ConcurrentMarket \<Rightarrow> u32 \<Rightarrow> u64 \<Rightarrow> u64 \<Rightarrow> ConcurrentMarket res" where
  "concurrent_executeOrder cm sid order_id qty = submit_request cm sid (ExecuteOrder order_id qty)"

fun concurrent_perform :: "build \<Rightarrow> ConcurrentMarket \<Rightarrow> market_request \<Rightarrow> ConcurrentMarket res" where
  "concurrent_perform d cm (AddSymbol sid name) = concurrent_addSymbol d cm sid name"
| "concurrent_perform d cm (DeleteSymbol sid) = concurrent_deleteSymbol d cm sid"
| "concurrent_perform d cm (BookRequest sid (AddOrder od)) = concurrent_addOrder cm od"
| "concurrent_perform d cm (BookRequest sid (ExecuteOrderAt i qty pr)) = concurrent_executeOrder_at cm sid i qty pr"
| "concurrent_perform d cm (BookRequest sid (ExecuteOrder i qty)) = concurrent_executeOrder cm sid i qty"
| "concurrent_perform d cm (BookRequest sid (DeleteOrder i)) = concurrent_deleteOrder cm sid i"
| "concurrent_perform d cm (BookRequest sid (CancelOrder i qty)) = concurrent_cancelOrder cm sid i qty"
| "concurrent_perform d cm (BookRequest sid (ReplaceOrder i j pr)) = concurrent_replaceOrder cm sid i j pr"

section \<open>The workers\<close>

fun run_call :: "build \<Rightarrow> ConcurrentMarket \<Rightarrow> handler_call \<Rightarrow> OrderBookHandler \<Rightarrow> OrderBookHandler res" where
  "run_call d cm (CallAddOrderBook sid name) h = addOrderBook d h sid name"
| "run_call d cm (CallDeleteOrderBook sid version) h =
     rbind (require (version = map_version cm) ()) (\<lambda>_.
     rbind (deref (hm_find sid (c_id_to_symbol cm))) (\<lambda>s.
     deleteOrderBook d h sid (symbol_name s)))"
| "run_call d cm (CallBook sid r) h = handler_perform d h sid r"

definition run_task :: "build \<Rightarrow> task \<Rightarrow> ConcurrentMarket \<Rightarrow> ConcurrentMarket res" where
  "run_task d t cm =
     rbind (require (fst t < length (orderbook_handlers cm)) ()) (\<lambda>_.
     rbind (run_call d cm (snd t) (orderbook_handlers cm ! fst t)) (\<lambda>h.
     Inr (cm\<lparr>orderbook_handlers := (orderbook_handlers cm)[fst t := h]\<rparr>)))"

section \<open>Runs\<close>

text \<open>
  One client thread and the workers, interleaved in any order. A worker runs one task in one step:
  the properties show that tasks of different workers use different handlers. \<open>Close\<close> is the start
  of the destructor, after which the client makes no request.
\<close>

datatype label = Request market_request | EraseSymbol | Execute nat task | Close | Exit nat

inductive cstep :: "build \<Rightarrow> ConcurrentMarket \<Rightarrow> label \<Rightarrow> ConcurrentMarket \<Rightarrow> bool" for d where
  cstep_request: "isStarted (thread_pool cm) \<Longrightarrow> deleting cm = None \<Longrightarrow>
    concurrent_perform d cm r = Inr cm' \<Longrightarrow> cstep d cm (Request r) cm'"
| cstep_erase: "deleting cm = Some sid \<Longrightarrow> cstep d cm EraseSymbol (erase_symbol sid cm)"
| cstep_execute: "i < length (worker_returned (thread_pool cm)) \<Longrightarrow>
    \<not> worker_returned (thread_pool cm) ! i \<Longrightarrow> worker_turn i (thread_pool cm) = (Run t, p) \<Longrightarrow>
    run_task d t (cm\<lparr>thread_pool := p\<rparr>) = Inr cm' \<Longrightarrow> cstep d cm (Execute i t) cm'"
| cstep_close: "isStarted (thread_pool cm) \<Longrightarrow> deleting cm = None \<Longrightarrow>
    cstep d cm Close (cm\<lparr>thread_pool := destroy (thread_pool cm)\<rparr>)"
| cstep_exit: "i < length (worker_returned (thread_pool cm)) \<Longrightarrow>
    \<not> worker_returned (thread_pool cm) ! i \<Longrightarrow> worker_turn i (thread_pool cm) = (Return, p) \<Longrightarrow>
    cstep d cm (Exit i) (cm\<lparr>thread_pool := p\<rparr>)"

inductive_cases cstep_requestE: "cstep d cm (Request r) cm'"
inductive_cases cstep_eraseE: "cstep d cm EraseSymbol cm'"
inductive_cases cstep_executeE: "cstep d cm (Execute i t) cm'"
inductive_cases cstep_closeE: "cstep d cm Close cm'"
inductive_cases cstep_exitE: "cstep d cm (Exit i) cm'"

text \<open>The states that a market with \<open>n\<close> workers can reach, and the steps that lead there.\<close>

inductive runs :: "build \<Rightarrow> 8 word \<Rightarrow> label list \<Rightarrow> ConcurrentMarket \<Rightarrow> bool" for d n where
  runs_new: "newConcurrentMarket d (unat n) n = Inr cm \<Longrightarrow> runs d n [] cm"
| runs_step: "runs d n tr cm \<Longrightarrow> cstep d cm l cm' \<Longrightarrow> runs d n (tr @ [l]) cm'"

end
