(* ===== verification/Concurrent_Proofs.thy ===== *)
theory Concurrent_Proofs
  imports Concurrent
begin

text \<open>
  The specification of the concurrent market, a sharding of the requests over handlers that work
  in sequence, and the simulation that shows every run to conform to it, whatever the interleaving.
\<close>

section \<open>Specification: sharding\<close>

text \<open>
  Each new symbol goes to the next shard in turn; each request goes to the shard of its symbol, in
  the order of the requests. Deletions of symbols are outside the specification.
\<close>

record sharding =
  next_shard :: nat
  shard_of :: "u32 \<Rightarrow> nat option"
  assigned :: "nat \<Rightarrow> handler_call list"

definition no_shards :: sharding where
  "no_shards = \<lparr>next_shard = 0, shard_of = \<lambda>sid. None, assigned = \<lambda>i. []\<rparr>"

definition assign_call :: "nat \<Rightarrow> handler_call \<Rightarrow> sharding \<Rightarrow> sharding" where
  "assign_call i c s = s\<lparr>assigned := (assigned s)(i := assigned s i @ [c])\<rparr>"

definition home_shard :: "sharding \<Rightarrow> u32 \<Rightarrow> nat" where
  "home_shard s sid = (case shard_of s sid of None \<Rightarrow> 0 | Some i \<Rightarrow> i)"

fun request_symbol :: "u32 \<Rightarrow> request \<Rightarrow> u32" where
  "request_symbol sid (AddOrder od) = symbol_id od"
| "request_symbol sid r = sid"

fun assign :: "nat \<Rightarrow> market_request \<Rightarrow> sharding \<Rightarrow> sharding" where
  "assign n (AddSymbol sid name) s =
     (let i = next_shard s in
      assign_call i (CallAddOrderBook sid name)
        (s\<lparr>next_shard := Suc i mod n,
           shard_of := (if shard_of s sid = None then (shard_of s)(sid \<mapsto> i) else shard_of s)\<rparr>))"
| "assign n (DeleteSymbol sid) s = s"
| "assign n (BookRequest sid r) s =
     (let sid' = request_symbol sid r in assign_call (home_shard s sid') (CallBook sid' r) s)"

definition shard :: "nat \<Rightarrow> market_request list \<Rightarrow> sharding" where
  "shard n rs = foldl (\<lambda>s r. assign n r s) no_shards rs"

text \<open>A handler that performs its calls one after the other.\<close>

fun run_plain :: "build \<Rightarrow> handler_call \<Rightarrow> OrderBookHandler \<Rightarrow> OrderBookHandler res" where
  "run_plain d (CallAddOrderBook sid name) h = addOrderBook d h sid name"
| "run_plain d (CallDeleteOrderBook sid version) h = Inl UndefinedBehaviour"
| "run_plain d (CallBook sid r) h = handler_perform d h sid r"

definition sequential :: "build \<Rightarrow> handler_call list \<Rightarrow> OrderBookHandler res" where
  "sequential d cs = foldl (\<lambda>h c. rbind h (run_plain d c)) (Inr newOrderBookHandler) cs"

section \<open>What happened in a run\<close>

fun requests_of :: "label list \<Rightarrow> market_request list" where
  "requests_of [] = []"
| "requests_of (Request r # tr) = r # requests_of tr"
| "requests_of (l # tr) = requests_of tr"

fun executed :: "nat \<Rightarrow> label list \<Rightarrow> handler_call list" where
  "executed i [] = []"
| "executed i (Execute j t # tr) = (if j = i then [snd t] else []) @ executed i tr"
| "executed i (l # tr) = executed i tr"

fun is_deletion :: "market_request \<Rightarrow> bool" where
  "is_deletion (DeleteSymbol sid) = True"
| "is_deletion r = False"

definition deletion_free :: "label list \<Rightarrow> bool" where
  "deletion_free tr \<longleftrightarrow> list_all (\<lambda>r. \<not> is_deletion r) (requests_of tr)"

lemma requests_of_append [simp]: "requests_of (tr @ tr') = requests_of tr @ requests_of tr'"
  by (induction tr rule: requests_of.induct) simp_all

lemma executed_append [simp]: "executed i (tr @ tr') = executed i tr @ executed i tr'"
  by (induction i tr rule: executed.induct) simp_all

lemma shard_snoc [simp]: "shard n (rs @ [r]) = assign n r (shard n rs)"
  by (simp add: shard_def)

lemma sequential_snoc [simp]: "sequential d (cs @ [c]) = rbind (sequential d cs) (run_plain d c)"
  by (simp add: sequential_def)

lemma foldl_rbind_Inl: "foldl (\<lambda>h c. rbind h (f c)) (Inl e) cs = Inl e"
  by (induction cs) simp_all

lemma sequential_prefix:
  assumes "sequential d (cs @ cs') = Inr h"
  obtains h' where "sequential d cs = Inr h'"
  using assms by (cases "sequential d cs") (auto simp: sequential_def foldl_rbind_Inl)

section \<open>The simulation\<close>

text \<open>
  A state conforms to a sharding and to the calls executed so far: the queues hold what is assigned
  and not yet executed, each under its own handler, and each handler is the result of its executed
  calls in sequence.
\<close>

definition conforms ::
  "build \<Rightarrow> nat \<Rightarrow> sharding \<Rightarrow> (nat \<Rightarrow> handler_call list) \<Rightarrow> ConcurrentMarket \<Rightarrow> bool" where
  "conforms d n s ex cm \<longleftrightarrow>
     0 < n \<and> n < 256 \<and> length (orderbook_handlers cm) = n \<and> length (thread_queues (thread_pool cm)) = n \<and>
     length (worker_returned (thread_pool cm)) = n \<and>
     next_shard s < n \<and> unat (symbol_submission_index cm) = next_shard s \<and>
     (\<forall>sid. map_option unat (hm_find sid (id_to_submission_index cm)) = shard_of s sid) \<and>
     (\<forall>sid i. shard_of s sid = Some i \<longrightarrow> i < n) \<and>
     (\<forall>i < n. assigned s i = ex i @ map snd (thread_queues (thread_pool cm) ! i) \<and>
        list_all (\<lambda>t. fst t = i) (thread_queues (thread_pool cm) ! i) \<and>
        list_all (\<lambda>c. \<forall>sid v. c \<noteq> CallDeleteOrderBook sid v) (assigned s i) \<and>
        sequential d (ex i) = Inr (orderbook_handlers cm ! i)) \<and>
     (\<forall>i < n. worker_returned (thread_pool cm) ! i \<longrightarrow>
        \<not> running (thread_pool cm) \<and> thread_queues (thread_pool cm) ! i = []) \<and>
     deleting cm = None"

lemma conforms_new:
  assumes "newConcurrentMarket d (unat n) n = Inr cm"
    and "0 < n"
  shows "conforms d (unat n) no_shards (\<lambda>i. []) cm"
proof -
  have "unat n < 256" using unsigned_less [of n, where ?'a = nat] by simp
  moreover have "0 < unat n" using assms(2) by (simp add: word_less_nat_alt)
  ultimately show ?thesis
    using assms(1) by (auto simp: conforms_def newConcurrentMarket_def newThreadPool_def rbind_eq_Inr
        no_shards_def hm_find_def queue_new_def sequential_def)
qed

lemma home_shard_less: "conforms d n s ex cm \<Longrightarrow> home_shard s sid < n"
  by (auto simp: conforms_def home_shard_def split: option.split)

lemma getSubmissionIndex_shard:
  assumes "conforms d n s ex cm"
  shows "unat (getSubmissionIndex cm sid) = home_shard s sid"
proof -
  have "map_option unat (hm_find sid (id_to_submission_index cm)) = shard_of s sid"
    using assms by (simp add: conforms_def)
  then show ?thesis
    by (cases "hm_find sid (id_to_submission_index cm)")
      (simp_all add: getSubmissionIndex_def home_shard_def flip: \<open>_ = shard_of s sid\<close>)
qed

text \<open>Submitting a call to the queue of its handler.\<close>

lemma submit_call_conforms:
  assumes c: "conforms d n s ex cm" and i: "i < n" and nd: "\<forall>sid v. call \<noteq> CallDeleteOrderBook sid v"
    and run: "running (thread_pool cm)" and sub: "submit_call i i call cm = Inr cm'"
  shows "conforms d n (assign_call i call s) ex cm'"
proof -
  have r: "\<forall>j < n. \<not> worker_returned (thread_pool cm) ! j" using c run by (auto simp: conforms_def)
  have cm': "cm' = cm\<lparr>thread_pool := (thread_pool cm)\<lparr>thread_queues := (thread_queues (thread_pool cm))
      [i := thread_queues (thread_pool cm) ! i @ [(i, call)]]\<rparr>\<rparr>"
    using sub by (auto simp: submit_call_def rbind_eq_Inr submitTask_eq_Inr)
  show ?thesis
    using c i nd r unfolding cm' by (auto simp: conforms_def assign_call_def nth_list_update)
qed

lemma request_conforms:
  assumes c: "conforms d n s ex cm" and run: "running (thread_pool cm)" and nd: "\<not> is_deletion r"
    and p: "concurrent_perform d cm r = Inr cm'"
  shows "conforms d n (assign n r s) ex cm'"
proof (cases r)
  case (AddSymbol sid name)
  let ?i = "unat (symbol_submission_index cm)"
  let ?cm1 = "cm\<lparr>c_id_to_symbol := hm_emplace sid (newSymbol sid name) (c_id_to_symbol cm),
          map_version := Suc (map_version cm),
          id_to_submission_index := hm_emplace sid (symbol_submission_index cm) (id_to_submission_index cm)\<rparr>"
  let ?s1 = "s\<lparr>shard_of := (if shard_of s sid = None then (shard_of s)(sid \<mapsto> next_shard s) else shard_of s)\<rparr>"
  obtain cm2 where cm2: "submit_call ?i ?i (CallAddOrderBook sid name) ?cm1 = Inr cm2"
      "cm' = updateSymbolSubmissionIndex cm2"
    using p AddSymbol by (auto simp: concurrent_addSymbol_def rbind_eq_Inr Let_def)
  have i: "?i = next_shard s" "?i < n" using c by (auto simp: conforms_def)
  have f: "map_option unat (hm_find t (id_to_submission_index cm)) = shard_of s t" for t
    using c by (simp add: conforms_def)
  have "map_option unat (hm_find t (id_to_submission_index ?cm1)) = shard_of ?s1 t" for t
    using f [of t] f [of sid] i(1) by (auto simp: hm.find_emplace)
  then have "conforms d n ?s1 ex ?cm1" using c i by (auto simp: conforms_def split: if_splits)
  then have c2: "conforms d n (assign_call ?i (CallAddOrderBook sid name) ?s1) ex cm2"
    using i(2) run cm2(1) by (intro submit_call_conforms) auto
  then have len: "length (orderbook_handlers cm2) = n" "n < 256" "unat (symbol_submission_index cm2) = ?i"
    using i(1) by (auto simp: conforms_def assign_call_def)
  have small: "unat (symbol_submission_index cm2 + 1) = Suc ?i"
    using len i(2) by (simp add: unat_word_ariths)
  have "unat (of_nat (Suc ?i mod n) :: u32) = Suc ?i mod n"
  proof -
    have "Suc ?i mod n < n" using i(2) by (intro mod_less_divisor) simp
    then have "Suc ?i mod n < 2 ^ 32" using len(2) by simp
    then show ?thesis by (simp add: unsigned_of_nat take_bit_nat_eq_self)
  qed
  then have "unat (symbol_submission_index cm') = Suc ?i mod n"
    using cm2(2) len(1) small by (simp add: updateSymbolSubmissionIndex_def)
  with c2 i show ?thesis
    by (auto simp: AddSymbol conforms_def Let_def assign_call_def cm2(2) updateSymbolSubmissionIndex_def)
next
  case (DeleteSymbol sid)
  with nd show ?thesis by simp
next
  case (BookRequest sid q)
  have "submit_request cm (request_symbol sid q) q = Inr cm'"
    using p BookRequest
    by (cases q) (simp_all add: concurrent_addOrder_def concurrent_executeOrder_at_def getSymbolID_def
        concurrent_executeOrder_def concurrent_deleteOrder_def concurrent_cancelOrder_def concurrent_replaceOrder_def)
  then show ?thesis
    using c run home_shard_less [OF c] unfolding BookRequest
    by (auto simp: submit_request_def Let_def getSubmissionIndex_shard [OF c] intro: submit_call_conforms)
qed

text \<open>A worker runs the next call of its own handler.\<close>

lemma execute_conforms:
  assumes c: "conforms d n s ex cm" and i: "i < n"
    and q: "thread_queues (thread_pool cm) ! i = t # q"
    and run: "run_task d t (cm\<lparr>thread_pool := (thread_pool cm)
        \<lparr>thread_queues := (thread_queues (thread_pool cm))[i := q]\<rparr>\<rparr>) = Inr cm'"
  shows "fst t = i" and "conforms d n s (ex(i := ex i @ [snd t])) cm'"
proof -
  have len: "length (orderbook_handlers cm) = n" "length (thread_queues (thread_pool cm)) = n"
    using c by (auto simp: conforms_def)
  have a: "assigned s i = ex i @ snd t # map snd q" "list_all (\<lambda>t. fst t = i) (t # q)"
      "list_all (\<lambda>c. \<forall>sid v. c \<noteq> CallDeleteOrderBook sid v) (assigned s i)"
      "sequential d (ex i) = Inr (orderbook_handlers cm ! i)" "\<not> worker_returned (thread_pool cm) ! i"
    using c i q by (auto simp: conforms_def)
  then show t: "fst t = i" by simp
  have nd: "\<forall>sid v. snd t \<noteq> CallDeleteOrderBook sid v" using a(1,3) by simp
  then have plain: "run_call d m (snd t) h = run_plain d (snd t) h" for m h by (cases "snd t") simp_all
  obtain h where h: "run_plain d (snd t) (orderbook_handlers cm ! i) = Inr h"
    and cm': "cm' = cm\<lparr>thread_pool := (thread_pool cm)\<lparr>thread_queues := (thread_queues (thread_pool cm))[i := q]\<rparr>,
        orderbook_handlers := (orderbook_handlers cm)[i := h]\<rparr>"
    using run t by (auto simp: run_task_def rbind_eq_Inr plain)
  have "sequential d (ex i @ [snd t]) = Inr h" using a(4) h by simp
  then show "conforms d n s (ex(i := ex i @ [snd t])) cm'"
    using c i a(1,2,3,5) len unfolding cm' by (auto simp: conforms_def nth_list_update)
qed

lemma step_conforms:
  assumes c: "conforms d n s ex cm" and st: "cstep d cm l cm'"
    and nd: "list_all (\<lambda>r. \<not> is_deletion r) (requests_of [l])"
  shows "conforms d n (foldl (\<lambda>s r. assign n r s) s (requests_of [l])) (\<lambda>i. ex i @ executed i [l]) cm'"
  using st
proof cases
  case (cstep_request r)
  then show ?thesis
    using request_conforms [OF c _ _ cstep_request(4)] nd by (simp add: isStarted_def)
next
  case (cstep_erase sid)
  then show ?thesis using c by (simp add: conforms_def)
next
  case (cstep_execute i t p)
  then obtain q where q: "thread_queues (thread_pool cm) ! i = t # q"
      "p = (thread_pool cm)\<lparr>thread_queues := (thread_queues (thread_pool cm))[i := q]\<rparr>"
    by (auto simp: worker_turn_Run)
  have i: "i < n" using c cstep_execute(2) by (simp add: conforms_def)
  have "(\<lambda>j. ex j @ executed j [l]) = ex(i := ex i @ [snd t])" using cstep_execute(1) by auto
  then show ?thesis
    using execute_conforms(2) [OF c i q(1)] cstep_execute(1,5) q(2) by simp
next
  case cstep_close
  then show ?thesis using c by (auto simp: conforms_def destroy_def)
next
  case (cstep_exit i p)
  then show ?thesis using c by (auto simp: conforms_def worker_turn_Return nth_list_update)
qed

lemma runs_conforms:
  assumes "runs d n tr cm" and "0 < n" and "deletion_free tr"
  shows "conforms d (unat n) (shard (unat n) (requests_of tr)) (\<lambda>i. executed i tr) cm"
  using assms
proof (induction rule: runs.induct)
  case (runs_new cm)
  then show ?case using conforms_new by (simp add: shard_def)
next
  case (runs_step tr cm l cm')
  have "deletion_free tr" "list_all (\<lambda>r. \<not> is_deletion r) (requests_of [l])"
    using runs_step.prems(2) by (auto simp: deletion_free_def)
  with step_conforms [OF runs_step.IH runs_step.hyps(2)] runs_step.prems(1) show ?case
    by (simp add: shard_def)
qed

section \<open>Shutting down\<close>

definition all_returned :: "ConcurrentMarket \<Rightarrow> bool" where
  "all_returned cm \<longleftrightarrow> list_all id (worker_returned (thread_pool cm))"

text \<open>The turns that the workers have left: their tasks, and their returns.\<close>

definition turns_left :: "ConcurrentMarket \<Rightarrow> nat" where
  "turns_left cm = sum_list (map length (thread_queues (thread_pool cm))) +
     length (filter Not (worker_returned (thread_pool cm)))"

lemma sum_list_update_less:
  "i < length (xs :: nat list) \<Longrightarrow> y < xs ! i \<Longrightarrow> sum_list (xs[i := y]) < sum_list xs"
  by (induction xs arbitrary: i) (auto split: nat.split)

lemma filter_Not_update_less:
  "i < length bs \<Longrightarrow> \<not> bs ! i \<Longrightarrow> length (filter Not (bs[i := True])) < length (filter Not bs)"
proof (induction bs arbitrary: i)
  case (Cons b bs)
  then show ?case by (cases i) auto
qed simp

text \<open>Every step after the start of the shutdown is a turn of a worker, and uses up a turn.\<close>

lemma closed_step:
  assumes c: "conforms d n s ex cm" and closed: "\<not> running (thread_pool cm)" and st: "cstep d cm l cm'"
  shows "turns_left cm' < turns_left cm" and "\<not> running (thread_pool cm')" and "requests_of [l] = []"
proof -
  have len: "length (thread_queues (thread_pool cm)) = n" "length (worker_returned (thread_pool cm)) = n"
      "deleting cm = None"
    using c by (auto simp: conforms_def)
  have "turns_left cm' < turns_left cm \<and> \<not> running (thread_pool cm') \<and> requests_of [l] = []"
    using st
  proof cases
    case (cstep_execute i t p)
    then obtain q where q: "thread_queues (thread_pool cm) ! i = t # q"
        "p = (thread_pool cm)\<lparr>thread_queues := (thread_queues (thread_pool cm))[i := q]\<rparr>"
      by (auto simp: worker_turn_Run)
    have p: "thread_pool cm' = p" using cstep_execute(5) by (auto simp: run_task_def rbind_eq_Inr)
    have "sum_list ((map length (thread_queues (thread_pool cm)))[i := length q])
        < sum_list (map length (thread_queues (thread_pool cm)))"
      using cstep_execute(2) len q(1) by (intro sum_list_update_less) simp_all
    then show ?thesis
      using q(2) p closed cstep_execute(1) by (simp add: turns_left_def map_update)
  next
    case (cstep_exit i p)
    then show ?thesis
      using closed filter_Not_update_less [of i "worker_returned (thread_pool cm)"]
      by (simp add: worker_turn_Return turns_left_def)
  qed (use closed len in \<open>auto simp: isStarted_def\<close>)
  then show "turns_left cm' < turns_left cm" "\<not> running (thread_pool cm')" "requests_of [l] = []" by auto
qed

text \<open>As long as a worker has not returned it can take a turn, if its calls succeed in sequence.\<close>

lemma closed_progress:
  assumes c: "conforms d n s ex cm" and closed: "\<not> running (thread_pool cm)"
    and ok: "\<forall>i < n. \<exists>h. sequential d (assigned s i) = Inr h" and left: "\<not> all_returned cm"
  obtains l cm' where "cstep d cm l cm'"
proof -
  obtain i where i: "i < n" "\<not> worker_returned (thread_pool cm) ! i"
    using left c by (auto simp: all_returned_def list_all_length conforms_def)
  have len: "i < length (worker_returned (thread_pool cm))" using c i(1) by (simp add: conforms_def)
  show ?thesis
  proof (cases "thread_queues (thread_pool cm) ! i")
    case Nil
    then have "worker_turn i (thread_pool cm) = (Return, (thread_pool cm)
        \<lparr>worker_returned := (worker_returned (thread_pool cm))[i := True]\<rparr>)"
      using closed by (simp add: worker_turn_Return)
    with len i(2) show ?thesis by (rule that [OF cstep_exit])
  next
    case (Cons t q)
    let ?p = "(thread_pool cm)\<lparr>thread_queues := (thread_queues (thread_pool cm))[i := q]\<rparr>"
    have a: "assigned s i = (ex i @ [snd t]) @ map snd q" "fst t = i"
        "list_all (\<lambda>c. \<forall>sid v. c \<noteq> CallDeleteOrderBook sid v) (assigned s i)"
        "sequential d (ex i) = Inr (orderbook_handlers cm ! i)" "i < length (orderbook_handlers cm)"
      using c i(1) Cons by (auto simp: conforms_def)
    obtain h where "sequential d (assigned s i) = Inr h" using ok i(1) by blast
    then obtain h' where h': "sequential d (ex i @ [snd t]) = Inr h'"
      using sequential_prefix [of d "ex i @ [snd t]" "map snd q"] a(1) by auto
    have "run_call d m (snd t) g = run_plain d (snd t) g" for m g
      using a(1,3) by (cases "snd t") auto
    then have "run_task d t (cm\<lparr>thread_pool := ?p\<rparr>)
        = Inr (cm\<lparr>thread_pool := ?p, orderbook_handlers := (orderbook_handlers cm)[i := h']\<rparr>)"
      using h' a(2,4,5) by (simp add: run_task_def)
    moreover have "worker_turn i (thread_pool cm) = (Run t, ?p)" using Cons by (simp add: worker_turn_Run)
    ultimately show ?thesis using that [OF cstep_execute] len i(2) by blast
  qed
qed

lemma shutdown:
  assumes "runs d n tr cm" and "0 < n" and "deletion_free tr" and "\<not> running (thread_pool cm)"
    and "\<forall>i < unat n. \<exists>h. sequential d (assigned (shard (unat n) (requests_of tr)) i) = Inr h"
  shows "\<exists>tr' cm'. runs d n (tr @ tr') cm' \<and> requests_of tr' = [] \<and> all_returned cm'"
  using assms
proof (induction "turns_left cm" arbitrary: tr cm rule: less_induct)
  case less
  have c: "conforms d (unat n) (shard (unat n) (requests_of tr)) (\<lambda>i. executed i tr) cm"
    using less.prems(1-3) by (rule runs_conforms)
  show ?case
  proof (cases "all_returned cm")
    case True
    then show ?thesis using less.prems(1) by (intro exI [of _ "[]"] exI [of _ cm]) simp
  next
    case False
    then obtain l cm1 where st: "cstep d cm l cm1" using closed_progress [OF c less.prems(4,5)] by blast
    note cl = closed_step [OF c less.prems(4) st]
    have "deletion_free (tr @ [l])" "requests_of (tr @ [l]) = requests_of tr"
      using less.prems(3) cl(3) by (simp_all add: deletion_free_def)
    then obtain tr' cm' where "runs d n ((tr @ [l]) @ tr') cm'" "requests_of tr' = []" "all_returned cm'"
      using less.hyps [OF cl(1) runs_step [OF less.prems(1) st]] less.prems(2,5) cl(2) by metis
    then show ?thesis
      using cl(3) requests_of_append [of "[l]" tr'] by (intro exI [of _ "l # tr'"] exI [of _ cm']) simp
  qed
qed

end
