(* ===== verification/Concurrent_Properties.thy ===== *)
theory Concurrent_Properties
  imports Concurrent_Proofs Samples
begin

text \<open>
  The properties of the thread pool and of the concurrent market, with two sample runs of a market
  with two workers.
\<close>

section \<open>Sample runs\<close>

text \<open>The step relation as a function of the label, for evaluation.\<close>

fun step_fun :: "build \<Rightarrow> label \<Rightarrow> ConcurrentMarket \<Rightarrow> ConcurrentMarket option" where
  "step_fun d (Request r) cm =
     (if isStarted (thread_pool cm) \<and> Option.is_none (deleting cm) then
        (case concurrent_perform d cm r of Inl e \<Rightarrow> None | Inr cm' \<Rightarrow> Some cm')
      else None)"
| "step_fun d EraseSymbol cm = map_option (\<lambda>sid. erase_symbol sid cm) (deleting cm)"
| "step_fun d (Execute i t) cm =
     (if i < length (worker_returned (thread_pool cm)) \<and> \<not> worker_returned (thread_pool cm) ! i then
        (case worker_turn i (thread_pool cm) of
           (Run t', p) \<Rightarrow> if t' = t then
              (case run_task d t (cm\<lparr>thread_pool := p\<rparr>) of Inl e \<Rightarrow> None | Inr cm' \<Rightarrow> Some cm') else None
         | _ \<Rightarrow> None)
      else None)"
| "step_fun d Close cm =
     (if isStarted (thread_pool cm) \<and> Option.is_none (deleting cm)
      then Some (cm\<lparr>thread_pool := destroy (thread_pool cm)\<rparr>) else None)"
| "step_fun d (Exit i) cm =
     (if i < length (worker_returned (thread_pool cm)) \<and> \<not> worker_returned (thread_pool cm) ! i then
        (case worker_turn i (thread_pool cm) of
           (Return, p) \<Rightarrow> Some (cm\<lparr>thread_pool := p\<rparr>) | _ \<Rightarrow> None)
      else None)"

lemma step_fun_cstep: "step_fun d l cm = Some cm' \<Longrightarrow> cstep d cm l cm'"
  by (cases l) (auto intro!: cstep.intros simp: Option.is_none_def
      split: if_splits sum.splits prod.splits turn.splits)

fun play :: "build \<Rightarrow> label list \<Rightarrow> ConcurrentMarket \<Rightarrow> ConcurrentMarket option" where
  "play d [] cm = Some cm"
| "play d (l # ls) cm = (case step_fun d l cm of None \<Rightarrow> None | Some cm' \<Rightarrow> play d ls cm')"

lemma play_runs: "runs d n tr cm \<Longrightarrow> play d ls cm = Some cm' \<Longrightarrow> runs d n (tr @ ls) cm'"
proof (induction ls arbitrary: tr cm)
  case (Cons l ls)
  then obtain cm1 where "step_fun d l cm = Some cm1" "play d ls cm1 = Some cm'"
    by (auto split: option.splits)
  then show ?case using Cons.IH [of "tr @ [l]" cm1] runs_step [OF Cons.prems(1) step_fun_cstep] by simp
qed simp

definition played :: "build \<Rightarrow> 8 word \<Rightarrow> label list \<Rightarrow> ConcurrentMarket option" where
  "played d n ls = (case newConcurrentMarket d (unat n) n of Inl e \<Rightarrow> None | Inr cm \<Rightarrow> play d ls cm)"

lemma played_runs: "played d n ls = Some cm \<Longrightarrow> runs d n ls cm"
  using play_runs [OF runs_new, of d n _ ls cm] by (auto simp: played_def split: sum.splits)

text \<open>Two symbols, an order for each, and two schedules of the workers.\<close>

definition first_ask :: Order where
  "first_ask = sample_order Limit Ask GTC 100 0 0 50 1"

definition sample_calls :: "label list" where
  "sample_calls = [Request (AddSymbol 1 ''GOOG''), Request (AddSymbol 2 ''AAPL''),
     Request (BookRequest 1 (AddOrder first_ask)), Close]"

definition work_0 :: "label list" where
  "work_0 = [Execute 0 (0, CallAddOrderBook 1 ''GOOG''), Execute 0 (0, CallBook 1 (AddOrder first_ask)), Exit 0]"

definition work_1 :: "label list" where
  "work_1 = [Execute 1 (1, CallAddOrderBook 2 ''AAPL''), Exit 1]"

lemma sample_played:
  obtains cm where "played Debug 2 sample_calls = Some cm" and "\<not> running (thread_pool cm)"
proof -
  have "case played Debug 2 sample_calls of None \<Rightarrow> False | Some cm \<Rightarrow> \<not> running (thread_pool cm)"
    by code_simp
  then show ?thesis using that by (auto split: option.splits)
qed

lemma sample_drained:
  obtains cm cm' where "played Debug 2 (sample_calls @ work_0 @ work_1) = Some cm" and "all_returned cm"
    and "played Debug 2 (sample_calls @ work_1 @ work_0) = Some cm'" and "all_returned cm'"
proof -
  have "case played Debug 2 (sample_calls @ work_0 @ work_1) of None \<Rightarrow> False | Some cm \<Rightarrow> all_returned cm"
    by code_simp
  moreover have "case played Debug 2 (sample_calls @ work_1 @ work_0) of None \<Rightarrow> False | Some cm \<Rightarrow> all_returned cm"
    by code_simp
  ultimately show ?thesis using that by (auto split: option.splits)
qed

lemma sample_deletion_free: "deletion_free (sample_calls @ work_0 @ work_1)" "deletion_free sample_calls"
  by code_simp+

section \<open>Properties\<close>

text \<open>
  C24. Whatever the interleaving of client and workers, as long as no symbol is deleted: every task
  sits in the queue of the worker that owns its handler, so that no two workers touch one handler;
  the calls a worker has executed, followed by those in its queue, are exactly the calls assigned to
  its shard, each once and in the order of the requests; and its handler is the result of running the
  executed calls in sequence.
\<close>

theorem concurrent_conforms_to_sharding:
  assumes "runs d n tr cm" and "0 < n" and "deletion_free tr" and "i < unat n"
  shows "assigned (shard (unat n) (requests_of tr)) i = executed i tr @ map snd (thread_queues (thread_pool cm) ! i) \<and>
    list_all (\<lambda>t. fst t = i) (thread_queues (thread_pool cm) ! i) \<and>
    sequential d (executed i tr) = Inr (orderbook_handlers cm ! i)"
  using runs_conforms [OF assms(1-3)] assms(4) by (simp add: conforms_def)

theorem concurrent_conforms_to_sharding_witness:
  "\<exists>cm. runs Debug 2 sample_calls cm \<and>
    map snd (thread_queues (thread_pool cm) ! 0) = [CallAddOrderBook 1 ''GOOG'', CallBook 1 (AddOrder first_ask)]"
proof -
  obtain cm where "played Debug 2 sample_calls = Some cm" by (rule sample_played)
  then have r: "runs Debug 2 sample_calls cm" by (rule played_runs)
  have "assigned (shard (unat (2 :: 8 word)) (requests_of sample_calls)) 0
      = [CallAddOrderBook 1 ''GOOG'', CallBook 1 (AddOrder first_ask)]" by code_simp
  moreover have "executed 0 sample_calls = []" by (simp add: sample_calls_def)
  ultimately show ?thesis
    using concurrent_conforms_to_sharding [OF r _ sample_deletion_free(2), of 0] r by auto
qed

text \<open>
  The schedule does not matter: two runs with the same requests, none of them a deletion of a
  symbol, in which all workers have returned end with the same handlers, hence the same books and
  the same events in the same order per handler.
\<close>

lemma concurrent_deterministic:
  assumes "runs d n tr cm" and "runs d n tr' cm'" and "0 < n" and "deletion_free tr"
    and "requests_of tr' = requests_of tr" and "all_returned cm" and "all_returned cm'"
  shows "orderbook_handlers cm = orderbook_handlers cm'"
proof -
  let ?s = "shard (unat n) (requests_of tr)"
  have free: "deletion_free tr'" using assms(4,5) by (simp add: deletion_free_def)
  have c: "conforms d (unat n) ?s (\<lambda>i. executed i tr) cm"
    using assms(1,3,4) by (rule runs_conforms)
  have c': "conforms d (unat n) ?s (\<lambda>i. executed i tr') cm'"
    using runs_conforms [OF assms(2,3) free] assms(5) by simp
  have "sequential d (assigned ?s i) = Inr (orderbook_handlers cm ! i)"
      "sequential d (assigned ?s i) = Inr (orderbook_handlers cm' ! i)" if "i < unat n" for i
    using c c' that assms(6,7) by (auto simp: conforms_def all_returned_def list_all_length)
  then show ?thesis
    using c c' by (intro nth_equalityI) (auto simp: conforms_def)
qed

lemma concurrent_deterministic_witness:
  "\<exists>cm cm'. runs Debug 2 (sample_calls @ work_0 @ work_1) cm \<and>
    runs Debug 2 (sample_calls @ work_1 @ work_0) cm' \<and> orderbook_handlers cm = orderbook_handlers cm'"
proof -
  obtain cm cm' where w: "played Debug 2 (sample_calls @ work_0 @ work_1) = Some cm" "all_returned cm"
      "played Debug 2 (sample_calls @ work_1 @ work_0) = Some cm'" "all_returned cm'"
    by (rule sample_drained)
  have r: "runs Debug 2 (sample_calls @ work_0 @ work_1) cm" "runs Debug 2 (sample_calls @ work_1 @ work_0) cm'"
    using w(1,3) by (auto intro: played_runs)
  have "requests_of (sample_calls @ work_1 @ work_0) = requests_of (sample_calls @ work_0 @ work_1)"
    by (simp add: work_0_def work_1_def)
  with concurrent_deterministic [OF r _ sample_deletion_free(1) _ w(2,4)] r show ?thesis by auto
qed

text \<open>
  C26. The destructor drains the queues, if no symbol is deleted and the calls of every shard succeed in
  sequence: once it has begun, each step uses up one of finitely many turns, some step is possible until
  all workers have returned, and then every call ever submitted has been executed. Without the first condition
  a worker may be stuck with a task of \<open>deleteSymbol\<close>, as the section on deviations shows.
\<close>

theorem concurrent_shutdown_drains:
  assumes "runs d n tr cm" and "0 < n" and "deletion_free tr" and "\<not> running (thread_pool cm)"
    and "\<forall>i < unat n. \<exists>h. sequential d (assigned (shard (unat n) (requests_of tr)) i) = Inr h"
  shows "(\<forall>l cm'. cstep d cm l cm' \<longrightarrow> turns_left cm' < turns_left cm) \<and>
    (\<exists>tr' cm'. runs d n (tr @ tr') cm' \<and> requests_of tr' = [] \<and> all_returned cm') \<and>
    (all_returned cm \<longrightarrow> (\<forall>i < unat n. executed i tr = assigned (shard (unat n) (requests_of tr)) i))"
proof (intro conjI allI impI)
  have c: "conforms d (unat n) (shard (unat n) (requests_of tr)) (\<lambda>i. executed i tr) cm"
    using assms(1-3) by (rule runs_conforms)
  show "turns_left cm' < turns_left cm" if "cstep d cm l cm'" for l cm'
    using closed_step(1) [OF c assms(4) that] .
  show "\<exists>tr' cm'. runs d n (tr @ tr') cm' \<and> requests_of tr' = [] \<and> all_returned cm'"
    using assms by (rule shutdown)
  show "executed i tr = assigned (shard (unat n) (requests_of tr)) i" if "all_returned cm" "i < unat n" for i
    using c that by (simp add: conforms_def all_returned_def list_all_length)
qed

lemma sample_sequential:
  "\<forall>i < unat (2 :: 8 word). \<exists>h. sequential Debug (assigned (shard (unat (2 :: 8 word)) (requests_of sample_calls)) i) = Inr h"
proof -
  have "list_all (\<lambda>i. case sequential Debug (assigned (shard (unat (2 :: 8 word)) (requests_of sample_calls)) i) of
      Inl e \<Rightarrow> False | Inr h \<Rightarrow> True) [0, 1]"
    by code_simp
  moreover have "i = 0 \<or> i = 1" if "i < unat (2 :: 8 word)" for i using that by auto
  ultimately show ?thesis by (auto split: sum.splits)
qed

theorem concurrent_shutdown_drains_witness:
  "\<exists>tr' cm'. runs Debug 2 (sample_calls @ tr') cm' \<and> all_returned cm'"
proof -
  obtain cm where "played Debug 2 sample_calls = Some cm" and n: "\<not> running (thread_pool cm)"
    by (rule sample_played)
  then have "runs Debug 2 sample_calls cm" by (intro played_runs)
  from concurrent_shutdown_drains [OF this _ sample_deletion_free(2) n sample_sequential]
  show ?thesis by auto
qed

section \<open>Deviations\<close>

text \<open>
  \<open>deleteSymbol\<close> submits its task to the queue of the symbol's worker but takes the handler at
  the index for the next new symbol. Whenever the two differ, the task is in the queue of a worker
  that does not own the task's handler.
\<close>

lemma deleteSymbol_misdirected:
  assumes "conforms d n s ex cm" and "home_shard s sid \<noteq> next_shard s"
    and "concurrent_perform d cm (DeleteSymbol sid) = Inr cm'"
  shows "thread_queues (thread_pool cm') ! home_shard s sid =
      thread_queues (thread_pool cm) ! home_shard s sid @
        [(next_shard s, CallDeleteOrderBook sid (map_version cm))] \<and>
    \<not> list_all (\<lambda>t. fst t = home_shard s sid) (thread_queues (thread_pool cm') ! home_shard s sid)"
proof -
  have i: "unat (symbol_submission_index cm) = next_shard s" using assms(1) by (simp add: conforms_def)
  have h: "home_shard s sid < length (thread_queues (thread_pool cm))"
    using home_shard_less [OF assms(1), of sid] assms(1) by (simp add: conforms_def)
  have "thread_queues (thread_pool cm') ! home_shard s sid =
      thread_queues (thread_pool cm) ! home_shard s sid @
        [(next_shard s, CallDeleteOrderBook sid (map_version cm))]"
    using assms(3) h
    by (auto simp: concurrent_deleteSymbol_def submit_call_def rbind_eq_Inr submitTask_eq_Inr i
        getSubmissionIndex_shard [OF assms(1)])
  with assms(2) show ?thesis by simp
qed

lemma deleteSymbol_misdirected_witness:
  "\<exists>cm cm'. runs Debug 2 [Request (AddSymbol 1 ''GOOG'')] cm \<and>
    concurrent_perform Debug cm (DeleteSymbol 1) = Inr cm' \<and>
    (1, CallDeleteOrderBook 1 1) \<in> set (thread_queues (thread_pool cm') ! 0)"
proof -
  let ?tr = "[Request (AddSymbol 1 ''GOOG'')]"
  have "case played Debug 2 ?tr of None \<Rightarrow> False | Some cm \<Rightarrow> map_version cm = 1 \<and>
      (case concurrent_perform Debug cm (DeleteSymbol 1) of Inl e \<Rightarrow> False | Inr cm' \<Rightarrow> True)"
    by code_simp
  then obtain cm cm' where w: "played Debug 2 ?tr = Some cm" "map_version cm = 1"
      "concurrent_perform Debug cm (DeleteSymbol 1) = Inr cm'"
    by (auto split: option.splits sum.splits)
  have r: "runs Debug 2 ?tr cm" using w(1) by (rule played_runs)
  have free: "deletion_free ?tr" by (simp add: deletion_free_def)
  have c: "conforms Debug (unat (2 :: 8 word)) (shard (unat (2 :: 8 word)) (requests_of ?tr)) (\<lambda>i. executed i ?tr) cm"
    using r _ free by (rule runs_conforms) simp
  have s: "home_shard (shard (unat (2 :: 8 word)) (requests_of ?tr)) 1 = 0"
      "next_shard (shard (unat (2 :: 8 word)) (requests_of ?tr)) = 1"
    by code_simp+
  show ?thesis
    using deleteSymbol_misdirected [OF c _ w(3)] r w(2,3) unfolding s by auto
qed

text \<open>
  A worker that runs the task of \<open>deleteSymbol\<close> on the handler it names finds no book of that
  symbol there: with two workers and one symbol, deleting the symbol stops a debug build and is
  undefined in a release build when the task runs before the client's erasures, and is undefined
  when it runs after them.
\<close>

lemma deleteSymbol_fails:
  "(case played Debug 2 [Request (AddSymbol 1 ''GOOG''), Execute 0 (0, CallAddOrderBook 1 ''GOOG''),
       Request (DeleteSymbol 1)] of
      None \<Rightarrow> False
    | Some cm \<Rightarrow> run_task Debug (1, CallDeleteOrderBook 1 1) cm = Inl AssertionFailure \<and>
        run_task Release (1, CallDeleteOrderBook 1 1) cm = Inl UndefinedBehaviour \<and>
        run_task Debug (1, CallDeleteOrderBook 1 1) (erase_symbol 1 cm) = Inl UndefinedBehaviour)"
  by code_simp

text \<open>
  C29. The task of \<open>deleteSymbol\<close> reads the name of the symbol through an iterator. If the client
  erases the entry before the worker runs the task, the read is undefined, in every state.
\<close>

theorem deleteSymbol_dangling_iterator:
  assumes "concurrent_perform d cm (DeleteSymbol sid) = Inr cm'"
  shows "let q = unat (getSubmissionIndex cm sid);
      t = (unat (symbol_submission_index cm), CallDeleteOrderBook sid (map_version cm)) in
    thread_queues (thread_pool cm') ! q = thread_queues (thread_pool cm) ! q @ [t] \<and>
    fst t < length (orderbook_handlers cm') \<and>
    run_task d t (erase_symbol sid cm') = Inl UndefinedBehaviour"
proof -
  obtain cm1 where cm1: "submit_call (unat (symbol_submission_index cm)) (unat (getSubmissionIndex cm sid))
      (CallDeleteOrderBook sid (map_version cm)) cm = Inr cm1" "cm' = cm1\<lparr>deleting := Some sid\<rparr>"
    using assms by (auto simp: concurrent_deleteSymbol_def rbind_eq_Inr)
  then show ?thesis
    by (auto simp: submit_call_def rbind_eq_Inr submitTask_eq_Inr erase_symbol_def run_task_def
        require_def Let_def split: if_splits)
qed

theorem deleteSymbol_dangling_iterator_witness:
  "\<exists>cm cm'. played Debug 1 [Request (AddSymbol 1 ''GOOG'')] = Some cm \<and>
    concurrent_perform Debug cm (DeleteSymbol 1) = Inr cm' \<and>
    run_task Debug (0, CallDeleteOrderBook 1 1) (erase_symbol 1 cm') = Inl UndefinedBehaviour"
proof -
  have "case played Debug 1 [Request (AddSymbol 1 ''GOOG'')] of None \<Rightarrow> False | Some cm \<Rightarrow>
      symbol_submission_index cm = 0 \<and> map_version cm = 1 \<and>
      (case concurrent_perform Debug cm (DeleteSymbol 1) of Inl e \<Rightarrow> False | Inr cm' \<Rightarrow> True)"
    by code_simp
  then obtain cm cm' where w: "played Debug 1 [Request (AddSymbol 1 ''GOOG'')] = Some cm"
      "concurrent_perform Debug cm (DeleteSymbol 1) = Inr cm'"
      "symbol_submission_index cm = 0" "map_version cm = 1"
    by (auto split: option.splits sum.splits)
  with deleteSymbol_dangling_iterator [OF w(2)] show ?thesis by (auto simp: Let_def)
qed

text \<open>
  A pool that has been stopped cannot be started again: its threads have not been joined, and
  assigning to a joinable thread terminates the program.
\<close>

lemma restart_terminates:
  assumes "newThreadPool d n = Inr p" and "0 < n" and "stop d p = Inr q"
  shows "start d' q = Inl Terminated"
  using assms by (auto simp: newThreadPool_def stop_def start_def rbind_eq_Inr list_ex_length)

lemma restart_terminates_witness:
  "\<exists>p q. newThreadPool Debug 2 = Inr p \<and> stop Debug p = Inr q \<and> start Debug (q :: task ThreadPool) = Inl Terminated"
proof -
  have "case newThreadPool Debug 2 of Inl e \<Rightarrow> False | Inr p \<Rightarrow>
      (case stop Debug p of Inl e \<Rightarrow> False | Inr q \<Rightarrow> (q :: task ThreadPool) = q)"
    by code_simp
  then obtain p and q :: "task ThreadPool" where "newThreadPool Debug 2 = Inr p" "stop Debug p = Inr q"
    by (auto split: sum.splits)
  with restart_terminates [of Debug 2 p q Debug] show ?thesis by auto
qed

end
