(* ===== verification/Event_Frame.thy ===== *)
theory Event_Frame
  imports Book_Requests
begin

text \<open>
  A book only appends to its events and never reads them: with other events before its own, every
  operation does the same and reports the same. This is why a book can share an event handler with
  other books. The lemmas push \<open>prior es\<close>, the earlier events, out of every operation.
\<close>

section \<open>Mapping a function over an outcome\<close>

definition rmap :: "('a \<Rightarrow> 'b) \<Rightarrow> 'a res \<Rightarrow> 'b res" where
  "rmap f m = rbind m (\<lambda>x. Inr (f x))"

named_theorems framed "pushes earlier events out of an operation"

lemma rmap_simps [framed, simp]:
  "rmap f (Inr x) = Inr (f x)"
  "rmap f (Inl e) = Inl e"
  by (simp_all add: rmap_def)

lemma rmap_push [framed]:
  "rmap f (rbind m k) = rbind m (\<lambda>x. rmap f (k x))"
  "rmap f (check d P x) = check d P (f x)"
  "rmap f (require P x) = require P (f x)"
  "rmap f (if Q then r else r') = (if Q then rmap f r else rmap f r')"
  by (cases m; simp add: check_def require_def)+

lemma rbind_rmap [framed]: "rbind (rmap f m) k = rbind m (\<lambda>x. k (f x))"
  by (cases m) simp_all

lemma rbind_push [framed]:
  "rbind (rbind m f) g = rbind m (\<lambda>x. rbind (f x) g)"
  "rbind (if Q then r else r') k = (if Q then rbind r k else rbind r' k)"
  by (cases m; simp)+

lemma rbind_Inr [simp]: "rbind m Inr = m"
  by (cases m) simp_all

lemma rmap_id [simp]: "rmap (\<lambda>x. x) m = m"
  by (cases m) simp_all

lemma rmap_case_option [framed]:
  "rmap f (case r of None \<Rightarrow> m | Some x \<Rightarrow> k x) = (case r of None \<Rightarrow> rmap f m | Some x \<Rightarrow> rmap f (k x))"
  by (cases r) simp_all

lemma rmap_case_prod [framed]:
  "rmap f (case p of (x, y) \<Rightarrow> h x y) = (case p of (x, y) \<Rightarrow> rmap f (h x y))"
  by (cases p) simp

lemma returns_map [framed]: "returns (map_option (rmap f) m) = rmap f (returns m)"
  by (cases m) simp_all

section \<open>Earlier events\<close>

definition prior :: "Event list \<Rightarrow> MapOrderBook \<Rightarrow> MapOrderBook" where
  "prior es b = b\<lparr>events := es @ events b\<rparr>"

text \<open>On the pairs that the matching and the activation loops return.\<close>

definition prior_fst :: "Event list \<Rightarrow> MapOrderBook \<times> 'a \<Rightarrow> MapOrderBook \<times> 'a" where
  "prior_fst es = apfst (prior es)"

lemma prior_fst_pair [framed, simp]: "prior_fst es (b, x) = (prior es b, x)"
  by (simp add: prior_fst_def)

lemma fst_snd_prior_fst [framed, simp]:
  "fst (prior_fst es r) = prior es (fst r)" "snd (prior_fst es r) = snd r"
  by (simp_all add: prior_fst_def)

lemma case_prior_fst [framed]: "(case prior_fst es r of (b, x) \<Rightarrow> k b x) = (case r of (b, x) \<Rightarrow> k (prior es b) x)"
  by (cases r) simp

lemma prior_select [framed, simp]:
  "orders (prior es b) = orders b" "ask_levels (prior es b) = ask_levels b"
  "bid_levels (prior es b) = bid_levels b" "stop_ask_levels (prior es b) = stop_ask_levels b"
  "stop_bid_levels (prior es b) = stop_bid_levels b"
  "trailing_stop_ask_levels (prior es b) = trailing_stop_ask_levels b"
  "trailing_stop_bid_levels (prior es b) = trailing_stop_bid_levels b"
  "new_trailing_levels (prior es b) = new_trailing_levels b"
  "last_traded_price (prior es b) = last_traded_price b"
  "trailing_bid_price (prior es b) = trailing_bid_price b"
  "trailing_ask_price (prior es b) = trailing_ask_price b"
  "book_symbol_id (prior es b) = book_symbol_id b"
  "events (prior es b) = es @ events b"
  by (simp_all add: prior_def)

lemma levels_prior [framed, simp]: "levels K (prior es b) = levels K b"
  by (simp add: prior_def)

lemma prior_update [framed]:
  "(prior es b)\<lparr>orders := x\<rparr> = prior es (b\<lparr>orders := x\<rparr>)"
  "(prior es b)\<lparr>new_trailing_levels := y\<rparr> = prior es (b\<lparr>new_trailing_levels := y\<rparr>)"
  "(prior es b)\<lparr>last_traded_price := z\<rparr> = prior es (b\<lparr>last_traded_price := z\<rparr>)"
  "(prior es b)\<lparr>trailing_bid_price := z\<rparr> = prior es (b\<lparr>trailing_bid_price := z\<rparr>)"
  "(prior es b)\<lparr>trailing_ask_price := z\<rparr> = prior es (b\<lparr>trailing_ask_price := z\<rparr>)"
  by (simp_all add: prior_def)

lemma set_levels_prior [framed]: "set_levels K m (prior es b) = prior es (set_levels K m b)"
  by (cases K) (simp_all add: prior_def)

lemma prior_read [framed]:
  "book_heap (prior es b) = book_heap b" "find_order (prior es b) i = find_order b i"
  "find_level (prior es b) it = find_level b it" "hasOrder (prior es b) i = hasOrder b i"
  "lastTradedPriceAsk (prior es b) = lastTradedPriceAsk b"
  "lastTradedPriceBid (prior es b) = lastTradedPriceBid b"
  "best_opposite (prior es b) od = best_opposite b od"
  "next_stop_level s K (prior es b) = next_stop_level s K b"
  "canMatchOrder (prior es b) od = canMatchOrder b od"
  "stop_matches (prior es b) od = stop_matches b od"
  "calculateStopPrice d (prior es b) od = calculateStopPrice d b od"
  by (simp_all add: book_heap_def find_order_def find_level_def hasOrder_def lastTradedPriceAsk_def
      lastTradedPriceBid_def best_opposite_def next_stop_level_def canMatchOrder_def stop_matches_def
      calculateStopPrice_def)

lemma validateOrderBook_prior [framed]: "validateOrderBook (prior es b) = validateOrderBook b"
proof -
  have "book_heap (prior es b) = book_heap b" by (rule prior_read)
  then have "validate_level_entry (prior es b) = validate_level_entry b"
    by (intro ext) (simp add: validate_level_entry_def)
  then show ?thesis
    by (simp add: validateOrderBook_def validateLimitOrders_def validateStopOrders_def
        validateTrailingStopOrders_def)
qed

lemma prior_write [framed]:
  "store_order i od (prior es b) = prior es (store_order i od b)"
  "store_level it l (prior es b) = prior es (store_level it l b)"
  "erase_level it (prior es b) = prior es (erase_level it b)"
  "swap_trailing s (prior es b) = prior es (swap_trailing s b)"
  by (simp_all add: store_order_def store_level_def erase_level_def swap_trailing_def prior_update
      set_levels_prior split: option.split)

lemma emit_prior [framed]: "emit e (prior es b) = prior es (emit e b)"
  by (simp add: emit_def prior_def)

section \<open>Orders in levels\<close>

lemma erase_empty_level_prior [framed]:
  "erase_empty_level d od it (prior es b) = rmap (prior es) (erase_empty_level d od it b)"
  by (simp add: erase_empty_level_def framed cong: option.case_cong)

lemma deleteOrder_notify_prior [framed]:
  "deleteOrder_notify d (prior es b) i n = rmap (prior es) (deleteOrder_notify d b i n)"
  by (cases n) (simp_all add: deleteOrder_notify_def framed Let_def cong: if_cong)

lemma insert_at_prior [framed]:
  "insert_at d K p s od (prior es b) = rmap (prior es) (insert_at d K p s od b)"
  by (simp add: insert_at_def Let_def framed)

lemma insert_prior [framed]:
  "insertLimitOrder d (prior es b) od = rmap (prior es) (insertLimitOrder d b od)"
  "insertStopOrder d (prior es b) od = rmap (prior es) (insertStopOrder d b od)"
  "insertTrailingStopOrder d (prior es b) od = rmap (prior es) (insertTrailingStopOrder d b od)"
  by (simp_all add: insertLimitOrder_def insertStopOrder_def insertTrailingStopOrder_def framed)

section \<open>Matching\<close>

lemma execute_incoming_prior [framed]:
  "execute_incoming d (prior es b) od r p = rmap (prior_fst es) (execute_incoming d b od r p)"
  by (simp add: execute_incoming_def executeOrders_def Let_def framed cong: if_cong)

lemma match_step_prior [framed]:
  "match_step d (prior es b) od lev = rmap (prior_fst es) (match_step d b od lev)"
  by (simp add: match_step_def Let_def framed case_prod_beta cong: if_cong)

lemma match_loop_prior [framed]:
  "match_loop d (prior es b) od = rmap (prior_fst es) (match_loop d b od)"
proof (induction d b od rule: match_loop.induct)
  case (1 d b od)
  have "rbind (match_step d b od lev) (\<lambda>r. match_loop d (prior es (fst r)) (snd r))
      = rbind (match_step d b od lev) (\<lambda>r. rmap (prior_fst es) (match_loop d (fst r) (snd r)))"
    if "best_opposite b od = Some lev" "crosses od (fst lev) \<and> \<not> isFilled od" for lev
    using "1.IH" [OF that] by (intro rbind_cong) simp_all
  then show ?case
    by (subst (1 2) match_loop.simps) (auto simp: framed split: option.split)
qed

lemma match_prior [framed]: "match d (prior es b) od = rmap (prior_fst es) (match d b od)"
  by (simp add: match_def framed cong: if_cong)

lemma add_prior [framed]:
  "addLimitOrder d (prior es b) od = rmap (prior es) (addLimitOrder d b od)"
  "addMarketOrder d (prior es b) od = rmap (prior es) (addMarketOrder d b od)"
  by (simp_all add: addLimitOrder_def addMarketOrder_def framed case_prod_beta cong: if_cong)

lemma addStopOrder_prior [framed]:
  "addStopOrder d (prior es b) od = rmap (prior es) (addStopOrder d b od)"
  by (simp add: addStopOrder_def Let_def framed cong: if_cong)

section \<open>Activation and trailing stop orders\<close>

lemma activate_front_prior [framed]:
  "activate_front d (prior es b) l = rmap (prior es) (activate_front d b l)"
  by (simp add: activate_front_def activateStopOrder_def Let_def framed cong: if_cong)

lemma activation_loop_prior_returns:
  assumes "activation_loop d s K x b a = Some y"
  shows "activation_loop d s K x (prior es b) a = Some (rmap (prior_fst es) y)"
proof (rule activation_loop.raw_induct [OF _ assms])
  fix loop d s K x b a y
  assume IH: "\<And>d s K x b a y. loop d s K x b a = Some y \<Longrightarrow>
      activation_loop d s K x (prior es b) a = Some (rmap (prior_fst es) y)"
    and step: "(case next_stop_level s K b of None \<Rightarrow> Some (Inr (b, a))
      | Some (p, l) \<Rightarrow>
          if triggered s x p
          then case activate_front d b l of Inl e \<Rightarrow> Some (Inl e) | Inr b' \<Rightarrow> loop d s K x b' True
          else Some (Inr (b, a))) = Some y"
  show "activation_loop d s K x (prior es b) a = Some (rmap (prior_fst es) y)"
    using step by (subst activation_loop.simps)
      (auto simp: framed IH split: option.splits if_splits sum.splits)
qed

lemma activation_loop_prior_ends:
  assumes "activation_loop d s K x b' a = Some y" and "b' = prior es b"
  shows "\<exists>z. activation_loop d s K x b a = Some z"
proof -
  have "\<forall>b. b' = prior es b \<longrightarrow> (\<exists>z. activation_loop d s K x b a = Some z)"
  proof (rule activation_loop.raw_induct [OF _ assms(1)], intro allI impI)
    fix loop d s K x b' and a :: bool and y :: "(MapOrderBook \<times> bool) res" and b
    assume IH: "\<And>d s K x b' a y. loop d s K x b' a = Some y \<Longrightarrow>
        \<forall>b. b' = prior es b \<longrightarrow> (\<exists>z. activation_loop d s K x b a = Some z)"
      and step: "(case next_stop_level s K b' of None \<Rightarrow> Some (Inr (b', a))
        | Some (p, l) \<Rightarrow>
            if triggered s x p
            then case activate_front d b' l of Inl e \<Rightarrow> Some (Inl e) | Inr b1 \<Rightarrow> loop d s K x b1 True
            else Some (Inr (b', a))) = Some y"
      and b': "b' = prior es b"
    have IH': "\<exists>z. activation_loop d s K x b1 a = Some z" if "loop d s K x (prior es b1) a = Some y"
      for b1 and a :: bool and y using IH [OF that] by simp
    show "\<exists>z. activation_loop d s K x b a = Some z"
      using step unfolding b' by (subst activation_loop.simps)
        (auto simp: framed split: option.splits if_splits sum.splits intro: IH')
  qed
  with assms(2) show ?thesis by simp
qed

lemma activation_loop_prior [framed]:
  "activation_loop d s K x (prior es b) a = map_option (rmap (prior_fst es)) (activation_loop d s K x b a)"
proof (cases "activation_loop d s K x b a")
  case None
  then show ?thesis
    using activation_loop_prior_ends [OF _ refl, of d s K x es b a]
    by (cases "activation_loop d s K x (prior es b) a") auto
next
  case (Some y)
  then show ?thesis using activation_loop_prior_returns by simp
qed

lemma activate_side_prior [framed]:
  "activateBidStopOrders d (prior es b) = rmap (prior_fst es) (activateBidStopOrders d b)"
  "activateAskStopOrders d (prior es b) = rmap (prior_fst es) (activateAskStopOrders d b)"
  by (simp_all add: activateBidStopOrders_def activateAskStopOrders_def framed case_prod_beta)

lemma move_front_prior [framed]: "move_front d s p (prior es b) = rmap (prior es) (move_front d s p b)"
  by (simp add: move_front_def Let_def framed)

lemma move_level_prior [framed]: "move_level d s p (prior es b) = rmap (prior es) (move_level d s p b)"
proof (induction d s p b rule: move_level.induct)
  case (1 d s p b)
  have "rbind (find_level b (trailing_map s, p)) (\<lambda>l. if Level_empty l then Inr (prior es b)
        else rbind (move_front d s p b) (\<lambda>b'. move_level d s p (prior es b')))
      = rbind (find_level b (trailing_map s, p)) (\<lambda>l. if Level_empty l then Inr (prior es b)
        else rbind (move_front d s p b) (\<lambda>b'. rmap (prior es) (move_level d s p b')))"
    using "1.IH" by (intro rbind_cong refl if_cong)
  then show ?case
    by (subst (1 2) move_level.simps) (simp add: framed cong: if_cong)
qed

lemma move_levels_prior [framed]:
  "move_levels d s ps (prior es b) = rmap (prior es) (move_levels d s ps b)"
  by (induction ps arbitrary: b) (simp_all add: framed)

lemma update_prior [framed]:
  "updateAskStopOrders d (prior es b) = rmap (prior es) (updateAskStopOrders d b)"
  "updateBidStopOrders d (prior es b) = rmap (prior es) (updateBidStopOrders d b)"
  by (simp_all add: updateAskStopOrders_def updateBidStopOrders_def Let_def framed)

lemma activation_round_prior [framed]:
  "activation_round d (prior es b) = rmap (prior_fst es) (activation_round d b)"
  by (simp add: activation_round_def framed case_prod_beta)

lemma activate_rounds_prior_returns:
  assumes "activate_rounds d b = Some y"
  shows "activate_rounds d (prior es b) = Some (rmap (prior es) y)"
proof (rule activate_rounds.raw_induct [OF _ assms])
  fix rounds d b y
  assume IH: "\<And>d b y. rounds d b = Some y \<Longrightarrow> activate_rounds d (prior es b) = Some (rmap (prior es) y)"
    and step: "(case activation_round d b of Inl e \<Rightarrow> Some (Inl e)
      | Inr (b', activate) \<Rightarrow> if activate then rounds d b' else Some (Inr b')) = Some y"
  show "activate_rounds d (prior es b) = Some (rmap (prior es) y)"
    using step by (subst activate_rounds.simps) (auto simp: framed IH split: sum.splits if_splits)
qed

lemma activate_rounds_prior_ends:
  assumes "activate_rounds d b' = Some y" and "b' = prior es b"
  shows "\<exists>z. activate_rounds d b = Some z"
proof -
  have "\<forall>b. b' = prior es b \<longrightarrow> (\<exists>z. activate_rounds d b = Some z)"
  proof (rule activate_rounds.raw_induct [OF _ assms(1)], intro allI impI)
    fix rounds d b' and y :: "MapOrderBook res" and b
    assume IH: "\<And>d b' y. rounds d b' = Some y \<Longrightarrow>
        \<forall>b. b' = prior es b \<longrightarrow> (\<exists>z. activate_rounds d b = Some z)"
      and step: "(case activation_round d b' of Inl e \<Rightarrow> Some (Inl e)
        | Inr (b1, activate) \<Rightarrow> if activate then rounds d b1 else Some (Inr b1)) = Some y"
      and b': "b' = prior es b"
    have IH': "\<exists>z. activate_rounds d b1 = Some z" if "rounds d (prior es b1) = Some y" for b1 y
      using IH [OF that] by simp
    show "\<exists>z. activate_rounds d b = Some z"
      using step unfolding b' by (subst activate_rounds.simps)
        (auto simp: framed split: sum.splits if_splits intro: IH')
  qed
  with assms(2) show ?thesis by simp
qed

lemma activate_rounds_prior [framed]:
  "activate_rounds d (prior es b) = map_option (rmap (prior es)) (activate_rounds d b)"
proof (cases "activate_rounds d b")
  case None
  then show ?thesis
    using activate_rounds_prior_ends [OF _ refl, of d es b]
    by (cases "activate_rounds d (prior es b)") auto
next
  case (Some y)
  then show ?thesis using activate_rounds_prior_returns by simp
qed

section \<open>The operations\<close>

lemma settle_prior [framed]: "settle d (prior es b) = rmap (prior es) (settle d b)"
  by (simp add: settle_def activateStopOrders_def framed)

lemma submit_prior [framed]: "submit d (prior es b) od = rmap (prior es) (submit d b od)"
  by (cases "otype od") (simp_all add: submit_def framed)

lemma addOrder_prior [framed]: "addOrder d (prior es b) od = rmap (prior es) (addOrder d b od)"
  by (simp add: addOrder_def framed)

lemma resting_prior [framed]:
  "execute_resting d (prior es b) i qty price_of = rmap (prior es) (execute_resting d b i qty price_of)"
  "cancel_resting d (prior es b) i qty = rmap (prior es) (cancel_resting d b i qty)"
  by (simp_all add: execute_resting_def cancel_resting_def Let_def framed cong: if_cong)

lemma perform_prior [framed]: "perform d (prior es b) r = rmap (prior es) (perform d b r)"
  by (cases r) (simp_all add: executeOrder_at_def executeOrder_def deleteOrder_def cancelOrder_def
      replaceOrder_def framed)

section \<open>Books without their events\<close>

text \<open>What a book is, apart from what it has reported.\<close>

definition silent :: "MapOrderBook \<Rightarrow> MapOrderBook" where
  "silent b = b\<lparr>events := []\<rparr>"

lemma silent_events [simp]: "silent (b\<lparr>events := es\<rparr>) = silent b" "silent (prior es b) = silent b"
  by (simp_all add: silent_def prior_def)

lemma silent_prior: "b\<lparr>events := es\<rparr> = prior es (silent b)"
  by (simp add: silent_def prior_def)

text \<open>
  The effect of a request on a book that starts from any events: the effect on the silent book, with
  the new events appended.
\<close>

lemma perform_silent: "perform d (b\<lparr>events := es\<rparr>) r = rmap (prior es) (perform d (silent b) r)"
  unfolding silent_prior by (rule perform_prior)

end
