(* ===== verification/Market_Sharding.thy ===== *)
theory Market_Sharding
  imports Event_Frame Market_Properties Concurrent_Properties "HOL-Library.Multiset" "HOL-Library.Sublist"
begin

text \<open>
  The concurrent market against the sequential one. Sharding the requests over handlers leaves every
  book as it would be in one \<open>Market\<close>, because a book does not read the events of its handler; together
  with the conformance of every run to the sharding, the concurrent market computes the sequential one.
\<close>

section \<open>Splitting a market over handlers\<close>

text \<open>
  The events of the handlers, each in their own order, are together those of the market.
\<close>

definition merged :: "OrderBookHandler list \<Rightarrow> Event list \<Rightarrow> bool" where
  "merged hs es \<longleftrightarrow> (\<forall>h \<in> set hs. subseq (handler_events h) es) \<and>
     mset es = sum_list (map (\<lambda>h. mset (handler_events h)) hs)"

text \<open>The book of a symbol in a handler, apart from what it has reported.\<close>

definition book_of :: "OrderBookHandler \<Rightarrow> u32 \<Rightarrow> MapOrderBook option" where
  "book_of h sid = map_option silent (find_book h sid)"

lemma book_of_None: "book_of h sid = None \<longleftrightarrow> find_book h sid = None"
  by (simp add: book_of_def)

text \<open>Each book of the market is in the handler of its shard and in no other.\<close>

definition splits :: "sharding \<Rightarrow> OrderBookHandler list \<Rightarrow> Market \<Rightarrow> bool" where
  "splits s hs m \<longleftrightarrow> next_shard s < length hs \<and> (\<forall>sid i. shard_of s sid = Some i \<longrightarrow> i < length hs) \<and>
     (\<forall>sid. hasSymbol m sid \<longleftrightarrow> shard_of s sid \<noteq> None) \<and>
     (\<forall>i < length hs. \<forall>sid. book_of (hs ! i) sid =
        (if shard_of s sid = Some i then book_of (orderbook_handler m) sid else None)) \<and>
     merged hs (market_events m)"

lemma sum_list_map_update:
  fixes f :: "'a \<Rightarrow> 'b multiset"
  shows "i < length xs \<Longrightarrow> f x = f (xs ! i) + e \<Longrightarrow> sum_list (map f (xs[i := x])) = sum_list (map f xs) + e"
  by (induction xs arbitrary: i) (auto split: nat.split)

lemma merged_report:
  assumes "merged hs es" and "i < length hs" and "handler_events h = handler_events (hs ! i) @ es'"
  shows "merged (hs[i := h]) (es @ es')"
proof -
  have "subseq (handler_events g) (es @ es')" if "g \<in> set (hs[i := h])" for g
  proof -
    from that have "g = h \<or> g \<in> set hs" using set_update_subset_insert [of hs i h] by auto
    then show ?thesis
      using assms by (auto simp: merged_def intro: list_emb_append_mono list_emb_append2)
  qed
  then show ?thesis
    using assms sum_list_map_update [of i hs "\<lambda>h. mset (handler_events h)" h "mset es'"]
    by (auto simp: merged_def)
qed

section \<open>One request\<close>

lemma handler_perform_book:
  assumes "arguments_ok sid r" and "find_book h sid = Some b"
  shows "handler_perform d h sid r = rbind (perform d (b\<lparr>events := handler_events h\<rparr>) r) (\<lambda>b'.
    Inr (h\<lparr>id_to_book := hm_store sid b' (id_to_book h), handler_events := events b'\<rparr>))"
  using assms
  by (cases r) (auto simp: handler_addOrder_def handler_executeOrder_at_def handler_executeOrder_def
      handler_deleteOrder_def handler_cancelOrder_def handler_replaceOrder_def on_book_def getSymbolID_def)

lemma arguments_ok_symbol: "arguments_ok sid r \<Longrightarrow> request_symbol sid r = sid"
  by (cases r) simp_all

text \<open>The handler of the shard does to its copy of a book what the market does to its own.\<close>

lemma split_book_request:
  assumes sp: "splits s hs m" and inv: "market_inv d m" and p: "market_permitted d m (BookRequest sid r)"
    and m': "market_perform d m (BookRequest sid r) = Inr m'"
  obtains i h where "shard_of s sid = Some i" and "handler_perform d (hs ! i) sid r = Inr h"
    and "splits s (hs[i := h]) m'"
proof -
  obtain b where b: "market_book m sid = Some b" "arguments_ok sid r" "permitted d b r"
    using p by (auto split: option.splits)
  then have "hasSymbol m sid" using inv by (auto simp: market_inv_def)
  then obtain i where i: "shard_of s sid = Some i" "i < length hs" using sp by (auto simp: splits_def)
  let ?g = "hs ! i"
  have "book_of ?g sid = Some (silent b)"
    using sp i b(1) by (simp add: splits_def market_book_def book_of_def)
  then obtain c where c: "find_book ?g sid = Some c" "silent c = silent b" by (auto simp: book_of_def)
  obtain b' where b': "perform d (silent b) r = Inr b'"
    and m'_eq: "m' = m\<lparr>orderbook_handler := (orderbook_handler m)
      \<lparr>id_to_book := hm_store sid (prior (market_events m) b') (id_to_book (orderbook_handler m)),
       handler_events := market_events m @ events b'\<rparr>\<rparr>"
    using m' by (auto simp: market_perform_book [OF b(2,1)] perform_silent rmap_def)
  let ?h = "?g\<lparr>id_to_book := hm_store sid (prior (handler_events ?g) b') (id_to_book ?g),
       handler_events := handler_events ?g @ events b'\<rparr>"
  have h: "handler_perform d ?g sid r = Inr ?h"
    using b' by (simp add: handler_perform_book [OF b(2) c(1)] perform_silent c(2))
  have mb: "book_of (orderbook_handler m') t = (if t = sid then Some (silent b') else book_of (orderbook_handler m) t)"
    for t using b(1) by (auto simp: m'_eq market_book_def book_of_def find_book_def hm.find_store)
  have hb: "book_of ?h t = (if t = sid then Some (silent b') else book_of ?g t)"
    for t using c(1) by (auto simp: book_of_def find_book_def hm.find_store)
  have "market_events m' = market_events m @ events b'" "hasSymbol m' = hasSymbol m"
    by (simp_all add: m'_eq market_events_def hasSymbol_def fun_eq_iff)
  moreover have "merged (hs[i := ?h]) (market_events m @ events b')"
    using sp i(2) by (intro merged_report) (auto simp: splits_def)
  ultimately have "splits s (hs[i := ?h]) m'"
    using sp i unfolding splits_def by (auto simp: nth_list_update mb hb)
  with i(1) h show ?thesis by (rule that)
qed

lemma split_add_symbol:
  assumes sp: "splits s hs m" and inv: "market_inv d m" and n: "\<not> hasSymbol m sid"
    and m': "addSymbol d m sid name = Inr m'"
  obtains h where "addOrderBook d (hs ! next_shard s) sid name = Inr h"
    and "splits (s\<lparr>next_shard := Suc (next_shard s) mod length hs, shard_of := (shard_of s)(sid \<mapsto> next_shard s)\<rparr>)
      (hs[next_shard s := h]) m'"
proof -
  obtain m2 where m2: "addSymbol d m sid name = Inr m2" "market_book m2 sid = Some (newMapOrderBook sid)"
      "\<forall>t. t \<noteq> sid \<longrightarrow> market_book m2 t = market_book m t"
      "market_events m2 = market_events m @ [SymbolAdded sid name]"
      "\<forall>t. hasSymbol m2 t \<longleftrightarrow> t = sid \<or> hasSymbol m t"
    using inv n by (rule add_symbol_ok)
  have "m2 = m'" using m2(1) m' by simp
  note m2 = m2 [unfolded this]
  let ?i = "next_shard s" and ?g = "hs ! next_shard s"
  let ?h = "notify (SymbolAdded sid name) (?g\<lparr>id_to_book := hm_emplace sid (newMapOrderBook sid) (id_to_book ?g)\<rparr>)"
  have i: "?i < length hs" and none: "shard_of s sid = None" using sp n by (auto simp: splits_def)
  have free: "book_of (hs ! j) sid = None" if "j < length hs" for j
    using sp none that by (simp add: splits_def)
  have h: "addOrderBook d ?g sid name = Inr ?h" using free [OF i] by (simp add: addOrderBook_def book_of_None)
  have hb: "book_of ?h t = (if t = sid then Some (silent (newMapOrderBook sid)) else book_of ?g t)" for t
    using free [OF i] by (simp add: book_of_def find_book_def notify_def hm.find_emplace)
  have mb: "book_of (orderbook_handler m') t = (if t = sid then Some (silent (newMapOrderBook sid))
      else book_of (orderbook_handler m) t)" for t
    using m2(2,3) by (auto simp: book_of_def market_book_def)
  have "merged (hs[?i := ?h]) (market_events m @ [SymbolAdded sid name])"
    using sp i by (intro merged_report) (auto simp: splits_def notify_def)
  moreover have "Suc ?i mod length hs < length hs" using i by (intro mod_less_divisor) auto
  ultimately have "splits (s\<lparr>next_shard := Suc ?i mod length hs, shard_of := (shard_of s)(sid \<mapsto> ?i)\<rparr>)
      (hs[?i := ?h]) m'"
    using sp i m2(4,5) none free unfolding splits_def by (auto simp: nth_list_update hb mb)
  with h show ?thesis by (rule that)
qed

section \<open>All requests\<close>

lemma market_performs_snoc:
  "market_performs d m (rs @ [r]) = rbind (market_performs d m rs) (\<lambda>m'. market_perform d m' r)"
proof (induction rs arbitrary: m)
  case (Cons q rs)
  then show ?case by (cases "market_perform d m q") simp_all
qed simp

lemma market_all_permitted_snoc:
  "market_all_permitted d m (rs @ [r]) \<longleftrightarrow> market_all_permitted d m rs \<and>
    (\<forall>m'. market_performs d m rs = Inr m' \<longrightarrow> market_permitted d m' r \<and> (\<exists>m''. market_perform d m' r = Inr m''))"
proof (induction rs arbitrary: m)
  case (Cons q rs)
  then show ?case by (cases "market_perform d m q") simp_all
qed (auto split: sum.splits)

text \<open>The handlers of a sharding, each after its calls in sequence, split the market.\<close>

definition sharded :: "build \<Rightarrow> nat \<Rightarrow> sharding \<Rightarrow> Market \<Rightarrow> bool" where
  "sharded d n s m \<longleftrightarrow> (\<exists>hs. length hs = n \<and> splits s hs m \<and>
     (\<forall>i < n. sequential d (assigned s i) = Inr (hs ! i)))"

lemma sharded_new:
  assumes "0 < n"
  shows "sharded d n no_shards newMarket"
proof -
  have "merged (replicate n newOrderBookHandler) []"
    by (induction n) (simp_all add: merged_def newOrderBookHandler_def)
  with assms show ?thesis
    unfolding sharded_def
    by (intro exI [of _ "replicate n newOrderBookHandler"])
      (simp add: splits_def no_shards_def sequential_def newMarket_def hasSymbol_def market_events_def
        newOrderBookHandler_def book_of_def find_book_def)
qed

lemma splits_assign_call [simp]: "splits (assign_call i c s) hs m = splits s hs m"
  by (simp add: splits_def assign_call_def)

lemma sharded_step:
  assumes sh: "sharded d n s m" and inv: "market_inv d m" and nd: "\<not> is_deletion r"
    and p: "market_permitted d m r" and m': "market_perform d m r = Inr m'"
  shows "sharded d n (assign n r s) m'"
proof -
  obtain hs where hs: "length hs = n" "splits s hs m" "\<forall>i < n. sequential d (assigned s i) = Inr (hs ! i)"
    using sh by (auto simp: sharded_def)
  show ?thesis
  proof (cases r)
    case (AddSymbol sid name)
    have free: "\<not> hasSymbol m sid" using p AddSymbol by simp
    obtain h where h: "addOrderBook d (hs ! next_shard s) sid name = Inr h"
        "splits (s\<lparr>next_shard := Suc (next_shard s) mod length hs, shard_of := (shard_of s)(sid \<mapsto> next_shard s)\<rparr>)
          (hs[next_shard s := h]) m'"
      using split_add_symbol [OF hs(2) inv free] m' AddSymbol by auto
    have "shard_of s sid = None" using free hs(2) by (simp add: splits_def)
    then show ?thesis
      unfolding sharded_def AddSymbol using h hs(1,3)
      by (intro exI [of _ "hs[next_shard s := h]"])
        (auto simp: Let_def nth_list_update assign_call_def splits_def)
  next
    case (DeleteSymbol sid)
    with nd show ?thesis by simp
  next
    case (BookRequest sid q)
    obtain i h where h: "shard_of s sid = Some i" "handler_perform d (hs ! i) sid q = Inr h"
        "splits s (hs[i := h]) m'"
      using split_book_request [OF hs(2) inv] p m' unfolding BookRequest by blast
    have "request_symbol sid q = sid" using p BookRequest by (simp add: arguments_ok_symbol)
    then have "assign n r s = assign_call i (CallBook sid q) s"
      using h(1) by (simp add: BookRequest Let_def home_shard_def)
    then show ?thesis
      unfolding sharded_def using h hs(1,3)
      by (intro exI [of _ "hs[i := h]"]) (auto simp: nth_list_update assign_call_def splits_def)
  qed
qed

lemma sharded_performs:
  assumes "market_all_permitted d newMarket rs" and "list_all (\<lambda>r. \<not> is_deletion r) rs" and "0 < n"
  shows "\<exists>m. market_performs d newMarket rs = Inr m \<and> market_inv d m \<and> sharded d n (shard n rs) m"
  using assms
proof (induction rs rule: rev_induct)
  case Nil
  then show ?case by (simp add: market_inv_new shard_def sharded_new)
next
  case (snoc r rs)
  then obtain m where m: "market_performs d newMarket rs = Inr m" "market_inv d m" "sharded d n (shard n rs) m"
    by (auto simp: market_all_permitted_snoc)
  then have p: "market_permitted d m r" using snoc.prems(1) by (simp add: market_all_permitted_snoc)
  obtain m' where m': "market_perform d m r = Inr m'" "market_inv d m'"
    using market_perform_ok [OF m(2) p] by blast
  then show ?case
    using sharded_step [OF m(3,2) _ p] snoc.prems(2) m(1) by (simp add: market_performs_snoc)
qed

section \<open>The concurrent market\<close>

text \<open>
  A concurrent market holds what a market holds: under the submission index of each symbol its book,
  in no other handler a book of that symbol, and the events of the handlers merge into the market's.
\<close>

definition same_market :: "ConcurrentMarket \<Rightarrow> Market \<Rightarrow> bool" where
  "same_market cm m \<longleftrightarrow>
     (\<forall>i < length (orderbook_handlers cm). \<forall>sid. book_of (orderbook_handlers cm ! i) sid =
        (if i = unat (getSubmissionIndex cm sid) then book_of (orderbook_handler m) sid else None)) \<and>
     merged (orderbook_handlers cm) (market_events m)"

lemma sharded_same_market:
  assumes c: "conforms d n s ex cm" and sh: "sharded d n s m" and inv: "market_inv d m" and r: "all_returned cm"
  shows "same_market cm m"
proof -
  obtain hs where hs: "length hs = n" "splits s hs m" "\<forall>i < n. sequential d (assigned s i) = Inr (hs ! i)"
    using sh by (auto simp: sharded_def)
  have "sequential d (assigned s i) = Inr (orderbook_handlers cm ! i)" if "i < n" for i
    using c r that by (simp add: conforms_def all_returned_def list_all_length)
  then have eq: "orderbook_handlers cm = hs"
    using hs(1,3) c by (intro nth_equalityI) (auto simp: conforms_def)
  have none: "book_of (orderbook_handler m) sid = None" if "shard_of s sid = None" for sid
  proof -
    have "\<not> hasSymbol m sid" using that hs(2) by (simp add: splits_def)
    then have "market_book m sid = None" using inv by (simp add: market_inv_def)
    then show ?thesis by (simp add: book_of_def market_book_def)
  qed
  have "book_of (hs ! i) sid = (if i = home_shard s sid then book_of (orderbook_handler m) sid else None)"
    if "i < n" for i sid
    using that hs(1,2) none [of sid] by (auto simp: splits_def home_shard_def split: option.split)
  moreover have "merged hs (market_events m)" using hs(2) by (simp add: splits_def)
  ultimately show ?thesis
    using hs(1) unfolding same_market_def eq getSubmissionIndex_shard [OF c] by blast
qed

lemma complete_run_same_market:
  assumes run: "runs d n tr cm" and n: "0 < n" and del: "deletion_free tr" and r: "all_returned cm"
    and p: "market_all_permitted d newMarket (requests_of tr)" and m: "market_performs d newMarket (requests_of tr) = Inr m"
  shows "same_market cm m"
proof -
  let ?s = "shard (unat n) (requests_of tr)"
  have "0 < unat n" using n by (simp add: word_less_nat_alt)
  then obtain m' where m': "market_performs d newMarket (requests_of tr) = Inr m'" "market_inv d m'"
      "sharded d (unat n) ?s m'"
    using sharded_performs [OF p] del by (auto simp: deletion_free_def)
  have "conforms d (unat n) ?s (\<lambda>i. executed i tr) cm" using run n del by (rule runs_conforms)
  then show ?thesis using m m' r by (intro sharded_same_market) auto
qed

section \<open>Property\<close>

text \<open>
  C23. The concurrent market is a market. Let the requests of a client delete no symbol and each be
  one that the sequential \<open>Market\<close> would permit when its turn comes. Once the destructor has begun, the
  workers can always finish, and however they finish, every symbol ends with the book that the
  sequential market gives it, in the handler under its index and in no other, and the events of the
  handlers, each in its own order, are together those of the sequential market.
\<close>

theorem concurrent_market_is_market:
  assumes "runs d n tr cm" and "0 < n" and "deletion_free tr" and "\<not> running (thread_pool cm)"
    and "market_all_permitted d newMarket (requests_of tr)"
  shows "\<exists>m. market_performs d newMarket (requests_of tr) = Inr m \<and>
    (\<exists>tr' cm'. runs d n (tr @ tr') cm' \<and> requests_of tr' = [] \<and> all_returned cm') \<and>
    (\<forall>tr' cm'. runs d n (tr @ tr') cm' \<and> requests_of tr' = [] \<and> all_returned cm' \<longrightarrow> same_market cm' m)"
proof -
  let ?s = "shard (unat n) (requests_of tr)"
  have "0 < unat n" using assms(2) by (simp add: word_less_nat_alt)
  then obtain m where m: "market_performs d newMarket (requests_of tr) = Inr m" "sharded d (unat n) ?s m"
    using sharded_performs [OF assms(5)] assms(3) by (auto simp: deletion_free_def)
  have "\<forall>i < unat n. \<exists>h. sequential d (assigned ?s i) = Inr h" using m(2) by (auto simp: sharded_def)
  with assms(1-4) have fin: "\<exists>tr' cm'. runs d n (tr @ tr') cm' \<and> requests_of tr' = [] \<and> all_returned cm'"
    by (rule shutdown)
  have "same_market cm' m" if r: "runs d n (tr @ tr') cm'" "requests_of tr' = []" "all_returned cm'" for tr' cm'
    using complete_run_same_market [OF r(1) assms(2) _ r(3)] assms(3,5) m(1) r(2) by (simp add: deletion_free_def)
  with m(1) fin show ?thesis by blast
qed

theorem concurrent_market_is_market_witness:
  "\<exists>m tr' cm'. market_performs Debug newMarket (requests_of sample_calls) = Inr m \<and>
    runs Debug 2 (sample_calls @ tr') cm' \<and> same_market cm' m"
proof -
  obtain cm where "played Debug 2 sample_calls = Some cm" and n: "\<not> running (thread_pool cm)"
    by (rule sample_played)
  then have r: "runs Debug 2 sample_calls cm" by (intro played_runs)
  have p: "market_all_permitted Debug newMarket (requests_of sample_calls)" by code_simp
  have "(0 :: 8 word) < 2" by simp
  from concurrent_market_is_market [OF r this sample_deletion_free(2) n p] show ?thesis by blast
qed

end
