(* ===== verification/Event_Feed.thy ===== *)
theory Event_Feed
  imports Event_Frame Update_Proofs
begin

text \<open>
  The events as a feed: a listener that only sees the events of a book can rebuild its orders. The
  listener is defined, and every step of the book is shown to keep it in step with the orders that
  the book holds, in every build and on every book, by what a successful call has done.
\<close>

section \<open>A listener\<close>

text \<open>
  The orders a listener knows: an event replaces its order, a deletion removes it, and a symbol starts
  and ends without orders.
\<close>

definition tracking_handler :: "(u64 \<Rightarrow> Order option) EventHandler" where
  "tracking_handler = \<lparr>handleOrderAdded = (\<lambda>od m. m(oid od \<mapsto> od)),
     handleOrderDeleted = (\<lambda>od m. m(oid od := None)),
     handleOrderUpdated = (\<lambda>od m. m(oid od \<mapsto> od)),
     handleOrderExecuted = (\<lambda>od m. m(oid od \<mapsto> od)),
     handleSymbolAdded = (\<lambda>sid name m i. None),
     handleSymbolDeleted = (\<lambda>sid name m i. None)\<rparr>"

abbreviation hear :: "Event \<Rightarrow> (u64 \<Rightarrow> Order option) \<Rightarrow> (u64 \<Rightarrow> Order option)" where
  "hear \<equiv> handle tracking_handler"

lemma hear_simps [simp]:
  "hear (OrderAdded od) m = m(oid od \<mapsto> od)"
  "hear (ExecutedOrder od) m = m(oid od \<mapsto> od)"
  "hear (OrderUpdated od) m = m(oid od \<mapsto> od)"
  "hear (OrderDeleted od) m = m(oid od := None)"
  "hear (SymbolAdded sid name) m = (\<lambda>i. None)"
  "hear (SymbolDeleted sid name) m = (\<lambda>i. None)"
  by (simp_all add: tracking_handler_def handle.simps)

definition listen :: "Event list \<Rightarrow> (u64 \<Rightarrow> Order option)" where
  "listen es = fold hear es (\<lambda>i. None)"

lemma listen_snoc [simp]: "listen (es @ [e]) = hear e (listen es)"
  by (simp add: listen_def)

text \<open>
  The stop price of a trailing stop order is computed after the order was reported, and is reported
  only once it moves; it is left out of the comparison.
\<close>

definition reported :: "Order \<Rightarrow> Order" where
  "reported od = (if trailing_kind (otype od) then od\<lparr>stop_price := 0\<rparr> else od)"

lemma oid_reported [simp]: "oid (reported od) = oid od"
  by (simp add: reported_def)

fun event_symbol :: "Event \<Rightarrow> u32" where
  "event_symbol (OrderAdded od) = symbol_id od"
| "event_symbol (ExecutedOrder od) = symbol_id od"
| "event_symbol (OrderUpdated od) = symbol_id od"
| "event_symbol (OrderDeleted od) = symbol_id od"
| "event_symbol (SymbolAdded sid name) = sid"
| "event_symbol (SymbolDeleted sid name) = sid"

text \<open>What a listener knows of a book, and what the book holds.\<close>

definition heard :: "MapOrderBook \<Rightarrow> u64 \<Rightarrow> Order option" where
  "heard b = (\<lambda>i. map_option reported (listen (events b) i))"

definition held :: "MapOrderBook \<Rightarrow> u64 \<Rightarrow> Order option" where
  "held b = (\<lambda>i. map_option (\<lambda>w. reported (w_order w)) (order_view b i))"

text \<open>
  Between two steps the listener knows what the book holds, except for the orders \<open>X\<close> that are under
  way: they are not in the book.
\<close>

definition in_step :: "u32 \<Rightarrow> u64 set \<Rightarrow> MapOrderBook \<Rightarrow> bool" where
  "in_step s X b \<longleftrightarrow> book_symbol_id b = s \<and>
     (\<forall>i w. order_view b i = Some w \<longrightarrow> oid (w_order w) = i \<and> symbol_id (w_order w) = s) \<and>
     (\<forall>e \<in> set (events b). event_symbol e = s) \<and>
     (\<forall>i. i \<notin> X \<longrightarrow> heard b i = held b i) \<and> (\<forall>i \<in> X. order_view b i = None)"

lemma heard_emit [simp]:
  "heard (emit (OrderAdded od) b) = (heard b)(oid od \<mapsto> reported od)"
  "heard (emit (ExecutedOrder od) b) = (heard b)(oid od \<mapsto> reported od)"
  "heard (emit (OrderUpdated od) b) = (heard b)(oid od \<mapsto> reported od)"
  "heard (emit (OrderDeleted od) b) = (heard b)(oid od := None)"
  by (simp_all add: heard_def fun_eq_iff)

lemma heard_cong: "events b' = events b \<Longrightarrow> heard b' = heard b"
  by (simp add: heard_def)

lemma in_step_cong:
  assumes "in_step s X b" and "order_view b' = order_view b" and "events b' = events b"
    and "book_symbol_id b' = book_symbol_id b"
  shows "in_step s X b'"
  using assms by (simp add: in_step_def heard_def held_def)

lemma in_step_order:
  assumes "in_step s X b" and "order_view b i = Some w"
  shows "oid (w_order w) = i" and "symbol_id (w_order w) = s" and "i \<notin> X"
  using assms by (auto simp: in_step_def)

text \<open>An event about an order that is under way, and an order that is reported as it is stored.\<close>

lemma in_step_emit:
  assumes "in_step s X b" and "event_symbol e = s"
    and "\<And>i. i \<notin> X \<Longrightarrow> heard (emit e b) i = heard b i"
  shows "in_step s X (emit e b)"
  using assms by (auto simp: in_step_def held_def)

lemma in_step_stored:
  assumes st: "in_step s X b" and i: "i \<notin> X" and od: "oid od = i" "symbol_id od = s"
    and view: "order_view b' = (order_view b)(i \<mapsto> w)" "w_order w = od"
    and heard: "\<And>j. j \<notin> X \<Longrightarrow> heard b' j = (if j = i then Some (reported od) else heard b j)"
    and rest: "book_symbol_id b' = book_symbol_id b" "\<forall>e \<in> set (events b'). event_symbol e = s"
  shows "in_step s X b'"
  using assms by (auto simp: in_step_def held_def)

section \<open>Deleting and inserting\<close>

lemma erase_empty_level_frame:
  "erase_empty_level d od it b = Inr b' \<Longrightarrow> order_view b' = order_view b \<and> events b' = events b \<and>
    book_symbol_id b' = book_symbol_id b"
  by (auto simp: erase_empty_level_def split: option.splits)

lemma deleteOrder_notify_done:
  assumes "deleteOrder_notify d b i n = Inr b'"
  obtains w where "order_view b i = Some w" and "order_view b' = (order_view b)(i := None)"
    and "events b' = (if n then events b @ [OrderDeleted (w_order w)] else events b)"
    and "book_symbol_id b' = book_symbol_id b"
proof -
  from assms obtain w l l' b3 where w: "hm_find i (orders b) = Some w"
    and b3: "(if Level_empty l' then erase_empty_level d (w_order w) (level_it w)
        (store_level (level_it w) l' (if n then emit (OrderDeleted (w_order w)) b else b))
      else Inr (store_level (level_it w) l' (if n then emit (OrderDeleted (w_order w)) b else b))) = Inr b3"
    and b': "b' = b3\<lparr>orders := hm_erase i (orders b3)\<rparr>"
    by (auto simp: deleteOrder_notify_def Let_def)
  have "order_view b3 = order_view b"
      "events b3 = (if n then events b @ [OrderDeleted (w_order w)] else events b)"
      "book_symbol_id b3 = book_symbol_id b"
    using b3 by (auto split: if_splits dest!: erase_empty_level_frame)
  then show ?thesis
    using that [of w] w b' by (auto simp: find_order_view)
qed

lemma deleteOrder_notify_feed:
  assumes st: "in_step s X b" and del: "deleteOrder_notify d b i True = Inr b'"
  shows "in_step s X b'" and "order_view b' = (order_view b)(i := None)"
proof -
  from del obtain w where w: "order_view b i = Some w" "order_view b' = (order_view b)(i := None)"
      "events b' = events b @ [OrderDeleted (w_order w)]" "book_symbol_id b' = book_symbol_id b"
    by (rule deleteOrder_notify_done) simp
  have "heard b' = (heard b)(i := None)"
    using w(3) in_step_order(1) [OF st w(1)] by (simp add: heard_def fun_eq_iff)
  then show "in_step s X b'"
    using st w in_step_order [OF st w(1)] by (auto simp: in_step_def held_def)
  show "order_view b' = (order_view b)(i := None)" by (rule w(2))
qed

text \<open>Taken out without an event, an order is under way.\<close>

lemma deleteOrder_silent_feed:
  assumes st: "in_step s {} b" and del: "deleteOrder_notify d b i False = Inr b'"
  shows "in_step s {i} b'" and "heard b' = heard b"
proof -
  from del obtain w where w: "order_view b i = Some w" "order_view b' = (order_view b)(i := None)"
      "events b' = events b" "book_symbol_id b' = book_symbol_id b"
    by (rule deleteOrder_notify_done) simp
  show h: "heard b' = heard b" using w(3) by (rule heard_cong)
  show "in_step s {i} b'" using st w h by (auto simp: in_step_def held_def)
qed

lemma insert_at_done:
  assumes "insert_at d K p ls od b = Inr b'"
  shows "order_view b' = (order_view b)(oid od \<mapsto> \<lparr>w_order = od, level_it = (K, p)\<rparr>)"
    and "events b' = events b" and "book_symbol_id b' = book_symbol_id b"
  using assms
  by (auto simp: insert_at_def Let_def hasOrder_def order_view_def hm.find_emplace fun_eq_iff)

lemma in_step_inserted:
  assumes st: "in_step s {oid od} b" and h: "heard b (oid od) = Some (reported od)"
    and sym: "symbol_id od = s" and ins: "insert_at d K p ls od b = Inr b'"
  shows "in_step s {} b'"
  using st h sym insert_at_done [OF ins] heard_cong [of b' b]
  by (auto simp: in_step_def held_def)

lemma insert_feed:
  assumes "in_step s {oid od} b" and "heard b (oid od) = Some (reported od)" and "symbol_id od = s"
  shows "insertLimitOrder d b od = Inr b' \<Longrightarrow> in_step s {} b'"
    and "insertStopOrder d b od = Inr b' \<Longrightarrow> in_step s {} b'"
    and "insertTrailingStopOrder d b od = Inr b' \<Longrightarrow> in_step s {} b'"
  using in_step_inserted [OF assms]
  by (auto simp: insertLimitOrder_def insertStopOrder_def insertTrailingStopOrder_def split: if_splits)

lemma dropped_feed:
  assumes "in_step s {oid od} b" and "symbol_id od = s"
  shows "in_step s {} (emit (OrderDeleted od) b)"
  using assms by (auto simp: in_step_def held_def)

section \<open>Matching\<close>

lemma setter_done:
  "execute d q x od = Inr od' \<Longrightarrow> oid od' = oid od \<and> symbol_id od' = symbol_id od \<and> otype od' = otype od"
  "setPrice d p od = Inr od' \<Longrightarrow> oid od' = oid od \<and> symbol_id od' = symbol_id od \<and> otype od' = otype od"
  "setQuantity d p od = Inr od' \<Longrightarrow> oid od' = oid od \<and> symbol_id od' = symbol_id od \<and> otype od' = otype od"
  "setTrailAmount d p od = Inr od' \<Longrightarrow> oid od' = oid od \<and> symbol_id od' = symbol_id od \<and> otype od' = otype od"
  "setType d t od = Inr od' \<Longrightarrow> oid od' = oid od \<and> symbol_id od' = symbol_id od \<and> otype od' = t"
  "setStopPrice d p od = Inr od' \<Longrightarrow> od' = od\<lparr>stop_price := p\<rparr>"
  by (auto simp: order_op_defs Let_def)

text \<open>What a step of the matching keeps, for an incoming order that is under way.\<close>

definition incoming_feed :: "u32 \<Rightarrow> MapOrderBook \<Rightarrow> Order \<Rightarrow> MapOrderBook \<Rightarrow> Order \<Rightarrow> bool" where
  "incoming_feed s b od b' od' \<longleftrightarrow> oid od' = oid od \<and> symbol_id od' = symbol_id od \<and>
     (in_step s {oid od} b \<longrightarrow> symbol_id od = s \<longrightarrow> in_step s {oid od} b' \<and>
       (heard b (oid od) = Some (reported od) \<longrightarrow> heard b' (oid od) = Some (reported od')))"

lemma incoming_feed_refl: "incoming_feed s b od b od"
  by (simp add: incoming_feed_def)

lemma incoming_feed_trans:
  "incoming_feed s b od b1 od1 \<Longrightarrow> incoming_feed s b1 od1 b2 od2 \<Longrightarrow> incoming_feed s b od b2 od2"
  by (auto simp: incoming_feed_def)

lemma execute_incoming_done:
  assumes "execute_incoming d b od r p = Inr (b', od', r')"
  shows "oid od' = oid od" and "symbol_id od' = symbol_id od" and "oid r' = oid r"
    and "symbol_id r' = symbol_id r" and "order_view b' = order_view b" and "book_symbol_id b' = book_symbol_id b"
    and "events b' = events b @ (if isAsk od then [ExecutedOrder r', ExecutedOrder od']
      else [ExecutedOrder od', ExecutedOrder r'])"
  using assms
  by (auto simp: execute_incoming_def executeOrders_def Let_def dest!: setter_done(1) split: if_splits)

lemma match_step_feed:
  assumes "match_step d b od lev = Inr (b', od')"
  shows "incoming_feed s b od b' od'"
proof -
  from assms obtain i w b1 r l' where w: "hm_find i (orders b) = Some w"
    and ex: "execute_incoming d b od (w_order w) (price (w_order w)) = Inr (b1, od', r)"
    and b': "(if isFilled r
       then deleteOrder_notify d (store_level (opposite_map od, fst lev) l' (store_order i r b1))
              (oid r) True
       else Inr (store_level (opposite_map od, fst lev) l' (store_order i r b1))) = Inr b'"
    unfolding match_step_eq_Inr by blast
  let ?b = "store_level (opposite_map od, fst lev) l' (store_order i r b1)"
  note e = execute_incoming_done [OF ex]
  have w': "order_view b i = Some w" using w by (simp add: find_order_view)
  show ?thesis
    unfolding incoming_feed_def
  proof (intro conjI impI)
    show "oid od' = oid od" "symbol_id od' = symbol_id od" using e by simp_all
    assume st: "in_step s {oid od} b" and sym: "symbol_id od = s"
    note o = in_step_order [OF st w']
    have ne: "i \<noteq> oid od" using o(3) by simp
    have view: "order_view ?b = (order_view b)(i \<mapsto> w\<lparr>w_order := r\<rparr>)"
      using order_view_store_order [of b1 i w r] w' e(5) by simp
    have ev: "events ?b = events b @ (if isAsk od then [ExecutedOrder r, ExecutedOrder od']
        else [ExecutedOrder od', ExecutedOrder r])" using e(7) by simp
    have h: "heard ?b = (heard b)(i \<mapsto> reported r, oid od \<mapsto> reported od')"
      using ev e(1,3) o(1) ne by (auto simp: heard_def listen_def fun_eq_iff)
    have "\<forall>e \<in> set (events ?b). event_symbol e = s"
      using st ev e(2,4) o(2) sym by (auto simp: in_step_def split: if_splits)
    then have st': "in_step s {oid od} ?b"
      using in_step_stored [OF st, of i r ?b "w\<lparr>w_order := r\<rparr>"] view h ne e(3,4,6) o by simp
    have fin: "order_view b' (oid od) = None \<and> in_step s {oid od} b' \<and> heard b' (oid od) = Some (reported od')"
    proof (cases "isFilled r")
      case True
      then have del: "deleteOrder_notify d ?b (oid r) True = Inr b'" using b' by simp
      from del obtain v where v: "order_view ?b (oid r) = Some v" "events b' = events ?b @ [OrderDeleted (w_order v)]"
        by (rule deleteOrder_notify_done) simp
      have "heard b' = (heard ?b)(oid r := None)"
        using v(2) in_step_order(1) [OF st' v(1)] by (simp add: heard_def fun_eq_iff)
      then show ?thesis
        using deleteOrder_notify_feed [OF st' del] h e(3) o(1) ne by (auto simp: in_step_def)
    next
      case False
      then show ?thesis using b' st' h by (auto simp: in_step_def)
    qed
    then show "in_step s {oid od} b'" "heard b' (oid od) = Some (reported od')" by auto
  qed
qed

lemma match_loop_feed: "match_loop d b od = Inr (b', od') \<Longrightarrow> incoming_feed s b od b' od'"
proof (induction d b od rule: match_loop.induct)
  case (1 d b od)
  show ?case
  proof (cases "\<exists>lev. best_opposite b od = Some lev \<and> crosses od (fst lev) \<and> \<not> isFilled od")
    case False
    then have "b' = b \<and> od' = od"
      using "1.prems" by (subst (asm) match_loop.simps) (auto split: option.splits if_splits)
    then show ?thesis by (simp add: incoming_feed_refl)
  next
    case True
    then obtain lev where lev: "best_opposite b od = Some lev" "crosses od (fst lev) \<and> \<not> isFilled od" by blast
    then obtain r where r: "match_step d b od lev = Inr r" "match_loop d (fst r) (snd r) = Inr (b', od')"
      using "1.prems" by (subst (asm) match_loop.simps) auto
    then show ?thesis
      using "1.IH" [OF lev r] match_step_feed [of d b od lev "fst r" "snd r"] by (auto intro: incoming_feed_trans)
  qed
qed

lemma match_feed: "match d b od = Inr (b', od') \<Longrightarrow> incoming_feed s b od b' od'"
  by (auto simp: match_def match_loop_feed incoming_feed_refl split: if_splits)

section \<open>Adding orders\<close>

lemma addLimitOrder_feed:
  assumes st: "in_step s {oid od} b" and h: "heard b (oid od) = Some (reported od)" and sym: "symbol_id od = s"
    and add: "addLimitOrder d b od = Inr b'"
  shows "in_step s {} b'"
proof -
  obtain b1 od1 where m: "match d b od = Inr (b1, od1)"
      "(if \<not> isFilled od1 \<and> \<not> isIoc od1 \<and> \<not> isFok od1 then insertLimitOrder d b1 od1
        else Inr (emit (OrderDeleted od1) b1)) = Inr b'"
    using add by (auto simp: addLimitOrder_def)
  have f: "oid od1 = oid od" "symbol_id od1 = s" "in_step s {oid od1} b1" "heard b1 (oid od1) = Some (reported od1)"
    using match_feed [OF m(1), of s] st h sym by (auto simp: incoming_feed_def)
  show ?thesis
    using m(2) insert_feed(1) [OF f(3,4,2)] dropped_feed [OF f(3,2)] by (auto split: if_splits)
qed

lemma addMarketOrder_feed:
  assumes st: "in_step s {oid od} b" and sym: "symbol_id od = s" and add: "addMarketOrder d b od = Inr b'"
  shows "in_step s {} b'"
proof -
  obtain od0 b1 od1 where m: "setPrice d (if isAsk od then 0 else u64_max) od = Inr od0"
      "match d b od0 = Inr (b1, od1)" "b' = emit (OrderDeleted od1) b1"
    using add by (auto simp: addMarketOrder_def)
  have "oid od0 = oid od" "symbol_id od0 = s" using setter_done(2) [OF m(1)] sym by auto
  then have "in_step s {oid od1} b1" "symbol_id od1 = s"
    using match_feed [OF m(2), of s] st by (auto simp: incoming_feed_def)
  then show ?thesis using m(3) dropped_feed by simp
qed

lemma calculateStopPrice_done:
  "calculateStopPrice d b od = Inr od' \<Longrightarrow> \<exists>p. od' = od\<lparr>stop_price := p\<rparr>"
  by (auto simp: calculateStopPrice_def Let_def dest!: setter_done(6) split: if_splits)

lemma addStopOrder_feed:
  assumes st: "in_step s {oid od} b" and h: "heard b (oid od) = Some (reported od)" and sym: "symbol_id od = s"
    and add: "addStopOrder d b od = Inr b'"
  shows "in_step s {} b'"
proof -
  obtain od1 where od1: "(if isTrailingStop od \<or> isTrailingStopLimit od then calculateStopPrice d b od else Inr od) = Inr od1"
    and rest: "(if stop_matches b od1 then
       rbind (setType d (if isStop od1 \<or> isTrailingStop od1 then Market else Limit) od1) (\<lambda>od2.
       rbind (setStopPrice d 0 od2) (\<lambda>od3.
       rbind (setTrailAmount d 0 od3) (\<lambda>od4.
       let b1 = emit (OrderUpdated od4) b in
       if isMarket od4 then addMarketOrder d b1 od4 else addLimitOrder d b1 od4)))
     else if isTrailingStop od1 \<or> isTrailingStopLimit od1 then insertTrailingStopOrder d b od1
     else insertStopOrder d b od1) = Inr b'"
    using add by (auto simp: addStopOrder_def)
  have "oid od1 = oid od \<and> symbol_id od1 = s \<and> reported od1 = reported od"
    using od1 sym by (auto simp: reported_def trailing_kind_def dest!: calculateStopPrice_done split: if_splits)
  then have o: "in_step s {oid od1} b" "heard b (oid od1) = Some (reported od1)" "symbol_id od1 = s"
    using st h by auto
  show ?thesis
  proof (cases "stop_matches b od1")
    case True
    then obtain od4 where od4: "oid od4 = oid od1" "symbol_id od4 = s"
        "(if isMarket od4 then addMarketOrder d (emit (OrderUpdated od4) b) od4
          else addLimitOrder d (emit (OrderUpdated od4) b) od4) = Inr b'"
      using rest o(3) by (auto simp: Let_def dest!: setter_done(4-6))
    have "in_step s {oid od4} (emit (OrderUpdated od4) b)"
      using o(1) od4(1,2) by (intro in_step_emit) auto
    then show ?thesis
      using od4(2,3) addMarketOrder_feed [of s od4] addLimitOrder_feed [of s od4] by (auto split: if_splits)
  next
    case False
    then show ?thesis using rest insert_feed(2,3) [OF o] by (auto split: if_splits)
  qed
qed

section \<open>Activating stop orders\<close>

lemma activate_front_feed:
  assumes st: "in_step s {} b" and act: "activate_front d b l = Inr b'"
  shows "in_step s {} b'"
proof -
  obtain i w where w: "order_view b i = Some w" "activateStopOrder d b (w_order w) = Inr b'"
    using act by (auto simp: activate_front_def find_order_view)
  note o = in_step_order [OF st w(1)]
  obtain b1 od3 where b1: "deleteOrder_notify d b i False = Inr b1"
    and od3: "oid od3 = i" "symbol_id od3 = s"
    and b': "addMarketOrder d (emit (OrderUpdated od3) b1) od3 = Inr b' \<or>
      addLimitOrder d (emit (OrderUpdated od3) b1) od3 = Inr b'"
    using w(2) o(1,2) by (auto simp: activateStopOrder_def dest!: setter_done(4-6) split: if_splits)
  have "in_step s {oid od3} (emit (OrderUpdated od3) b1)"
    using deleteOrder_silent_feed(1) [OF st b1] od3 by (intro in_step_emit) auto
  then show ?thesis
    using b' od3(2) addMarketOrder_feed [of s od3] addLimitOrder_feed [of s od3] by auto
qed

lemma activation_loop_feed:
  assumes "activation_loop d t K x b a = Some y"
  shows "in_step s {} b \<longrightarrow> (\<forall>b' a'. y = Inr (b', a') \<longrightarrow> in_step s {} b')"
proof (rule activation_loop.raw_induct [OF _ assms], intro impI allI)
  fix loop d t K x b and a :: bool and y b' a'
  assume IH: "\<And>d t K x b a y. loop d t K x b a = Some y \<Longrightarrow>
      in_step s {} b \<longrightarrow> (\<forall>b' a'. y = Inr (b', a') \<longrightarrow> in_step s {} b')"
    and step: "(case next_stop_level t K b of None \<Rightarrow> Some (Inr (b, a))
      | Some (p, l) \<Rightarrow>
          if triggered t x p
          then case activate_front d b l of Inl e \<Rightarrow> Some (Inl e) | Inr b' \<Rightarrow> loop d t K x b' True
          else Some (Inr (b, a))) = Some y"
    and st: "in_step s {} b" and y: "y = Inr (b', a')"
  have "in_step s {} b'" if "activate_front d b l = Inr b1" "loop d t K x b1 True = Some y" for l b1
    using IH [OF that(2)] activate_front_feed [OF st that(1)] y by blast
  then show "in_step s {} b'"
    using step st y by (auto split: option.splits if_splits sum.splits)
qed

lemma activate_side_feed:
  assumes "in_step s {} b"
  shows "activateBidStopOrders d b = Inr (b', a) \<Longrightarrow> in_step s {} b'"
    and "activateAskStopOrders d b = Inr (b', a) \<Longrightarrow> in_step s {} b'"
proof -
  have loop: "in_step s {} b2" if "returns (activation_loop d t K x b1 a1) = Inr (b2, a2)" "in_step s {} b1"
    for t K x b1 a1 b2 a2
    using that activation_loop_feed [of d t K x b1 a1 _ s]
    by (cases "activation_loop d t K x b1 a1") auto
  show "activateBidStopOrders d b = Inr (b', a) \<Longrightarrow> in_step s {} b'"
      "activateAskStopOrders d b = Inr (b', a) \<Longrightarrow> in_step s {} b'"
    using assms by (auto simp: activateBidStopOrders_def activateAskStopOrders_def dest!: loop)
qed

section \<open>Moving trailing stop orders\<close>

definition moved_store :: "OrderSide \<Rightarrow> u64 \<Rightarrow> Order \<Rightarrow> MapOrderBook \<Rightarrow> MapOrderBook" where
  "moved_store t i od b =
     (let b1 = store_order i od b;
          b2 = b1\<lparr>new_trailing_levels := om_emplace (stop_price od)
                 (newLevel (stop_price od) (level_side t) (book_symbol_id b1)) (new_trailing_levels b1)\<rparr>
      in b2\<lparr>orders := hm_store i \<lparr>w_order = od, level_it = (NewTrailingLevels, stop_price od)\<rparr> (orders b2)\<rparr>)"

lemma moved_store_done:
  assumes w: "order_view b i = Some w"
  shows "order_view (moved_store t i od b) =
      (order_view b)(i \<mapsto> \<lparr>w_order = od, level_it = (NewTrailingLevels, stop_price od)\<rparr>)"
    and "events (moved_store t i od b) = events b"
    and "book_symbol_id (moved_store t i od b) = book_symbol_id b"
proof -
  have "hm_find i (orders (store_order i od b)) = Some (w\<lparr>w_order := od\<rparr>)"
    using order_view_store_order [OF w, of od] by (simp add: find_order_view)
  then show "order_view (moved_store t i od b) =
      (order_view b)(i \<mapsto> \<lparr>w_order = od, level_it = (NewTrailingLevels, stop_price od)\<rparr>)"
    using order_view_store_order [OF w, of od]
    by (auto simp: moved_store_def Let_def order_view_def hm.find_store fun_eq_iff)
qed (simp_all add: moved_store_def Let_def)

lemma move_front_done:
  assumes "move_front d t p b = Inr b'"
  obtains i w od l' l'' where "order_view b i = Some w" and "calculateStopPrice d b (w_order w) = Inr od"
    and "b' = emit (OrderUpdated od) (store_level (NewTrailingLevels, stop_price od) l''
      (store_level (trailing_map t, p) l' (moved_store t i od b)))"
proof -
  have "\<exists>l i w od l' nl nl'. find_order b i = Inr w \<and> calculateStopPrice d b (w_order w) = Inr od \<and>
      emit (OrderUpdated od) (store_level (NewTrailingLevels, stop_price od) nl'
        (store_level (trailing_map t, p) l' (moved_store t i od b))) = b'"
    using assms unfolding move_front_def moved_store_def Let_def rbind_eq_Inr getStopPrice_def sum.inject
    by blast
  then show ?thesis using that by (auto simp: find_order_eq)
qed

lemma move_front_feed:
  assumes st: "in_step s {} b" and mv: "move_front d t p b = Inr b'"
  shows "in_step s {} b'"
proof -
  obtain i w od l' l'' where w: "order_view b i = Some w" "calculateStopPrice d b (w_order w) = Inr od"
    and b': "b' = emit (OrderUpdated od) (store_level (NewTrailingLevels, stop_price od) l''
      (store_level (trailing_map t, p) l' (moved_store t i od b)))"
    using mv by (rule move_front_done)
  note o = in_step_order [OF st w(1)] and m = moved_store_done [OF w(1), of t od]
  have v: "events b' = events b @ [OrderUpdated od]" "book_symbol_id b' = book_symbol_id b"
      "order_view b' = (order_view b)(i \<mapsto> \<lparr>w_order = od, level_it = (NewTrailingLevels, stop_price od)\<rparr>)"
    by (simp_all add: b' m)
  have od: "oid od = i" "symbol_id od = s" using calculateStopPrice_done [OF w(2)] o by auto
  have "heard b' = (heard b)(i \<mapsto> reported od)"
    using v(1) od(1) by (simp add: heard_def fun_eq_iff)
  moreover have "\<forall>e \<in> set (events b'). event_symbol e = s" using v(1) od(2) st by (auto simp: in_step_def)
  ultimately show ?thesis
    using in_step_stored [OF st, of i od b'] od v(2,3) by simp
qed

lemma move_level_feed: "move_level d t p b = Inr b' \<Longrightarrow> in_step s {} b \<Longrightarrow> in_step s {} b'"
proof (induction d t p b rule: move_level.induct)
  case (1 d t p b)
  obtain l where l: "find_level b (trailing_map t, p) = Inr l"
      "(if Level_empty l then Inr b else rbind (move_front d t p b) (\<lambda>b'. move_level d t p b')) = Inr b'"
    using "1.prems"(1) by (subst (asm) move_level.simps) (auto simp del: find_level_eq_Inr)
  show ?case
  proof (cases "Level_empty l")
    case True
    then show ?thesis using l(2) "1.prems"(2) by simp
  next
    case False
    then obtain b1 where "move_front d t p b = Inr b1" "move_level d t p b1 = Inr b'" using l(2) by auto
    then show ?thesis using "1.IH" [OF l(1) False] move_front_feed "1.prems"(2) by blast
  qed
qed

lemma move_levels_feed: "move_levels d t ps b = Inr b' \<Longrightarrow> in_step s {} b \<Longrightarrow> in_step s {} b'"
  by (induction ps arbitrary: b) (auto dest: move_level_feed)

lemma swap_trailing_feed:
  assumes "in_step s {} b"
  shows "in_step s {} (swap_trailing t b)"
proof -
  have "held (swap_trailing t b) = held b"
    by (simp add: held_def fun_eq_iff order_view_swap option.map_comp comp_def)
  moreover have "heard (swap_trailing t b) = heard b" by (rule heard_cong) simp
  ultimately show ?thesis
    using assms by (auto simp: in_step_def order_view_swap)
qed

lemma in_step_prices [simp]:
  "in_step s X (b\<lparr>trailing_ask_price := p\<rparr>) = in_step s X b"
  "in_step s X (b\<lparr>trailing_bid_price := p\<rparr>) = in_step s X b"
  "in_step s X (b\<lparr>last_traded_price := p\<rparr>) = in_step s X b"
  by (simp_all add: in_step_def heard_def held_def)

lemma update_feed:
  assumes "in_step s {} b"
  shows "updateAskStopOrders d b = Inr b' \<Longrightarrow> in_step s {} b'"
    and "updateBidStopOrders d b = Inr b' \<Longrightarrow> in_step s {} b'"
  using assms
  by (auto simp: updateAskStopOrders_def updateBidStopOrders_def Let_def
      intro!: swap_trailing_feed dest!: move_levels_feed split: if_splits)

section \<open>The operations\<close>

lemma activation_round_feed:
  assumes "in_step s {} b" and "activation_round d b = Inr (b', a)"
  shows "in_step s {} b'"
  using assms unfolding activation_round_def
  by (auto dest!: activate_side_feed [rotated] update_feed [rotated])

lemma activate_rounds_feed:
  assumes "activate_rounds d b = Some y"
  shows "in_step s {} b \<longrightarrow> (\<forall>b'. y = Inr b' \<longrightarrow> in_step s {} b')"
proof (rule activate_rounds.raw_induct [OF _ assms], intro impI allI)
  fix rounds d b and y :: "MapOrderBook res" and b'
  assume IH: "\<And>d b y. rounds d b = Some y \<Longrightarrow> in_step s {} b \<longrightarrow> (\<forall>b'. y = Inr b' \<longrightarrow> in_step s {} b')"
    and step: "(case activation_round d b of Inl e \<Rightarrow> Some (Inl e)
      | Inr (b', activate) \<Rightarrow> if activate then rounds d b' else Some (Inr b')) = Some y"
    and st: "in_step s {} b" and y: "y = Inr b'"
  obtain b1 act where a: "activation_round d b = Inr (b1, act)"
      "(if act then rounds d b1 else Some (Inr b1)) = Some y"
    using step y by (auto split: sum.splits)
  have st1: "in_step s {} b1" using activation_round_feed [OF st a(1)] .
  show "in_step s {} b'"
  proof (cases act)
    case True
    then show ?thesis using IH [of d b1 y] a(2) st1 y by simp
  next
    case False
    then show ?thesis using a(2) st1 y by simp
  qed
qed

lemma settle_feed: "settle d b = Inr b' \<Longrightarrow> in_step s {} b \<Longrightarrow> in_step s {} b'"
  using activate_rounds_feed [of d b _ s]
  by (cases "activate_rounds d b") (auto simp: settle_def activateStopOrders_def)

lemma addOrder_feed:
  assumes st: "in_step s {} b" and new: "order_view b (oid od) = None" and sym: "symbol_id od = s"
    and add: "addOrder d b od = Inr b'"
  shows "in_step s {} b'"
proof -
  obtain b1 where b1: "submit d (emit (OrderAdded od) b) od = Inr b1" "settle d b1 = Inr b'"
    using add by (auto simp: addOrder_def)
  have "in_step s {oid od} (emit (OrderAdded od) b)"
    using st new sym by (auto simp: in_step_def held_def)
  moreover have "heard (emit (OrderAdded od) b) (oid od) = Some (reported od)" by simp
  ultimately have "in_step s {} b1"
    using b1(1) sym addLimitOrder_feed [of s od] addMarketOrder_feed [of s od] addStopOrder_feed [of s od]
    by (auto simp: submit_def split: OrderType.splits)
  then show ?thesis using b1(2) by (auto dest: settle_feed)
qed

text \<open>A resting order that is changed, reported, and deleted once it is filled.\<close>

lemma resting_feed:
  assumes st: "in_step s {} b" and w: "order_view b i = Some w"
    and od: "oid od = i" "symbol_id od = s" and e: "e = ExecutedOrder od \<or> e = OrderUpdated od"
    and b': "(if isFilled od then deleteOrder_notify d (store_level it l (emit e ((store_order i od b)\<lparr>last_traded_price := p\<rparr>))) i True
      else Inr (store_level it l (emit e ((store_order i od b)\<lparr>last_traded_price := p\<rparr>)))) = Inr b'"
  shows "in_step s {} b'"
proof -
  let ?b = "store_level it l (emit e ((store_order i od b)\<lparr>last_traded_price := p\<rparr>))"
  have ev: "events ?b = events b @ [e]" by simp
  have h: "heard ?b = (heard b)(i \<mapsto> reported od)"
    using ev e od(1) by (auto simp: heard_def fun_eq_iff)
  have "\<forall>e \<in> set (events ?b). event_symbol e = s" using ev e od(2) st by (auto simp: in_step_def)
  then have "in_step s {} ?b"
    using in_step_stored [OF st, of i od ?b "w\<lparr>w_order := od\<rparr>"] order_view_store_order [OF w, of od] h od by simp
  then show ?thesis using b' by (auto split: if_splits dest: deleteOrder_notify_feed(1))
qed

lemma execute_resting_feed:
  assumes st: "in_step s {} b" and ex: "execute_resting d b i qty price_of = Inr b'"
  shows "in_step s {} b'"
proof -
  obtain w l od l' where w: "order_view b i = Some w"
    and od: "execute d (ucast (price_of (w_order w))) (min qty (open_quantity (w_order w))) (w_order w) = Inr od"
    and b': "(if isFilled od then deleteOrder_notify d (store_level (level_it w) l' (emit (ExecutedOrder od)
        ((store_order i od b)\<lparr>last_traded_price := price_of (w_order w)\<rparr>))) i True
      else Inr (store_level (level_it w) l' (emit (ExecutedOrder od)
        ((store_order i od b)\<lparr>last_traded_price := price_of (w_order w)\<rparr>)))) = Inr b'"
    using ex by (auto simp: execute_resting_def Let_def find_order_view)
  show ?thesis
    using in_step_order [OF st w] setter_done(1) [OF od] by (intro resting_feed [OF st w _ _ _ b']) auto
qed

lemma cancel_resting_feed:
  assumes st: "in_step s {} b" and c: "cancel_resting d b i qty = Inr b'"
  shows "in_step s {} b'"
proof -
  obtain w l od l' where w: "order_view b i = Some w" and od: "setQuantity d qty (w_order w) = Inr od"
    and b': "(if isFilled od then deleteOrder_notify d (store_level (level_it w) l' (emit (OrderUpdated od)
        (store_order i od b))) i True
      else Inr (store_level (level_it w) l' (emit (OrderUpdated od) (store_order i od b)))) = Inr b'"
    using c by (auto simp: cancel_resting_def Let_def find_order_view)
  have same: "(store_order i od b)\<lparr>last_traded_price := last_traded_price b\<rparr> = store_order i od b"
    by (simp add: store_order_def split: option.split)
  show ?thesis
    using in_step_order [OF st w] setter_done(3) [OF od] b'
    by (intro resting_feed [OF st w, of od "OrderUpdated od" d "level_it w" l' "last_traded_price b"])
      (auto simp: same)
qed

text \<open>The requests: a new order has a new ID, and belongs to the symbol of the book.\<close>

lemma perform_feed:
  assumes st: "in_step s {} b" and p: "permitted d b r" and run: "perform d b r = Inr b'"
  shows "in_step s {} b'"
proof (cases r)
  case (AddOrder od)
  have "book_symbol_id b = s" using st by (simp add: in_step_def)
  then have "order_view b (oid od) = None" "symbol_id od = s" "addOrder d b od = Inr b'"
    using p run AddOrder by (simp_all add: addable_def)
  then show ?thesis by (rule addOrder_feed [OF st])
next
  case (ReplaceOrder i j pr)
  obtain w where w: "order_view b i = Some w" "replaceable b i j pr (w_order w)"
    using p ReplaceOrder by (auto elim: on_order_obtain)
  obtain od b1 b2 where b1: "deleteOrder_notify d b i True = Inr b1" "addOrder d b1 od = Inr b2" "settle d b2 = Inr b'"
    and od: "oid od = j" "symbol_id od = s"
    using run w(1) in_step_order [OF st w(1)] unfolding ReplaceOrder
    by (auto simp: replaceOrder_def find_order_view setOrderID_def Let_def dest!: setter_done(2))
  note f = deleteOrder_notify_feed [OF st b1(1)]
  have "order_view b1 (oid od) = None" using f(2) w(2) od(1) by (auto simp: replaceable_def hasOrder_eq)
  then have "in_step s {} b2" using addOrder_feed [OF f(1) _ od(2) b1(2)] by simp
  then show ?thesis using b1(3) by (rule settle_feed [rotated])
qed (use run st in \<open>auto simp: executeOrder_at_def executeOrder_def deleteOrder_def cancelOrder_def
    dest!: settle_feed dest: execute_resting_feed cancel_resting_feed deleteOrder_notify_feed(1)\<close>)

lemma in_step_new: "in_step s {} (newMapOrderBook s)"
  by (simp add: in_step_def newMapOrderBook_def heard_def held_def listen_def order_view_def hm_find_def)

end
