(* ===== verification/Feed_Properties.thy ===== *)
theory Feed_Properties
  imports Event_Feed Market_Properties
begin

text \<open>
  The properties of the event feed: of one book, and of a market, whose books share one feed.
\<close>

section \<open>One book\<close>

lemma reachable_in_step: "reachable d s b \<Longrightarrow> in_step s {} b"
proof (induction rule: reachable.induct)
  case reachable_new
  show ?case by (rule in_step_new)
next
  case (reachable_step b r b')
  then show ?case by (blast intro: perform_feed)
qed

lemma reported_exact: "reported od = reported od' \<Longrightarrow> \<not> trailing_kind (otype od') \<Longrightarrow> od = od'"
  by (cases od; cases od') (auto simp: reported_def split: if_splits)

lemma in_step_knows:
  assumes st: "in_step s {} b"
  shows "listen (events b) i = None \<longleftrightarrow> order_view b i = None"
    and "order_view b i = Some w \<Longrightarrow> \<exists>od. listen (events b) i = Some od \<and> reported od = reported (w_order w) \<and>
      (\<not> trailing_kind (otype (w_order w)) \<longrightarrow> od = w_order w)"
proof -
  have eq: "map_option reported (listen (events b) i) = map_option (\<lambda>w. reported (w_order w)) (order_view b i)"
    using st by (simp add: in_step_def heard_def held_def)
  then show "listen (events b) i = None \<longleftrightarrow> order_view b i = None" by (metis map_option_is_None)
  show "\<exists>od. listen (events b) i = Some od \<and> reported od = reported (w_order w) \<and>
      (\<not> trailing_kind (otype (w_order w)) \<longrightarrow> od = w_order w)" if "order_view b i = Some w"
    using eq that reported_exact by (auto simp: map_option_case split: option.splits)
qed

text \<open>
  C3. The events of a book are a complete feed of its orders: a listener that starts with nothing and
  replays the events knows exactly the orders that rest in the book, each with its current price,
  quantities and type. Only the stop price of a trailing stop order can differ, and all events carry
  the symbol of the book.
\<close>

theorem event_feed:
  assumes "reachable d s b"
  shows "(\<forall>e \<in> set (events b). event_symbol e = s) \<and>
    (\<forall>i. listen (events b) i = None \<longleftrightarrow> order_view b i = None) \<and>
    (\<forall>i w. order_view b i = Some w \<longrightarrow> (\<exists>od. listen (events b) i = Some od \<and>
      reported od = reported (w_order w) \<and> (\<not> trailing_kind (otype (w_order w)) \<longrightarrow> od = w_order w)))"
  using reachable_in_step [OF assms] in_step_knows [OF reachable_in_step [OF assms]]
  by (auto simp: in_step_def)

theorem event_feed_witness:
  "\<exists>od. listen (events sample_book) 1 = Some od \<and> open_quantity od = 30 \<and> price od = 100"
proof -
  have "case order_view sample_book 1 of None \<Rightarrow> False
      | Some w \<Rightarrow> open_quantity (w_order w) = 30 \<and> price (w_order w) = 100 \<and> otype (w_order w) = Limit"
    by code_simp
  then obtain w where "order_view sample_book 1 = Some w" "open_quantity (w_order w) = 30"
      "price (w_order w) = 100" "\<not> trailing_kind (otype (w_order w))"
    by (auto simp: trailing_kind_def split: option.splits)
  then show ?thesis using event_feed [OF sample_reachable] by fastforce
qed

section \<open>A market\<close>

definition symbol_feed :: "u32 \<Rightarrow> Event list \<Rightarrow> Event list" where
  "symbol_feed sid es = filter (\<lambda>e. event_symbol e = sid) es"

lemma symbol_feed_append [simp]: "symbol_feed sid (es @ es') = symbol_feed sid es @ symbol_feed sid es'"
  by (simp add: symbol_feed_def)







end
