(* ===== verification/Printing.thy ===== *)
theory Printing
  imports Concurrent
begin

text \<open>
  The text of orders, levels, books, events and symbols: \<open>Order::toString\<close> (\<open>order.cpp\<close>),
  \<open>Level::toString\<close> (\<open>level.cpp\<close>), \<open>MapOrderBook::toString\<close> (\<open>map_orderbook.cpp\<close>), the output
  operators of \<open>event.cpp\<close> and \<open>symbol.cpp\<close>, and \<open>toString\<close> of the handlers and markets; and readers
  that recover from a text what was printed.
\<close>

section \<open>Text\<close>

definition newline :: string where
  "newline = [CHR 0x0A]"

text \<open>\<open>std::to_string\<close> of an unsigned integer.\<close>

fun digits :: "nat \<Rightarrow> string" where
  "digits n = (if n < 10 then [char_of (48 + n)] else digits (n div 10) @ [char_of (48 + n mod 10)])"

declare digits.simps [simp del]

definition to_string :: "'a::len word \<Rightarrow> string" where
  "to_string w = digits (unat w)"

fun typeToString :: "OrderType \<Rightarrow> string" where
  "typeToString Limit = ''LIMIT''"
| "typeToString Market = ''MARKET''"
| "typeToString Stop = ''STOP''"
| "typeToString StopLimit = ''STOP LIMIT''"
| "typeToString TrailingStop = ''TRAILING STOP''"
| "typeToString TrailingStopLimit = ''TRAILING STOP LIMIT''"

fun sideToString :: "OrderSide \<Rightarrow> string" where
  "sideToString Ask = ''ASK''"
| "sideToString Bid = ''BID''"

fun timeInForceToString :: "OrderTimeInForce \<Rightarrow> string" where
  "timeInForceToString GTC = ''GTC''"
| "timeInForceToString FOK = ''FOK''"
| "timeInForceToString IOC = ''IOC''"

section \<open>Printing\<close>

definition order_toString :: "Order \<Rightarrow> string" where
  "order_toString od =
     ''Symbol ID: '' @ to_string (symbol_id od) @ newline @
     ''Order ID: '' @ to_string (oid od) @ newline @
     ''Type: '' @ typeToString (otype od) @ newline @
     ''Side: '' @ sideToString (side od) @ newline @
     ''TOF: '' @ timeInForceToString (time_in_force od) @ newline @
     ''Price: '' @ to_string (price od) @ newline @
     ''Quantity: '' @ to_string (quantity od) @ newline @
     ''Open Quantity: '' @ to_string (open_quantity od) @ newline"

definition level_toString :: "Level \<Rightarrow> string" where
  "level_toString lv = to_string (lv_price lv) @ '' X '' @ to_string (lv_volume lv) @ newline"

definition levels_toString :: "(u64, Level) omap \<Rightarrow> string" where
  "levels_toString lm = concat (map (\<lambda>(p, lv). level_toString lv) lm)"

definition book_toString :: "MapOrderBook \<Rightarrow> string" where
  "book_toString b =
     ''SYMBOL ID : '' @ to_string (book_symbol_id b) @ newline @
     ''LAST TRADED PRICE: '' @ to_string (last_traded_price b) @ newline @
     ''BID ORDERS'' @ newline @ levels_toString (bid_levels b) @
     ''ASK ORDERS'' @ newline @ levels_toString (ask_levels b) @
     ''BID STOP ORDERS'' @ newline @ levels_toString (stop_bid_levels b) @
     ''ASK STOP ORDERS'' @ newline @ levels_toString (stop_ask_levels b) @
     ''BID TRAILING STOP ORDERS'' @ newline @ levels_toString (trailing_stop_bid_levels b) @
     ''ASK TRAILING STOP ORDERS'' @ newline @ levels_toString (trailing_stop_ask_levels b)"

fun event_toString :: "Event \<Rightarrow> string" where
  "event_toString (SymbolAdded sid name) =
     ''ADDED SYMBOL'' @ newline @ ''Symbol Name: '' @ name @ newline @ ''Symbol ID: '' @ to_string sid @ newline"
| "event_toString (SymbolDeleted sid name) =
     ''DELETED SYMBOL'' @ newline @ ''Symbol Name: '' @ name @ newline @ ''Symbol ID: '' @ to_string sid @ newline"
| "event_toString (OrderAdded od) = ''ADDED ORDER'' @ newline @ order_toString od"
| "event_toString (ExecutedOrder od) = ''EXECUTED ORDER'' @ newline @ order_toString od"
| "event_toString (OrderDeleted od) = ''DELETED ORDER'' @ newline @ order_toString od"
| "event_toString (OrderUpdated od) = ''UPDATED ORDER'' @ newline @ order_toString od"

text \<open>
  The handler of the examples (\<open>simple_event_handler.h\<close>) writes the text of every event and a new line;
  its state is what has been written.
\<close>

definition simpleEventHandler :: "string EventHandler" where
  "simpleEventHandler = \<lparr>
     handleOrderAdded = (\<lambda>od out. out @ event_toString (OrderAdded od) @ newline),
     handleOrderDeleted = (\<lambda>od out. out @ event_toString (OrderDeleted od) @ newline),
     handleOrderUpdated = (\<lambda>od out. out @ event_toString (OrderUpdated od) @ newline),
     handleOrderExecuted = (\<lambda>od out. out @ event_toString (ExecutedOrder od) @ newline),
     handleSymbolAdded = (\<lambda>sid name out. out @ event_toString (SymbolAdded sid name) @ newline),
     handleSymbolDeleted = (\<lambda>sid name out. out @ event_toString (SymbolDeleted sid name) @ newline)\<rparr>"

lemma simpleEventHandler_writes:
  "fold (handle simpleEventHandler) es out = out @ concat (map (\<lambda>e. event_toString e @ newline) es)"
proof (induction es arbitrary: out)
  case (Cons e es)
  have "handle simpleEventHandler e out = out @ event_toString e @ newline"
    by (cases e) (simp_all add: handle.simps simpleEventHandler_def)
  then show ?case using Cons by simp
qed simp

definition symbol_toString :: "Symbol \<Rightarrow> string" where
  "symbol_toString s = ''Symbol Name: '' @ symbol_name s @ ''Symbol ID: '' @ to_string (symbol_number s) @ newline"

text \<open>
  A hash map is iterated in an order of its own: \<open>iteration\<close> gives the keys in that order. Every
  book pointer of the model is set, so the test of the pointer is true.
\<close>

definition handler_toString :: "u32 list \<Rightarrow> OrderBookHandler \<Rightarrow> string" where
  "handler_toString iteration h = concat (map (\<lambda>sid. case find_book h sid of
     None \<Rightarrow> [] | Some b \<Rightarrow> book_toString b @ newline) iteration)"

definition market_toString :: "u32 list \<Rightarrow> Market \<Rightarrow> string" where
  "market_toString iteration m = handler_toString iteration (orderbook_handler m)"

text \<open>
  \<open>ConcurrentMarket::toString\<close> submits to every worker a task that prints its handler, and
  concatenates the texts in the order of the workers: \<open>hs ! i\<close> is handler \<open>i\<close> at the time its worker
  runs the task, \<open>iterations ! i\<close> the order in which its map is iterated.
\<close>

definition concurrent_toString :: "u32 list list \<Rightarrow> OrderBookHandler list \<Rightarrow> string" where
  "concurrent_toString iterations hs =
     concat (map (\<lambda>(ks, h). handler_toString ks h) (zip iterations hs))"

section \<open>Reading\<close>

fun split_lines :: "string \<Rightarrow> string list" where
  "split_lines [] = []"
| "split_lines (c # cs) =
     (if [c] = newline then [] # split_lines cs
      else (case split_lines cs of [] \<Rightarrow> [[c]] | l # ls \<Rightarrow> (c # l) # ls))"

definition read_number :: "string \<Rightarrow> nat" where
  "read_number s = foldl (\<lambda>n c. 10 * n + (of_char c - 48)) 0 s"

definition after :: "string \<Rightarrow> string \<Rightarrow> string" where
  "after label line = drop (length label) line"

fun read_type :: "string \<Rightarrow> OrderType" where
  "read_type s =
     (if s = ''LIMIT'' then Limit else if s = ''MARKET'' then Market else if s = ''STOP'' then Stop
      else if s = ''STOP LIMIT'' then StopLimit else if s = ''TRAILING STOP'' then TrailingStop
      else TrailingStopLimit)"

fun read_side :: "string \<Rightarrow> OrderSide" where
  "read_side s = (if s = ''ASK'' then Ask else Bid)"

fun read_time_in_force :: "string \<Rightarrow> OrderTimeInForce" where
  "read_time_in_force s = (if s = ''GTC'' then GTC else if s = ''FOK'' then FOK else IOC)"

text \<open>What the text of an order says: an order with the printed fields, the others as in \<open>od\<close>.\<close>

definition read_order :: "string \<Rightarrow> Order \<Rightarrow> Order" where
  "read_order s od = (case split_lines s of
     [l1, l2, l3, l4, l5, l6, l7, l8] \<Rightarrow>
       od\<lparr>symbol_id := of_nat (read_number (after ''Symbol ID: '' l1)),
          oid := of_nat (read_number (after ''Order ID: '' l2)),
          otype := read_type (after ''Type: '' l3), side := read_side (after ''Side: '' l4),
          time_in_force := read_time_in_force (after ''TOF: '' l5),
          price := of_nat (read_number (after ''Price: '' l6)),
          quantity := of_nat (read_number (after ''Quantity: '' l7)),
          open_quantity := of_nat (read_number (after ''Open Quantity: '' l8))\<rparr>
   | _ \<Rightarrow> od)"

definition is_digit :: "char \<Rightarrow> bool" where
  "is_digit c \<longleftrightarrow> 48 \<le> (of_char c :: nat) \<and> (of_char c :: nat) < 58"

definition starts_with_digit :: "string \<Rightarrow> bool" where
  "starts_with_digit s = (case s of [] \<Rightarrow> False | c # _ \<Rightarrow> is_digit c)"

definition read_level :: "string \<Rightarrow> u64 \<times> u64" where
  "read_level line = (of_nat (read_number (takeWhile is_digit line)),
     of_nat (read_number (after '' X '' (dropWhile is_digit line))))"

text \<open>The sections of a book's text: a heading, then the lines of its levels.\<close>

fun read_sections :: "nat \<Rightarrow> string list \<Rightarrow> (u64 \<times> u64) list list" where
  "read_sections 0 ls = []"
| "read_sections (Suc n) ls =
     map read_level (takeWhile starts_with_digit (tl ls)) #
     read_sections n (dropWhile starts_with_digit (tl ls))"

definition book_of_lines :: "string list \<Rightarrow> u32 \<times> u64 \<times> (u64 \<times> u64) list list" where
  "book_of_lines lines = (case lines of
     l1 # l2 # ls \<Rightarrow> (of_nat (read_number (after ''SYMBOL ID : '' l1)),
       of_nat (read_number (after ''LAST TRADED PRICE: '' l2)), read_sections 6 ls)
   | _ \<Rightarrow> (0, 0, []))"

definition read_book :: "string \<Rightarrow> u32 \<times> u64 \<times> (u64 \<times> u64) list list" where
  "read_book s = book_of_lines (split_lines s)"

text \<open>A market is printed book by book, an empty line after each.\<close>

fun paragraphs :: "string list \<Rightarrow> string list list" where
  "paragraphs [] = []"
| "paragraphs (l # ls) =
     (if l = [] then [] # paragraphs ls
      else (case paragraphs ls of [] \<Rightarrow> [[l]] | p # ps \<Rightarrow> (l # p) # ps))"

definition read_market :: "string \<Rightarrow> (u32 \<times> u64 \<times> (u64 \<times> u64) list list) list" where
  "read_market s = map book_of_lines (paragraphs (split_lines s))"

section \<open>Lemmas\<close>

lemma of_char_digit: "n < 10 \<Longrightarrow> of_char (char_of (48 + n) :: char) = 48 + (n :: nat)"
  by (simp add: of_char_of)

lemma digits_all: "list_all is_digit (digits n)"
proof (induction n rule: digits.induct)
  case (1 n)
  then show ?case
    using of_char_digit [of n] of_char_digit [of "n mod 10"]
    by (subst digits.simps) (auto simp: is_digit_def [of "char_of _"])
qed

lemma read_number_digits: "read_number (digits n) = n"
proof (induction n rule: digits.induct)
  case (1 n)
  then show ?case
    using of_char_digit [of n] of_char_digit [of "n mod 10"]
    by (subst digits.simps) (auto simp: read_number_def)
qed

lemma digits_not_Nil: "digits n \<noteq> []"
  by (subst digits.simps) simp

lemma read_to_string [simp]: "of_nat (read_number (to_string w)) = w"
  by (simp add: to_string_def read_number_digits)

lemma to_string_digit: "c \<in> set (to_string w) \<Longrightarrow> is_digit c"
  using digits_all [of "unat w"] by (auto simp: to_string_def list_all_iff)

definition one_line :: "string \<Rightarrow> bool" where
  "one_line s \<longleftrightarrow> CHR 0x0A \<notin> set s"

lemma one_line_to_string [simp]: "one_line (to_string w)"
  using to_string_digit [of "CHR 0x0A" w] by (auto simp: one_line_def is_digit_def)

lemma one_line_append [simp]: "one_line (s @ t) \<longleftrightarrow> one_line s \<and> one_line t"
  by (auto simp: one_line_def)

lemma one_line_names [simp]:
  "one_line (typeToString t)" "one_line (sideToString sd)" "one_line (timeInForceToString f)"
  by (cases t, simp_all add: one_line_def) (cases sd, simp_all, cases f, simp_all)

definition unlines :: "string list \<Rightarrow> string" where
  "unlines ls = concat (map (\<lambda>l. l @ newline) ls)"

lemma split_lines_line: "one_line l \<Longrightarrow> split_lines (l @ newline @ s) = l # split_lines s"
  by (induction l) (auto simp: one_line_def newline_def)

lemma split_unlines: "list_all one_line ls \<Longrightarrow> split_lines (unlines ls) = ls"
  by (induction ls) (simp_all add: unlines_def split_lines_line)

lemma read_names [simp]:
  "read_type (typeToString t) = t" "read_side (sideToString sd) = sd"
  "read_time_in_force (timeInForceToString f) = f"
  by (cases t, simp_all) (cases sd, simp_all, cases f, simp_all)

lemma after_append [simp]: "after s (s @ t) = t"
  by (simp add: after_def)

section \<open>Orders and levels\<close>

definition order_lines :: "Order \<Rightarrow> string list" where
  "order_lines od =
     [''Symbol ID: '' @ to_string (symbol_id od), ''Order ID: '' @ to_string (oid od),
      ''Type: '' @ typeToString (otype od), ''Side: '' @ sideToString (side od),
      ''TOF: '' @ timeInForceToString (time_in_force od), ''Price: '' @ to_string (price od),
      ''Quantity: '' @ to_string (quantity od), ''Open Quantity: '' @ to_string (open_quantity od)]"

lemma order_toString_lines: "order_toString od = unlines (order_lines od)"
  by (simp add: order_toString_def order_lines_def unlines_def)

lemma order_lines_one_line: "list_all one_line (order_lines od)"
  by (simp add: order_lines_def del: append.append_Cons) (simp add: one_line_def)

definition level_line :: "Level \<Rightarrow> string" where
  "level_line lv = to_string (lv_price lv) @ '' X '' @ to_string (lv_volume lv)"

lemma level_toString_line: "level_toString lv = level_line lv @ newline"
  by (simp add: level_toString_def level_line_def)

lemma level_line_one_line: "one_line (level_line lv)"
  by (simp add: level_line_def del: append.append_Cons) (simp add: one_line_def)

lemma level_line_digit: "starts_with_digit (level_line lv)"
proof (cases "to_string (lv_price lv)")
  case Nil
  then show ?thesis by (simp add: to_string_def digits_not_Nil)
next
  case (Cons c cs)
  then show ?thesis using to_string_digit [of c "lv_price lv"] by (simp add: level_line_def starts_with_digit_def)
qed

lemma read_level_line: "read_level (level_line lv) = (lv_price lv, lv_volume lv)"
proof -
  let ?p = "to_string (lv_price lv)" and ?r = "'' X '' @ to_string (lv_volume lv)"
  have d: "\<forall>c \<in> set ?p. is_digit c" by (auto dest: to_string_digit)
  have n: "\<not> is_digit (hd ?r)" by (simp add: is_digit_def)
  have "takeWhile is_digit (?p @ ?r) = ?p" "dropWhile is_digit (?p @ ?r) = ?r"
    using d n by (simp_all add: takeWhile_append2 dropWhile_append2)
  then show ?thesis by (simp add: read_level_def level_line_def after_def)
qed

section \<open>Books\<close>

definition level_lines :: "(u64, Level) omap \<Rightarrow> string list" where
  "level_lines lm = map (\<lambda>(p, lv). level_line lv) lm"

definition book_lines :: "MapOrderBook \<Rightarrow> string list" where
  "book_lines b =
     (''SYMBOL ID : '' @ to_string (book_symbol_id b)) #
     (''LAST TRADED PRICE: '' @ to_string (last_traded_price b)) #
     ''BID ORDERS'' # level_lines (bid_levels b) @
     ''ASK ORDERS'' # level_lines (ask_levels b) @
     ''BID STOP ORDERS'' # level_lines (stop_bid_levels b) @
     ''ASK STOP ORDERS'' # level_lines (stop_ask_levels b) @
     ''BID TRAILING STOP ORDERS'' # level_lines (trailing_stop_bid_levels b) @
     ''ASK TRAILING STOP ORDERS'' # level_lines (trailing_stop_ask_levels b)"

lemma levels_toString_lines: "levels_toString lm = unlines (level_lines lm)"
  by (induction lm) (auto simp: levels_toString_def unlines_def level_lines_def level_toString_line)

lemma unlines_simps: "unlines [] = []" "unlines (l # ls) = l @ newline @ unlines ls"
    "unlines (ls @ ls') = unlines ls @ unlines ls'"
  by (simp_all add: unlines_def)

lemma book_toString_lines: "book_toString b = unlines (book_lines b)"
  by (simp add: book_toString_def book_lines_def unlines_simps levels_toString_lines)

lemma level_lines_ok:
  "list_all one_line (level_lines lm)" "\<forall>l \<in> set (level_lines lm). starts_with_digit l"
  "map read_level (level_lines lm) = map (\<lambda>(p, lv). (lv_price lv, lv_volume lv)) lm"
  by (auto simp: level_lines_def list_all_iff level_line_one_line level_line_digit read_level_line)

lemma book_lines_one_line: "list_all one_line (book_lines b)"
  by (simp add: book_lines_def level_lines_ok del: append.append_Cons) (simp add: one_line_def)

text \<open>A section ends where a line does not start with a digit, or with the text.\<close>

lemma read_sections_step:
  assumes "case rest of [] \<Rightarrow> True | l # _ \<Rightarrow> \<not> starts_with_digit l"
  shows "read_sections (Suc n) (heading # level_lines lm @ rest) =
    map (\<lambda>(p, lv). (lv_price lv, lv_volume lv)) lm # read_sections n rest"
proof -
  have "takeWhile starts_with_digit (level_lines lm @ rest) = level_lines lm"
      "dropWhile starts_with_digit (level_lines lm @ rest) = rest"
    using assms level_lines_ok(2) [of lm]
    by (cases rest; simp add: takeWhile_append2 dropWhile_append2)+
  then show ?thesis by (simp add: level_lines_ok(3))
qed

end
