(* ===== verification/Printing_Properties.thy ===== *)
theory Printing_Properties
  imports Printing Samples
begin

text \<open>
  What can be read back from the text of an order and of a book.
\<close>

text \<open>
  C30. The text of an order tells exactly its symbol, ID, type, side, time in force, price, quantity
  and open quantity: reading it back gives each of them, whatever the order, and nothing else.
\<close>

theorem order_text_roundtrip:
  "read_order (order_toString od) od' =
     od'\<lparr>symbol_id := symbol_id od, oid := oid od, otype := otype od, side := side od,
       time_in_force := time_in_force od, price := price od, quantity := quantity od,
       open_quantity := open_quantity od\<rparr>"
proof -
  have "split_lines (order_toString od) = order_lines od"
    unfolding order_toString_lines by (rule split_unlines [OF order_lines_one_line])
  then show ?thesis
    by (simp add: read_order_def order_lines_def del: append.append_Cons read_type.simps read_side.simps
        read_time_in_force.simps)
qed

lemma book_of_book_lines:
  "book_of_lines (book_lines b) = (book_symbol_id b, last_traded_price b,
     map (\<lambda>lm. map (\<lambda>(p, lv). (lv_price lv, lv_volume lv)) lm)
       [bid_levels b, ask_levels b, stop_bid_levels b, stop_ask_levels b,
        trailing_stop_bid_levels b, trailing_stop_ask_levels b])"
proof -
  have "\<not> starts_with_digit ''ASK ORDERS''" "\<not> starts_with_digit ''BID STOP ORDERS''"
      "\<not> starts_with_digit ''ASK STOP ORDERS''" "\<not> starts_with_digit ''BID TRAILING STOP ORDERS''"
      "\<not> starts_with_digit ''ASK TRAILING STOP ORDERS''"
    by code_simp+
  then show ?thesis
    using read_sections_step [of "[]" 0 "''ASK TRAILING STOP ORDERS''" "trailing_stop_ask_levels b"]
    by (simp add: book_of_lines_def book_lines_def read_sections_step eval_nat_numeral
        del: append.append_Cons read_sections.simps(2))
qed

lemma read_book_text: "read_book (book_toString b) = book_of_lines (book_lines b)"
  by (simp add: read_book_def book_toString_lines split_unlines [OF book_lines_one_line])

lemma level_entry_ok:
  assumes "book_ok d b" and "(p, l) \<in> set (levels K b)"
  shows "lv_price l = p \<and> lv_volume l = actual_volume (book_heap b) l"
proof -
  have wf: "wf_book d b" using assms(1) by (simp add: book_ok_def)
  then have "om_find p (levels K b) = Some l"
    using assms(2) wf_book_om [OF wf, of K] by (simp add: om_find_def om_inv_def strict_sorted_iff)
  then have "level_view b (K, p) = Some l" by (simp add: level_view_def)
  then show ?thesis
    using views_level [OF book_ok_views [OF assms(1)]] by (simp add: level_ok_def book_heap_view)
qed

text \<open>What the text of a book says.\<close>

definition book_summary :: "MapOrderBook \<Rightarrow> u32 \<times> u64 \<times> (u64 \<times> u64) list list" where
  "book_summary b = (book_symbol_id b, last_traded_price b,
     map (\<lambda>K. map (\<lambda>(p, l). (p, actual_volume (book_heap b) l)) (levels K b))
       [BidLevels, AskLevels, StopBidLevels, StopAskLevels, TrailingStopBidLevels, TrailingStopAskLevels])"

lemma book_summary_lines:
  assumes "book_ok d b"
  shows "book_of_lines (book_lines b) = book_summary b"
proof -
  have "map (\<lambda>(p, l). (lv_price l, lv_volume l)) (levels K b)
      = map (\<lambda>(p, l). (p, actual_volume (book_heap b) l)) (levels K b)" for K
    using level_entry_ok [OF assms, of _ _ K] by (intro map_cong) auto
  from this [of BidLevels] this [of AskLevels] this [of StopBidLevels] this [of StopAskLevels]
    this [of TrailingStopBidLevels] this [of TrailingStopAskLevels]
  show ?thesis by (simp add: book_of_book_lines book_summary_def)
qed

text \<open>
  Reading the text of a reachable book back gives the symbol, the last traded price and, for each of the six
  sides, every price once, in ascending order, with the exact sum of the open quantities there.
\<close>

lemma book_text_accurate:
  assumes "reachable d s b"
  shows "read_book (book_toString b) = book_summary b \<and> book_symbol_id b = s \<and>
    (\<forall>K. sorted_wrt (<) (map fst (levels K b)))"
  using reachable_inv [OF assms] book_summary_lines wf_book_om [of d b]
  by (auto simp: book_inv_def read_book_text book_ok_def om_inv_def)

end
