(* ===== verification/Robin_Hood.thy ===== *)
theory Robin_Hood
  imports Prelude
begin

text \<open>
  The hash table under \<open>robin_hood::unordered_map\<close> (\<open>include/utils/robin_hood.h\<close>, class
  \<open>detail::Table\<close>): open addressing without wrap-around, one info byte per slot.

  A slot is an optional pair; whether the pair lies in the slot or behind a pointer (\<open>DataNode\<close>) makes
  no difference here. A byte of \<open>mInfo\<close> is a number below 256, with \<open>mod 256\<close> where the source casts
  to \<open>uint8_t\<close>; indices and counts are numbers, since they stay below the size of an allocated array.
  The hash is a 64-bit word. Reading an info byte outside the array, or a slot that holds no pair, is
  undefined behaviour. The exception of \<open>throwOverflowError\<close>, which nothing catches, is \<open>Terminated\<close>.
\<close>

section \<open>Hashes\<close>

unbundle bit_operations_syntax

definition hash_int :: "u64 \<Rightarrow> u64" where
  "hash_int x =
     (let x1 = x XOR drop_bit 33 x;
          x2 = x1 * 0xff51afd7ed558ccd
      in x2 XOR drop_bit 33 x2)"

text \<open>\<open>ROBIN_HOOD_HASH_INT\<close>: the key is converted to 64 bits.\<close>

definition hash_of :: "'a::len word \<Rightarrow> u64" where
  "hash_of key = hash_int (ucast key)"

section \<open>State\<close>

record ('k, 'v) Table =
  mHashMultiplier :: u64
  mKeyVals :: "('k \<times> 'v) option list"
  mInfo :: "nat list"
  mNumElements :: nat
  mMask :: nat
  mMaxNumElementsAllowed :: nat
  mInfoInc :: nat
  mInfoHashShift :: nat

definition InitialNumElements :: nat where
  "InitialNumElements = 8"

definition InitialInfoInc :: nat where
  "InitialInfoInc = 32"

text \<open>
  A new table has no array: \<open>mInfo\<close> points to the eight bytes of \<open>mMask\<close>, which are zero.
\<close>

definition new_table :: "('k, 'v) Table" where
  "new_table = \<lparr>mHashMultiplier = 0xc4ceb9fe1a85ec53, mKeyVals = [], mInfo = replicate 8 0,
     mNumElements = 0, mMask = 0, mMaxNumElementsAllowed = 0, mInfoInc = InitialInfoInc,
     mInfoHashShift = 0\<rparr>"

definition calcMaxNumElementsAllowed :: "nat \<Rightarrow> nat" where
  "calcMaxNumElementsAllowed maxElements =
     (if maxElements \<le> (2 ^ 64 - 1) div 100 then maxElements * 80 div 100
      else maxElements div 100 * 80)"

definition calcNumBytesInfo :: "nat \<Rightarrow> nat" where
  "calcNumBytesInfo numElements = numElements + 8"

definition calcNumElementsWithBuffer :: "nat \<Rightarrow> nat" where
  "calcNumElementsWithBuffer numElements = numElements + min (calcMaxNumElementsAllowed numElements) 255"

definition table_size :: "('k, 'v) Table \<Rightarrow> nat" where
  "table_size t = mNumElements t"

definition table_empty :: "('k, 'v) Table \<Rightarrow> bool" where
  "table_empty t \<longleftrightarrow> mNumElements t = 0"

section \<open>Slots\<close>

definition info_at :: "('k, 'v) Table \<Rightarrow> nat \<Rightarrow> nat res" where
  "info_at t idx = require (idx < length (mInfo t)) (mInfo t ! idx)"

definition node_at :: "('k, 'v) Table \<Rightarrow> nat \<Rightarrow> ('k \<times> 'v) res" where
  "node_at t idx = (if idx < length (mKeyVals t) then deref (mKeyVals t ! idx) else Inl UndefinedBehaviour)"

text \<open>The home slot of a key and the info byte it has there.\<close>

definition keyToIdx :: "('k \<Rightarrow> u64) \<Rightarrow> ('k, 'v) Table \<Rightarrow> 'k \<Rightarrow> nat \<times> nat" where
  "keyToIdx h t key =
     (let x1 = h key * mHashMultiplier t;
          x2 = x1 XOR drop_bit 33 x1;
          info = mInfoInc t + unat (drop_bit (mInfoHashShift t) (x2 AND 31));
          idx = unat (drop_bit 5 x2 AND of_nat (mMask t))
      in (idx, info))"

section \<open>Finding\<close>

text \<open>The comparison of both halves of the unrolled loop: the key is read only if the info agrees.\<close>

definition slot_matches :: "('k, 'v) Table \<Rightarrow> 'k \<Rightarrow> nat \<Rightarrow> nat \<Rightarrow> bool res" where
  "slot_matches t key info idx =
     rbind (info_at t idx) (\<lambda>b.
     if info = b then rbind (node_at t idx) (\<lambda>kv. Inr (key = fst kv)) else Inr False)"

lemma info_at_Inr: "info_at t idx = Inr b \<Longrightarrow> idx < length (mInfo t)"
  by (simp add: info_at_def)

function find_loop :: "('k, 'v) Table \<Rightarrow> 'k \<Rightarrow> nat \<Rightarrow> nat \<Rightarrow> nat res" where
  "find_loop t key info idx =
     rbind (slot_matches t key info idx) (\<lambda>found.
     if found then Inr idx
     else rbind (slot_matches t key (info + mInfoInc t) (idx + 1)) (\<lambda>found.
     if found then Inr (idx + 1)
     else rbind (info_at t (idx + 2)) (\<lambda>b.
     if info + 2 * mInfoInc t \<le> b then find_loop t key (info + 2 * mInfoInc t) (idx + 2)
     else Inr (if mMask t = 0 then 0 else length (mKeyVals t)))))"
  by pat_completeness auto
termination
  by (relation "measure (\<lambda>(t, key, info, idx). length (mInfo t) - idx)") (auto dest!: info_at_Inr)

definition findIdx :: "('k \<Rightarrow> u64) \<Rightarrow> ('k, 'v) Table \<Rightarrow> 'k \<Rightarrow> nat res" where
  "findIdx h t key = (case keyToIdx h t key of (idx, info) \<Rightarrow> find_loop t key info idx)"

text \<open>
  \<open>find\<close>, then the pair behind the iterator: \<open>None\<close> is \<open>end()\<close>, the address of \<open>mInfo\<close> as a slot.
\<close>

definition table_find :: "('k \<Rightarrow> u64) \<Rightarrow> ('k, 'v) Table \<Rightarrow> 'k \<Rightarrow> ('k \<times> 'v) option res" where
  "table_find h t key =
     rbind (findIdx h t key) (\<lambda>idx.
     if idx = length (mKeyVals t) then Inr None
     else rbind (node_at t idx) (\<lambda>kv. Inr (Some kv)))"

definition table_count :: "('k \<Rightarrow> u64) \<Rightarrow> ('k, 'v) Table \<Rightarrow> 'k \<Rightarrow> nat res" where
  "table_count h t key =
     rbind (findIdx h t key) (\<lambda>idx. Inr (if idx \<noteq> length (mKeyVals t) then 1 else 0))"

definition table_contains :: "('k \<Rightarrow> u64) \<Rightarrow> ('k, 'v) Table \<Rightarrow> 'k \<Rightarrow> bool res" where
  "table_contains h t key = rbind (table_count h t key) (\<lambda>n. Inr (n = 1))"

text \<open>Iteration visits the slots with a non-zero info byte, from the first to the last.\<close>

definition iteration :: "('k, 'v) Table \<Rightarrow> ('k \<times> 'v) list" where
  "iteration t = List.map_filter (\<lambda>(b, node). if b = 0 then None else node) (zip (mInfo t) (mKeyVals t))"

section \<open>Moving slots\<close>

function nextWhileLess :: "('k, 'v) Table \<Rightarrow> nat \<Rightarrow> nat \<Rightarrow> (nat \<times> nat) res" where
  "nextWhileLess t info idx =
     rbind (info_at t idx) (\<lambda>b.
     if info < b then nextWhileLess t (info + mInfoInc t) (idx + 1) else Inr (info, idx))"
  by pat_completeness auto
termination
  by (relation "measure (\<lambda>(t, info, idx). length (mInfo t) - idx)") (auto dest!: info_at_Inr)

function find_empty :: "('k, 'v) Table \<Rightarrow> nat \<Rightarrow> nat res" where
  "find_empty t idx = rbind (info_at t idx) (\<lambda>b. if b \<noteq> 0 then find_empty t (idx + 1) else Inr idx)"
  by pat_completeness auto
termination
  by (relation "measure (\<lambda>(t, idx). length (mInfo t) - idx)") (auto dest!: info_at_Inr)

text \<open>
  \<open>shiftUp\<close>: the nodes, then the info bytes. The slot a node is moved from is written again before it
  is read, so a move is a copy here.
\<close>

fun shift_nodes :: "'n list \<Rightarrow> nat \<Rightarrow> nat \<Rightarrow> 'n list" where
  "shift_nodes nodes idx insertion_idx =
     (if idx \<le> insertion_idx then nodes
      else shift_nodes (nodes[idx := nodes ! (idx - 1)]) (idx - 1) insertion_idx)"

fun shift_infos :: "('k, 'v) Table \<Rightarrow> nat \<Rightarrow> nat \<Rightarrow> ('k, 'v) Table" where
  "shift_infos t idx insertion_idx =
     (if idx \<le> insertion_idx then t
      else let b = (mInfo t ! (idx - 1) + mInfoInc t) mod 256;
               t1 = t\<lparr>mInfo := (mInfo t)[idx := b]\<rparr>;
               t2 = (if b + mInfoInc t > 255 then t1\<lparr>mMaxNumElementsAllowed := 0\<rparr> else t1)
           in shift_infos t2 (idx - 1) insertion_idx)"

declare shift_nodes.simps [simp del] shift_infos.simps [simp del]

definition shiftUp :: "nat \<Rightarrow> nat \<Rightarrow> ('k, 'v) Table \<Rightarrow> ('k, 'v) Table res" where
  "shiftUp startIdx insertion_idx t =
     rbind (require (startIdx < length (mKeyVals t) \<and> startIdx < length (mInfo t)) ()) (\<lambda>_.
     let t1 = t\<lparr>mKeyVals := shift_nodes (mKeyVals t) startIdx insertion_idx\<rparr>
     in Inr (shift_infos t1 startIdx insertion_idx))"

function shift_down_loop :: "nat \<Rightarrow> ('k, 'v) Table \<Rightarrow> ('k, 'v) Table res" where
  "shift_down_loop idx t =
     rbind (info_at t (idx + 1)) (\<lambda>b.
     if 2 * mInfoInc t \<le> b then
       rbind (node_at t (idx + 1)) (\<lambda>kv.
       shift_down_loop (idx + 1) (t\<lparr>mInfo := (mInfo t)[idx := (b - mInfoInc t) mod 256],
         mKeyVals := (mKeyVals t)[idx := Some kv]\<rparr>))
     else Inr (t\<lparr>mInfo := (mInfo t)[idx := 0], mKeyVals := (mKeyVals t)[idx := None]\<rparr>))"
  by pat_completeness auto
termination
  by (relation "measure (\<lambda>(idx, t). length (mInfo t) - idx)") (auto dest!: info_at_Inr)

definition shiftDown :: "nat \<Rightarrow> ('k, 'v) Table \<Rightarrow> ('k, 'v) Table res" where
  "shiftDown idx t = rbind (node_at t idx) (\<lambda>kv. shift_down_loop idx t)"

text \<open>
  Taking a slot for a new pair, as both \<open>insert_move\<close> and \<open>insertKeyPrepareEmptySpot\<close> do once they
  know where it belongs; the second result is where the empty slot was.
\<close>

definition occupy :: "nat \<Rightarrow> nat \<Rightarrow> ('k, 'v) Table \<Rightarrow> (nat \<times> ('k, 'v) Table) res" where
  "occupy insertion_idx insertion_info t =
     (let t1 = (if insertion_info + mInfoInc t > 255 then t\<lparr>mMaxNumElementsAllowed := 0\<rparr> else t) in
      rbind (find_empty t1 insertion_idx) (\<lambda>idx.
      rbind (if idx \<noteq> insertion_idx then shiftUp idx insertion_idx t1 else Inr t1) (\<lambda>t2.
      rbind (require (insertion_idx < length (mInfo t2)) ()) (\<lambda>_.
      Inr (idx, t2\<lparr>mInfo := (mInfo t2)[insertion_idx := insertion_info mod 256],
        mNumElements := mNumElements t2 + 1\<rparr>)))))"

definition put_node :: "nat \<Rightarrow> 'k \<times> 'v \<Rightarrow> ('k, 'v) Table \<Rightarrow> ('k, 'v) Table res" where
  "put_node idx kv t =
     require (idx < length (mKeyVals t)) (t\<lparr>mKeyVals := (mKeyVals t)[idx := Some kv]\<rparr>)"

section \<open>Growing\<close>

definition initData :: "nat \<Rightarrow> ('k, 'v) Table \<Rightarrow> ('k, 'v) Table" where
  "initData max_elements t =
     (let n = calcNumElementsWithBuffer max_elements in
      t\<lparr>mNumElements := 0, mMask := max_elements - 1,
        mMaxNumElementsAllowed := calcMaxNumElementsAllowed max_elements,
        mKeyVals := replicate n None, mInfo := (replicate (calcNumBytesInfo n) 0)[n := 1],
        mInfoInc := InitialInfoInc, mInfoHashShift := 0\<rparr>)"

text \<open>
  Halves every info byte, eight at a time: \<open>(val >> 1) & 0x7f7f7f7f7f7f7f7f\<close> halves each byte of the
  block. \<open>None\<close> is the result \<open>false\<close>.
\<close>

definition halve_blocks :: "nat \<Rightarrow> nat list \<Rightarrow> nat list" where
  "halve_blocks n info =
     (let m = 8 * ((n + 7) div 8) in map (\<lambda>b. b div 2) (take m info) @ drop m info)"

definition try_increase_info :: "('k, 'v) Table \<Rightarrow> ('k, 'v) Table option res" where
  "try_increase_info t =
     (if mInfoInc t \<le> 2 then Inr None
      else let n = calcNumElementsWithBuffer (mMask t + 1) in
        require (8 * ((n + 7) div 8) \<le> length (mInfo t) \<and> n < length (mInfo t))
          (Some (t\<lparr>mInfoInc := mInfoInc t div 2, mInfoHashShift := mInfoHashShift t + 1,
             mInfo := (halve_blocks n (mInfo t))[n := 1],
             mMaxNumElementsAllowed := calcMaxNumElementsAllowed (mMask t + 1)\<rparr>)))"

function skip_occupied :: "('k, 'v) Table \<Rightarrow> nat \<Rightarrow> nat \<Rightarrow> (nat \<times> nat) res" where
  "skip_occupied t info idx =
     rbind (info_at t idx) (\<lambda>b.
     if info \<le> b then skip_occupied t (info + mInfoInc t) (idx + 1) else Inr (info, idx))"
  by pat_completeness auto
termination
  by (relation "measure (\<lambda>(t, info, idx). length (mInfo t) - idx)") (auto dest!: info_at_Inr)

text \<open>Inserts a pair whose key is known to be new.\<close>

definition insert_move :: "('k \<Rightarrow> u64) \<Rightarrow> 'k \<times> 'v \<Rightarrow> ('k, 'v) Table \<Rightarrow> ('k, 'v) Table res" where
  "insert_move h kv t =
     rbind (if mMaxNumElementsAllowed t = 0 then
              rbind (try_increase_info t) (\<lambda>r. case r of None \<Rightarrow> Inl Terminated | Some t1 \<Rightarrow> Inr t1)
            else Inr t) (\<lambda>t1.
     case keyToIdx h t1 (fst kv) of (idx, info) \<Rightarrow>
     rbind (skip_occupied t1 info idx) (\<lambda>(insertion_info, insertion_idx).
     rbind (occupy insertion_idx (insertion_info mod 256) t1) (\<lambda>(idx, t2).
     put_node insertion_idx kv t2)))"

fun insert_moves :: "('k \<Rightarrow> u64) \<Rightarrow> ('k \<times> 'v) list \<Rightarrow> ('k, 'v) Table \<Rightarrow> ('k, 'v) Table res" where
  "insert_moves h [] t = Inr t"
| "insert_moves h (kv # kvs) t = rbind (insert_move h kv t) (insert_moves h kvs)"

text \<open>The slots of the old array that hold a pair, in order; reading a pair that is not there is undefined.\<close>

fun old_nodes :: "nat list \<Rightarrow> ('k \<times> 'v) option list \<Rightarrow> ('k \<times> 'v) list res" where
  "old_nodes [] nodes = Inr []"
| "old_nodes (b # infos) [] = (if b = 0 then old_nodes infos [] else Inl UndefinedBehaviour)"
| "old_nodes (b # infos) (node # nodes) =
     rbind (old_nodes infos nodes) (\<lambda>kvs.
     if b = 0 then Inr kvs else rbind (deref node) (\<lambda>kv. Inr (kv # kvs)))"

definition rehashPowerOfTwo :: "('k \<Rightarrow> u64) \<Rightarrow> nat \<Rightarrow> ('k, 'v) Table \<Rightarrow> ('k, 'v) Table res" where
  "rehashPowerOfTwo h numBuckets t =
     (let oldMaxElementsWithBuffer = calcNumElementsWithBuffer (mMask t + 1);
          t1 = initData numBuckets t
      in if 1 < oldMaxElementsWithBuffer then
           rbind (old_nodes (take oldMaxElementsWithBuffer (mInfo t)) (mKeyVals t)) (\<lambda>kvs.
           insert_moves h kvs t1)
         else Inr t1)"

definition nextHashMultiplier :: "('k, 'v) Table \<Rightarrow> ('k, 'v) Table" where
  "nextHashMultiplier t = t\<lparr>mHashMultiplier := mHashMultiplier t + 0xc4ceb9fe1a85ec54\<rparr>"

text \<open>The source returns true on every path that returns.\<close>

definition increase_size :: "('k \<Rightarrow> u64) \<Rightarrow> ('k, 'v) Table \<Rightarrow> ('k, 'v) Table res" where
  "increase_size h t =
     (if mMask t = 0 then Inr (initData InitialNumElements t)
      else
        let maxNumElementsAllowed = calcMaxNumElementsAllowed (mMask t + 1) in
        rbind (if mNumElements t < maxNumElementsAllowed then try_increase_info t else Inr None) (\<lambda>r.
        case r of Some t1 \<Rightarrow> Inr t1
        | None \<Rightarrow>
            if mNumElements t * 2 < calcMaxNumElementsAllowed (mMask t + 1)
            then rehashPowerOfTwo h (mMask t + 1) (nextHashMultiplier t)
            else rehashPowerOfTwo h ((mMask t + 1) * 2) t))"

section \<open>Inserting\<close>

datatype InsertionState = overflow_error | key_found | new_node | overwrite_node

text \<open>The scan over the slots that potentially match: whether the key was found, and where the scan ended.\<close>

function skip_equal :: "('k, 'v) Table \<Rightarrow> 'k \<Rightarrow> nat \<Rightarrow> nat \<Rightarrow> (bool \<times> nat \<times> nat) res" where
  "skip_equal t key info idx =
     rbind (info_at t idx) (\<lambda>b.
     if info = b then
       rbind (node_at t idx) (\<lambda>kv.
       if key = fst kv then Inr (True, info, idx) else skip_equal t key (info + mInfoInc t) (idx + 1))
     else Inr (False, info, idx))"
  by pat_completeness auto
termination
  by (relation "measure (\<lambda>(t, key, info, idx). length (mInfo t) - idx)") (auto dest!: info_at_Inr)

fun prepare_attempts ::
  "nat \<Rightarrow> ('k \<Rightarrow> u64) \<Rightarrow> 'k \<Rightarrow> ('k, 'v) Table \<Rightarrow> (nat \<times> InsertionState \<times> ('k, 'v) Table) res" where
  "prepare_attempts 0 h key t = Inr (0, overflow_error, t)"
| "prepare_attempts (Suc n) h key t =
     (case keyToIdx h t key of (idx, info) \<Rightarrow>
      rbind (nextWhileLess t info idx) (\<lambda>(info, idx).
      rbind (skip_equal t key info idx) (\<lambda>(found, info, idx).
      if found then Inr (idx, key_found, t)
      else if mMaxNumElementsAllowed t \<le> mNumElements t then
        rbind (increase_size h t) (prepare_attempts n h key)
      else
        rbind (occupy idx info t) (\<lambda>(e, t1).
        Inr (idx, if e = idx then new_node else overwrite_node, t1)))))"

definition insertKeyPrepareEmptySpot ::
  "('k \<Rightarrow> u64) \<Rightarrow> 'k \<Rightarrow> ('k, 'v) Table \<Rightarrow> (nat \<times> InsertionState \<times> ('k, 'v) Table) res" where
  "insertKeyPrepareEmptySpot h key t = prepare_attempts 256 h key t"

text \<open>\<open>emplace\<close>, also behind \<open>insert\<close> and \<open>emplace_hint\<close>: the slot, and whether the pair was inserted.\<close>

definition table_emplace ::
  "('k \<Rightarrow> u64) \<Rightarrow> 'k \<Rightarrow> 'v \<Rightarrow> ('k, 'v) Table \<Rightarrow> (nat \<times> bool \<times> ('k, 'v) Table) res" where
  "table_emplace h key v t =
     rbind (insertKeyPrepareEmptySpot h key t) (\<lambda>(idx, st, t1).
     case st of
       key_found \<Rightarrow> Inr (idx, False, t1)
     | new_node \<Rightarrow> rbind (put_node idx (key, v) t1) (\<lambda>t2. Inr (idx, True, t2))
     | overwrite_node \<Rightarrow> rbind (put_node idx (key, v) t1) (\<lambda>t2. Inr (idx, True, t2))
     | overflow_error \<Rightarrow> Inl Terminated)"

definition insert_or_assign ::
  "('k \<Rightarrow> u64) \<Rightarrow> 'k \<Rightarrow> 'v \<Rightarrow> ('k, 'v) Table \<Rightarrow> (nat \<times> bool \<times> ('k, 'v) Table) res" where
  "insert_or_assign h key v t =
     rbind (insertKeyPrepareEmptySpot h key t) (\<lambda>(idx, st, t1).
     case st of
       key_found \<Rightarrow>
         rbind (node_at t1 idx) (\<lambda>kv. rbind (put_node idx (fst kv, v) t1) (\<lambda>t2. Inr (idx, False, t2)))
     | new_node \<Rightarrow> rbind (put_node idx (key, v) t1) (\<lambda>t2. Inr (idx, True, t2))
     | overwrite_node \<Rightarrow> rbind (put_node idx (key, v) t1) (\<lambda>t2. Inr (idx, True, t2))
     | overflow_error \<Rightarrow> Inl Terminated)"

text \<open>Writing through an iterator: \<open>it->second = v\<close>.\<close>

definition table_store :: "nat \<Rightarrow> 'v \<Rightarrow> ('k, 'v) Table \<Rightarrow> ('k, 'v) Table res" where
  "table_store idx v t = rbind (node_at t idx) (\<lambda>kv. put_node idx (fst kv, v) t)"

section \<open>Erasing\<close>

definition erase_at :: "nat \<Rightarrow> ('k, 'v) Table \<Rightarrow> ('k, 'v) Table res" where
  "erase_at idx t =
     rbind (shiftDown idx t) (\<lambda>t1. Inr (t1\<lparr>mNumElements := mNumElements t1 - 1\<rparr>))"

function erase_loop :: "'k \<Rightarrow> nat \<Rightarrow> nat \<Rightarrow> ('k, 'v) Table \<Rightarrow> (nat \<times> ('k, 'v) Table) res" where
  "erase_loop key info idx t =
     rbind (slot_matches t key info idx) (\<lambda>found.
     if found then rbind (erase_at idx t) (\<lambda>t1. Inr (1, t1))
     else rbind (info_at t (idx + 1)) (\<lambda>b.
     if info + mInfoInc t \<le> b then erase_loop key (info + mInfoInc t) (idx + 1) t else Inr (0, t)))"
  by pat_completeness auto
termination
  by (relation "measure (\<lambda>(key, info, idx, t). length (mInfo t) - idx)") (auto dest!: info_at_Inr)

definition table_erase :: "('k \<Rightarrow> u64) \<Rightarrow> 'k \<Rightarrow> ('k, 'v) Table \<Rightarrow> (nat \<times> ('k, 'v) Table) res" where
  "table_erase h key t = (case keyToIdx h t key of (idx, info) \<Rightarrow> erase_loop key info idx t)"

declare find_loop.simps [simp del] nextWhileLess.simps [simp del] find_empty.simps [simp del]
  shift_down_loop.simps [simp del] skip_occupied.simps [simp del] skip_equal.simps [simp del]
  erase_loop.simps [simp del]

end
