(* ===== verification/Robin_Hood_Inv.thy ===== *)
theory Robin_Hood_Inv
  imports Robin_Hood "HOL-Library.Multiset"
begin

text \<open>
  The Robin Hood invariant of the hash table, and what follows from it for lookups: every key sits
  at or after its home slot, its info byte counts the distance, and info bytes never jump, so that a
  search may stop at the first slot that is poorer than the key would be.
\<close>

section \<open>Contents\<close>

fun somes :: "'a option list \<Rightarrow> 'a list" where
  "somes [] = []"
| "somes (None # xs) = somes xs"
| "somes (Some x # xs) = x # somes xs"

lemma somes_filter: "somes xs = map the (filter (\<lambda>x. x \<noteq> None) xs)"
  by (induction xs rule: somes.induct) auto

lemma set_somes: "set (somes xs) = {x. Some x \<in> set xs}"
  by (induction xs rule: somes.induct) auto

definition entries :: "('k, 'v) Table \<Rightarrow> ('k \<times> 'v) list" where
  "entries t = somes (mKeyVals t)"

definition key_at :: "('k, 'v) Table \<Rightarrow> nat \<Rightarrow> 'k \<Rightarrow> bool" where
  "key_at t i k \<longleftrightarrow> i < length (mKeyVals t) \<and> (\<exists>v. mKeyVals t ! i = Some (k, v))"

definition has_key :: "('k, 'v) Table \<Rightarrow> 'k \<Rightarrow> bool" where
  "has_key t k \<longleftrightarrow> k \<in> fst ` set (entries t)"

lemma entries_nth: "kv \<in> set (entries t) \<longleftrightarrow> (\<exists>i < length (mKeyVals t). mKeyVals t ! i = Some kv)"
  by (auto simp: entries_def set_somes in_set_conv_nth)

lemma has_key_at: "has_key t k \<longleftrightarrow> (\<exists>i. key_at t i k)"
  by (force simp: has_key_def key_at_def image_iff entries_nth)

section \<open>The home of a key\<close>

definition home :: "('k \<Rightarrow> u64) \<Rightarrow> ('k, 'v) Table \<Rightarrow> 'k \<Rightarrow> nat" where
  "home h t k = fst (keyToIdx h t k)"

definition home_info :: "('k \<Rightarrow> u64) \<Rightarrow> ('k, 'v) Table \<Rightarrow> 'k \<Rightarrow> nat" where
  "home_info h t k = snd (keyToIdx h t k)"

text \<open>The info byte of a key in a slot, when it is stored there.\<close>

definition info_in :: "('k \<Rightarrow> u64) \<Rightarrow> ('k, 'v) Table \<Rightarrow> 'k \<Rightarrow> nat \<Rightarrow> nat" where
  "info_in h t k i = home_info h t k + (i - home h t k) * mInfoInc t"

lemma keyToIdx_home: "keyToIdx h t k = (home h t k, info_in h t k (home h t k))"
  by (simp add: home_def home_info_def info_in_def)

lemma info_in_next: "home h t k \<le> i \<Longrightarrow> info_in h t k (Suc i) = info_in h t k i + mInfoInc t"
  by (simp add: info_in_def Suc_diff_le)

lemma info_in_next2: "home h t k \<le> i \<Longrightarrow> info_in h t k (Suc (Suc i)) = info_in h t k i + 2 * mInfoInc t"
  by (simp add: info_in_next)

lemma home_simps [simp]:
  "home h (t\<lparr>mInfo := f\<rparr>) k = home h t k" "home h (t\<lparr>mKeyVals := ks\<rparr>) k = home h t k"
  "home h (t\<lparr>mNumElements := n\<rparr>) k = home h t k" "home h (t\<lparr>mMaxNumElementsAllowed := m\<rparr>) k = home h t k"
  by (simp_all add: home_def keyToIdx_def)

lemma info_in_simps [simp]:
  "info_in h (t\<lparr>mInfo := f\<rparr>) k = info_in h t k" "info_in h (t\<lparr>mKeyVals := ks\<rparr>) k = info_in h t k"
  "info_in h (t\<lparr>mNumElements := n\<rparr>) k = info_in h t k"
  "info_in h (t\<lparr>mMaxNumElementsAllowed := m\<rparr>) k = info_in h t k"
  by (simp_all add: fun_eq_iff info_in_def home_info_def keyToIdx_def)

section \<open>The invariant\<close>

text \<open>Info bytes never jump: a slot is at most one increment richer than the slot before it.\<close>

definition gaps_ok :: "nat \<Rightarrow> nat \<Rightarrow> nat list \<Rightarrow> bool" where
  "gaps_ok inc n f \<longleftrightarrow> f ! 0 < 2 * inc \<and> (\<forall>i. Suc i < n \<longrightarrow> f ! Suc i \<le> max (f ! i) (inc - 1) + inc)"

definition shape_ok :: "('k, 'v) Table \<Rightarrow> bool" where
  "shape_ok t \<longleftrightarrow> (let n = length (mKeyVals t) in
     7 \<le> mMask t \<and> n = calcNumElementsWithBuffer (mMask t + 1) \<and> length (mInfo t) = n + 8 \<and>
     mInfo t ! n = 1 \<and> (\<forall>j. n < j \<and> j < n + 8 \<longrightarrow> mInfo t ! j = 0) \<and>
     mInfoHashShift t \<le> 4 \<and> mInfoInc t = 32 div 2 ^ mInfoHashShift t)"

definition slots_ok :: "('k \<Rightarrow> u64) \<Rightarrow> ('k, 'v) Table \<Rightarrow> bool" where
  "slots_ok h t \<longleftrightarrow> (\<forall>i < length (mKeyVals t). mInfo t ! i \<le> 255 \<and>
     (mKeyVals t ! i = None \<longrightarrow> mInfo t ! i = 0) \<and>
     (\<forall>k v. mKeyVals t ! i = Some (k, v) \<longrightarrow> home h t k \<le> i \<and> mInfo t ! i = info_in h t k i))"

definition room_ok :: "('k, 'v) Table \<Rightarrow> bool" where
  "room_ok t \<longleftrightarrow> mNumElements t = length (entries t) \<and>
     mNumElements t \<le> calcMaxNumElementsAllowed (mMask t + 1) \<and>
     mMaxNumElementsAllowed t \<le> calcMaxNumElementsAllowed (mMask t + 1) \<and>
     (mMaxNumElementsAllowed t \<noteq> 0 \<longrightarrow> (\<forall>i < length (mKeyVals t). mInfo t ! i + mInfoInc t \<le> 255))"

definition array_ok :: "('k \<Rightarrow> u64) \<Rightarrow> ('k, 'v) Table \<Rightarrow> bool" where
  "array_ok h t \<longleftrightarrow> shape_ok t \<and> slots_ok h t \<and> gaps_ok (mInfoInc t) (length (mKeyVals t)) (mInfo t) \<and>
     room_ok t \<and> distinct (map fst (entries t))"

definition is_dummy :: "('k, 'v) Table \<Rightarrow> bool" where
  "is_dummy t \<longleftrightarrow> t = new_table\<lparr>mHashMultiplier := mHashMultiplier t\<rparr>"

definition table_inv :: "('k \<Rightarrow> u64) \<Rightarrow> ('k, 'v) Table \<Rightarrow> bool" where
  "table_inv h t \<longleftrightarrow> is_dummy t \<or> array_ok h t"

section \<open>Arithmetic of the shape\<close>

lemma inc_cases:
  assumes "shape_ok t"
  shows "mInfoInc t = 2 \<or> mInfoInc t = 4 \<or> mInfoInc t = 8 \<or> mInfoInc t = 16 \<or> mInfoInc t = 32"
proof -
  have "mInfoHashShift t \<in> {0, 1, 2, 3, 4}" "mInfoInc t = 32 div 2 ^ mInfoHashShift t"
    using assms by (auto simp: shape_ok_def Let_def)
  then show ?thesis by (elim insertE) auto
qed

lemma inc_bounds: "shape_ok t \<Longrightarrow> 2 \<le> mInfoInc t \<and> mInfoInc t \<le> 32"
  using inc_cases [of t] by auto

lemma home_le: "home h t k \<le> mMask t"
proof -
  have "unat (w AND of_nat (mMask t) :: u64) \<le> mMask t" for w :: u64
  proof -
    have "w AND of_nat (mMask t) \<le> (of_nat (mMask t) :: u64)" by (rule word_and_le1)
    then have "unat (w AND of_nat (mMask t)) \<le> unat (of_nat (mMask t) :: u64)" by (simp add: word_le_nat_alt)
    also have "\<dots> \<le> mMask t" by (simp add: unsigned_of_nat take_bit_nat_less_eq_self)
    finally show ?thesis .
  qed
  then show ?thesis by (simp add: home_def keyToIdx_def Let_def)
qed

lemma shape_length: "shape_ok t \<Longrightarrow> mMask t < length (mKeyVals t)"
  by (auto simp: shape_ok_def Let_def calcNumElementsWithBuffer_def)

lemma home_less: "shape_ok t \<Longrightarrow> home h t k < length (mKeyVals t)"
  using home_le [of h t k] shape_length [of t] by linarith

text \<open>The info byte at home lies between one and two increments.\<close>

lemma home_info_bounds:
  assumes "shape_ok t"
  shows "mInfoInc t \<le> home_info h t k \<and> home_info h t k < 2 * mInfoInc t"
proof -
  have le: "unat (w AND 31 :: u64) < 32" for w :: u64
  proof -
    have "w AND 31 \<le> (31 :: u64)" by (rule word_and_le1)
    then have "unat (w AND 31) \<le> unat (31 :: u64)" unfolding word_le_nat_alt .
    then show ?thesis by simp
  qed
  have s: "mInfoHashShift t \<le> 4" "mInfoInc t = 32 div 2 ^ mInfoHashShift t"
    using assms by (auto simp: shape_ok_def Let_def)
  then have "32 = mInfoInc t * 2 ^ mInfoHashShift t"
  proof -
    have "mInfoHashShift t \<in> {0, 1, 2, 3, 4}" using s(1) by auto
    then show ?thesis using s(2) by (elim insertE) auto
  qed
  then have "unat (drop_bit (mInfoHashShift t) u :: u64) < mInfoInc t" if "unat u < 32" for u
    using that by (simp add: unat_drop_bit_eq drop_bit_nat_def less_mult_imp_div_less)
  with le have "unat (drop_bit (mInfoHashShift t) (w AND 31) :: u64) < mInfoInc t" for w by blast
  then show ?thesis by (simp add: home_info_def keyToIdx_def Let_def del: drop_bit_and)
qed

lemma info_in_ge: "shape_ok t \<Longrightarrow> mInfoInc t \<le> info_in h t k i"
  using home_info_bounds [of t h k] by (simp add: info_in_def)

lemma info_in_home: "shape_ok t \<Longrightarrow> info_in h t k (home h t k) < 2 * mInfoInc t"
  using home_info_bounds [of t h k] by (simp add: info_in_def)

section \<open>Slots\<close>

lemma slot_cases:
  assumes "slots_ok h t" and "i < length (mKeyVals t)"
  obtains "mKeyVals t ! i = None" "mInfo t ! i = 0"
  | k v where "mKeyVals t ! i = Some (k, v)" "home h t k \<le> i" "mInfo t ! i = info_in h t k i"
  using assms by (cases "mKeyVals t ! i") (auto simp: slots_ok_def)

lemma slot_zero:
  assumes "shape_ok t" and "slots_ok h t" and "i < length (mKeyVals t)"
  shows "mInfo t ! i = 0 \<longleftrightarrow> mKeyVals t ! i = None"
  using assms(2,3)
proof (cases rule: slot_cases)
  case (2 k v)
  then show ?thesis using info_in_ge [OF assms(1), of h k i] inc_bounds [OF assms(1)] by simp
qed simp

lemma key_at_info:
  assumes "slots_ok h t" and "key_at t i k"
  shows "home h t k \<le> i" and "mInfo t ! i = info_in h t k i"
  using assms by (auto simp: slots_ok_def key_at_def)

lemma length_mInfo: "shape_ok t \<Longrightarrow> length (mInfo t) = length (mKeyVals t) + 8"
  by (simp add: shape_ok_def Let_def)

lemma sentinel: "shape_ok t \<Longrightarrow> mInfo t ! length (mKeyVals t) = 1"
  unfolding shape_ok_def Let_def by metis

lemma padding: "shape_ok t \<Longrightarrow> length (mKeyVals t) \<le> j \<Longrightarrow> j < length (mKeyVals t) + 8 \<Longrightarrow> mInfo t ! j \<le> 1"
  by (cases "j = length (mKeyVals t)") (auto simp: shape_ok_def Let_def)

text \<open>Between the home of a stored key and its slot, no slot is poorer than the key would be.\<close>

lemma richer_before:
  assumes sh: "shape_ok t" and g: "gaps_ok (mInfoInc t) (length (mKeyVals t)) (mInfo t)"
    and i: "i < length (mKeyVals t)" and j: "home h t k \<le> j" "j \<le> i"
    and rich: "info_in h t k i \<le> mInfo t ! i"
  shows "info_in h t k j \<le> mInfo t ! j"
  using j(2)
proof (induction rule: inc_induct)
  case base
  show ?case by (rule rich)
next
  case (step m)
  have "mInfo t ! Suc m \<le> max (mInfo t ! m) (mInfoInc t - 1) + mInfoInc t"
    using g step.hyps i by (auto simp: gaps_ok_def)
  moreover have "info_in h t k (Suc m) = info_in h t k m + mInfoInc t"
    using j(1) step.hyps(1) by (intro info_in_next) simp
  moreover have "mInfoInc t \<le> info_in h t k m" "2 \<le> mInfoInc t"
    using info_in_ge [OF sh] inc_bounds [OF sh] by auto
  ultimately show ?case using step.IH by (auto simp: max_def split: if_splits)
qed

lemma key_at_richer:
  assumes "shape_ok t" and "slots_ok h t" and "gaps_ok (mInfoInc t) (length (mKeyVals t)) (mInfo t)"
    and "key_at t i k" and "home h t k \<le> j" and "j \<le> i"
  shows "info_in h t k j \<le> mInfo t ! j"
proof (rule richer_before [OF assms(1,3) _ assms(5,6)])
  show "i < length (mKeyVals t)" using assms(4) by (simp add: key_at_def)
  show "info_in h t k i \<le> mInfo t ! i" using key_at_info(2) [OF assms(2,4)] by simp
qed

section \<open>Lookup\<close>

lemma slot_matches_ok:
  assumes sh: "shape_ok t" and sl: "slots_ok h t" and i: "home h t k \<le> i" "i \<le> length (mKeyVals t)"
  shows "slot_matches t k (info_in h t k i) i = Inr (key_at t i k)"
proof (cases "i = length (mKeyVals t)")
  case True
  have "info_in h t k i \<noteq> 1" using info_in_ge [OF sh, of h k i] inc_bounds [OF sh] by auto
  then show ?thesis
    using True sentinel [OF sh] length_mInfo [OF sh]
    by (simp add: slot_matches_def info_at_def key_at_def)
next
  case False
  with i(2) have less: "i < length (mKeyVals t)" by simp
  from sl less show ?thesis
  proof (cases rule: slot_cases)
    case 1
    have "info_in h t k i \<noteq> 0" using info_in_ge [OF sh, of h k i] inc_bounds [OF sh] by auto
    then show ?thesis
      using 1 less length_mInfo [OF sh] by (simp add: slot_matches_def info_at_def key_at_def)
  next
    case (2 k' v)
    then show ?thesis
      using less length_mInfo [OF sh] by (auto simp: slot_matches_def info_at_def node_at_def key_at_def)
  qed
qed

lemma find_loop_ok:
  assumes sh: "shape_ok t" and sl: "slots_ok h t"
    and g: "gaps_ok (mInfoInc t) (length (mKeyVals t)) (mInfo t)"
    and j: "home h t k \<le> j" "j < length (mKeyVals t)" and none: "\<forall>i < j. \<not> key_at t i k"
  shows "\<exists>r. find_loop t k (info_in h t k j) j = Inr r \<and>
    (if has_key t k then key_at t r k else r = length (mKeyVals t))"
  using j none
proof (induction "length (mKeyVals t) - j" arbitrary: j rule: less_induct)
  case less
  let ?n = "length (mKeyVals t)"
  have m: "slot_matches t k (info_in h t k j) j = Inr (key_at t j k)"
      "slot_matches t k (info_in h t k j + mInfoInc t) (Suc j) = Inr (key_at t (Suc j) k)"
    using slot_matches_ok [OF sh sl less.prems(1)] slot_matches_ok [OF sh sl, of k "Suc j"] less.prems
    by (simp_all add: info_in_next)
  have i: "info_at t (Suc (Suc j)) = Inr (mInfo t ! Suc (Suc j))"
    using less.prems(2) length_mInfo [OF sh] by (simp add: info_at_def)
  have mask: "mMask t \<noteq> 0" using sh by (auto simp: shape_ok_def Let_def)
  have found: "has_key t k" if "key_at t i k" for i using that by (auto simp: has_key_at)
  note step = find_loop.simps [of t k "info_in h t k j" j] m i
  show ?case
  proof (cases "key_at t j k \<or> key_at t (Suc j) k")
    case True
    then show ?thesis using step found by auto
  next
    case False
    then have none: "\<forall>i < Suc (Suc j). \<not> key_at t i k" using less.prems(3) by (auto simp: less_Suc_eq)
    have nn: "info_in h t k (Suc (Suc j)) = info_in h t k j + 2 * mInfoInc t"
      using less.prems(1) by (rule info_in_next2)
    show ?thesis
    proof (cases "info_in h t k (Suc (Suc j)) \<le> mInfo t ! Suc (Suc j)")
      case True
      have "Suc (Suc j) < ?n"
      proof (rule ccontr)
        assume "\<not> ?thesis"
        then have "mInfo t ! Suc (Suc j) \<le> 1" using less.prems(2) by (intro padding [OF sh]) auto
        then show False using True info_in_ge [OF sh, of h k "Suc (Suc j)"] inc_bounds [OF sh] by auto
      qed
      then have "\<exists>r. find_loop t k (info_in h t k (Suc (Suc j))) (Suc (Suc j)) = Inr r \<and>
          (if has_key t k then key_at t r k else r = ?n)"
        using less.prems(1) none by (intro less.hyps) auto
      then show ?thesis using step False True nn by auto
    next
      case poor: False
      have "\<not> key_at t i k" for i
      proof
        assume k: "key_at t i k"
        then have "Suc (Suc j) \<le> i" using none by (meson not_less)
        from key_at_richer [OF sh sl g k _ this] less.prems(1) poor show False by simp
      qed
      then have "\<not> has_key t k" by (simp add: has_key_at)
      then show ?thesis using step False poor nn mask by auto
    qed
  qed
qed

lemma findIdx_ok:
  assumes "table_inv h t"
  obtains r where "findIdx h t k = Inr r" and "if has_key t k then key_at t r k else r = length (mKeyVals t)"
proof (cases "is_dummy t")
  case True
  then obtain m where t: "t = new_table\<lparr>mHashMultiplier := m\<rparr>" by (auto simp: is_dummy_def)
  obtain info where info: "keyToIdx h t k = (0, info)" "0 < info"
    using that by (simp add: t keyToIdx_def new_table_def Let_def InitialInfoInc_def)
  have i: "info_at t i = Inr 0" if "i < 8" for i using that by (simp add: t info_at_def new_table_def)
  have "slot_matches t k x i = Inr False" if "0 < x" "i < 8" for x i
    using that i by (simp add: slot_matches_def)
  then have "find_loop t k info 0 = Inr 0"
    using i [of 2] info(2) by (subst find_loop.simps) (simp add: t new_table_def numeral_2_eq_2)
  then have "findIdx h t k = Inr 0" by (simp add: findIdx_def info(1))
  then show ?thesis
    using that [of 0] by (simp add: has_key_def entries_def t new_table_def)
next
  case False
  then have ok: "shape_ok t" "slots_ok h t" "gaps_ok (mInfoInc t) (length (mKeyVals t)) (mInfo t)"
    using assms by (auto simp: table_inv_def array_ok_def)
  have "\<forall>i < home h t k. \<not> key_at t i k" using key_at_info(1) [OF ok(2)] by (meson not_less)
  with find_loop_ok [OF ok order_refl home_less [OF ok(1)]] show ?thesis
    using that by (auto simp: findIdx_def keyToIdx_home)
qed

lemma is_dummy_keys: "is_dummy t \<Longrightarrow> mKeyVals t = []"
  unfolding is_dummy_def new_table_def by (erule ssubst) simp

lemma table_inv_distinct: "table_inv h t \<Longrightarrow> distinct (map fst (entries t))"
  by (auto simp: table_inv_def array_ok_def entries_def is_dummy_keys)

text \<open>\<open>find\<close> never reads outside the array and returns exactly what is stored.\<close>

lemma table_find_ok:
  assumes "table_inv h t"
  shows "table_find h t k = Inr (map_option (\<lambda>v. (k, v)) (map_of (entries t) k))"
proof -
  obtain r where r: "findIdx h t k = Inr r" "if has_key t k then key_at t r k else r = length (mKeyVals t)"
    using assms by (rule findIdx_ok)
  show ?thesis
  proof (cases "has_key t k")
    case True
    then obtain v where v: "r < length (mKeyVals t)" "mKeyVals t ! r = Some (k, v)"
      using r(2) by (auto simp: key_at_def)
    then have "(k, v) \<in> set (entries t)" by (auto simp: entries_nth)
    then have "map_of (entries t) k = Some v" using table_inv_distinct [OF assms] by simp
    then show ?thesis using r(1) v by (simp add: table_find_def node_at_def)
  next
    case False
    then have "map_of (entries t) k = None" by (auto simp: has_key_def map_of_eq_None_iff)
    then show ?thesis using r False by (simp add: table_find_def)
  qed
qed

end
