(* ===== verification/Robin_Hood_Insert.thy ===== *)
theory Robin_Hood_Insert
  imports Robin_Hood_Inv
begin

text \<open>
  Taking a slot: there is an empty slot inside the array whenever the table is not full, shifting the
  slots in between keeps the Robin Hood invariant, and the contents gain exactly the new pair.
\<close>

section \<open>Contents under moves\<close>

lemma mset_somes_cong: "mset xs = mset ys \<Longrightarrow> mset (somes xs) = mset (somes ys)"
  unfolding somes_filter mset_map mset_filter by simp

lemma mset_entries_set:
  "i < length ks \<Longrightarrow> ks ! i = None \<Longrightarrow>
    mset (somes (ks[i := Some x])) = add_mset x (mset (somes ks))"
proof (induction ks arbitrary: i)
  case (Cons k ks)
  then show ?case by (cases i; cases k) auto
qed simp

lemma mset_entries_remove:
  assumes "i < length ks" and "ks ! i = Some x"
  shows "add_mset x (mset (somes (ks[i := None]))) = mset (somes ks)"
proof -
  have "mset (somes ((ks[i := None])[i := Some x]))
      = add_mset x (mset (somes (ks[i := None])))"
    using assms(1) by (intro mset_entries_set) simp_all
  moreover have "(ks[i := None])[i := Some x] = ks" using assms by (simp add: list_update_same_conv)
  ultimately show ?thesis by simp
qed

text \<open>Copying a neighbour into an unused slot and clearing the neighbour changes no contents.\<close>

lemma mset_move:
  assumes "i < length ks" and "j < length ks" and "i \<noteq> j"
  shows "mset (somes ((ks[i := ks ! j])[j := None])) = mset (somes (ks[i := None]))"
proof (rule mset_somes_cong)
  let ?ls = "ks[i := None]"
  have "mset (?ls[i := ?ls ! j, j := ?ls ! i]) = mset ?ls"
    using assms by (intro mset_swap) simp_all
  then show "mset ((ks[i := ks ! j])[j := None]) = mset ?ls" using assms by simp
qed

section \<open>Shifting up\<close>

lemma shift_nodes_length [simp]: "length (shift_nodes ks e p) = length ks"
  by (induction ks e p rule: shift_nodes.induct) (subst shift_nodes.simps, simp)

lemma shift_nodes_nth:
  "e < length ks \<Longrightarrow> j < length ks \<Longrightarrow>
    shift_nodes ks e p ! j = (if p < j \<and> j \<le> e then ks ! (j - 1) else ks ! j)"
proof (induction ks e p rule: shift_nodes.induct)
  case (1 ks e p)
  show ?case
  proof (cases "e \<le> p")
    case True
    then show ?thesis by (subst shift_nodes.simps) auto
  next
    case False
    then have "shift_nodes (ks[e := ks ! (e - 1)]) (e - 1) p ! j =
        (if p < j \<and> j \<le> e - 1 then ks[e := ks ! (e - 1)] ! (j - 1) else ks[e := ks ! (e - 1)] ! j)"
      using "1.prems" by (intro "1.IH") auto
    then show ?thesis using False "1.prems" by (subst shift_nodes.simps) (auto simp: nth_list_update)
  qed
qed

lemma shift_nodes_contents:
  "p \<le> e \<Longrightarrow> e < length ks \<Longrightarrow>
    mset (somes ((shift_nodes ks e p)[p := Some kv])) =
      add_mset kv (mset (somes (ks[e := None])))"
proof (induction ks e p rule: shift_nodes.induct)
  case (1 ks e p)
  show ?case
  proof (cases "e \<le> p")
    case True
    then have "e = p" using "1.prems" by simp
    moreover have "mset (somes ((ks[e := None])[e := Some kv]))
        = add_mset kv (mset (somes (ks[e := None])))"
      using "1.prems"(2) by (intro mset_entries_set) simp_all
    ultimately show ?thesis by (subst shift_nodes.simps) simp
  next
    case False
    then have "mset (somes ((shift_nodes (ks[e := ks ! (e - 1)]) (e - 1) p)[p := Some kv]))
        = add_mset kv (mset (somes ((ks[e := ks ! (e - 1)])[e - 1 := None])))"
      using "1.prems" by (intro "1.IH") auto
    also have "mset (somes ((ks[e := ks ! (e - 1)])[e - 1 := None]))
        = mset (somes (ks[e := None]))"
      using False "1.prems" by (intro mset_move) auto
    finally show ?thesis using False by (subst shift_nodes.simps) simp
  qed
qed

text \<open>The info bytes, when none of them can wrap around.\<close>

lemma shift_infos_ok:
  assumes "e < length (mInfo t)" and "\<forall>j < e. mInfo t ! j + mInfoInc t \<le> 255"
  shows "\<exists>f m. shift_infos t e p = t\<lparr>mInfo := f, mMaxNumElementsAllowed := m\<rparr> \<and> length f = length (mInfo t) \<and>
    (\<forall>j < length (mInfo t). f ! j = (if p < j \<and> j \<le> e then mInfo t ! (j - 1) + mInfoInc t else mInfo t ! j)) \<and>
    (m = 0 \<or> m = mMaxNumElementsAllowed t \<and>
      (\<forall>j. p < j \<and> j \<le> e \<longrightarrow> mInfo t ! (j - 1) + 2 * mInfoInc t \<le> 255))"
  using assms
proof (induction e arbitrary: t)
  case 0
  show ?case by (subst shift_infos.simps) (auto intro!: exI [of _ "mInfo t"] exI [of _ "mMaxNumElementsAllowed t"])
next
  case (Suc e)
  let ?inc = "mInfoInc t" and ?f = "mInfo t"
  let ?b = "?f ! e + ?inc"
  let ?f1 = "?f[Suc e := ?b]"
  let ?t1 = "t\<lparr>mInfo := ?f1\<rparr>"
  let ?t2 = "if ?b + ?inc > 255 then ?t1\<lparr>mMaxNumElementsAllowed := 0\<rparr> else ?t1"
  show ?case
  proof (cases "Suc e \<le> p")
    case True
    then show ?thesis
      by (subst shift_infos.simps) (auto intro!: exI [of _ "mInfo t"] exI [of _ "mMaxNumElementsAllowed t"])
  next
    case False
    have b: "?b \<le> 255" using Suc.prems(2) by simp
    have step: "shift_infos t (Suc e) p = shift_infos ?t2 e p"
      using False b by (subst shift_infos.simps) (simp add: Let_def)
    have t2: "mInfo ?t2 = ?f1" "mInfoInc ?t2 = ?inc" by simp_all
    have "e < length (mInfo ?t2)" "\<forall>j < e. mInfo ?t2 ! j + mInfoInc ?t2 \<le> 255"
      using Suc.prems by (simp_all only: t2, auto)
    from Suc.IH [OF this] obtain f m where fm:
        "shift_infos ?t2 e p = ?t2\<lparr>mInfo := f, mMaxNumElementsAllowed := m\<rparr>" "length f = length ?f1"
        "\<forall>j < length ?f1. f ! j = (if p < j \<and> j \<le> e then ?f1 ! (j - 1) + ?inc else ?f1 ! j)"
        "m = 0 \<or> m = mMaxNumElementsAllowed ?t2 \<and> (\<forall>j. p < j \<and> j \<le> e \<longrightarrow> ?f1 ! (j - 1) + 2 * ?inc \<le> 255)"
      unfolding t2 by blast
    have "?t2\<lparr>mInfo := f, mMaxNumElementsAllowed := m\<rparr> = t\<lparr>mInfo := f, mMaxNumElementsAllowed := m\<rparr>" by simp
    moreover have "\<forall>j < length ?f. f ! j = (if p < j \<and> j \<le> Suc e then ?f ! (j - 1) + ?inc else ?f ! j)"
      using fm(3) False Suc.prems(1) by (auto simp: nth_list_update le_Suc_eq)
    moreover have "m = 0 \<or> m = mMaxNumElementsAllowed t \<and>
        (\<forall>j. p < j \<and> j \<le> Suc e \<longrightarrow> ?f ! (j - 1) + 2 * ?inc \<le> 255)"
    proof (cases "m = 0")
      case nz: False
      then have m: "m = mMaxNumElementsAllowed ?t2" "\<forall>j. p < j \<and> j \<le> e \<longrightarrow> ?f1 ! (j - 1) + 2 * ?inc \<le> 255"
        using fm(4) by auto
      then have "\<not> ?b + ?inc > 255" using nz by (auto split: if_splits)
      then have "m = mMaxNumElementsAllowed t" "?f ! e + 2 * ?inc \<le> 255" using m(1) by auto
      moreover have "?f ! (j - 1) + 2 * ?inc \<le> 255" if "p < j" "j \<le> e" for j
      proof -
        have "?f1 ! (j - 1) + 2 * ?inc \<le> 255" using m(2) that by blast
        moreover have "?f1 ! (j - 1) = ?f ! (j - 1)" using that by (intro nth_list_update_neq) simp
        ultimately show ?thesis by simp
      qed
      ultimately show ?thesis by (auto simp: le_Suc_eq)
    qed simp
    ultimately show ?thesis using step fm(1,2) by (intro exI [of _ f] exI [of _ m]) simp
  qed
qed

section \<open>An empty slot\<close>

lemma find_empty_step:
  "p < length (mInfo t) \<Longrightarrow> find_empty t p = (if mInfo t ! p = 0 then Inr p else find_empty t (Suc p))"
  by (subst find_empty.simps) (simp add: info_at_def)

lemma find_empty_ok:
  assumes "p \<le> e" and "e < length (mInfo t)" and "mInfo t ! e = 0"
  shows "\<exists>r. find_empty t p = Inr r \<and> p \<le> r \<and> r \<le> e \<and> mInfo t ! r = 0 \<and> (\<forall>j. p \<le> j \<and> j < r \<longrightarrow> mInfo t ! j \<noteq> 0)"
  using assms(1)
proof (induction rule: inc_induct)
  case base
  show ?case using assms(2,3) by (intro exI [of _ e]) (simp add: find_empty_step)
next
  case (step m)
  then obtain r where r: "find_empty t (Suc m) = Inr r" "Suc m \<le> r" "r \<le> e" "mInfo t ! r = 0"
      "\<forall>j. Suc m \<le> j \<and> j < r \<longrightarrow> mInfo t ! j \<noteq> 0" by blast
  have m: "m < length (mInfo t)" using step.hyps assms(2) by simp
  show ?case
  proof (cases "mInfo t ! m = 0")
    case True
    then show ?thesis using m step.hyps by (intro exI [of _ m]) (simp add: find_empty_step)
  next
    case False
    then have "\<forall>j. m \<le> j \<and> j < r \<longrightarrow> mInfo t ! j \<noteq> 0" using r(5) by (metis Suc_leI le_neq_implies_less)
    then show ?thesis using m False r by (intro exI [of _ r]) (simp add: find_empty_step)
  qed
qed

lemma entries_count: "length (entries t) = card {i. i < length (mKeyVals t) \<and> mKeyVals t ! i \<noteq> None}"
  by (simp add: entries_def somes_filter length_filter_conv_card)

text \<open>
  From any home there is an empty slot before the end of the array: either the buffer is larger than
  the number of pairs, or a pair in the last slot would be further from home than a byte can count.
\<close>

lemma empty_slot_exists:
  assumes sh: "shape_ok t" and sl: "slots_ok h t"
    and room: "length (entries t) < calcMaxNumElementsAllowed (mMask t + 1)"
  shows "\<exists>e. home h t k \<le> e \<and> e < length (mKeyVals t) \<and> mInfo t ! e = 0"
proof (rule ccontr)
  let ?n = "length (mKeyVals t)" and ?c = "calcMaxNumElementsAllowed (mMask t + 1)"
  assume "\<nexists>e. home h t k \<le> e \<and> e < ?n \<and> mInfo t ! e = 0"
  then have full: "\<forall>e. home h t k \<le> e \<longrightarrow> e < ?n \<longrightarrow> mInfo t ! e \<noteq> 0" by simp
  have n: "?n = mMask t + 1 + min ?c 255" 
    using sh unfolding shape_ok_def Let_def calcNumElementsWithBuffer_def by (elim conjE) assumption
  show False
  proof (cases "?c \<le> 255")
    case True
    have "{home h t k..<?n} \<subseteq> {i. i < ?n \<and> mKeyVals t ! i \<noteq> None}"
      using full slot_zero [OF sh sl] by auto
    then have "card {home h t k..<?n} \<le> length (entries t)"
      unfolding entries_count by (intro card_mono) auto
    then show False using True n room home_le [of h t k] by simp
  next
    case False
    let ?i = "?n - 1"
    have i: "?i < ?n" "home h t k \<le> ?i" using n home_le [of h t k] by auto
    from sl i(1) show False
    proof (cases rule: slot_cases)
      case 1
      then show False using full i by simp
    next
      case (2 k' v)
      have "255 \<le> ?i - home h t k'" using n False home_le [of h t k'] by simp
      then have "255 * 2 \<le> (?i - home h t k') * mInfoInc t"
        using inc_bounds [OF sh] by (intro mult_le_mono) auto
      moreover have "mInfo t ! ?i \<le> 255" using sl i(1) by (simp add: slots_ok_def)
      ultimately show False using 2(3) by (simp add: info_in_def)
    qed
  qed
qed

section \<open>Taking a slot\<close>

text \<open>Where a new pair may go, as the searches before an insertion find it.\<close>

definition ready :: "('k \<Rightarrow> u64) \<Rightarrow> ('k, 'v) Table \<Rightarrow> 'k \<Rightarrow> nat \<Rightarrow> bool" where
  "ready h t k p \<longleftrightarrow> home h t k \<le> p \<and> mInfo t ! p < info_in h t k p \<and>
     (\<forall>j. home h t k \<le> j \<and> j < p \<longrightarrow> info_in h t k j \<le> mInfo t ! j)"

lemma ready_filled:
  assumes "shape_ok t" and "ready h t k p" and "home h t k \<le> j" and "j < p"
  shows "mInfo t ! j \<noteq> 0"
proof -
  have "info_in h t k j \<le> mInfo t ! j" using assms(2-4) by (simp add: ready_def)
  then show ?thesis using info_in_ge [OF assms(1), of h k j] inc_bounds [OF assms(1)] by auto
qed

lemma ready_info_small:
  assumes sh: "shape_ok t" and r: "ready h t k p" and p: "p \<le> length (mKeyVals t)"
    and small: "\<forall>i < length (mKeyVals t). mInfo t ! i + mInfoInc t \<le> 255"
  shows "info_in h t k p \<le> 255"
proof (cases "p = home h t k")
  case True
  then show ?thesis using info_in_home [OF sh, of h k] inc_bounds [OF sh] by simp
next
  case False
  then obtain q where q: "p = Suc q" "home h t k \<le> q" using r by (cases p) (auto simp: ready_def le_Suc_eq)
  then have "info_in h t k q \<le> mInfo t ! q" using r by (simp add: ready_def)
  moreover have "mInfo t ! q + mInfoInc t \<le> 255" using small p q(1) by simp
  ultimately show ?thesis using q info_in_next [OF q(2)] by simp
qed

text \<open>The array after a pair has been put into slot \<open>p\<close>, with \<open>r\<close> the empty slot that took up the shift.\<close>

definition shifted :: "nat \<Rightarrow> nat \<Rightarrow> nat \<Rightarrow> nat \<Rightarrow> nat list \<Rightarrow> nat list \<Rightarrow> bool" where
  "shifted p r x inc f g \<longleftrightarrow> length g = length f \<and>
     (\<forall>j < length f. g ! j = (if j = p then x else if p < j \<and> j \<le> r then f ! (j - 1) + inc else f ! j))"

lemma shifted_gaps:
  assumes sh: "shape_ok t" and g: "gaps_ok (mInfoInc t) (length (mKeyVals t)) (mInfo t)"
    and rd: "ready h t k p" and r: "p \<le> r" "r < length (mKeyVals t)" "mInfo t ! r = 0"
    and filled: "\<forall>j. p \<le> j \<and> j < r \<longrightarrow> mInfoInc t \<le> mInfo t ! j"
    and s: "shifted p r (info_in h t k p) (mInfoInc t) (mInfo t) f"
  shows "gaps_ok (mInfoInc t) (length (mKeyVals t)) f"
proof -
  let ?inc = "mInfoInc t" and ?n = "length (mKeyVals t)" and ?f = "mInfo t" and ?x = "info_in h t k p"
  have inc: "2 \<le> ?inc" using inc_bounds [OF sh] by simp
  have len: "length ?f = ?n + 8" using length_mInfo [OF sh] .
  have nth: "f ! j = (if j = p then ?x else if p < j \<and> j \<le> r then ?f ! (j - 1) + ?inc else ?f ! j)"
    if "j < ?n" for j using s that len by (simp add: shifted_def)
  have old: "?f ! Suc i \<le> max (?f ! i) (?inc - 1) + ?inc" if "Suc i < ?n" for i
    using g that by (simp add: gaps_ok_def)
  have x: "?f ! p < ?x" using rd by (simp add: ready_def)
  have pos: "0 < ?n" using r(2) by linarith
  have "f ! 0 < 2 * ?inc"
  proof (cases "p = 0")
    case True
    then have "home h t k = p" using rd by (simp add: ready_def)
    then show ?thesis using info_in_home [OF sh, of h k] nth [OF pos] True by simp
  next
    case False
    then show ?thesis using nth [OF pos] g by (simp add: gaps_ok_def)
  qed
  moreover have "f ! Suc i \<le> max (f ! i) (?inc - 1) + ?inc" if i: "Suc i < ?n" for i
  proof -
    consider "Suc i < p" | "Suc i = p" | "i = p" "i < r" | "p < i" "i < r" | "p \<le> i" "i = r" | "r < i"
      using r(1) by linarith
    then show ?thesis
    proof cases
      case 1
      then show ?thesis using nth [of i] nth [of "Suc i"] i old [OF i] by simp
    next
      case 2
      show ?thesis
      proof (cases "home h t k = p")
        case True
        then show ?thesis using info_in_home [OF sh, of h k] nth [of "Suc i"] i 2 inc by (auto simp: max_def)
      next
        case False
        then have "home h t k \<le> i" using 2 rd by (simp add: ready_def)
        moreover from this have "info_in h t k i \<le> ?f ! i" using 2 rd by (simp add: ready_def)
        ultimately show ?thesis
          using nth [of i] nth [of "Suc i"] i 2 info_in_next [of h t k i] by (simp add: max_def)
      qed
    next
      case 3
      then show ?thesis using nth [of i] nth [of "Suc i"] i x by (simp add: max_def)
    next
      case 4
      then obtain q where q: "i = Suc q" "p \<le> q" by (cases i) auto
      then have "?inc \<le> ?f ! q" "?f ! Suc q \<le> max (?f ! q) (?inc - 1) + ?inc"
        using 4 filled old [of q] i by auto
      then show ?thesis using nth [of i] nth [of "Suc i"] i 4 q by (simp add: max_def split: if_splits)
    next
      case 5
      then show ?thesis using nth [of "Suc i"] i old [OF i] r(3) by (simp add: max_def split: if_splits)
    next
      case 6
      then show ?thesis using nth [of i] nth [of "Suc i"] i r(1) old [OF i] by simp
    qed
  qed
  ultimately show ?thesis by (simp add: gaps_ok_def)
qed

lemma shape_update:
  assumes "shape_ok t" and "length ks = length (mKeyVals t)" and "length f = length (mInfo t)"
    and "\<And>j. length (mKeyVals t) \<le> j \<Longrightarrow> j < length (mKeyVals t) + 8 \<Longrightarrow> f ! j = mInfo t ! j"
  shows "shape_ok (t\<lparr>mKeyVals := ks, mInfo := f, mMaxNumElementsAllowed := m, mNumElements := c\<rparr>)"
proof -
  have "f ! length (mKeyVals t) = mInfo t ! length (mKeyVals t)" by (rule assms(4)) simp_all
  moreover have "\<forall>j. length (mKeyVals t) < j \<and> j < length (mKeyVals t) + 8 \<longrightarrow> f ! j = mInfo t ! j"
    using assms(4) by simp
  ultimately show ?thesis using assms(1-3) unfolding shape_ok_def Let_def by auto
qed

text \<open>The slots after the shift: the new pair, the shifted ones one slot further, and the others.\<close>

lemma inserted_slots:
  assumes sl: "slots_ok h t" and rd: "ready h t k p" and x: "info_in h t k p \<le> 255"
    and small: "\<forall>i < length (mKeyVals t). mInfo t ! i + mInfoInc t \<le> 255"
    and r: "p \<le> r" "r < length (mKeyVals t)" "\<forall>j. p \<le> j \<and> j < r \<longrightarrow> mInfo t ! j \<noteq> 0"
    and f: "\<And>j. j < length (mKeyVals t) \<Longrightarrow> f ! j = (if j = p then info_in h t k p
      else if p < j \<and> j \<le> r then mInfo t ! (j - 1) + mInfoInc t else mInfo t ! j)"
    and ks: "\<And>j. j < length (mKeyVals t) \<Longrightarrow> ks ! j = (if j = p then Some (k, v)
      else if p < j \<and> j \<le> r then mKeyVals t ! (j - 1) else mKeyVals t ! j)"
    and i: "i < length (mKeyVals t)"
  shows "f ! i \<le> 255 \<and> (ks ! i = None \<longrightarrow> f ! i = 0) \<and>
    (\<forall>k v. ks ! i = Some (k, v) \<longrightarrow> home h t k \<le> i \<and> f ! i = info_in h t k i)"
proof -
  consider "i = p" | "p < i" "i \<le> r" | "i < p \<or> r < i" by linarith
  then show ?thesis
  proof cases
    case 1
    then show ?thesis using f [OF i] ks [OF i] x rd by (simp add: ready_def)
  next
    case 2
    then obtain q where q: "i = Suc q" "p \<le> q" "q < r" by (cases i) auto
    then have qn: "q < length (mKeyVals t)" using r(2) by simp
    from sl qn show ?thesis
    proof (cases rule: slot_cases)
      case 1
      then show ?thesis using r(3) q by auto
    next
      case (2 k' v')
      moreover have "mInfo t ! q + mInfoInc t \<le> 255" using small qn by simp
      ultimately show ?thesis using q f [OF i] ks [OF i] info_in_next [of h t k' q] by simp
    qed
  next
    case 3
    have "f ! i = mInfo t ! i" "ks ! i = mKeyVals t ! i" using 3 r(1) f [OF i] ks [OF i] by auto
    then show ?thesis using sl i by (simp add: slots_ok_def)
  qed
qed

lemma info_positive:
  assumes "shape_ok t" and "slots_ok h t" and "j < length (mKeyVals t)" and "mInfo t ! j \<noteq> 0"
  shows "mInfoInc t \<le> mInfo t ! j"
  using assms(2,3)
proof (cases rule: slot_cases)
  case 1
  then show ?thesis using assms(4) by simp
next
  case (2 k' v')
  then show ?thesis using info_in_ge [OF assms(1), of h k' j] by simp
qed

lemma inserted_ok:
  assumes ok: "array_ok h t" and rd: "ready h t k p" and fresh: "\<not> has_key t k"
    and room: "mNumElements t < calcMaxNumElementsAllowed (mMask t + 1)"
    and small: "\<forall>i < length (mKeyVals t). mInfo t ! i + mInfoInc t \<le> 255"
    and r: "p \<le> r" "r < length (mKeyVals t)" "mInfo t ! r = 0" "\<forall>j. p \<le> j \<and> j < r \<longrightarrow> mInfo t ! j \<noteq> 0"
    and s: "shifted p r (info_in h t k p) (mInfoInc t) (mInfo t) f"
    and m: "m = 0 \<or> m = mMaxNumElementsAllowed t \<and> info_in h t k p + mInfoInc t \<le> 255 \<and>
      (\<forall>j. p < j \<and> j \<le> r \<longrightarrow> mInfo t ! (j - 1) + 2 * mInfoInc t \<le> 255)"
    and t': "t' = t\<lparr>mKeyVals := (shift_nodes (mKeyVals t) r p)[p := Some (k, v)], mInfo := f,
      mMaxNumElementsAllowed := m, mNumElements := mNumElements t + 1\<rparr>"
  shows "array_ok h t' \<and> mset (entries t') = add_mset (k, v) (mset (entries t)) \<and> key_at t' p k"
proof -
  let ?inc = "mInfoInc t" and ?n = "length (mKeyVals t)" and ?ks = "mKeyVals t"
  let ?ks' = "(shift_nodes ?ks r p)[p := Some (k, v)]" and ?x = "info_in h t k p"
  have sh: "shape_ok t" and sl: "slots_ok h t" and g: "gaps_ok ?inc ?n (mInfo t)" and rm: "room_ok t"
    and d: "distinct (map fst (entries t))"
    using ok by (simp_all add: array_ok_def)
  have len: "length (mInfo t) = ?n + 8" using length_mInfo [OF sh] .
  have p: "p < ?n" using r by simp
  have nth: "f ! j = (if j = p then ?x else if p < j \<and> j \<le> r then mInfo t ! (j - 1) + ?inc else mInfo t ! j)"
    if "j < ?n + 8" for j using s that len by (simp add: shifted_def)
  have ks: "?ks' ! j = (if j = p then Some (k, v) else if p < j \<and> j \<le> r then ?ks ! (j - 1) else ?ks ! j)"
    if "j < ?n" for j using that p r(2) by (simp add: shift_nodes_nth nth_list_update)
  have x: "?x \<le> 255" using ready_info_small [OF sh rd _ small] p by simp
  have empty: "?ks ! r = None" using slot_zero [OF sh sl r(2)] r(3) by simp
  have "mset (entries t') = add_mset (k, v) (mset (somes (?ks[r := None])))"
    using r(1,2) by (simp add: entries_def t' shift_nodes_contents)
  moreover have "?ks[r := None] = ?ks" using empty r(2) by (simp add: list_update_same_conv)
  ultimately have ms: "mset (entries t') = add_mset (k, v) (mset (entries t))" by (simp add: entries_def)
  have shape: "shape_ok t'"
    unfolding t' using sh s p r(2) nth len by (intro shape_update) (auto simp: shifted_def)
  have "f ! i \<le> 255 \<and> (?ks' ! i = None \<longrightarrow> f ! i = 0) \<and>
      (\<forall>k v. ?ks' ! i = Some (k, v) \<longrightarrow> home h t k \<le> i \<and> f ! i = info_in h t k i)" if "i < ?n" for i
    by (rule inserted_slots [OF sl rd x small r(1,2,4) _ ks that]) (use nth in simp)
  then have slots: "slots_ok h t'" by (simp add: slots_ok_def t')
  have "\<forall>j. p \<le> j \<and> j < r \<longrightarrow> ?inc \<le> mInfo t ! j" using r(2,4) by (auto intro: info_positive [OF sh sl])
  then have gaps: "gaps_ok ?inc ?n f" using shifted_gaps [OF sh g rd r(1,2,3) _ s] by simp
  have "length (entries t') = Suc (length (entries t))" using arg_cong [OF ms, of size] by simp
  moreover have "f ! i + ?inc \<le> 255" if "m \<noteq> 0" "i < ?n" for i
    using m that nth [of i] small by (auto simp: algebra_simps)
  ultimately have room': "room_ok t'"
    using rm room m by (auto simp: room_ok_def t')
  have "distinct (map fst (entries t'))"
  proof -
    have "mset (map fst (entries t')) = mset (k # map fst (entries t))" using ms by simp
    then show ?thesis using d fresh mset_eq_imp_distinct_iff by (fastforce simp: has_key_def)
  qed
  then have "array_ok h t'" using shape slots gaps room' by (simp add: array_ok_def t')
  moreover have "key_at t' p k" using p ks [OF p] by (simp add: key_at_def t')
  ultimately show ?thesis using ms by simp
qed

text \<open>What a table keeps while pairs are added: hash, mask and the width of the info bytes.\<close>

definition same_shape :: "('k, 'v) Table \<Rightarrow> ('k, 'v) Table \<Rightarrow> bool" where
  "same_shape t t' \<longleftrightarrow> mMask t' = mMask t \<and> mHashMultiplier t' = mHashMultiplier t"

lemma shiftUp_ok:
  assumes "r < length (mKeyVals t)" and "length (mInfo t) = length (mKeyVals t) + 8" and "p \<le> r"
    and "\<forall>i < length (mKeyVals t). mInfo t ! i + mInfoInc t \<le> 255"
  shows "\<exists>f m. (if r \<noteq> p then shiftUp r p t else Inr t) =
      Inr (t\<lparr>mKeyVals := shift_nodes (mKeyVals t) r p, mInfo := f, mMaxNumElementsAllowed := m\<rparr>) \<and>
    length f = length (mInfo t) \<and>
    (\<forall>j < length f. f ! j = (if p < j \<and> j \<le> r then mInfo t ! (j - 1) + mInfoInc t else mInfo t ! j)) \<and>
    (m = 0 \<or> m = mMaxNumElementsAllowed t \<and>
      (\<forall>j. p < j \<and> j \<le> r \<longrightarrow> mInfo t ! (j - 1) + 2 * mInfoInc t \<le> 255))"
proof (cases "r = p")
  case True
  then show ?thesis
    by (intro exI [of _ "mInfo t"] exI [of _ "mMaxNumElementsAllowed t"]) (simp add: shift_nodes.simps)
next
  case False
  let ?t = "t\<lparr>mKeyVals := shift_nodes (mKeyVals t) r p\<rparr>"
  have same: "mInfo ?t = mInfo t" "mInfoInc ?t = mInfoInc t" "mMaxNumElementsAllowed ?t = mMaxNumElementsAllowed t"
    by simp_all
  have "r < length (mInfo ?t)" "\<forall>j < r. mInfo ?t ! j + mInfoInc ?t \<le> 255" using assms by auto
  from shift_infos_ok [OF this, of p] obtain f m where
      "shift_infos ?t r p = ?t\<lparr>mInfo := f, mMaxNumElementsAllowed := m\<rparr>" "length f = length (mInfo t)"
      "\<forall>j < length (mInfo t). f ! j = (if p < j \<and> j \<le> r then mInfo t ! (j - 1) + mInfoInc t else mInfo t ! j)"
      "m = 0 \<or> m = mMaxNumElementsAllowed t \<and> (\<forall>j. p < j \<and> j \<le> r \<longrightarrow> mInfo t ! (j - 1) + 2 * mInfoInc t \<le> 255)"
    unfolding same by blast
  then show ?thesis
    using False assms(1,2) by (intro exI [of _ f] exI [of _ m]) (simp add: shiftUp_def Let_def)
qed

lemma occupy_ok:
  assumes ok: "array_ok h t" and rd: "ready h t k p" and p: "p \<le> length (mKeyVals t)"
    and fresh: "\<not> has_key t k" and room: "mNumElements t < calcMaxNumElementsAllowed (mMask t + 1)"
    and small: "\<forall>i < length (mKeyVals t). mInfo t ! i + mInfoInc t \<le> 255"
  shows "\<exists>e t1 t2. occupy p (info_in h t k p) t = Inr (e, t1) \<and> put_node p (k, v) t1 = Inr t2 \<and>
    array_ok h t2 \<and> mset (entries t2) = add_mset (k, v) (mset (entries t)) \<and> key_at t2 p k \<and> same_shape t t2"
proof -
  let ?n = "length (mKeyVals t)" and ?x = "info_in h t k p" and ?inc = "mInfoInc t"
  let ?t = "if ?x + ?inc > 255 then t\<lparr>mMaxNumElementsAllowed := 0\<rparr> else t"
  have sh: "shape_ok t" and sl: "slots_ok h t" and rm: "room_ok t" using ok by (simp_all add: array_ok_def)
  have len: "length (mInfo t) = ?n + 8" using length_mInfo [OF sh] .
  have "length (entries t) < calcMaxNumElementsAllowed (mMask t + 1)" using rm room by (simp add: room_ok_def)
  then obtain e where e: "home h t k \<le> e" "e < ?n" "mInfo t ! e = 0"
    using empty_slot_exists [OF sh sl] by blast
  then have pe: "p \<le> e" using ready_filled [OF sh rd] by (meson not_less)
  have same: "mInfo ?t = mInfo t" "mKeyVals ?t = mKeyVals t" "mInfoInc ?t = ?inc" by simp_all
  obtain r where r: "find_empty ?t p = Inr r" "p \<le> r" "r \<le> e" "mInfo t ! r = 0"
      "\<forall>j. p \<le> j \<and> j < r \<longrightarrow> mInfo t ! j \<noteq> 0"
    using find_empty_ok [of p e ?t, unfolded same] pe e len by auto
  have rn: "r < ?n" using r(3) e(2) by simp
  obtain f m where fm: "(if r \<noteq> p then shiftUp r p ?t else Inr ?t) =
        Inr (?t\<lparr>mKeyVals := shift_nodes (mKeyVals t) r p, mInfo := f, mMaxNumElementsAllowed := m\<rparr>)"
      "length f = length (mInfo t)"
      "\<forall>j < length f. f ! j = (if p < j \<and> j \<le> r then mInfo t ! (j - 1) + ?inc else mInfo t ! j)"
      "m = 0 \<or> m = mMaxNumElementsAllowed ?t \<and> (\<forall>j. p < j \<and> j \<le> r \<longrightarrow> mInfo t ! (j - 1) + 2 * ?inc \<le> 255)"
    using shiftUp_ok [of r ?t p, unfolded same] rn len r(2) small by blast
  have x: "?x mod 256 = ?x" using ready_info_small [OF sh rd p small] by simp
  let ?t1 = "t\<lparr>mKeyVals := shift_nodes (mKeyVals t) r p, mInfo := f[p := ?x], mMaxNumElementsAllowed := m,
      mNumElements := mNumElements t + 1\<rparr>"
  let ?t2 = "t\<lparr>mKeyVals := (shift_nodes (mKeyVals t) r p)[p := Some (k, v)], mInfo := f[p := ?x],
      mMaxNumElementsAllowed := m, mNumElements := mNumElements t + 1\<rparr>"
  have "?t\<lparr>mKeyVals := shift_nodes (mKeyVals t) r p, mInfo := f, mMaxNumElementsAllowed := m\<rparr>
      = t\<lparr>mKeyVals := shift_nodes (mKeyVals t) r p, mInfo := f, mMaxNumElementsAllowed := m\<rparr>" by simp
  then have "occupy p ?x t = Inr (r, ?t1)"
    using r(1,2) fm(1,2) rn len x by (simp add: occupy_def Let_def)
  moreover have "put_node p (k, v) ?t1 = Inr ?t2" using r(2) rn by (simp add: put_node_def)
  moreover have "shifted p r ?x ?inc (mInfo t) (f[p := ?x])"
    using fm(2,3) by (auto simp: shifted_def nth_list_update)
  moreover have "m = 0 \<or> m = mMaxNumElementsAllowed t \<and> ?x + ?inc \<le> 255 \<and>
      (\<forall>j. p < j \<and> j \<le> r \<longrightarrow> mInfo t ! (j - 1) + 2 * ?inc \<le> 255)"
    using fm(4) by (auto split: if_splits)
  ultimately show ?thesis
    using inserted_ok [OF ok rd fresh room small r(2) rn r(4,5), of "f[p := ?x]" m ?t2 v]
    by (intro exI [of _ r] exI [of _ ?t1] exI [of _ ?t2]) (simp add: same_shape_def)
qed

section \<open>The searches before an insertion\<close>

text \<open>What the searches keep: every slot passed is at least as rich as the key would be there.\<close>

definition passed :: "('k \<Rightarrow> u64) \<Rightarrow> ('k, 'v) Table \<Rightarrow> 'k \<Rightarrow> nat \<Rightarrow> bool" where
  "passed h t k i \<longleftrightarrow> home h t k \<le> i \<and> i \<le> length (mKeyVals t) \<and>
     (\<forall>j. home h t k \<le> j \<and> j < i \<longrightarrow> info_in h t k j \<le> mInfo t ! j)"

lemma passed_home: "shape_ok t \<Longrightarrow> passed h t k (home h t k)"
  using home_less [of t h k] by (simp add: passed_def)

lemma passed_Suc:
  assumes sh: "shape_ok t" and "passed h t k i" and rich: "info_in h t k i \<le> mInfo t ! i"
  shows "passed h t k (Suc i)" and "i < length (mKeyVals t)"
proof -
  show i: "i < length (mKeyVals t)"
  proof (rule ccontr)
    assume "\<not> ?thesis"
    then have "mInfo t ! i = 1" using assms(2) sentinel [OF sh] by (simp add: passed_def)
    then show False using rich info_in_ge [OF sh, of h k i] inc_bounds [OF sh] by simp
  qed
  then show "passed h t k (Suc i)" using assms(2) rich by (auto simp: passed_def less_Suc_eq)
qed

lemma skip_occupied_ok:
  assumes sh: "shape_ok t" and "passed h t k i"
  shows "\<exists>p. skip_occupied t (info_in h t k i) i = Inr (info_in h t k p, p) \<and>
    ready h t k p \<and> p \<le> length (mKeyVals t)"
  using assms(2)
proof (induction "length (mInfo t) - i" arbitrary: i rule: less_induct)
  case less
  have i: "i < length (mInfo t)" using less.prems length_mInfo [OF sh] by (simp add: passed_def)
  have step: "skip_occupied t (info_in h t k i) i = (if info_in h t k i \<le> mInfo t ! i
      then skip_occupied t (info_in h t k i + mInfoInc t) (Suc i) else Inr (info_in h t k i, i))"
    using i by (subst skip_occupied.simps) (simp add: info_at_def)
  show ?case
  proof (cases "info_in h t k i \<le> mInfo t ! i")
    case True
    have "passed h t k (Suc i)" using passed_Suc(1) [OF sh less.prems True] .
    moreover have "info_in h t k (Suc i) = info_in h t k i + mInfoInc t"
      using less.prems by (intro info_in_next) (simp add: passed_def)
    ultimately show ?thesis using less.hyps [of "Suc i"] i step True by simp
  next
    case False
    then show ?thesis using less.prems step by (auto simp: passed_def ready_def)
  qed
qed

lemma nextWhileLess_ok:
  assumes sh: "shape_ok t" and "passed h t k i"
    and "\<forall>j. home h t k \<le> j \<and> j < i \<longrightarrow> info_in h t k j < mInfo t ! j"
  shows "\<exists>p. nextWhileLess t (info_in h t k i) i = Inr (info_in h t k p, p) \<and> passed h t k p \<and>
    mInfo t ! p \<le> info_in h t k p \<and> (\<forall>j. home h t k \<le> j \<and> j < p \<longrightarrow> info_in h t k j < mInfo t ! j)"
  using assms(2,3)
proof (induction "length (mInfo t) - i" arbitrary: i rule: less_induct)
  case less
  have i: "i < length (mInfo t)" using less.prems(1) length_mInfo [OF sh] by (simp add: passed_def)
  have step: "nextWhileLess t (info_in h t k i) i = (if info_in h t k i < mInfo t ! i
      then nextWhileLess t (info_in h t k i + mInfoInc t) (Suc i) else Inr (info_in h t k i, i))"
    using i by (subst nextWhileLess.simps) (simp add: info_at_def)
  show ?case
  proof (cases "info_in h t k i < mInfo t ! i")
    case True
    have "passed h t k (Suc i)" using passed_Suc(1) [OF sh less.prems(1)] True by simp
    moreover have "info_in h t k (Suc i) = info_in h t k i + mInfoInc t"
      using less.prems(1) by (intro info_in_next) (simp add: passed_def)
    moreover have "\<forall>j. home h t k \<le> j \<and> j < Suc i \<longrightarrow> info_in h t k j < mInfo t ! j"
      using less.prems(2) True by (auto simp: less_Suc_eq)
    ultimately show ?thesis using less.hyps [of "Suc i"] i step True by simp
  next
    case False
    then show ?thesis using less.prems step by auto
  qed
qed

text \<open>The comparison of keys finds the key where it is, or ends where it may be put.\<close>

lemma skip_equal_ok:
  assumes ok: "array_ok h t" and "passed h t k i" and "mInfo t ! i \<le> info_in h t k i"
    and "\<forall>j < i. \<not> key_at t j k"
  shows "\<exists>p. skip_equal t k (info_in h t k i) i = Inr (has_key t k, info_in h t k p, p) \<and>
    (if has_key t k then key_at t p k else ready h t k p \<and> p \<le> length (mKeyVals t))"
  using assms(2-4)
proof (induction "length (mInfo t) - i" arbitrary: i rule: less_induct)
  case less
  have sh: "shape_ok t" and sl: "slots_ok h t" and g: "gaps_ok (mInfoInc t) (length (mKeyVals t)) (mInfo t)"
    using ok by (simp_all add: array_ok_def)
  have i: "i < length (mInfo t)" using less.prems(1) length_mInfo [OF sh] by (simp add: passed_def)
  have h: "home h t k \<le> i" using less.prems(1) by (simp add: passed_def)
  show ?case
  proof (cases "info_in h t k i = mInfo t ! i")
    case True
    have pi: "passed h t k (Suc i)" and less_n: "i < length (mKeyVals t)"
      using passed_Suc [OF sh less.prems(1)] True by auto
    obtain k' v where kv: "mKeyVals t ! i = Some (k', v)"
    proof (cases rule: slot_cases [OF sl less_n])
      case 1
      then show ?thesis using True info_in_ge [OF sh, of h k i] inc_bounds [OF sh] by auto
    qed
    have step: "skip_equal t k (info_in h t k i) i = (if k = k' then Inr (True, info_in h t k i, i)
        else skip_equal t k (info_in h t k i + mInfoInc t) (Suc i))"
      using i True kv less_n by (subst skip_equal.simps) (simp add: info_at_def node_at_def)
    show ?thesis
    proof (cases "k = k'")
      case eq: True
      then have "key_at t i k" using kv less_n by (simp add: key_at_def)
      moreover from this have "has_key t k" by (auto simp: has_key_at)
      ultimately show ?thesis using step eq by auto
    next
      case neq: False
      have nn: "info_in h t k (Suc i) = info_in h t k i + mInfoInc t" using h by (rule info_in_next)
      have "mInfo t ! Suc i \<le> info_in h t k (Suc i)"
      proof (cases "Suc i < length (mKeyVals t)")
        case True
        then have "mInfo t ! Suc i \<le> max (mInfo t ! i) (mInfoInc t - 1) + mInfoInc t"
          using g by (simp add: gaps_ok_def)
        moreover have "mInfoInc t \<le> mInfo t ! i"
          using info_in_ge [OF sh, of h k i] \<open>info_in h t k i = mInfo t ! i\<close> by simp
        ultimately show ?thesis using nn \<open>info_in h t k i = mInfo t ! i\<close> by (simp add: max_def split: if_splits)
      next
        case False
        then have "mInfo t ! Suc i = 1" using less_n sentinel [OF sh] by (metis Suc_lessI)
        then show ?thesis using nn inc_bounds [OF sh] by simp
      qed
      moreover have "\<forall>j < Suc i. \<not> key_at t j k"
        using less.prems(3) neq kv by (auto simp: less_Suc_eq key_at_def)
      ultimately show ?thesis using less.hyps [of "Suc i"] pi i step neq nn by auto
    qed
  next
    case False
    then have poor: "mInfo t ! i < info_in h t k i" using less.prems(2) by simp
    have "\<not> key_at t j k" for j
    proof
      assume kj: "key_at t j k"
      then have "i \<le> j" using less.prems(3) by (meson not_less)
      from key_at_richer [OF sh sl g kj h this] poor show False by simp
    qed
    then have "\<not> has_key t k" by (simp add: has_key_at)
    moreover have "skip_equal t k (info_in h t k i) i = Inr (False, info_in h t k i, i)"
      using i False by (subst skip_equal.simps) (simp add: info_at_def)
    ultimately show ?thesis using less.prems(1) poor by (auto simp: ready_def passed_def)
  qed
qed

lemma search_ok:
  assumes ok: "array_ok h t"
  obtains i p where "nextWhileLess t (info_in h t k (home h t k)) (home h t k) = Inr (info_in h t k i, i)"
    and "skip_equal t k (info_in h t k i) i = Inr (has_key t k, info_in h t k p, p)"
    and "if has_key t k then key_at t p k else ready h t k p \<and> p \<le> length (mKeyVals t)"
proof -
  have sh: "shape_ok t" and sl: "slots_ok h t" using ok by (simp_all add: array_ok_def)
  obtain i where i: "nextWhileLess t (info_in h t k (home h t k)) (home h t k) = Inr (info_in h t k i, i)"
      "passed h t k i" "mInfo t ! i \<le> info_in h t k i"
      "\<forall>j. home h t k \<le> j \<and> j < i \<longrightarrow> info_in h t k j < mInfo t ! j"
    using nextWhileLess_ok [OF sh passed_home [OF sh], of h k] by auto
  have "\<not> key_at t j k" if "j < i" for j
  proof
    assume kj: "key_at t j k"
    then have "home h t k \<le> j" "mInfo t ! j = info_in h t k j" using key_at_info [OF sl] by blast+
    then show False using i(4) that by auto
  qed
  then obtain p where "skip_equal t k (info_in h t k i) i = Inr (has_key t k, info_in h t k p, p)"
      "if has_key t k then key_at t p k else ready h t k p \<and> p \<le> length (mKeyVals t)"
    using skip_equal_ok [OF ok i(2,3)] by auto
  with i(1) show ?thesis by (rule that)
qed

end
