(* ===== verification/Robin_Hood_Grow.thy ===== *)
theory Robin_Hood_Grow
  imports Robin_Hood_Insert
begin

text \<open>
  Narrowing the info bytes, rehashing, and the insertion built on them: each keeps the invariant and
  the contents, and the only failure is the overflow that the source reports by an exception.
\<close>

section \<open>A fresh array\<close>

lemma home_less_fresh: "m \<le> calcNumElementsWithBuffer m"
  by (simp add: calcNumElementsWithBuffer_def)

lemma initData_ok:
  assumes "8 \<le> m"
  shows "array_ok h (initData m t)" and "entries (initData m t) = []"
    and "mMask (initData m t) = m - 1" and "mNumElements (initData m t) = 0"
proof -
  let ?t = "initData m t" and ?n = "calcNumElementsWithBuffer m"
  have n: "0 < ?n" using assms home_less_fresh [of m] by simp
  have info: "mInfo ?t ! i = (if i = ?n then 1 else 0)" if "i < ?n + 8" for i
    using that by (simp add: initData_def Let_def calcNumBytesInfo_def nth_list_update)
  have keys: "mKeyVals ?t = replicate ?n None" by (simp add: initData_def Let_def)
  show e: "entries ?t = []" by (simp add: entries_def keys somes_filter)
  show m: "mMask ?t = m - 1" "mNumElements ?t = 0" by (simp_all add: initData_def Let_def)
  have inc: "mInfoInc ?t = 32" "mInfoHashShift ?t = 0" "mMaxNumElementsAllowed ?t = calcMaxNumElementsAllowed m"
    by (simp_all add: initData_def Let_def InitialInfoInc_def)
  have "length (mInfo ?t) = ?n + 8" by (simp add: initData_def Let_def calcNumBytesInfo_def)
  then have "shape_ok ?t"
    using assms info inc by (simp add: shape_ok_def Let_def keys m)
  moreover have "slots_ok h ?t" using info by (simp add: slots_ok_def keys)
  moreover have "gaps_ok (mInfoInc ?t) (length (mKeyVals ?t)) (mInfo ?t)"
    using info n by (simp add: gaps_ok_def keys inc)
  moreover have "room_ok ?t" using assms info e m inc by (simp add: room_ok_def keys)
  ultimately show "array_ok h ?t" using e by (simp add: array_ok_def)
qed

section \<open>Narrower info bytes\<close>

lemma halve_blocks_nth:
  assumes "length f = n + 8" and "j < n + 8"
  shows "halve_blocks n f ! j = (if j < 8 * ((n + 7) div 8) then f ! j div 2 else f ! j)"
proof -
  have m: "8 * ((n + 7) div 8) \<le> n + 8" by linarith
  then show ?thesis using assms by (auto simp: halve_blocks_def Let_def nth_append min_def)
qed

lemma halve_blocks_length: "length f = n + 8 \<Longrightarrow> length (halve_blocks n f) = n + 8"
proof -
  assume "length f = n + 8"
  moreover have "8 * ((n + 7) div 8) \<le> n + 8" by linarith
  ultimately show ?thesis by (simp add: halve_blocks_def Let_def)
qed

lemma block_covers: "j < n \<Longrightarrow> j < 8 * ((n + 7) div 8)" for j n :: nat
  by linarith

lemma inc_even:
  assumes "shape_ok t" and "2 < mInfoInc t"
  obtains c where "mInfoInc t = 2 * c" and "2 \<le> c" and "c \<le> 16" and "mInfoHashShift t < 4"
    and "c = 32 div 2 ^ Suc (mInfoHashShift t)"
proof -
  have s: "mInfoHashShift t \<in> {0, 1, 2, 3, 4}" "mInfoInc t = 32 div 2 ^ mInfoHashShift t"
    using assms(1) by (auto simp: shape_ok_def Let_def)
  then show ?thesis using assms(2) that [of "mInfoInc t div 2"] by (elim insertE) auto
qed

definition narrowed :: "('k, 'v) Table \<Rightarrow> ('k, 'v) Table" where
  "narrowed t = (let n = length (mKeyVals t) in
     t\<lparr>mInfoInc := mInfoInc t div 2, mInfoHashShift := mInfoHashShift t + 1,
       mInfo := (halve_blocks n (mInfo t))[n := 1],
       mMaxNumElementsAllowed := calcMaxNumElementsAllowed (mMask t + 1)\<rparr>)"

lemma narrowed_simps [simp]:
  "mKeyVals (narrowed t) = mKeyVals t" "mNumElements (narrowed t) = mNumElements t"
  "mMask (narrowed t) = mMask t" "mHashMultiplier (narrowed t) = mHashMultiplier t"
  "mMaxNumElementsAllowed (narrowed t) = calcMaxNumElementsAllowed (mMask t + 1)"
  "entries (narrowed t) = entries t"
  by (simp_all add: narrowed_def Let_def entries_def)

lemma narrowed_home [simp]: "home h (narrowed t) k = home h t k"
  by (simp add: home_def keyToIdx_def narrowed_def Let_def)

lemma narrowed_info_in:
  assumes "mInfoInc t = 2 * c"
  shows "info_in h (narrowed t) k i = info_in h t k i div 2"
proof -
  have d: "unat (drop_bit (Suc s) w) = unat (drop_bit s w) div 2" for s and w :: u64
    by (simp add: unat_drop_bit_eq drop_bit_nat_def div_mult2_eq power_Suc2 del: power_Suc)
  have "home_info h (narrowed t) k = home_info h t k div 2"
    using assms by (simp add: home_info_def keyToIdx_def narrowed_def Let_def d del: drop_bit_and drop_bit_Suc)
  moreover have "mInfoInc (narrowed t) = c" using assms by (simp add: narrowed_def Let_def)
  ultimately show ?thesis using assms by (simp add: info_in_def mult.left_commute)
qed

lemma narrowed_ok:
  assumes ok: "array_ok h t" and inc: "2 < mInfoInc t"
  shows "array_ok h (narrowed t)" and "mMaxNumElementsAllowed (narrowed t) \<noteq> 0"
proof -
  let ?t = "narrowed t" and ?n = "length (mKeyVals t)" and ?f = "mInfo t"
  have sh: "shape_ok t" and sl: "slots_ok h t" and g: "gaps_ok (mInfoInc t) ?n ?f" and rm: "room_ok t"
    and d: "distinct (map fst (entries t))"
    using ok by (simp_all add: array_ok_def)
  obtain c where c: "mInfoInc t = 2 * c" "2 \<le> c" "c \<le> 16" "mInfoHashShift t < 4"
      "c = 32 div 2 ^ Suc (mInfoHashShift t)"
    using inc_even [OF sh inc] .
  have len: "length ?f = ?n + 8" using length_mInfo [OF sh] .
  have info: "mInfo ?t ! j = (if j = ?n then 1 else if j < ?n then ?f ! j div 2 else 0)" if "j < ?n + 8" for j
  proof -
    have "?f ! j = 0" if "?n < j" using sh that \<open>j < ?n + 8\<close> unfolding shape_ok_def Let_def by blast
    then show ?thesis
      using that block_covers [of j ?n] halve_blocks_length [OF len] halve_blocks_nth [OF len that]
      by (auto simp: narrowed_def Let_def nth_list_update)
  qed
  have c': "mInfoInc ?t = c" "mInfoHashShift ?t = Suc (mInfoHashShift t)"
    using c(1) by (simp_all add: narrowed_def Let_def)
  have "length (mInfo ?t) = ?n + 8" using halve_blocks_length [OF len] by (simp add: narrowed_def Let_def)
  then have "shape_ok ?t"
    using sh info c(4,5) c' unfolding shape_ok_def Let_def by simp
  moreover have "slots_ok h ?t"
    using sl info by (auto simp: slots_ok_def narrowed_info_in [OF c(1)] intro: order_trans [OF div_le_dividend])
  moreover have "gaps_ok (mInfoInc ?t) ?n (mInfo ?t)"
  proof -
    have "?f ! Suc i div 2 \<le> max (?f ! i div 2) (c - 1) + c" if "Suc i < ?n" for i
    proof -
      have "?f ! Suc i \<le> max (?f ! i) (2 * c - 1) + 2 * c" using g that c(1) by (simp add: gaps_ok_def)
      then show ?thesis using c(2) by (auto simp: max_def split: if_splits)
    qed
    moreover have "?f ! 0 div 2 < 2 * c"
    proof -
      have "?f ! 0 < 4 * c" using g c(1) by (simp add: gaps_ok_def)
      then show ?thesis by linarith
    qed
    moreover have "0 < ?n" using shape_length [OF sh] by linarith
    ultimately show ?thesis using info c'(1) by (simp add: gaps_ok_def)
  qed
  moreover have "room_ok ?t"
  proof -
    have "?f ! i div 2 + c \<le> 255" if "i < ?n" for i
    proof -
      have "?f ! i \<le> 255" using sl that by (simp add: slots_ok_def)
      then show ?thesis using c(3) by linarith
    qed
    then show ?thesis using rm info c'(1) by (simp add: room_ok_def)
  qed
  ultimately show "array_ok h ?t" using d by (simp add: array_ok_def)
  have "7 \<le> mMask t" using sh by (simp add: shape_ok_def Let_def)
  then have "100 \<le> (mMask t + 1) * 80" by simp
  then have "1 \<le> (mMask t + 1) * 80 div 100" by linarith
  moreover have "1 \<le> (mMask t + 1) div 100" if "\<not> mMask t + 1 \<le> (2 ^ 64 - 1) div 100" using that by simp
  ultimately show "mMaxNumElementsAllowed ?t \<noteq> 0"
    unfolding narrowed_simps calcMaxNumElementsAllowed_def by (auto simp del: One_nat_def)
qed

lemma try_increase_info_ok:
  assumes ok: "array_ok h t"
  shows "try_increase_info t = Inr (if mInfoInc t \<le> 2 then None else Some (narrowed t))"
proof -
  have sh: "shape_ok t" using ok by (simp add: array_ok_def)
  have "calcNumElementsWithBuffer (mMask t + 1) = length (mKeyVals t)"
    using sh unfolding shape_ok_def Let_def by simp
  moreover have "8 * ((length (mKeyVals t) + 7) div 8) \<le> length (mKeyVals t) + 8" by linarith
  ultimately show ?thesis
    using length_mInfo [OF sh] by (simp add: try_increase_info_def narrowed_def Let_def)
qed

section \<open>Moving pairs to a new array\<close>

lemma insert_move_ok:
  assumes ok: "array_ok h t" and fresh: "\<not> has_key t (fst kv)"
    and room: "mNumElements t < calcMaxNumElementsAllowed (mMask t + 1)"
  shows "overflow_or (insert_move h kv t) (\<lambda>t'. array_ok h t' \<and> same_shape t t' \<and>
    mset (entries t') = add_mset kv (mset (entries t)))"
proof -
  let ?widen = "if mMaxNumElementsAllowed t = 0 then rbind (try_increase_info t)
      (\<lambda>r. case r of None \<Rightarrow> Inl Terminated | Some t1 \<Rightarrow> Inr t1) else Inr t"
  have widen: "overflow_or ?widen (\<lambda>t1. array_ok h t1 \<and> mMaxNumElementsAllowed t1 \<noteq> 0 \<and>
      (t1 = t \<or> t1 = narrowed t))"
    using ok narrowed_ok [OF ok] by (auto simp: try_increase_info_ok [OF ok] simp del: narrowed_simps)
  show ?thesis
    unfolding insert_move_def
  proof (rule overflow_or_rbind [OF widen])
    fix t1 assume t1: "array_ok h t1 \<and> mMaxNumElementsAllowed t1 \<noteq> 0 \<and> (t1 = t \<or> t1 = narrowed t)"
    have same: "mMask t1 = mMask t" "mHashMultiplier t1 = mHashMultiplier t" "mNumElements t1 = mNumElements t"
        "entries t1 = entries t"
      using t1 by auto
    have sh: "shape_ok t1" and rm: "room_ok t1" using t1 by (simp_all add: array_ok_def)
    have small: "\<forall>i < length (mKeyVals t1). mInfo t1 ! i + mInfoInc t1 \<le> 255"
      using rm t1 by (simp add: room_ok_def)
    have fresh1: "\<not> has_key t1 (fst kv)" using fresh same(4) by (simp add: has_key_def)
    obtain p where p: "skip_occupied t1 (info_in h t1 (fst kv) (home h t1 (fst kv))) (home h t1 (fst kv))
        = Inr (info_in h t1 (fst kv) p, p)" "ready h t1 (fst kv) p" "p \<le> length (mKeyVals t1)"
      using skip_occupied_ok [OF sh passed_home [OF sh]] by blast
    have "info_in h t1 (fst kv) p mod 256 = info_in h t1 (fst kv) p"
      using ready_info_small [OF sh p(2,3) small] by simp
    moreover obtain e t2 t3 where "occupy p (info_in h t1 (fst kv) p) t1 = Inr (e, t2)"
        "put_node p kv t2 = Inr t3" "array_ok h t3"
        "mset (entries t3) = add_mset kv (mset (entries t1))" "same_shape t1 t3"
      using occupy_ok [OF _ p(2,3) fresh1 _ small, of "snd kv"] t1 room same by auto
    ultimately show "overflow_or (case keyToIdx h t1 (fst kv) of (idx, info) \<Rightarrow>
        rbind (skip_occupied t1 info idx) (\<lambda>(insertion_info, insertion_idx).
        rbind (occupy insertion_idx (insertion_info mod 256) t1) (\<lambda>(idx, t2).
        put_node insertion_idx kv t2)))
        (\<lambda>t'. array_ok h t' \<and> same_shape t t' \<and> mset (entries t') = add_mset kv (mset (entries t)))"
      using p(1) same by (simp add: keyToIdx_home same_shape_def)
  qed
qed

lemma array_ok_count: "array_ok h t \<Longrightarrow> mNumElements t = size (mset (entries t))"
  by (simp add: array_ok_def room_ok_def)

lemma has_key_mset: "has_key t k \<longleftrightarrow> k \<in> fst ` set_mset (mset (entries t))"
  by (simp add: has_key_def)

lemma insert_moves_ok:
  assumes "array_ok h t" and "distinct (map fst kvs)" and "\<forall>kv \<in> set kvs. \<not> has_key t (fst kv)"
    and "mNumElements t + length kvs \<le> calcMaxNumElementsAllowed (mMask t + 1)"
  shows "overflow_or (insert_moves h kvs t) (\<lambda>t'. array_ok h t' \<and> same_shape t t' \<and>
    mset (entries t') = mset kvs + mset (entries t))"
  using assms
proof (induction kvs arbitrary: t)
  case Nil
  then show ?case by (simp add: same_shape_def)
next
  case (Cons kv kvs)
  have "overflow_or (insert_move h kv t) (\<lambda>t'. array_ok h t' \<and> same_shape t t' \<and>
      mset (entries t') = add_mset kv (mset (entries t)))"
    using Cons.prems by (intro insert_move_ok) auto
  then show ?case
    unfolding insert_moves.simps
  proof (rule overflow_or_rbind)
    fix t1 assume t1: "array_ok h t1 \<and> same_shape t t1 \<and> mset (entries t1) = add_mset kv (mset (entries t))"
    then have n: "mNumElements t1 = Suc (mNumElements t)"
      using array_ok_count [of h t1] array_ok_count [OF Cons.prems(1)] by (metis size_add_mset)
    have "has_key t1 k \<longleftrightarrow> k = fst kv \<or> has_key t k" for k using t1 by (simp add: has_key_mset del: set_mset_mset)
    moreover have "fst kv' \<noteq> fst kv" if "kv' \<in> set kvs" for kv'
    proof -
      have "fst kv \<notin> fst ` set kvs" using Cons.prems(2) by simp
      then show ?thesis using that by (metis image_eqI)
    qed
    ultimately have "\<forall>kv' \<in> set kvs. \<not> has_key t1 (fst kv')" using Cons.prems(3) by simp
    then have "overflow_or (insert_moves h kvs t1) (\<lambda>t'. array_ok h t' \<and> same_shape t1 t' \<and>
        mset (entries t') = mset kvs + mset (entries t1))"
      using t1 n Cons.prems(2,4) by (intro Cons.IH) (simp_all add: same_shape_def)
    then show "overflow_or (insert_moves h kvs t1) (\<lambda>t'. array_ok h t' \<and> same_shape t t' \<and>
        mset (entries t') = mset (kv # kvs) + mset (entries t))"
      by (rule overflow_or_mono) (use t1 in \<open>auto simp: same_shape_def\<close>)
  qed
qed

lemma old_nodes_somes:
  "length infos = length nodes \<Longrightarrow> \<forall>i < length nodes. infos ! i = 0 \<longleftrightarrow> nodes ! i = None \<Longrightarrow>
    old_nodes infos nodes = Inr (somes nodes)"
proof (induction infos nodes rule: list_induct2)
  case (Cons b infos node nodes)
  have "b = 0 \<longleftrightarrow> node = None" using Cons.prems by auto
  moreover have "\<forall>i < length nodes. infos ! i = 0 \<longleftrightarrow> nodes ! i = None" using Cons.prems by auto
  ultimately show ?case using Cons.IH by (cases node) auto
qed simp

lemma calcMax_double: "calcMaxNumElementsAllowed n \<le> calcMaxNumElementsAllowed (2 * n)"
proof -
  have "n * 80 div 100 \<le> 2 * n div 100 * 80" if "\<not> 2 * n \<le> (2 ^ 64 - 1) div 100"
  proof -
    have "100 \<le> n" using that by simp
    then show ?thesis by linarith
  qed
  moreover have "n div 100 * 80 \<le> 2 * n div 100 * 80" by (intro mult_le_mono1 div_le_mono) simp
  moreover have "n * 80 div 100 \<le> 2 * n * 80 div 100" by (intro div_le_mono) simp
  ultimately show ?thesis by (auto simp: calcMaxNumElementsAllowed_def)
qed

lemma rehash_mask_ok:
  assumes ok: "array_ok h t" and m: "8 \<le> m" and room: "mNumElements t \<le> calcMaxNumElementsAllowed m"
    and t': "mKeyVals t' = mKeyVals t" "mInfo t' = mInfo t" "mMask t' = mMask t"
  shows "overflow_or (rehashPowerOfTwo h m t') (\<lambda>t''. array_ok h t'' \<and> mset (entries t'') = mset (entries t) \<and>
    mMask t'' = m - 1)"
proof -
  have sh: "shape_ok t" and sl: "slots_ok h t" and d: "distinct (map fst (entries t))"
    using ok by (simp_all add: array_ok_def)
  have n: "calcNumElementsWithBuffer (mMask t + 1) = length (mKeyVals t)"
    using sh unfolding shape_ok_def Let_def by simp
  have len: "length (mInfo t) = length (mKeyVals t) + 8" using length_mInfo [OF sh] .
  have "old_nodes (take (length (mKeyVals t)) (mInfo t)) (mKeyVals t) = Inr (entries t)"
    unfolding entries_def using slot_zero [OF sh sl] len by (intro old_nodes_somes) auto
  moreover have "1 < length (mKeyVals t)" using shape_length [OF sh] sh by (auto simp: shape_ok_def Let_def)
  ultimately have "rehashPowerOfTwo h m t' = insert_moves h (entries t) (initData m t')"
    using n by (simp add: rehashPowerOfTwo_def Let_def t')
  moreover have "overflow_or (insert_moves h (entries t) (initData m t')) (\<lambda>t''. array_ok h t'' \<and>
      same_shape (initData m t') t'' \<and> mset (entries t'') = mset (entries t) + mset (entries (initData m t')))"
    using initData_ok(1) [OF m, of h t'] initData_ok(2-4) [OF m, of t'] d room m array_ok_count [OF ok]
    by (intro insert_moves_ok) (auto simp: has_key_def)
  ultimately show ?thesis
    using initData_ok(2,3) [OF m, of t'] by (auto simp: same_shape_def elim!: overflow_or_mono)
qed

lemma rehash_ok:
  assumes "array_ok h t" and "8 \<le> m" and "mNumElements t \<le> calcMaxNumElementsAllowed m"
    and "mKeyVals t' = mKeyVals t" "mInfo t' = mInfo t" "mMask t' = mMask t"
  shows "overflow_or (rehashPowerOfTwo h m t') (\<lambda>t''. array_ok h t'' \<and> mset (entries t'') = mset (entries t))"
  by (rule overflow_or_mono [OF rehash_mask_ok [OF assms]]) simp

lemma increase_size_ok:
  assumes inv: "table_inv h t"
  shows "overflow_or (increase_size h t) (\<lambda>t'. array_ok h t' \<and> mset (entries t') = mset (entries t))"
proof (cases "is_dummy t")
  case True
  then obtain m where t: "t = new_table\<lparr>mHashMultiplier := m\<rparr>" by (auto simp: is_dummy_def)
  have "8 \<le> InitialNumElements" by (simp add: InitialNumElements_def)
  from initData_ok(1) [OF this, of h t] initData_ok(2) [OF this, of t] show ?thesis
    by (simp add: increase_size_def t new_table_def entries_def)
next
  case False
  then have ok: "array_ok h t" using inv by (simp add: table_inv_def)
  then have mask: "7 \<le> mMask t" and rm: "room_ok t" by (simp_all add: array_ok_def shape_ok_def Let_def)
  let ?grow = "if mNumElements t * 2 < calcMaxNumElementsAllowed (mMask t + 1)
      then rehashPowerOfTwo h (mMask t + 1) (nextHashMultiplier t) else rehashPowerOfTwo h ((mMask t + 1) * 2) t"
  have "mNumElements t \<le> calcMaxNumElementsAllowed ((mMask t + 1) * 2)"
    using rm calcMax_double [of "mMask t + 1"] by (simp add: room_ok_def mult.commute)
  then have grow: "overflow_or ?grow (\<lambda>t'. array_ok h t' \<and> mset (entries t') = mset (entries t))"
    using rehash_ok [OF ok, of "mMask t + 1" "nextHashMultiplier t"] rehash_ok [OF ok, of "(mMask t + 1) * 2" t]
      mask rm by (simp add: nextHashMultiplier_def room_ok_def)
  have r: "(if mNumElements t < calcMaxNumElementsAllowed (mMask t + 1) then try_increase_info t else Inr None)
      = Inr (if mNumElements t < calcMaxNumElementsAllowed (mMask t + 1) \<and> 2 < mInfoInc t then Some (narrowed t) else None)"
    by (simp add: try_increase_info_ok [OF ok])
  show ?thesis
    using grow narrowed_ok(1) [OF ok] mask unfolding increase_size_def Let_def r by simp
qed

section \<open>Insertion\<close>

lemma dummy_search:
  assumes "is_dummy t"
  shows "\<exists>info. keyToIdx h t k = (0, info) \<and> nextWhileLess t info 0 = Inr (info, 0) \<and>
    skip_equal t k info 0 = Inr (False, info, 0)" and "mNumElements t = 0" and "mMaxNumElementsAllowed t = 0"
    and "\<not> has_key t k"
proof -
  obtain m where t: "t = new_table\<lparr>mHashMultiplier := m\<rparr>" using assms by (auto simp: is_dummy_def)
  obtain info where info: "keyToIdx h t k = (0, info)" "0 < info"
    using that by (simp add: t keyToIdx_def new_table_def Let_def InitialInfoInc_def)
  have i: "info_at t 0 = Inr 0" by (simp add: t info_at_def new_table_def)
  have "nextWhileLess t info 0 = Inr (info, 0)" by (subst nextWhileLess.simps) (simp add: i)
  moreover have "skip_equal t k info 0 = Inr (False, info, 0)"
    using info(2) by (subst skip_equal.simps) (simp add: i)
  ultimately show "\<exists>info. keyToIdx h t k = (0, info) \<and> nextWhileLess t info 0 = Inr (info, 0) \<and>
      skip_equal t k info 0 = Inr (False, info, 0)" using info(1) by blast
  show "mNumElements t = 0" "mMaxNumElementsAllowed t = 0" "\<not> has_key t k"
    by (simp_all add: t new_table_def has_key_def entries_def)
qed

text \<open>What \<open>insertKeyPrepareEmptySpot\<close> promises about its slot.\<close>

fun prepared ::
  "('k \<Rightarrow> u64) \<Rightarrow> ('k, 'v) Table \<Rightarrow> 'k \<Rightarrow> nat \<times> InsertionState \<times> ('k, 'v) Table \<Rightarrow> bool" where
  "prepared h t k (i, overflow_error, t') = True"
| "prepared h t k (i, key_found, t') =
     (has_key t k \<and> table_inv h t' \<and> key_at t' i k \<and> mset (entries t') = mset (entries t))"
| "prepared h t k (i, st, t') = (\<not> has_key t k \<and> (\<forall>v. \<exists>t''. put_node i (k, v) t' = Inr t'' \<and>
     array_ok h t'' \<and> key_at t'' i k \<and> mset (entries t'') = add_mset (k, v) (mset (entries t))))"

lemma prepared_trans:
  "mset (entries t1) = mset (entries t) \<Longrightarrow> prepared h t1 k r \<Longrightarrow> prepared h t k r"
  by (cases "(h, t, k, r)" rule: prepared.cases) (auto simp: has_key_mset simp del: set_mset_mset)

lemma prepare_attempts_ok:
  assumes "table_inv h t"
  shows "overflow_or (prepare_attempts n h k t) (prepared h t k)"
  using assms
proof (induction n arbitrary: t)
  case 0
  show ?case by simp
next
  case (Suc n)
  have grow: "overflow_or (rbind (increase_size h t) (prepare_attempts n h k)) (prepared h t k)"
  proof (rule overflow_or_rbind [OF increase_size_ok [OF Suc.prems]])
    fix t1 assume t1: "array_ok h t1 \<and> mset (entries t1) = mset (entries t)"
    then have "overflow_or (prepare_attempts n h k t1) (prepared h t1 k)"
      by (intro Suc.IH) (simp add: table_inv_def)
    then show "overflow_or (prepare_attempts n h k t1) (prepared h t k)"
      by (rule overflow_or_mono) (use t1 in \<open>auto intro: prepared_trans [of t1 t]\<close>)
  qed
  show ?case
  proof (cases "is_dummy t")
    case True
    then show ?thesis using grow dummy_search(1) [OF True, of h k] dummy_search(2-4) [OF True] by auto
  next
    case False
    then have ok: "array_ok h t" using Suc.prems by (simp add: table_inv_def)
    obtain i p where s: "nextWhileLess t (info_in h t k (home h t k)) (home h t k) = Inr (info_in h t k i, i)"
        "skip_equal t k (info_in h t k i) i = Inr (has_key t k, info_in h t k p, p)"
        "if has_key t k then key_at t p k else ready h t k p \<and> p \<le> length (mKeyVals t)"
      using search_ok [OF ok] .
    show ?thesis
    proof (cases "has_key t k \<or> mMaxNumElementsAllowed t \<le> mNumElements t")
      case True
      then show ?thesis using s grow Suc.prems by (auto simp: keyToIdx_home)
    next
      case place: False
      have rm: "room_ok t" using ok by (simp add: array_ok_def)
      then have room: "mNumElements t < calcMaxNumElementsAllowed (mMask t + 1)"
        and small: "\<forall>i < length (mKeyVals t). mInfo t ! i + mInfoInc t \<le> 255"
        using place by (auto simp: room_ok_def)
      have r: "ready h t k p" "p \<le> length (mKeyVals t)" "\<not> has_key t k" using s(3) place by auto
      note occ = occupy_ok [OF ok r(1,2,3) room small]
      obtain e t1 where e: "occupy p (info_in h t k p) t = Inr (e, t1)" using occ by blast
      have "\<exists>t2. put_node p (k, v) t1 = Inr t2 \<and> array_ok h t2 \<and> key_at t2 p k \<and>
          mset (entries t2) = add_mset (k, v) (mset (entries t))" for v
        using occ [of v] e by auto
      then have "prepared h t k (p, if e = p then new_node else overwrite_node, t1)" using r(3) by auto
      then show ?thesis using s place e by (simp add: keyToIdx_home)
    qed
  qed
qed

text \<open>
  \<open>emplace\<close> inserts the pair exactly if the key is not there, keeps everything else, and returns the
  slot of the key; its only failure is the overflow exception.
\<close>

lemma table_emplace_ok:
  assumes "table_inv h t"
  shows "overflow_or (table_emplace h k v t) (\<lambda>(i, inserted, t'). table_inv h t' \<and> key_at t' i k \<and>
    inserted = (\<not> has_key t k) \<and>
    mset (entries t') = (if has_key t k then mset (entries t) else add_mset (k, v) (mset (entries t))))"
  unfolding table_emplace_def insertKeyPrepareEmptySpot_def
proof (rule overflow_or_rbind [OF prepare_attempts_ok [OF assms]])
  fix r assume r: "prepared h t k r"
  obtain i st t1 where r': "r = (i, st, t1)" by (cases r)
  show "overflow_or (case r of (idx, st, t1) \<Rightarrow> case st of overflow_error \<Rightarrow> Inl Terminated
      | key_found \<Rightarrow> Inr (idx, False, t1)
      | new_node \<Rightarrow> rbind (put_node idx (k, v) t1) (\<lambda>t2. Inr (idx, True, t2))
      | overwrite_node \<Rightarrow> rbind (put_node idx (k, v) t1) (\<lambda>t2. Inr (idx, True, t2)))
    (\<lambda>(i, inserted, t'). table_inv h t' \<and> key_at t' i k \<and> inserted = (\<not> has_key t k) \<and>
      mset (entries t') = (if has_key t k then mset (entries t) else add_mset (k, v) (mset (entries t))))"
  proof (cases "st = new_node \<or> st = overwrite_node")
    case True
    then have "\<not> has_key t k" and "\<exists>t''. put_node i (k, v) t1 = Inr t'' \<and> array_ok h t'' \<and> key_at t'' i k \<and>
        mset (entries t'') = add_mset (k, v) (mset (entries t))"
      using r r' by auto
    then show ?thesis using True r' by (auto simp: table_inv_def)
  next
    case False
    then show ?thesis using r r' by (cases st) auto
  qed
qed

end
