(* ===== verification/Robin_Hood_Erase.thy ===== *)
theory Robin_Hood_Erase
  imports Robin_Hood_Grow
begin

text \<open>
  Erasing by backward shift: the run of displaced slots moves one slot down, the invariant stays, and
  the contents lose exactly the erased pair.
\<close>

section \<open>Shifting down\<close>

definition unshifted :: "nat \<Rightarrow> nat \<Rightarrow> nat \<Rightarrow> nat list \<Rightarrow> nat list \<Rightarrow> bool" where
  "unshifted d q inc f g \<longleftrightarrow> length g = length f \<and>
     (\<forall>j < length f. g ! j = (if d \<le> j \<and> j < q then f ! (j + 1) - inc else if j = q then 0 else f ! j))"

definition unshifted_nodes :: "nat \<Rightarrow> nat \<Rightarrow> 'n option list \<Rightarrow> 'n option list \<Rightarrow> bool" where
  "unshifted_nodes d q ks ls \<longleftrightarrow> length ls = length ks \<and>
     (\<forall>j < length ks. ls ! j = (if d \<le> j \<and> j < q then ks ! (j + 1) else if j = q then None else ks ! j)) \<and>
     mset (somes ls) = mset (somes (ks[d := None]))"

lemma shift_down_step:
  "d + 1 < length (mInfo t) \<Longrightarrow> 2 * mInfoInc t \<le> mInfo t ! (d + 1) \<Longrightarrow> d + 1 < length (mKeyVals t) \<Longrightarrow>
    mKeyVals t ! (d + 1) = Some kv \<Longrightarrow> mInfo t ! (d + 1) \<le> 255 \<Longrightarrow>
    shift_down_loop d t = shift_down_loop (d + 1) (t\<lparr>mInfo := (mInfo t)[d := mInfo t ! (d + 1) - mInfoInc t],
      mKeyVals := (mKeyVals t)[d := Some kv]\<rparr>)"
  by (subst shift_down_loop.simps) (simp add: info_at_def node_at_def)

lemma shift_down_stop:
  "d + 1 < length (mInfo t) \<Longrightarrow> \<not> 2 * mInfoInc t \<le> mInfo t ! (d + 1) \<Longrightarrow>
    shift_down_loop d t = Inr (t\<lparr>mInfo := (mInfo t)[d := 0], mKeyVals := (mKeyVals t)[d := None]\<rparr>)"
  by (subst shift_down_loop.simps) (simp add: info_at_def)

lemma shift_down_ok:
  assumes "d < length (mKeyVals t)" and "length (mInfo t) = length (mKeyVals t) + 8"
    and "mInfo t ! length (mKeyVals t) < 2 * mInfoInc t" and "0 < mInfoInc t"
    and "\<forall>j. d < j \<and> j < length (mKeyVals t) \<longrightarrow>
      mInfo t ! j \<le> 255 \<and> (mInfo t ! j = 0 \<longleftrightarrow> mKeyVals t ! j = None)"
  shows "\<exists>q f ks. shift_down_loop d t = Inr (t\<lparr>mInfo := f, mKeyVals := ks\<rparr>) \<and>
    d \<le> q \<and> q < length (mKeyVals t) \<and> mInfo t ! (q + 1) < 2 * mInfoInc t \<and>
    (\<forall>j. d \<le> j \<and> j < q \<longrightarrow> 2 * mInfoInc t \<le> mInfo t ! (j + 1)) \<and>
    unshifted d q (mInfoInc t) (mInfo t) f \<and> unshifted_nodes d q (mKeyVals t) ks"
  using assms
proof (induction "length (mKeyVals t) - d" arbitrary: d t rule: less_induct)
  case less
  let ?n = "length (mKeyVals t)" and ?inc = "mInfoInc t" and ?f = "mInfo t" and ?ks = "mKeyVals t"
  show ?case
  proof (cases "2 * ?inc \<le> ?f ! (d + 1)")
    case False
    then have "shift_down_loop d t = Inr (t\<lparr>mInfo := ?f[d := 0], mKeyVals := ?ks[d := None]\<rparr>)"
      using less.prems(1,2) by (intro shift_down_stop) simp_all
    then show ?thesis
      using False less.prems(1,2)
      by (intro exI [of _ d] exI [of _ "?f[d := 0]"] exI [of _ "?ks[d := None]"])
        (auto simp: unshifted_def unshifted_nodes_def nth_list_update)
  next
    case True
    then have d: "d + 1 < ?n" using less.prems(1,3) by (metis Suc_eq_plus1 Suc_lessI leD)
    then have "?f ! (d + 1) \<noteq> 0" "?f ! (d + 1) \<le> 255" using True less.prems(4,5) by auto
    then obtain kv where kv: "?ks ! (d + 1) = Some kv" "?f ! (d + 1) \<le> 255"
      using less.prems(5) d by (metis Suc_eq_plus1 lessI option.exhaust)
    let ?f1 = "?f[d := ?f ! (d + 1) - ?inc]" and ?ks1 = "?ks[d := Some kv]"
    let ?t1 = "t\<lparr>mInfo := ?f1, mKeyVals := ?ks1\<rparr>"
    have step: "shift_down_loop d t = shift_down_loop (d + 1) ?t1"
      using True d kv less.prems(2) by (intro shift_down_step) simp_all
    have "\<exists>q f ks. shift_down_loop (d + 1) ?t1 = Inr (?t1\<lparr>mInfo := f, mKeyVals := ks\<rparr>) \<and>
        d + 1 \<le> q \<and> q < length (mKeyVals ?t1) \<and> mInfo ?t1 ! (q + 1) < 2 * mInfoInc ?t1 \<and>
        (\<forall>j. d + 1 \<le> j \<and> j < q \<longrightarrow> 2 * mInfoInc ?t1 \<le> mInfo ?t1 ! (j + 1)) \<and>
        unshifted (d + 1) q (mInfoInc ?t1) (mInfo ?t1) f \<and> unshifted_nodes (d + 1) q (mKeyVals ?t1) ks"
      using less.prems d by (intro less.hyps) auto
    then obtain q f ks where IH: "shift_down_loop (d + 1) ?t1 = Inr (?t1\<lparr>mInfo := f, mKeyVals := ks\<rparr>)"
        "d + 1 \<le> q" "q < ?n" "?f1 ! (q + 1) < 2 * ?inc" "\<forall>j. d + 1 \<le> j \<and> j < q \<longrightarrow> 2 * ?inc \<le> ?f1 ! (j + 1)"
        "unshifted (d + 1) q ?inc ?f1 f" "unshifted_nodes (d + 1) q ?ks1 ks"
      by auto
    have "unshifted d q ?inc ?f f"
      using IH(2,6) less.prems(1,2) by (auto simp: unshifted_def nth_list_update)
    moreover have "unshifted_nodes d q ?ks ks"
    proof -
      have "mset (somes (?ks1[d + 1 := None])) = mset (somes (?ks[d := None]))"
        using mset_move [of d ?ks "d + 1"] kv(1) d by simp
      then show ?thesis
        using IH(2,7) kv(1) less.prems(1) by (auto simp: unshifted_nodes_def nth_list_update)
    qed
    moreover have "\<forall>j. d \<le> j \<and> j < q \<longrightarrow> 2 * ?inc \<le> ?f ! (j + 1)"
    proof (intro allI impI)
      fix j assume j: "d \<le> j \<and> j < q"
      show "2 * ?inc \<le> ?f ! (j + 1)"
      proof (cases "j = d")
        case False
        then have "2 * ?inc \<le> ?f1 ! (j + 1)" using IH(5) j by simp
        then show ?thesis using False j by simp
      qed (use True in simp)
    qed
    moreover have "?f ! (q + 1) < 2 * ?inc" using IH(2,4) by simp
    ultimately show ?thesis
      using step IH(1,2,3) by (intro exI [of _ q] exI [of _ f] exI [of _ ks]) simp
  qed
qed

lemma unshifted_gaps:
  assumes inc: "2 \<le> inc" and g: "gaps_ok inc n f" and q: "d \<le> q" "q < n" "n < length f" "f ! (q + 1) < 2 * inc"
    and run: "\<forall>j. d \<le> j \<and> j < q \<longrightarrow> 2 * inc \<le> f ! (j + 1)" and filled: "d < q \<longrightarrow> inc \<le> f ! d"
    and u: "unshifted d q inc f f'"
  shows "gaps_ok inc n f'"
proof -
  have nth: "f' ! j = (if d \<le> j \<and> j < q then f ! (j + 1) - inc else if j = q then 0 else f ! j)" if "j < n" for j
    using u that q(3) by (simp add: unshifted_def)
  have old: "f ! Suc i \<le> max (f ! i) (inc - 1) + inc" if "Suc i < n" for i using g that by (simp add: gaps_ok_def)
  have rich: "inc \<le> f ! j" if j: "d \<le> j" "j \<le> q" "d < q" for j
  proof (cases "j = d")
    case False
    then obtain i where "j = Suc i" "d \<le> i" using j(1) by (cases j) auto
    then have "2 * inc \<le> f ! j" using run j by simp
    then show ?thesis by simp
  qed (use filled j in simp)
  have "f' ! 0 < 2 * inc"
  proof -
    have "f ! 1 < 3 * inc" if "d = 0" "0 < q"
    proof -
      have "f ! Suc 0 \<le> max (f ! 0) (inc - 1) + inc" using old [of 0] q that by simp
      then show ?thesis using g inc by (auto simp: gaps_ok_def max_def split: if_splits)
    qed
    moreover have "0 < n" using q by simp
    ultimately show ?thesis using nth [of 0] g inc by (auto simp: gaps_ok_def)
  qed
  moreover have "f' ! Suc i \<le> max (f' ! i) (inc - 1) + inc" if i: "Suc i < n" for i
  proof -
    consider "Suc i < d" | "Suc i = d" "d < q" | "Suc i = q" "d = q" | "d \<le> i" "Suc i < q" | "d \<le> i" "Suc i = q"
      | "i = q" | "q < i"
      using q(1) by linarith
    then show ?thesis
    proof cases
      case 1
      then show ?thesis using nth [of i] nth [of "Suc i"] i q old [OF i] by simp
    next
      case 2
      have "f ! Suc d \<le> f ! d + inc" using old [of d] rich [of d] 2 q by (simp add: max_def split: if_splits)
      then show ?thesis using nth [of i] nth [of "Suc i"] i 2 old [OF i] by simp
    next
      case 3
      then show ?thesis using nth [OF i] by simp
    next
      case 4
      have "f ! Suc (Suc i) \<le> f ! Suc i + inc"
        using old [of "Suc i"] rich [of "Suc i"] 4 q by (simp add: max_def split: if_splits)
      then show ?thesis using nth [of i] nth [of "Suc i"] i 4 by simp
    next
      case 5
      then show ?thesis using nth [OF i] by simp
    next
      case 6
      then show ?thesis using nth [of i] nth [OF i] i q(4) inc by simp
    next
      case 7
      then show ?thesis using nth [of i] nth [of "Suc i"] i q(1) old [OF i] by simp
    qed
  qed
  ultimately show ?thesis by (simp add: gaps_ok_def)
qed

section \<open>Erasing a slot\<close>

text \<open>The slots after the shift: those behind the erased one a slot nearer, up to the free one.\<close>

lemma erased_slots:
  assumes sh: "shape_ok t" and sl: "slots_ok h t" and q: "q < length (mKeyVals t)"
    and rich: "\<forall>j. i \<le> j \<and> j < q \<longrightarrow> 2 * mInfoInc t \<le> mInfo t ! (j + 1)"
    and f: "\<And>j. j < length (mKeyVals t) \<Longrightarrow> f ! j = (if i \<le> j \<and> j < q then mInfo t ! (j + 1) - mInfoInc t
      else if j = q then 0 else mInfo t ! j)"
    and ks: "\<And>j. j < length (mKeyVals t) \<Longrightarrow> ks ! j = (if i \<le> j \<and> j < q then mKeyVals t ! (j + 1)
      else if j = q then None else mKeyVals t ! j)"
    and j: "j < length (mKeyVals t)"
  shows "f ! j \<le> 255 \<and> (ks ! j = None \<longrightarrow> f ! j = 0) \<and>
    (\<forall>k v. ks ! j = Some (k, v) \<longrightarrow> home h t k \<le> j \<and> f ! j = info_in h t k j)"
proof (cases "i \<le> j \<and> j < q")
  case True
  have n: "j + 1 < length (mKeyVals t)" using True q by simp
  have r: "2 * mInfoInc t \<le> mInfo t ! (j + 1)" using rich True by simp
  have inc: "2 \<le> mInfoInc t" using inc_bounds [OF sh] by simp
  from sl n show ?thesis
  proof (cases rule: slot_cases)
    case 1
    then show ?thesis using r inc by simp
  next
    case (2 k v)
    have "home h t k \<noteq> j + 1"
    proof
      assume "home h t k = j + 1"
      then show False using 2(3) r inc info_in_home [OF sh, of h k] by simp
    qed
    then have "home h t k \<le> j" using 2(2) by simp
    moreover have "mInfo t ! (j + 1) \<le> 255" using sl n by (simp add: slots_ok_def)
    ultimately show ?thesis using 2 f [OF j] ks [OF j] True info_in_next [of h t k j] by simp
  qed
next
  case False
  then have "f ! j = (if j = q then 0 else mInfo t ! j)" "ks ! j = (if j = q then None else mKeyVals t ! j)"
    using f [OF j] ks [OF j] by auto
  then show ?thesis using j sl by (cases "j = q") (simp_all add: slots_ok_def)
qed

lemma erase_at_ok:
  assumes ok: "array_ok h t" and kv: "i < length (mKeyVals t)" "mKeyVals t ! i = Some kv"
  shows "\<exists>t'. erase_at i t = Inr t' \<and> array_ok h t' \<and> add_mset kv (mset (entries t')) = mset (entries t) \<and>
    length (mKeyVals t') = length (mKeyVals t)"
proof -
  let ?inc = "mInfoInc t" and ?n = "length (mKeyVals t)" and ?f = "mInfo t" and ?ks = "mKeyVals t"
  have sh: "shape_ok t" and sl: "slots_ok h t" and g: "gaps_ok ?inc ?n ?f" and rm: "room_ok t"
    and d: "distinct (map fst (entries t))"
    using ok by (simp_all add: array_ok_def)
  have len: "length ?f = ?n + 8" using length_mInfo [OF sh] .
  have inc: "2 \<le> ?inc" using inc_bounds [OF sh] by simp
  have slots: "\<forall>j. i < j \<and> j < ?n \<longrightarrow> ?f ! j \<le> 255 \<and> (?f ! j = 0 \<longleftrightarrow> ?ks ! j = None)"
    using slot_zero [OF sh sl] sl by (simp add: slots_ok_def)
  obtain q f ks where L: "shift_down_loop i t = Inr (t\<lparr>mInfo := f, mKeyVals := ks\<rparr>)" "i \<le> q" "q < ?n"
      "?f ! (q + 1) < 2 * ?inc" "\<forall>j. i \<le> j \<and> j < q \<longrightarrow> 2 * ?inc \<le> ?f ! (j + 1)"
      "unshifted i q ?inc ?f f" "unshifted_nodes i q ?ks ks"
    using shift_down_ok [OF kv(1) len _ _ slots] sentinel [OF sh] inc by auto
  let ?t = "t\<lparr>mInfo := f, mKeyVals := ks, mNumElements := mNumElements t - 1\<rparr>"
  have run: "erase_at i t = Inr ?t"
    using kv L(1) by (simp add: erase_at_def shiftDown_def node_at_def)
  have nth: "f ! j = (if i \<le> j \<and> j < q then ?f ! (j + 1) - ?inc else if j = q then 0 else ?f ! j)" if "j < ?n + 8" for j
    using L(6) that len by (simp add: unshifted_def)
  have ks: "ks ! j = (if i \<le> j \<and> j < q then ?ks ! (j + 1) else if j = q then None else ?ks ! j)" if "j < ?n" for j
    using L(7) that by (simp add: unshifted_nodes_def)
  have lens: "length ks = ?n" "length f = ?n + 8" using L(6,7) len by (simp_all add: unshifted_def unshifted_nodes_def)
  have ms: "add_mset kv (mset (entries ?t)) = mset (entries t)"
    using L(7) mset_entries_remove [OF kv] by (simp add: entries_def unshifted_nodes_def)
  have "shape_ok (t\<lparr>mKeyVals := ks, mInfo := f, mMaxNumElementsAllowed := mMaxNumElementsAllowed t,
      mNumElements := mNumElements t - 1\<rparr>)"
    using sh lens len nth L(2,3) by (intro shape_update) auto
  then have shape: "shape_ok ?t" by (simp add: shape_ok_def)
  have "f ! j \<le> 255 \<and> (ks ! j = None \<longrightarrow> f ! j = 0) \<and>
      (\<forall>k v. ks ! j = Some (k, v) \<longrightarrow> home h t k \<le> j \<and> f ! j = info_in h t k j)" if "j < ?n" for j
    by (rule erased_slots [OF sh sl L(3,5) _ ks that]) (use nth in simp)
  then have slots: "slots_ok h ?t" by (simp add: slots_ok_def lens)
  have "?inc \<le> ?f ! i" by (rule info_positive [OF sh sl kv(1)]) (use kv slot_zero [OF sh sl kv(1)] in simp)
  then have gaps: "gaps_ok ?inc ?n f"
    using unshifted_gaps [OF inc g L(2,3) _ L(4,5) _ L(6)] len by simp
  have count: "length (entries t) = Suc (length (entries ?t))" using arg_cong [OF ms, of size] by simp
  have "f ! j + ?inc \<le> 255" if "mMaxNumElementsAllowed t \<noteq> 0" "j < ?n" for j
  proof -
    have "?f ! j + ?inc \<le> 255" using rm that by (simp add: room_ok_def)
    moreover have "?f ! (j + 1) \<le> 255" if "j < q" using sl that L(3) by (simp add: slots_ok_def)
    moreover have "?f ! (j + 1) + ?inc \<le> 255" if "j < q"
      using rm that L(3) \<open>mMaxNumElementsAllowed t \<noteq> 0\<close> by (simp add: room_ok_def)
    ultimately show ?thesis using nth [of j] that(2) by auto
  qed
  then have room: "room_ok ?t" using rm count lens by (auto simp: room_ok_def)
  have "distinct (map fst (entries ?t))"
  proof -
    have "mset (fst kv # map fst (entries ?t)) = mset (map fst (entries t))"
      using arg_cong [OF ms, of "image_mset fst"] by simp
    then show ?thesis using d mset_eq_imp_distinct_iff by fastforce
  qed
  then have "array_ok h ?t" using shape slots gaps room lens by (simp add: array_ok_def)
  moreover have "length (mKeyVals ?t) = ?n" using lens by simp
  ultimately show ?thesis using run ms by blast
qed

section \<open>Erasing a key\<close>

lemma erase_loop_ok:
  assumes ok: "array_ok h t" and "home h t k \<le> j" and "j < length (mKeyVals t)" and "\<forall>i < j. \<not> key_at t i k"
  shows "erase_loop k (info_in h t k j) j t =
    (if has_key t k then rbind (erase_at (LEAST i. key_at t i k) t) (\<lambda>t1. Inr (1, t1)) else Inr (0, t))"
  using assms(2-4)
proof (induction "length (mKeyVals t) - j" arbitrary: j rule: less_induct)
  case less
  have sh: "shape_ok t" and sl: "slots_ok h t" and g: "gaps_ok (mInfoInc t) (length (mKeyVals t)) (mInfo t)"
    using ok by (simp_all add: array_ok_def)
  have i: "info_at t (j + 1) = Inr (mInfo t ! (j + 1))"
    using less.prems(2) length_mInfo [OF sh] by (simp add: info_at_def)
  have step: "erase_loop k (info_in h t k j) j t = (if key_at t j k then rbind (erase_at j t) (\<lambda>t1. Inr (1, t1))
      else if info_in h t k j + mInfoInc t \<le> mInfo t ! (j + 1)
      then erase_loop k (info_in h t k j + mInfoInc t) (j + 1) t else Inr (0, t))"
    using slot_matches_ok [OF sh sl less.prems(1)] less.prems(2) i by (subst erase_loop.simps) simp
  show ?case
  proof (cases "key_at t j k")
    case True
    then have "has_key t k" by (auto simp: has_key_at)
    moreover have "(LEAST i. key_at t i k) = j"
      using True less.prems(3) by (intro Least_equality) (auto intro: leI)
    ultimately show ?thesis using step True by simp
  next
    case False
    then have none: "\<forall>i < j + 1. \<not> key_at t i k" using less.prems(3) by (auto simp: less_Suc_eq)
    have nn: "info_in h t k (j + 1) = info_in h t k j + mInfoInc t" using info_in_next [OF less.prems(1)] by simp
    show ?thesis
    proof (cases "info_in h t k (j + 1) \<le> mInfo t ! (j + 1)")
      case True
      have "j + 1 < length (mKeyVals t)"
      proof (rule ccontr)
        assume "\<not> ?thesis"
        then have "j + 1 = length (mKeyVals t)" using less.prems(2) by simp
        then show False
          using True sentinel [OF sh] info_in_ge [OF sh, of h k "j + 1"] inc_bounds [OF sh] by simp
      qed
      then show ?thesis using less.hyps [of "j + 1"] less.prems(1,2) none step False True nn by simp
    next
      case poor: False
      have "\<not> key_at t i k" for i
      proof
        assume ki: "key_at t i k"
        then have "j + 1 \<le> i" using none by (meson not_less)
        from key_at_richer [OF sh sl g ki _ this] less.prems(1) poor show False by simp
      qed
      then have "\<not> has_key t k" by (simp add: has_key_at)
      then show ?thesis using step False poor nn by simp
    qed
  qed
qed

lemma filter_absent_key:
  "\<not> has_key t k \<Longrightarrow> filter_mset (\<lambda>kv. fst kv \<noteq> k) (mset (entries t)) = mset (entries t)"
  by (auto simp: filter_mset_eq_conv has_key_def)

text \<open>\<open>erase\<close> never fails, removes exactly the pair of the key, and counts it.\<close>

lemma table_erase_ok:
  assumes inv: "table_inv h t"
  shows "\<exists>t'. table_erase h k t = Inr (if has_key t k then 1 else 0, t') \<and> table_inv h t' \<and>
    mset (entries t') = filter_mset (\<lambda>kv. fst kv \<noteq> k) (mset (entries t))"
proof (cases "is_dummy t")
  case True
  then obtain m where t: "t = new_table\<lparr>mHashMultiplier := m\<rparr>" by (auto simp: is_dummy_def)
  obtain info where info: "keyToIdx h t k = (0, info)" "0 < info"
    using that by (simp add: t keyToIdx_def new_table_def Let_def InitialInfoInc_def)
  have i: "info_at t i = Inr 0" if "i < 8" for i using that by (simp add: t info_at_def new_table_def)
  have "erase_loop k info 0 t = Inr (0, t)"
    using i [of 0] i [of 1] info(2) by (subst erase_loop.simps) (simp add: slot_matches_def)
  then show ?thesis
    using inv info(1) dummy_search(4) [OF True, of k] is_dummy_keys [OF True]
    by (simp add: table_erase_def entries_def)
next
  case False
  then have ok: "array_ok h t" using inv by (simp add: table_inv_def)
  then have sh: "shape_ok t" and sl: "slots_ok h t" and d: "distinct (map fst (entries t))"
    by (simp_all add: array_ok_def)
  have "\<forall>i < home h t k. \<not> key_at t i k" using key_at_info(1) [OF sl] by (meson not_less)
  then have run: "table_erase h k t = (if has_key t k
      then rbind (erase_at (LEAST i. key_at t i k) t) (\<lambda>t1. Inr (1, t1)) else Inr (0, t))"
    using erase_loop_ok [OF ok order_refl home_less [OF sh]] by (simp add: table_erase_def keyToIdx_home)
  show ?thesis
  proof (cases "has_key t k")
    case True
    let ?i = "LEAST i. key_at t i k"
    have "key_at t ?i k" using True by (auto simp: has_key_at intro: LeastI)
    then obtain v where v: "?i < length (mKeyVals t)" "mKeyVals t ! ?i = Some (k, v)" by (auto simp: key_at_def)
    obtain t' where t': "erase_at ?i t = Inr t'" "array_ok h t'"
        "add_mset (k, v) (mset (entries t')) = mset (entries t)"
      using erase_at_ok [OF ok v] by blast
    have "mset (k # map fst (entries t')) = mset (map fst (entries t))"
      using arg_cong [OF t'(3), of "image_mset fst"] by simp
    then have "distinct (k # map fst (entries t'))" using d mset_eq_imp_distinct_iff by blast
    then have "filter_mset (\<lambda>kv. fst kv \<noteq> k) (mset (entries t')) = mset (entries t')"
      by (auto simp: filter_mset_eq_conv)
    then have "filter_mset (\<lambda>kv. fst kv \<noteq> k) (mset (entries t)) = mset (entries t')"
      unfolding t'(3) [symmetric] by simp
    then show ?thesis using run True t'(1,2) by (simp add: table_inv_def)
  next
    case False
    then show ?thesis using run inv by (simp add: filter_absent_key)
  qed
qed

section \<open>Writing through an iterator\<close>

lemma table_store_ok:
  assumes ok: "table_inv h t" and k: "key_at t i k"
  shows "\<exists>t' v'. table_store i v t = Inr t' \<and> table_inv h t' \<and> key_at t' i k \<and>
    (k, v') \<in> set (entries t) \<and> add_mset (k, v') (mset (entries t')) = add_mset (k, v) (mset (entries t))"
proof -
  obtain v' where v': "i < length (mKeyVals t)" "mKeyVals t ! i = Some (k, v')" using k by (auto simp: key_at_def)
  then have ok: "array_ok h t" using assms(1) is_dummy_keys [of t] by (auto simp: table_inv_def)
  let ?t = "t\<lparr>mKeyVals := (mKeyVals t)[i := Some (k, v)]\<rparr>"
  have "mset (somes ((mKeyVals t)[i := None, i := Some (k, v)]))
      = add_mset (k, v) (mset (somes ((mKeyVals t)[i := None])))"
    using v'(1) by (intro mset_entries_set) simp_all
  then have ms: "add_mset (k, v') (mset (entries ?t)) = add_mset (k, v) (mset (entries t))"
    using mset_entries_remove [OF v'] by (simp add: entries_def flip: mset_entries_remove [OF v'])
  have "mset (map fst (entries ?t)) = mset (map fst (entries t))"
    using arg_cong [OF ms, of "image_mset fst"] by simp
  then have d: "distinct (map fst (entries ?t))"
    using ok mset_eq_imp_distinct_iff unfolding array_ok_def by blast
  have "length (entries ?t) = length (entries t)" using arg_cong [OF ms, of size] by simp
  then have "array_ok h ?t"
    using ok d v' by (auto simp: array_ok_def shape_ok_def Let_def slots_ok_def room_ok_def nth_list_update)
  moreover have "table_store i v t = Inr ?t"
    using v' by (simp add: table_store_def node_at_def put_node_def)
  moreover have "key_at ?t i k" "(k, v') \<in> set (entries t)" using v' by (auto simp: key_at_def entries_nth)
  ultimately show ?thesis using ms by (intro exI [of _ ?t] exI [of _ v']) (simp add: table_inv_def)
qed

section \<open>Assigning, counting, iterating\<close>

text \<open>\<open>insert_or_assign\<close> leaves exactly the new value under the key, or overflows.\<close>

lemma insert_or_assign_ok:
  assumes "table_inv h t"
  shows "overflow_or (insert_or_assign h k v t) (\<lambda>(i, inserted, t'). table_inv h t' \<and> key_at t' i k \<and>
    inserted = (\<not> has_key t k) \<and>
    mset (entries t') = add_mset (k, v) (filter_mset (\<lambda>kv. fst kv \<noteq> k) (mset (entries t))))"
  unfolding insert_or_assign_def insertKeyPrepareEmptySpot_def
proof (rule overflow_or_rbind [OF prepare_attempts_ok [OF assms]])
  fix r assume r: "prepared h t k r"
  obtain i st t1 where r': "r = (i, st, t1)" by (cases r)
  show "overflow_or (case r of (idx, st, t1) \<Rightarrow> case st of overflow_error \<Rightarrow> Inl Terminated
      | key_found \<Rightarrow> rbind (node_at t1 idx) (\<lambda>kv. rbind (put_node idx (fst kv, v) t1) (\<lambda>t2. Inr (idx, False, t2)))
      | new_node \<Rightarrow> rbind (put_node idx (k, v) t1) (\<lambda>t2. Inr (idx, True, t2))
      | overwrite_node \<Rightarrow> rbind (put_node idx (k, v) t1) (\<lambda>t2. Inr (idx, True, t2)))
    (\<lambda>(i, inserted, t'). table_inv h t' \<and> key_at t' i k \<and> inserted = (\<not> has_key t k) \<and>
      mset (entries t') = add_mset (k, v) (filter_mset (\<lambda>kv. fst kv \<noteq> k) (mset (entries t))))"
  proof -
    have put: "\<not> has_key t k \<and> (\<exists>t''. put_node i (k, v) t1 = Inr t'' \<and> table_inv h t'' \<and> key_at t'' i k \<and>
        mset (entries t'') = add_mset (k, v) (filter_mset (\<lambda>kv. fst kv \<noteq> k) (mset (entries t))))"
      if "st = new_node \<or> st = overwrite_node"
    proof -
      have "\<not> has_key t k" and "\<exists>t''. put_node i (k, v) t1 = Inr t'' \<and> array_ok h t'' \<and> key_at t'' i k \<and>
          mset (entries t'') = add_mset (k, v) (mset (entries t))"
        using r r' that by auto
      then show ?thesis by (auto simp: filter_absent_key table_inv_def)
    qed
    show ?thesis
    proof (cases st)
      case key_found
      then have p: "has_key t k" "table_inv h t1" "key_at t1 i k" "mset (entries t1) = mset (entries t)"
        using r r' by auto
      obtain t' v' where s: "table_store i v t1 = Inr t'" "table_inv h t'" "key_at t' i k"
          "(k, v') \<in> set (entries t1)" "add_mset (k, v') (mset (entries t')) = add_mset (k, v) (mset (entries t1))"
        using table_store_ok [OF p(2,3)] by blast
      have "(k, v') \<in># mset (entries t1)" using s(4) by simp
      then obtain M where M: "mset (entries t1) = add_mset (k, v') M" by (metis multi_member_split)
      obtain L where L: "mset L = M" using ex_mset by blast
      have "mset (map fst (entries t1)) = mset (map fst ((k, v') # L))" using M L by simp
      from mset_eq_imp_distinct_iff [OF this] have "k \<notin> fst ` set L" using table_inv_distinct [OF p(2)] by simp
      then have "filter_mset (\<lambda>kv. fst kv \<noteq> k) M = M"
        unfolding L [symmetric] filter_mset_eq_conv by (auto simp: image_iff)
      moreover have "mset (entries t') = add_mset (k, v) M" using s(5) M by (metis add_mset_commute add_mset_add_mset_same_iff)
      ultimately have "mset (entries t') = add_mset (k, v) (filter_mset (\<lambda>kv. fst kv \<noteq> k) (mset (entries t)))"
        using M p(4) by (metis (mono_tags, lifting) filter_mset_add_mset fst_conv)
      then show ?thesis using r' key_found p(1) s by (auto simp: table_store_def)
    qed (use put r' in auto)
  qed
qed

lemma table_count_ok:
  assumes "table_inv h t"
  shows "table_count h t k = Inr (if has_key t k then 1 else 0)" and "table_contains h t k = Inr (has_key t k)"
proof -
  obtain r where "findIdx h t k = Inr r" "if has_key t k then key_at t r k else r = length (mKeyVals t)"
    using assms by (rule findIdx_ok)
  then show "table_count h t k = Inr (if has_key t k then 1 else 0)"
    by (auto simp: table_count_def key_at_def split: if_splits)
  then show "table_contains h t k = Inr (has_key t k)" by (simp add: table_contains_def)
qed

text \<open>Iteration visits every pair once, in the order of the slots.\<close>

lemma map_filter_zip_somes:
  "length ns \<le> length bs \<Longrightarrow> \<forall>i < length ns. bs ! i = 0 \<longleftrightarrow> ns ! i = None \<Longrightarrow>
    List.map_filter (\<lambda>(b, node). if b = 0 then None else node) (zip bs ns) = somes ns"
proof (induction ns arbitrary: bs)
  case (Cons node ns)
  then obtain b cs where bs: "bs = b # cs" by (cases bs) auto
  have "b = 0 \<longleftrightarrow> node = None" "\<forall>i < length ns. cs ! i = 0 \<longleftrightarrow> ns ! i = None"
    using Cons.prems(2) bs by auto
  then show ?case using Cons.IH [of cs] Cons.prems(1) bs by (cases node) (auto simp: map_filter_def)
qed (simp add: map_filter_def)

lemma iteration_entries:
  assumes "table_inv h t"
  shows "iteration t = entries t"
proof (cases "is_dummy t")
  case True
  then show ?thesis using is_dummy_keys [OF True] by (simp add: iteration_def entries_def map_filter_def)
next
  case False
  then have sh: "shape_ok t" and sl: "slots_ok h t" using assms by (auto simp: table_inv_def array_ok_def)
  then show ?thesis
    using length_mInfo [OF sh] slot_zero [OF sh sl] unfolding iteration_def entries_def
    by (intro map_filter_zip_somes) auto
qed

end
