(* ===== verification/Robin_Hood_Map.thy ===== *)
theory Robin_Hood_Map
  imports Robin_Hood_Erase Hash_Map
begin

text \<open>
  The contract of a hash table that may overflow, and its client lemma: such a table represents an
  association list, the one the order book and the markets are modelled with.
\<close>

section \<open>The contract\<close>

locale hash_table =
  fixes find :: "'m \<Rightarrow> 'k \<Rightarrow> ('k \<times> 'v) option res"
    and emplace :: "'k \<Rightarrow> 'v \<Rightarrow> 'm \<Rightarrow> (nat \<times> bool \<times> 'm) res"
    and erase :: "'k \<Rightarrow> 'm \<Rightarrow> (nat \<times> 'm) res"
    and empty :: 'm
    and contents :: "'m \<Rightarrow> ('k \<times> 'v) list"
    and inv :: "'m \<Rightarrow> bool"
  assumes inv_empty: "inv empty" and contents_empty: "contents empty = []"
    and keys_distinct: "inv t \<Longrightarrow> distinct (map fst (contents t))"
    and find_contents: "inv t \<Longrightarrow> find t k = Inr (map_option (Pair k) (map_of (contents t) k))"
    and emplace_contents: "inv t \<Longrightarrow> overflow_or (emplace k v t) (\<lambda>(i, inserted, t'). inv t' \<and>
      inserted = (k \<notin> fst ` set (contents t)) \<and>
      mset (contents t') = (if inserted then add_mset (k, v) (mset (contents t)) else mset (contents t)))"
    and erase_contents: "inv t \<Longrightarrow> \<exists>t'. erase k t = Inr (if k \<in> fst ` set (contents t) then 1 else 0, t') \<and>
      inv t' \<and> mset (contents t') = filter_mset (\<lambda>kv. fst kv \<noteq> k) (mset (contents t))"
begin

definition represents :: "'m \<Rightarrow> ('k, 'v) hmap \<Rightarrow> bool" where
  "represents t m \<longleftrightarrow> inv t \<and> mset (contents t) = mset m"

lemma represents_set: "represents t m \<Longrightarrow> set (contents t) = set m"
  unfolding represents_def by (metis set_mset_mset)

lemma represents_distinct:
  assumes "represents t m"
  shows "distinct (map fst m)"
proof -
  have "mset (map fst (contents t)) = mset (map fst m)" using assms by (simp add: represents_def)
  from mset_eq_imp_distinct_iff [OF this] show ?thesis using keys_distinct [of t] assms by (simp add: represents_def)
qed

lemma represents_map_of:
  assumes "represents t m"
  shows "map_of (contents t) = map_of m"
proof (rule ext)
  fix k
  have d: "distinct (map fst (contents t))" using keys_distinct assms by (simp add: represents_def)
  have "map_of (contents t) k = Some v \<longleftrightarrow> map_of m k = Some v" for v
    using d represents_distinct [OF assms] represents_set [OF assms] by simp
  then show "map_of (contents t) k = map_of m k" by (metis option.exhaust)
qed

lemma represents_empty: "represents empty []"
  by (simp add: represents_def inv_empty contents_empty)

lemma represents_find: "represents t m \<Longrightarrow> find t k = Inr (map_option (Pair k) (hm_find k m))"
  using represents_map_of [of t m] by (simp add: represents_def find_contents hm_find_def)

lemma represents_key: "represents t m \<Longrightarrow> k \<in> fst ` set (contents t) \<longleftrightarrow> hm_find k m \<noteq> None"
  by (simp add: represents_set hm_find_def map_of_eq_None_iff)

lemma represents_emplace:
  assumes "represents t m"
  shows "overflow_or (emplace k v t) (\<lambda>(i, inserted, t').
    represents t' (hm_emplace k v m) \<and> inserted = (hm_find k m = None))"
proof (rule overflow_or_mono [OF emplace_contents [of t k v]])
  show "inv t" using assms by (simp add: represents_def)
qed (use assms represents_key [OF assms, of k] in \<open>auto simp: represents_def hm_emplace_def split: if_splits\<close>)

lemma represents_erase:
  assumes "represents t m"
  shows "\<exists>t'. erase k t = Inr (if hm_find k m = None then 0 else 1, t') \<and> represents t' (hm_erase k m)"
proof -
  have "filter (\<lambda>(a, b). a \<noteq> k) m = filter (\<lambda>kv. fst kv \<noteq> k) m" by (intro filter_cong) auto
  moreover obtain t' where "erase k t = Inr (if k \<in> fst ` set (contents t) then 1 else 0, t')" "inv t'"
      "mset (contents t') = filter_mset (\<lambda>kv. fst kv \<noteq> k) (mset (contents t))"
    using erase_contents [of t k] assms by (auto simp: represents_def)
  ultimately show ?thesis
    using assms represents_key [OF assms, of k] by (auto simp: represents_def hm_erase_def)
qed

end

section \<open>The table keeps the contract\<close>

lemma table_inv_new: "table_inv h new_table"
  by (simp add: table_inv_def is_dummy_def)

interpretation table: hash_table "table_find h" "table_emplace h" "table_erase h" new_table entries "table_inv h"
  for h :: "'k \<Rightarrow> u64"
proof unfold_locales
  show "table_inv h new_table" by (rule table_inv_new)
  show "entries new_table = []" by (simp add: entries_def new_table_def)
  fix t :: "('k, 'v) Table" and k :: 'k and v :: 'v assume inv: "table_inv h t"
  show "distinct (map fst (entries t))" using inv by (rule table_inv_distinct)
  show "table_find h t k = Inr (map_option (Pair k) (map_of (entries t) k))"
    using table_find_ok [OF inv, of k] by simp
  show "overflow_or (table_emplace h k v t) (\<lambda>(i, inserted, t'). table_inv h t' \<and>
      inserted = (k \<notin> fst ` set (entries t)) \<and>
      mset (entries t') = (if inserted then add_mset (k, v) (mset (entries t)) else mset (entries t)))"
    by (rule overflow_or_mono [OF table_emplace_ok [OF inv]]) (auto simp: has_key_def split: if_splits)
  show "\<exists>t'. table_erase h k t = Inr (if k \<in> fst ` set (entries t) then 1 else 0, t') \<and> table_inv h t' \<and>
      mset (entries t') = filter_mset (\<lambda>kv. fst kv \<noteq> k) (mset (entries t))"
    using table_erase_ok [OF inv, of k] by (simp add: has_key_def)
qed

section \<open>Sequences of operations\<close>

datatype ('k, 'v) table_op = Emplace 'k 'v | Erase 'k

fun table_run :: "('k \<Rightarrow> u64) \<Rightarrow> ('k, 'v) table_op list \<Rightarrow> ('k, 'v) Table \<Rightarrow> ('k, 'v) Table res" where
  "table_run h [] t = Inr t"
| "table_run h (Emplace k v # ops) t = rbind (table_emplace h k v t) (\<lambda>(i, inserted, t'). table_run h ops t')"
| "table_run h (Erase k # ops) t = rbind (table_erase h k t) (\<lambda>(n, t'). table_run h ops t')"

fun list_run :: "('k, 'v) table_op list \<Rightarrow> ('k, 'v) hmap \<Rightarrow> ('k, 'v) hmap" where
  "list_run [] m = m"
| "list_run (Emplace k v # ops) m = list_run ops (hm_emplace k v m)"
| "list_run (Erase k # ops) m = list_run ops (hm_erase k m)"

lemma table_run_represents:
  "table.represents h t m \<Longrightarrow> overflow_or (table_run h ops t) (\<lambda>t'. table.represents h t' (list_run ops m))"
proof (induction ops arbitrary: t m)
  case (Cons op ops)
  show ?case
  proof (cases op)
    case (Emplace k v)
    show ?thesis
      unfolding Emplace table_run.simps list_run.simps
    proof (rule overflow_or_rbind [OF table.represents_emplace [OF Cons.prems]])
      fix x assume "case x of (i, inserted, t') \<Rightarrow>
          table.represents h t' (hm_emplace k v m) \<and> inserted = (hm_find k m = None)"
      then show "overflow_or (case x of (i, inserted, t') \<Rightarrow> table_run h ops t')
          (\<lambda>t'. table.represents h t' (list_run ops (hm_emplace k v m)))"
        using Cons.IH by (cases x) auto
    qed
  next
    case (Erase k)
    then show ?thesis using table.represents_erase [OF Cons.prems, of k] Cons.IH by auto
  qed
qed simp

section \<open>Without growth\<close>

text \<open>Below its limit a table takes a new pair without growing, and cannot overflow.\<close>

lemma table_emplace_room:
  assumes ok: "table_inv h t" and room: "mNumElements t < mMaxNumElementsAllowed t"
  shows "\<exists>i inserted t'. table_emplace h k v t = Inr (i, inserted, t') \<and> same_shape t t'"
proof -
  have "\<not> is_dummy t" using room dummy_search(2,3) [of t] by auto
  then have ok: "array_ok h t" using assms(1) by (simp add: table_inv_def)
  obtain i p where s: "nextWhileLess t (info_in h t k (home h t k)) (home h t k) = Inr (info_in h t k i, i)"
      "skip_equal t k (info_in h t k i) i = Inr (has_key t k, info_in h t k p, p)"
      "if has_key t k then key_at t p k else ready h t k p \<and> p \<le> length (mKeyVals t)"
    using search_ok [OF ok] .
  show ?thesis
  proof (cases "has_key t k")
    case True
    then have "prepare_attempts (Suc n) h k t = Inr (p, key_found, t)" for n
      using s by (simp add: keyToIdx_home)
    from this [of 255] show ?thesis
      by (simp add: table_emplace_def insertKeyPrepareEmptySpot_def same_shape_def) blast
  next
    case False
    have rm: "room_ok t" using ok by (simp add: array_ok_def)
    then have "mNumElements t < calcMaxNumElementsAllowed (mMask t + 1)"
        "\<forall>i < length (mKeyVals t). mInfo t ! i + mInfoInc t \<le> 255"
      using room by (auto simp: room_ok_def)
    moreover have "ready h t k p" "p \<le> length (mKeyVals t)" using s(3) False by auto
    ultimately obtain e t1 t2 where oc: "occupy p (info_in h t k p) t = Inr (e, t1)"
        "put_node p (k, v) t1 = Inr t2" "same_shape t t2"
      using occupy_ok [OF ok _ _ False] by metis
    have "prepare_attempts (Suc n) h k t = Inr (p, if e = p then new_node else overwrite_node, t1)" for n
      using s False room oc(1) by (simp add: keyToIdx_home)
    from this [of 255] show ?thesis
      using oc(2,3) by (cases "e = p") (simp_all add: table_emplace_def insertKeyPrepareEmptySpot_def, blast+)
  qed
qed

end
