(* ===== verification/Robin_Hood_Iter.thy ===== *)
theory Robin_Hood_Iter
  imports Robin_Hood_Erase
begin

text \<open>
  Iterators of the hash table (class \<open>Iter\<close> of \<open>include/utils/robin_hood.h\<close>): they skip empty slots
  eight info bytes at a time, by the number of trailing zero bits of a little-endian 64-bit load.
  An iterator is an index; \<open>end()\<close> is the number of slots.
\<close>

section \<open>Loads\<close>

definition little_endian :: "nat list \<Rightarrow> nat" where
  "little_endian bytes = foldr (\<lambda>b n. b + 256 * n) bytes 0"

text \<open>\<open>unaligned_load<size_t>\<close>: reading past the array is undefined.\<close>

definition load64 :: "nat list \<Rightarrow> nat \<Rightarrow> nat res" where
  "load64 bytes i = require (i + 8 \<le> length bytes) (little_endian (take 8 (drop i bytes)))"

text \<open>\<open>ROBIN_HOOD_COUNT_TRAILING_ZEROES\<close> of a 64-bit number.\<close>

fun count_trailing_zeroes :: "nat \<Rightarrow> nat" where
  "count_trailing_zeroes n = (if n = 0 then 64 else if even n then Suc (count_trailing_zeroes (n div 2)) else 0)"

declare count_trailing_zeroes.simps [simp del]

section \<open>Iterators\<close>

lemma load64_Inr: "load64 bytes i = Inr n \<Longrightarrow> i + 8 \<le> length bytes"
  by (simp add: load64_def)

text \<open>The intrinsic after the loop, on a little-endian machine.\<close>

definition skip_zero_bytes :: "nat \<Rightarrow> nat \<Rightarrow> nat" where
  "skip_zero_bytes n idx = idx + count_trailing_zeroes n div 8"

function fastForward :: "('k, 'v) Table \<Rightarrow> nat \<Rightarrow> nat res" where
  "fastForward t idx =
     rbind (load64 (mInfo t) idx) (\<lambda>n.
     if n = 0 then fastForward t (idx + 8) else Inr (skip_zero_bytes n idx))"
  by pat_completeness auto
termination
  by (relation "measure (\<lambda>(t, idx). length (mInfo t) - idx)") (auto dest!: load64_Inr)

declare fastForward.simps [simp del]

definition table_end :: "('k, 'v) Table \<Rightarrow> nat" where
  "table_end t = length (mKeyVals t)"

definition table_begin :: "('k, 'v) Table \<Rightarrow> nat res" where
  "table_begin t = (if table_empty t then Inr (table_end t) else fastForward t 0)"

definition iter_next :: "('k, 'v) Table \<Rightarrow> nat \<Rightarrow> nat res" where
  "iter_next t idx = fastForward t (idx + 1)"

lemma fastForward_le: "fastForward t i = Inr j \<Longrightarrow> i \<le> j"
proof (induction t i rule: fastForward.induct)
  case (1 t idx)
  then obtain n where n: "load64 (mInfo t) idx = Inr n"
      "(if n = 0 then fastForward t (idx + 8) else Inr (skip_zero_bytes n idx)) = Inr j"
    by (subst (asm) (2) fastForward.simps) auto
  then show ?case using "1.IH" [OF n(1)] by (auto simp: skip_zero_bytes_def split: if_splits)
qed

text \<open>A range-based loop over the table: the pairs from an iterator to \<open>end()\<close>.\<close>

function iterate_from :: "('k, 'v) Table \<Rightarrow> nat \<Rightarrow> ('k \<times> 'v) list res" where
  "iterate_from t idx =
     (if idx = table_end t then Inr []
      else rbind (node_at t idx) (\<lambda>kv.
        rbind (iter_next t idx) (\<lambda>idx'.
        rbind (iterate_from t idx') (\<lambda>kvs. Inr (kv # kvs)))))"
  by pat_completeness auto
termination
proof (relation "measure (\<lambda>(t, idx). table_end t - idx)", goal_cases)
  case (2 t idx kv idx')
  then show ?case
    by (auto simp: node_at_def table_end_def iter_next_def dest!: fastForward_le split: if_splits)
qed simp

declare iterate_from.simps [simp del]

definition iterate :: "('k, 'v) Table \<Rightarrow> ('k \<times> 'v) list res" where
  "iterate t = rbind (table_begin t) (iterate_from t)"

text \<open>
  \<open>erase\<close> through an iterator: the next pair has either moved into the slot or is the next one found.
\<close>

definition table_erase_iterator :: "nat \<Rightarrow> ('k, 'v) Table \<Rightarrow> (nat \<times> ('k, 'v) Table) res" where
  "table_erase_iterator pos t =
     rbind (erase_at pos t) (\<lambda>t1.
     rbind (info_at t1 pos) (\<lambda>b.
     if b \<noteq> 0 then Inr (pos, t1) else rbind (iter_next t1 pos) (\<lambda>next. Inr (next, t1))))"

section \<open>Trailing zero bits and zero bytes\<close>

lemma trailing_double: "0 < n \<Longrightarrow> count_trailing_zeroes (2 * n) = Suc (count_trailing_zeroes n)"
  by (subst count_trailing_zeroes.simps) simp

lemma trailing_byte: "0 < n \<Longrightarrow> count_trailing_zeroes (256 * n) = 8 + count_trailing_zeroes n"
proof -
  assume "0 < n"
  then show ?thesis
    using trailing_double [of n] trailing_double [of "2 * n"] trailing_double [of "4 * n"]
      trailing_double [of "8 * n"] trailing_double [of "16 * n"] trailing_double [of "32 * n"]
      trailing_double [of "64 * n"] trailing_double [of "128 * n"] by simp
qed

lemma trailing_dvd: "0 < n \<Longrightarrow> m \<le> count_trailing_zeroes n \<Longrightarrow> 2 ^ m dvd n"
proof (induction m arbitrary: n)
  case (Suc m)
  have "even n" using Suc.prems by (subst (asm) count_trailing_zeroes.simps) (auto split: if_splits)
  then obtain k where k: "n = 2 * k" by (rule evenE)
  then have "m \<le> count_trailing_zeroes k" "0 < k" using Suc.prems trailing_double [of k] by auto
  then show ?case using Suc.IH k by simp
qed simp

text \<open>The number of trailing zero bits, divided by eight, is the index of the first non-zero byte.\<close>

lemma trailing_first_byte:
  assumes "k < length bytes" and "bytes ! k \<noteq> 0" and "\<forall>j < k. bytes ! j = 0" and "\<forall>b \<in> set bytes. b < 256"
  shows "0 < little_endian bytes" and "count_trailing_zeroes (little_endian bytes) div 8 = k"
proof -
  have "0 < little_endian bytes \<and> count_trailing_zeroes (little_endian bytes) div 8 = k"
    using assms
  proof (induction bytes arbitrary: k)
    case (Cons b bytes)
    have le: "little_endian (b # bytes) = b + 256 * little_endian bytes" by (simp add: little_endian_def)
    show ?case
    proof (cases k)
      case 0
      then have b: "0 < b" "b < 256" using Cons.prems by auto
      have "\<not> 8 \<le> count_trailing_zeroes (b + 256 * little_endian bytes)"
      proof
        assume "8 \<le> count_trailing_zeroes (b + 256 * little_endian bytes)"
        then have "256 dvd b + 256 * little_endian bytes" using trailing_dvd [of _ 8] b(1) by simp
        then have "256 dvd b" by (simp add: dvd_add_left_iff)
        then show False using b by (auto dest: dvd_imp_le)
      qed
      then show ?thesis using 0 b(1) le by simp
    next
      case (Suc m)
      have "0 < little_endian bytes \<and> count_trailing_zeroes (little_endian bytes) div 8 = m"
        using Cons.prems Suc by (intro Cons.IH) auto
      moreover have "b = 0" using Cons.prems(3) Suc by auto
      moreover have "(8 + x) div 8 = Suc (x div 8)" for x :: nat by simp
      ultimately show ?thesis using Suc le by (simp add: trailing_byte)
    qed
  qed simp
  then show "0 < little_endian bytes" "count_trailing_zeroes (little_endian bytes) div 8 = k" by auto
qed

lemma little_endian_zero: "\<forall>b \<in> set bytes. b = 0 \<Longrightarrow> little_endian bytes = 0"
  by (induction bytes) (auto simp: little_endian_def)

section \<open>Skipping\<close>

lemma fastForward_first:
  assumes "i \<le> s" and "s + 8 \<le> length (mInfo t)" and "mInfo t ! s \<noteq> 0"
    and "\<forall>j. i \<le> j \<and> j < s \<longrightarrow> mInfo t ! j = 0" and "\<forall>b \<in> set (mInfo t). b < 256"
  shows "fastForward t i = Inr s"
  using assms
proof (induction "s - i" arbitrary: i rule: less_induct)
  case less
  let ?bytes = "take 8 (drop i (mInfo t))"
  have ld: "load64 (mInfo t) i = Inr (little_endian ?bytes)" using less.prems(1,2) by (simp add: load64_def)
  have nth: "?bytes ! j = mInfo t ! (i + j)" if "j < 8" for j using that less.prems(1,2) by simp
  have len: "length ?bytes = 8" using less.prems(1,2) by simp
  have small: "\<forall>b \<in> set ?bytes. b < 256" using less.prems(5) by (auto dest!: in_set_takeD in_set_dropD)
  show ?case
  proof (cases "s < i + 8")
    case True
    then have "s - i < length ?bytes" "?bytes ! (s - i) \<noteq> 0" "\<forall>j < s - i. ?bytes ! j = 0"
      using less.prems len nth by auto
    from trailing_first_byte [OF this small] show ?thesis
      using ld less.prems(1) by (subst fastForward.simps) (simp add: skip_zero_bytes_def)
  next
    case False
    have "\<forall>b \<in> set ?bytes. b = 0"
      using less.prems False nth len by (auto simp: in_set_conv_nth)
    then have "fastForward t i = fastForward t (i + 8)"
      using ld by (subst fastForward.simps) (simp add: little_endian_zero)
    moreover have "fastForward t (i + 8) = Inr s"
      using less.prems False by (intro less.hyps) auto
    ultimately show ?thesis by simp
  qed
qed

text \<open>The first occupied slot from an index on, or the end.\<close>

definition next_occupied :: "('k, 'v) Table \<Rightarrow> nat \<Rightarrow> nat \<Rightarrow> bool" where
  "next_occupied t i s \<longleftrightarrow> i \<le> s \<and> s \<le> table_end t \<and> (s < table_end t \<longrightarrow> mKeyVals t ! s \<noteq> None) \<and>
     (\<forall>j. i \<le> j \<and> j < s \<longrightarrow> mKeyVals t ! j = None)"

lemma next_occupied_exists: "i \<le> table_end t \<Longrightarrow> \<exists>s. next_occupied t i s"
proof (induction "table_end t - i" arbitrary: i)
  case 0
  then show ?case by (auto simp: next_occupied_def)
next
  case (Suc n)
  show ?case
  proof (cases "mKeyVals t ! i")
    case None
    have "n = table_end t - Suc i" "Suc i \<le> table_end t" using Suc.hyps(2) by auto
    then obtain s where "next_occupied t (Suc i) s" using Suc.hyps(1) by blast
    moreover have "i \<le> j \<longleftrightarrow> j = i \<or> Suc i \<le> j" for j by auto
    ultimately have "next_occupied t i s" using None by (auto simp: next_occupied_def)
    then show ?thesis by blast
  next
    case (Some kv)
    then show ?thesis using Suc.prems by (intro exI [of _ i]) (auto simp: next_occupied_def)
  qed
qed

lemma fastForward_ok:
  assumes ok: "array_ok h t" and s: "next_occupied t i s"
  shows "fastForward t i = Inr s"
proof -
  have sh: "shape_ok t" and sl: "slots_ok h t" using ok by (simp_all add: array_ok_def)
  have zero: "mInfo t ! j = 0 \<longleftrightarrow> mKeyVals t ! j = None" if "j < table_end t" for j
    using slot_zero [OF sh sl] that by (simp add: table_end_def)
  have "mInfo t ! j < 256" if "j < length (mInfo t)" for j
  proof (cases "j < table_end t")
    case True
    then have "mInfo t ! j \<le> 255" using sl by (simp add: slots_ok_def table_end_def)
    then show ?thesis by simp
  next
    case False
    then have "mInfo t ! j \<le> 1" using padding [OF sh, of j] that length_mInfo [OF sh] by (simp add: table_end_def)
    then show ?thesis by simp
  qed
  then have "\<forall>b \<in> set (mInfo t). b < 256" by (auto simp: in_set_conv_nth)
  moreover have "mInfo t ! s \<noteq> 0"
    using s zero [of s] sentinel [OF sh] by (cases "s < table_end t") (auto simp: next_occupied_def table_end_def)
  ultimately show ?thesis
    using s zero length_mInfo [OF sh] by (intro fastForward_first) (auto simp: next_occupied_def table_end_def)
qed

section \<open>Visiting every pair\<close>

lemma somes_append: "somes (xs @ ys) = somes xs @ somes ys"
  by (induction xs rule: somes.induct) simp_all

lemma somes_None: "\<forall>x \<in> set xs. x = None \<Longrightarrow> somes xs = []"
  by (induction xs) auto

lemma somes_skip:
  assumes "next_occupied t i s"
  shows "somes (drop i (mKeyVals t)) = somes (drop s (mKeyVals t))"
proof -
  have le: "i \<le> s" "s \<le> length (mKeyVals t)" using assms by (auto simp: next_occupied_def table_end_def)
  then have "drop i (mKeyVals t) = take (s - i) (drop i (mKeyVals t)) @ drop s (mKeyVals t)"
    using append_take_drop_id [of "s - i" "drop i (mKeyVals t)"] by simp
  moreover have "\<forall>x \<in> set (take (s - i) (drop i (mKeyVals t))). x = None"
    using assms le by (auto simp: in_set_conv_nth next_occupied_def)
  ultimately show ?thesis by (metis somes_append somes_None append_Nil)
qed

lemma iterate_from_ok:
  assumes ok: "array_ok h t"
  shows "next_occupied t s s \<Longrightarrow> iterate_from t s = Inr (somes (drop s (mKeyVals t)))"
proof (induction "table_end t - s" arbitrary: s rule: less_induct)
  case less
  show ?case
  proof (cases "s = table_end t")
    case True
    then show ?thesis by (subst iterate_from.simps) (simp add: table_end_def)
  next
    case False
    then obtain kv where kv: "s < table_end t" "mKeyVals t ! s = Some kv"
      using less.prems by (auto simp: next_occupied_def)
    obtain s' where s': "next_occupied t (Suc s) s'" using next_occupied_exists [of "Suc s" t] kv(1) by auto
    then have "next_occupied t s' s'" "s < s'" by (auto simp: next_occupied_def)
    then have "iterate_from t s' = Inr (somes (drop s' (mKeyVals t)))"
      using kv(1) by (intro less.hyps) auto
    moreover have "iter_next t s = Inr s'" using fastForward_ok [OF ok s'] by (simp add: iter_next_def)
    moreover have "drop s (mKeyVals t) = Some kv # drop (Suc s) (mKeyVals t)"
      using kv by (simp add: Cons_nth_drop_Suc [symmetric] table_end_def)
    moreover have "node_at t s = Inr kv" using kv by (simp add: node_at_def table_end_def)
    ultimately show ?thesis
      using somes_skip [OF s'] False by (subst iterate_from.simps) simp
  qed
qed

lemma dummy_empty: "is_dummy t \<Longrightarrow> table_empty t"
  unfolding is_dummy_def table_empty_def
  by (erule arg_cong [where f = mNumElements, THEN trans]) (simp add: new_table_def)

lemma iterate_ok:
  assumes "table_inv h t"
  shows "iterate t = Inr (entries t)"
proof (cases "table_empty t")
  case True
  have "entries t = []"
  proof (cases "is_dummy t")
    case True
    then show ?thesis by (simp add: entries_def is_dummy_keys)
  next
    case False
    then have "room_ok t" using assms by (simp add: table_inv_def array_ok_def)
    with True show ?thesis by (simp add: room_ok_def table_empty_def)
  qed
  with True show ?thesis
    by (subst iterate_def) (simp add: table_begin_def iterate_from.simps [of t "table_end t"])
next
  case False
  then have "\<not> is_dummy t" using dummy_empty by blast
  then have ok: "array_ok h t" using assms by (simp add: table_inv_def)
  obtain s where s: "next_occupied t 0 s" using next_occupied_exists [of 0 t] by auto
  then have "next_occupied t s s" by (auto simp: next_occupied_def)
  then show ?thesis
    using False fastForward_ok [OF ok s] iterate_from_ok [OF ok] somes_skip [OF s]
    by (simp add: iterate_def table_begin_def entries_def)
qed

text \<open>Erasing through an iterator never fails and returns the iterator to the next pair.\<close>

lemma erase_iterator_ok:
  assumes ok: "array_ok h t" and kv: "i < table_end t" "mKeyVals t ! i = Some kv"
  shows "\<exists>s t'. table_erase_iterator i t = Inr (s, t') \<and> array_ok h t' \<and> next_occupied t' i s \<and>
    add_mset kv (mset (entries t')) = mset (entries t)"
proof -
  have "i < length (mKeyVals t)" using kv(1) by (simp add: table_end_def)
  then obtain t' where t': "erase_at i t = Inr t'" "array_ok h t'" "add_mset kv (mset (entries t')) = mset (entries t)"
    "length (mKeyVals t') = length (mKeyVals t)"
    using erase_at_ok [OF ok _ kv(2)] by blast
  have i: "i < table_end t'" using kv(1) t'(4) by (simp add: table_end_def)
  have sh: "shape_ok t'" and sl: "slots_ok h t'" using t'(2) by (simp_all add: array_ok_def)
  have b: "info_at t' i = Inr (mInfo t' ! i)" "mInfo t' ! i = 0 \<longleftrightarrow> mKeyVals t' ! i = None"
    using i slot_zero [OF sh sl] length_mInfo [OF sh] by (simp_all add: info_at_def table_end_def)
  show ?thesis
  proof (cases "mKeyVals t' ! i")
    case None
    obtain s where s: "next_occupied t' (Suc i) s" using next_occupied_exists [of "Suc i" t'] i by auto
    moreover have "i \<le> j \<longleftrightarrow> j = i \<or> Suc i \<le> j" for j by auto
    ultimately have "next_occupied t' i s" using None by (auto simp: next_occupied_def)
    then show ?thesis
      using t' b None fastForward_ok [OF t'(2) s] by (auto simp: table_erase_iterator_def iter_next_def)
  next
    case (Some kv')
    then have "next_occupied t' i i" using i by (auto simp: next_occupied_def)
    then show ?thesis using t' b Some by (auto simp: table_erase_iterator_def)
  qed
qed

end
