(* ===== verification/Robin_Hood_Capacity.thy ===== *)
theory Robin_Hood_Capacity
  imports Robin_Hood_Iter
begin

text \<open>
  The operations of the hash table that change its capacity (\<open>reserve\<close>, \<open>rehash\<close>, \<open>compact\<close>,
  \<open>clear\<close>), and access by reference (\<open>operator[]\<close>, \<open>at\<close>), from \<open>include/utils/robin_hood.h\<close>.
\<close>

section \<open>Operations\<close>

text \<open>The loop of \<open>reserve\<close> and \<open>compact\<close>: doubling wraps around to zero.\<close>

partial_function (option) wanted_size :: "nat \<Rightarrow> nat \<Rightarrow> nat option" where
  "wanted_size elements newSize =
     (if calcMaxNumElementsAllowed newSize < elements \<and> newSize \<noteq> 0
      then wanted_size elements (newSize * 2 mod 2 ^ 64) else Some newSize)"

definition size_for :: "nat \<Rightarrow> nat res" where
  "size_for elements =
     rbind (returns (map_option Inr (wanted_size elements InitialNumElements))) (\<lambda>newSize.
     if newSize = 0 then Inl Terminated else Inr newSize)"

definition reserve_or_rehash :: "('k \<Rightarrow> u64) \<Rightarrow> nat \<Rightarrow> bool \<Rightarrow> ('k, 'v) Table \<Rightarrow> ('k, 'v) Table res" where
  "reserve_or_rehash h c forceRehash t =
     rbind (size_for (max c (mNumElements t))) (\<lambda>newSize.
     if forceRehash \<or> mMask t + 1 < newSize then rehashPowerOfTwo h newSize t else Inr t)"

definition table_reserve :: "('k \<Rightarrow> u64) \<Rightarrow> nat \<Rightarrow> ('k, 'v) Table \<Rightarrow> ('k, 'v) Table res" where
  "table_reserve h c t = reserve_or_rehash h c False t"

definition table_rehash :: "('k \<Rightarrow> u64) \<Rightarrow> nat \<Rightarrow> ('k, 'v) Table \<Rightarrow> ('k, 'v) Table res" where
  "table_rehash h c t = reserve_or_rehash h c True t"

definition table_compact :: "('k \<Rightarrow> u64) \<Rightarrow> ('k, 'v) Table \<Rightarrow> ('k, 'v) Table res" where
  "table_compact h t =
     rbind (size_for (mNumElements t)) (\<lambda>newSize.
     if newSize < mMask t + 1 then rehashPowerOfTwo h newSize t else Inr t)"

text \<open>A destroyed slot holds no pair. The limit on the number of elements is left as it is.\<close>

definition table_clear :: "('k, 'v) Table \<Rightarrow> ('k, 'v) Table" where
  "table_clear t =
     (if table_empty t then t
      else let n = calcNumElementsWithBuffer (mMask t + 1) in
        t\<lparr>mNumElements := 0, mKeyVals := replicate (length (mKeyVals t)) None,
          mInfo := (replicate (calcNumBytesInfo n) 0)[n := 1], mInfoInc := InitialInfoInc,
          mInfoHashShift := 0\<rparr>)"

text \<open>\<open>operator[]\<close>: the slot of the key, which gets a default value if it is new.\<close>

definition table_index :: "('k \<Rightarrow> u64) \<Rightarrow> 'k \<Rightarrow> 'v \<Rightarrow> ('k, 'v) Table \<Rightarrow> (nat \<times> ('k, 'v) Table) res" where
  "table_index h key initial t =
     rbind (insertKeyPrepareEmptySpot h key t) (\<lambda>(idx, st, t1).
     case st of
       key_found \<Rightarrow> Inr (idx, t1)
     | new_node \<Rightarrow> rbind (put_node idx (key, initial) t1) (\<lambda>t2. Inr (idx, t2))
     | overwrite_node \<Rightarrow> rbind (put_node idx (key, initial) t1) (\<lambda>t2. Inr (idx, t2))
     | overflow_error \<Rightarrow> Inl Terminated)"

text \<open>\<open>at\<close>: the exception of a missing key is \<open>Terminated\<close>.\<close>

definition table_at :: "('k \<Rightarrow> u64) \<Rightarrow> ('k, 'v) Table \<Rightarrow> 'k \<Rightarrow> 'v res" where
  "table_at h t key =
     rbind (findIdx h t key) (\<lambda>idx.
     if idx = length (mKeyVals t) then Inl Terminated
     else rbind (node_at t idx) (\<lambda>kv. Inr (snd kv)))"

section \<open>Sizes\<close>

lemma wanted_size_ends:
  assumes "k \<le> 64"
  shows "\<exists>n. wanted_size c (2 ^ k mod 2 ^ 64) = Some n \<and>
    (n = 0 \<or> (\<exists>j. k \<le> j \<and> j < 64 \<and> n = 2 ^ j \<and> c \<le> calcMaxNumElementsAllowed n))"
  using assms
proof (induction "64 - k" arbitrary: k)
  case 0
  then have "k = 64" by simp
  then show ?case by (subst wanted_size.simps) simp
next
  case (Suc d)
  then have k: "k < 64" by simp
  then have small: "(2 :: nat) ^ k mod 2 ^ 64 = 2 ^ k" by (intro mod_less power_strict_increasing) auto
  show ?case
  proof (cases "calcMaxNumElementsAllowed (2 ^ k) < c")
    case True
    have "wanted_size c (2 ^ k mod 2 ^ 64) = wanted_size c (2 ^ Suc k mod 2 ^ 64)"
      unfolding small using True by (subst wanted_size.simps) (simp add: mult.commute)
    moreover obtain n where "wanted_size c (2 ^ Suc k mod 2 ^ 64) = Some n"
        "n = 0 \<or> (\<exists>j. Suc k \<le> j \<and> j < 64 \<and> n = 2 ^ j \<and> c \<le> calcMaxNumElementsAllowed n)"
      using Suc.hyps(1) [of "Suc k"] Suc.hyps(2) k by (metis Suc_leI diff_Suc_Suc Suc_diff_Suc nat.inject)
    ultimately show ?thesis by (auto dest: Suc_leD)
  next
    case False
    then have "wanted_size c (2 ^ k mod 2 ^ 64) = Some (2 ^ k)"
      unfolding small by (subst wanted_size.simps) simp
    with False k show ?thesis by (auto simp: not_less)
  qed
qed

lemma size_for_ok: "overflow_or (size_for c) (\<lambda>n. 8 \<le> n \<and> c \<le> calcMaxNumElementsAllowed n)"
proof -
  obtain n where n: "wanted_size c (2 ^ 3 mod 2 ^ 64) = Some n"
      "n = 0 \<or> (\<exists>j. 3 \<le> j \<and> j < 64 \<and> n = 2 ^ j \<and> c \<le> calcMaxNumElementsAllowed n)"
    using wanted_size_ends [of 3 c] by (auto simp del: power_Suc)
  have "8 \<le> n" if n0: "n \<noteq> 0"
  proof -
    obtain j where "3 \<le> j" "n = 2 ^ j" using n(2) n0 by auto
    then show ?thesis using power_increasing [of 3 j "2 :: nat"] by simp
  qed
  with n show ?thesis by (auto simp: size_for_def InitialNumElements_def)
qed

lemma rehash_inv:
  assumes inv: "table_inv h t" and m: "8 \<le> m" and room: "mNumElements t \<le> calcMaxNumElementsAllowed m"
  shows "overflow_or (rehashPowerOfTwo h m t) (\<lambda>t'. table_inv h t' \<and> mset (entries t') = mset (entries t) \<and>
    mMask t' = m - 1)"
proof (cases "is_dummy t")
  case True
  then obtain a where t: "t = new_table\<lparr>mHashMultiplier := a\<rparr>" by (auto simp: is_dummy_def)
  have "calcNumElementsWithBuffer (mMask t + 1) = 1"
    by (simp add: t new_table_def calcNumElementsWithBuffer_def calcMaxNumElementsAllowed_def)
  then show ?thesis
    using initData_ok(1) [OF m, of h t] initData_ok(2,3) [OF m, of t] is_dummy_keys [OF True]
    by (simp add: rehashPowerOfTwo_def table_inv_def entries_def)
next
  case False
  then have "array_ok h t" using inv by (simp add: table_inv_def)
  from rehash_mask_ok [OF this m room refl refl refl] show ?thesis
    by (rule overflow_or_mono) (simp add: table_inv_def)
qed

section \<open>What the operations do\<close>

lemma reserve_or_rehash_ok:
  assumes "table_inv h t"
  shows "overflow_or (reserve_or_rehash h c f t) (\<lambda>t'. table_inv h t' \<and> mset (entries t') = mset (entries t) \<and>
    (\<exists>n. c \<le> calcMaxNumElementsAllowed n \<and> n \<le> mMask t' + 1))"
  unfolding reserve_or_rehash_def
proof (rule overflow_or_rbind [OF size_for_ok])
  fix n assume n: "8 \<le> n \<and> max c (mNumElements t) \<le> calcMaxNumElementsAllowed n"
  then have "overflow_or (rehashPowerOfTwo h n t) (\<lambda>t'. table_inv h t' \<and> mset (entries t') = mset (entries t) \<and>
      (\<exists>n. c \<le> calcMaxNumElementsAllowed n \<and> n \<le> mMask t' + 1))"
    by (intro overflow_or_mono [OF rehash_inv [OF assms]]) auto
  then show "overflow_or (if f \<or> mMask t + 1 < n then rehashPowerOfTwo h n t else Inr t)
      (\<lambda>t'. table_inv h t' \<and> mset (entries t') = mset (entries t) \<and>
        (\<exists>n. c \<le> calcMaxNumElementsAllowed n \<and> n \<le> mMask t' + 1))"
    using assms n by auto
qed

lemma table_compact_ok:
  assumes "table_inv h t"
  shows "overflow_or (table_compact h t) (\<lambda>t'. table_inv h t' \<and> mset (entries t') = mset (entries t) \<and>
    mMask t' \<le> mMask t)"
  unfolding table_compact_def
proof (rule overflow_or_rbind [OF size_for_ok])
  fix n assume n: "8 \<le> n \<and> mNumElements t \<le> calcMaxNumElementsAllowed n"
  have "overflow_or (rehashPowerOfTwo h n t) (\<lambda>t'. table_inv h t' \<and> mset (entries t') = mset (entries t) \<and>
      mMask t' \<le> mMask t)" if "n < mMask t + 1"
    using n that by (intro overflow_or_mono [OF rehash_inv [OF assms]]) auto
  then show "overflow_or (if n < mMask t + 1 then rehashPowerOfTwo h n t else Inr t)
      (\<lambda>t'. table_inv h t' \<and> mset (entries t') = mset (entries t) \<and> mMask t' \<le> mMask t)"
    using assms by auto
qed

lemma table_clear_ok:
  assumes inv: "table_inv h t"
  shows "table_inv h (table_clear t)" and "entries (table_clear t) = []"
proof -
  have "table_inv h (table_clear t) \<and> entries (table_clear t) = []"
  proof (cases "table_empty t")
    case True
    then have "entries t = []"
      using iterate_ok [OF inv] by (simp add: iterate_def table_begin_def iterate_from.simps [of t "table_end t"])
    with True inv show ?thesis by (simp add: table_clear_def)
  next
    case False
    then have "\<not> is_dummy t" using dummy_empty by blast
    then have ok: "array_ok h t" using inv by (simp add: table_inv_def)
    let ?t = "table_clear t" and ?n = "length (mKeyVals t)"
    have sh: "shape_ok t" and rm: "room_ok t" using ok by (simp_all add: array_ok_def)
    have n: "calcNumElementsWithBuffer (mMask t + 1) = ?n" using sh unfolding shape_ok_def Let_def by simp
    have mask: "7 \<le> mMask t" "0 < ?n" using sh shape_length [OF sh] by (auto simp: shape_ok_def Let_def)
    have t: "?t = t\<lparr>mNumElements := 0, mKeyVals := replicate ?n None, mInfo := (replicate (?n + 8) 0)[?n := 1],
        mInfoInc := 32, mInfoHashShift := 0\<rparr>"
      using False n by (simp add: table_clear_def Let_def calcNumBytesInfo_def InitialInfoInc_def)
    have e: "entries ?t = []" by (simp add: t entries_def somes_None)
    moreover have "shape_ok ?t" using mask n by (simp add: t shape_ok_def Let_def nth_list_update)
    moreover have "slots_ok h ?t" by (simp add: t slots_ok_def)
    moreover have "gaps_ok (mInfoInc ?t) (length (mKeyVals ?t)) (mInfo ?t)" using mask by (simp add: t gaps_ok_def)
    moreover have "room_ok ?t" using rm e by (simp add: t room_ok_def)
    ultimately show ?thesis by (simp add: table_inv_def array_ok_def)
  qed
  then show "table_inv h (table_clear t)" "entries (table_clear t) = []" by simp_all
qed

lemma table_index_emplace:
  "table_index h k v t = rbind (table_emplace h k v t) (\<lambda>(i, inserted, t'). Inr (i, t'))"
proof (cases "insertKeyPrepareEmptySpot h k t")
  case (Inr r)
  obtain i st t1 where "r = (i, st, t1)" by (cases r)
  with Inr show ?thesis
    by (cases st; cases "put_node i (k, v) t1") (simp_all add: table_index_def table_emplace_def)
qed (simp add: table_index_def table_emplace_def)

lemma table_at_find:
  "table_at h t k = rbind (table_find h t k) (\<lambda>r. case r of None \<Rightarrow> Inl Terminated | Some kv \<Rightarrow> Inr (snd kv))"
  by (cases "findIdx h t k") (auto simp: table_at_def table_find_def rbind_def split: sum.split)

end
