(* ===== verification/Robin_Hood_Properties.thy ===== *)
theory Robin_Hood_Properties
  imports Robin_Hood_Map Robin_Hood_Capacity
begin

text \<open>
  The properties of the hash table, with a sample table of order IDs that has grown past its first array.
\<close>

section \<open>A sample table\<close>

text \<open>For evaluation: the bound of the first case, compared as an integer.\<close>

lemma calcMax_code [code]:
  "calcMaxNumElementsAllowed n =
     (if int n \<le> 184467440737095516 then n * 80 div 100 else n div 100 * 80)"
  by (auto simp: calcMaxNumElementsAllowed_def)

definition sample_ops :: "(u64, nat) table_op list" where
  "sample_ops = [Emplace 1 10, Emplace 2 20, Emplace 3 30, Emplace 4 40, Emplace 5 50, Emplace 6 60,
     Emplace 7 70, Emplace 2 99, Erase 4]"

definition sample_table :: "(u64, nat) Table" where
  "sample_table = (case table_run hash_of sample_ops new_table of Inl e \<Rightarrow> new_table | Inr t \<Rightarrow> t)"

lemma sample_table_run: "table_run hash_of sample_ops new_table = Inr sample_table"
proof -
  have "case table_run hash_of sample_ops new_table of Inl e \<Rightarrow> False | Inr t \<Rightarrow> True" by code_simp
  then show ?thesis by (auto simp: sample_table_def split: sum.splits)
qed

lemma sample_table_inv: "table_inv hash_of sample_table"
  using table_run_represents [OF table.represents_empty, of hash_of sample_ops] sample_table_run
  by (simp add: table.represents_def)

section \<open>Properties\<close>

text \<open>
  C32. The hash table refines the association list that the book and the market are modelled with: after
  any sequence of insertions and erasures, under any hash function, either the table has thrown its
  overflow exception, or it holds exactly the pairs of the list and every lookup gives the same answer.
  No access is ever outside the array, in a slot without a pair, or endless.
\<close>

theorem table_refines_list:
  "(table_run h ops new_table = Inl Terminated) \<or>
   (\<exists>t. table_run h ops new_table = Inr t \<and> mset (entries t) = mset (list_run ops []) \<and>
     (\<forall>k. table_find h t k = Inr (map_option (Pair k) (hm_find k (list_run ops [])))))"
proof (cases "table_run h ops new_table = Inl Terminated")
  case False
  then obtain t where t: "table_run h ops new_table = Inr t" "table.represents h t (list_run ops [])"
    using table_run_represents [OF table.represents_empty, of h ops] by (auto simp: overflow_or_def)
  then show ?thesis
    using table.represents_find [OF t(2)] by (auto simp: table.represents_def intro!: exI [of _ t])
qed simp

text \<open>
  On a table that keeps the Robin Hood invariant \<open>find\<close> is exact: it never reads outside the
  array, ends at the first slot poorer than the key would be, and returns the pair of the key if and
  only if the table holds one.
\<close>

lemma table_find_exact:
  assumes "table_inv h t"
  shows "\<exists>r. table_find h t k = Inr r \<and> (\<forall>k' v. r = Some (k', v) \<longleftrightarrow> k' = k \<and> (k, v) \<in> set (entries t))"
  using table_find_ok [OF assms, of k] table_inv_distinct [OF assms] by auto

lemma table_find_exact_witness:
  "table_find hash_of sample_table 2 = Inr (Some (2, 20)) \<and> table_find hash_of sample_table 4 = Inr None"
proof -
  have m: "(2, 20) \<in> set (entries sample_table)" "4 \<notin> fst ` set (entries sample_table)" by code_simp+
  obtain r where "table_find hash_of sample_table 2 = Inr r" "r = Some (2, 20)"
    using table_find_exact [OF sample_table_inv, of 2] m(1) by auto
  moreover obtain r where r: "table_find hash_of sample_table 4 = Inr r"
      "\<forall>k' v. r = Some (k', v) \<longleftrightarrow> k' = 4 \<and> (4, v) \<in> set (entries sample_table)"
    using table_find_exact [OF sample_table_inv, of 4] by auto
  have "r = None" using r(2) m(2) by (cases r) force+
  ultimately show ?thesis using r(1) by simp
qed

text \<open>
  C38. \<open>emplace\<close> keeps the invariant and inserts the pair exactly if its key is not there, with every
  other pair kept through the shifts, the narrowing of the info bytes and the rehashing it may do; the
  slot it returns holds the key. Its only failure is the overflow exception.
\<close>

theorem table_emplace_exact:
  assumes "table_inv h t"
  shows "table_emplace h k v t = Inl Terminated \<or>
    (\<exists>i inserted t'. table_emplace h k v t = Inr (i, inserted, t') \<and> table_inv h t' \<and> key_at t' i k \<and>
      inserted = (\<not> has_key t k) \<and>
      mset (entries t') = (if has_key t k then mset (entries t) else add_mset (k, v) (mset (entries t))))"
  using table_emplace_ok [OF assms, of k v] by (auto simp: overflow_or_def)

theorem table_emplace_exact_witness:
  "\<exists>i t'. table_emplace hash_of 9 90 sample_table = Inr (i, True, t') \<and> key_at t' i 9 \<and>
    size (mset (entries t')) = 7"
proof -
  have "case table_emplace hash_of 9 90 sample_table of Inl e \<Rightarrow> False | Inr r \<Rightarrow> True" by code_simp
  moreover have "9 \<notin> fst ` set (entries sample_table)" "length (entries sample_table) = 6" by code_simp+
  ultimately obtain i t' where "table_emplace hash_of 9 90 sample_table = Inr (i, True, t')" "key_at t' i 9"
      "mset (entries t') = add_mset (9, 90) (mset (entries sample_table))" "length (entries sample_table) = 6"
    using table_emplace_exact [OF sample_table_inv, of 9 90] by (auto simp: has_key_def split: sum.splits)
  moreover from this have "size (mset (entries t')) = 7" by (simp only: size_add_mset size_mset)
  ultimately show ?thesis by blast
qed

text \<open>
  \<open>erase\<close> never fails: it removes exactly the pair of the key, returns how many pairs it removed,
  and keeps the invariant, so that every other key is still found.
\<close>

lemma table_erase_exact:
  assumes "table_inv h t"
  shows "\<exists>t'. table_erase h k t = Inr (if has_key t k then 1 else 0, t') \<and> table_inv h t' \<and>
    mset (entries t') = filter_mset (\<lambda>kv. fst kv \<noteq> k) (mset (entries t))"
  using assms by (rule table_erase_ok)

lemma table_erase_exact_witness:
  "\<exists>t'. table_erase hash_of 5 sample_table = Inr (1, t') \<and> table_inv hash_of t'"
proof -
  have "5 \<in> fst ` set (entries sample_table)" by code_simp
  with table_erase_exact [OF sample_table_inv, of 5] show ?thesis by (auto simp: has_key_def)
qed

text \<open>
  C40. Iteration is exact: a loop from \<open>begin()\<close> to \<open>end()\<close> visits every pair once, in the order of the
  slots, although it reads the info bytes eight at a time. Erasing through an iterator never fails,
  removes exactly the pair under it, and returns the iterator to the next pair or to the end.
\<close>

theorem table_iteration_exact:
  assumes "table_inv h t"
  shows "iterate t = Inr (entries t) \<and>
    (\<forall>i kv. i < table_end t \<and> mKeyVals t ! i = Some kv \<longrightarrow>
      (\<exists>s t'. table_erase_iterator i t = Inr (s, t') \<and> table_inv h t' \<and> next_occupied t' i s \<and>
        add_mset kv (mset (entries t')) = mset (entries t)))"
proof (intro conjI allI impI)
  show "iterate t = Inr (entries t)" using assms by (rule iterate_ok)
  fix i kv assume i: "i < table_end t \<and> mKeyVals t ! i = Some kv"
  then have "array_ok h t" using assms is_dummy_keys [of t] by (auto simp: table_inv_def table_end_def)
  with i show "\<exists>s t'. table_erase_iterator i t = Inr (s, t') \<and> table_inv h t' \<and> next_occupied t' i s \<and>
      add_mset kv (mset (entries t')) = mset (entries t)"
    using erase_iterator_ok [of h t i kv] by (auto simp: table_inv_def)
qed

theorem table_iteration_exact_witness:
  "iterate sample_table = Inr (entries sample_table) \<and> length (entries sample_table) = 6"
proof -
  have "length (entries sample_table) = 6" by code_simp
  with table_iteration_exact [OF sample_table_inv] show ?thesis by simp
qed

text \<open>
  A table that is below its limit takes any pair without growing and without overflow: there is an
  empty slot within the array, and no info byte wraps around on the way.
\<close>

lemma table_emplace_room_suffices:
  assumes "table_inv h t" and "mNumElements t < mMaxNumElementsAllowed t"
  shows "\<exists>i inserted t'. table_emplace h k v t = Inr (i, inserted, t') \<and> mMask t' = mMask t \<and>
    mHashMultiplier t' = mHashMultiplier t"
  using table_emplace_room [OF assms, of k v] by (auto simp: same_shape_def)

lemma table_emplace_room_suffices_witness:
  "\<exists>i inserted t'. table_emplace hash_of 11 110 sample_table = Inr (i, inserted, t') \<and> mMask t' = 15"
proof -
  have "mNumElements sample_table < mMaxNumElementsAllowed sample_table" "mMask sample_table = 15" by code_simp+
  with table_emplace_room_suffices [OF sample_table_inv, of 11 110] show ?thesis by auto
qed

text \<open>
  The hash of an integer key loses nothing: \<open>hash_int\<close> is injective on 64-bit words, so different
  order IDs and different symbol IDs have different hashes.
\<close>

lemma xor_shift_inverse: "(x XOR drop_bit 33 x) XOR drop_bit 33 (x XOR drop_bit 33 x) = x" for x :: u64
proof -
  have "drop_bit 66 x = 0" by (rule bit_word_eqI) (auto simp: bit_drop_bit_eq dest: bit_imp_le_length)
  then have "drop_bit 33 (x XOR drop_bit 33 x) = drop_bit 33 x" by simp
  then show ?thesis by (simp add: xor.assoc)
qed

lemma xor_shift_inj: "x XOR drop_bit 33 x = y XOR drop_bit 33 y \<Longrightarrow> x = y" for x y :: u64
  by (metis xor_shift_inverse)

lemma multiplier_inj: "x * 0xff51afd7ed558ccd = y * 0xff51afd7ed558ccd \<Longrightarrow> x = y" for x y :: u64
proof -
  assume "x * 0xff51afd7ed558ccd = y * 0xff51afd7ed558ccd"
  then have "x * (0xff51afd7ed558ccd * 0x4f74430c22a54005) = y * (0xff51afd7ed558ccd * 0x4f74430c22a54005)"
    by (simp only: mult.assoc [symmetric])
  moreover have "(0xff51afd7ed558ccd * 0x4f74430c22a54005 :: u64) = 1" by code_simp
  ultimately show "x = y" by (simp only: mult_1_right)
qed

lemma hash_of_injective:
  "inj (hash_of :: u64 \<Rightarrow> u64) \<and> inj (hash_of :: u32 \<Rightarrow> u64)"
proof -
  have "inj hash_int"
    by (rule injI) (auto simp: hash_int_def Let_def dest!: xor_shift_inj multiplier_inj)
  moreover have "inj (ucast :: u64 \<Rightarrow> u64)" by (rule injI) simp
  moreover have "inj (ucast :: u32 \<Rightarrow> u64)"
  proof (rule injI)
    fix x y :: u32 assume eq: "(ucast x :: u64) = ucast y"
    have u: "unat (ucast w :: u64) = unat w" for w :: u32
    proof -
      have "unat w < 2 ^ 32" using unsigned_less [of w, where ?'a = nat] by simp
      then show ?thesis by (simp add: unsigned_ucast_eq take_bit_nat_eq_self)
    qed
    have "unat x = unat y" using arg_cong [OF eq, of unat] u by simp
    then show "x = y" by (rule unsigned_word_eqI)
  qed
  ultimately show ?thesis by (simp add: hash_of_def inj_def)
qed

end
