(* ===== verification/Robin_Hood_Bytes.thy ===== *)
theory Robin_Hood_Bytes
  imports Prelude
begin

text \<open>
  Hashing a string of bytes (\<open>include/utils/robin_hood.h\<close>: \<open>unaligned_load\<close>, \<open>hash_bytes\<close>), and what it
  computes: the mixing function of MurmurHash2 over the words of the string and its tail. The pointer is
  the list of the bytes from it to the end of its object; the machine is little-endian.
\<close>

unbundle bit_operations_syntax

section \<open>The code\<close>

fun word_of_bytes :: "u8 list \<Rightarrow> u64" where
  "word_of_bytes [] = 0"
| "word_of_bytes (b # bs) = ucast b OR push_bit 8 (word_of_bytes bs)"

definition unaligned_load :: "u8 list \<Rightarrow> nat \<Rightarrow> u64 res" where
  "unaligned_load ptr i = require (i + 8 \<le> length ptr) (word_of_bytes (take 8 (drop i ptr)))"

definition load_byte :: "u8 list \<Rightarrow> nat \<Rightarrow> u64 res" where
  "load_byte ptr i = require (i < length ptr) (ucast (ptr ! i))"

definition hash_m :: u64 where
  "hash_m = 0xc6a4a7935bd1e995"

definition hash_seed :: u64 where
  "hash_seed = 0xe17a1465"

definition mix_block :: "u64 \<Rightarrow> u64 \<Rightarrow> u64" where
  "mix_block h k =
     (let k = k * hash_m;
          k = k XOR drop_bit 47 k;
          k = k * hash_m;
          h = h XOR k in
      h * hash_m)"

fun block_loop :: "u8 list \<Rightarrow> nat list \<Rightarrow> u64 \<Rightarrow> u64 res" where
  "block_loop ptr [] h = Inr h"
| "block_loop ptr (i # is) h =
     rbind (unaligned_load ptr (8 * i)) (\<lambda>k. block_loop ptr is (mix_block h k))"

text \<open>The cases of the \<open>switch\<close> from \<open>r\<close> down to 1, which fall through.\<close>

fun tail_switch :: "u8 list \<Rightarrow> nat \<Rightarrow> nat \<Rightarrow> u64 \<Rightarrow> u64 res" where
  "tail_switch ptr base 0 h = Inr h"
| "tail_switch ptr base (Suc 0) h =
     rbind (load_byte ptr base) (\<lambda>b. Inr ((h XOR b) * hash_m))"
| "tail_switch ptr base (Suc (Suc r)) h =
     rbind (load_byte ptr (base + Suc r)) (\<lambda>b. tail_switch ptr base (Suc r) (h XOR push_bit (8 * Suc r) b))"

definition hash_bytes :: "u8 list \<Rightarrow> nat \<Rightarrow> u64 res" where
  "hash_bytes ptr len =
     (let h = hash_seed XOR (of_nat len * hash_m);
          n_blocks = len div 8 in
      rbind (block_loop ptr [0..<n_blocks] h) (\<lambda>h.
      rbind (tail_switch ptr (8 * n_blocks) (len mod 8) h) (\<lambda>h.
      Inr (h XOR drop_bit 47 h))))"

section \<open>What it computes\<close>

text \<open>The reference: the string is taken eight bytes at a time, the rest of it as one number.\<close>

function murmur_mix :: "u8 list \<Rightarrow> u64 \<Rightarrow> u64" where
  "murmur_mix bs h =
     (if 8 \<le> length bs then murmur_mix (drop 8 bs) (mix_block h (word_of_bytes (take 8 bs)))
      else if bs = [] then h else (h XOR word_of_bytes bs) * hash_m)"
  by pat_completeness auto
termination
  by (relation "measure (\<lambda>(bs, h). length bs)") auto

declare murmur_mix.simps [simp del]

definition murmur :: "u8 list \<Rightarrow> u64" where
  "murmur bs = (let h = murmur_mix bs (hash_seed XOR (of_nat (length bs) * hash_m)) in h XOR drop_bit 47 h)"

lemma byte_or_xor: "ucast b OR push_bit 8 x = (ucast b XOR push_bit 8 x :: u64)" for b :: u8
  by (rule bit_word_eqI) (auto simp: bit_or_iff bit_xor_iff bit_push_bit_iff bit_ucast_iff dest: bit_imp_le_length)

lemma word_of_bytes_Cons: "word_of_bytes (b # bs) = ucast b XOR push_bit 8 (word_of_bytes bs)"
  by (simp add: byte_or_xor)

lemma word_of_bytes_snoc: "word_of_bytes (bs @ [b]) = word_of_bytes bs XOR push_bit (8 * length bs) (ucast b)"
  by (induction bs) (simp_all add: word_of_bytes_Cons push_bit_xor xor.assoc del: word_of_bytes.simps(2))

lemma tail_switch_word:
  "base + r \<le> length ptr \<Longrightarrow>
    tail_switch ptr base r h = Inr (if r = 0 then h else (h XOR word_of_bytes (take r (drop base ptr))) * hash_m)"
proof (induction ptr base r h rule: tail_switch.induct)
  case (2 ptr base h)
  then have "take (Suc 0) (drop base ptr) = [ptr ! base]" by (simp add: take_Suc_conv_app_nth)
  then show ?case using 2 by (simp add: load_byte_def require_def)
next
  case (3 ptr base r h)
  have "take (Suc (Suc r)) (drop base ptr) = take (Suc r) (drop base ptr) @ [ptr ! (base + Suc r)]"
    using 3(2) by (subst take_Suc_conv_app_nth) auto
  moreover have "length (take (Suc r) (drop base ptr)) = Suc r" using 3(2) by simp
  ultimately have w: "word_of_bytes (take (Suc (Suc r)) (drop base ptr)) =
      word_of_bytes (take (Suc r) (drop base ptr)) XOR push_bit (8 * Suc r) (ucast (ptr ! (base + Suc r)))"
    by (simp only: word_of_bytes_snoc)
  have "base + Suc r < length ptr" using 3(2) by simp
  then have "load_byte ptr (base + Suc r) = Inr (ucast (ptr ! (base + Suc r)))" by (simp add: load_byte_def require_def)
  then show ?case using 3 unfolding w by (simp add: xor.assoc xor.commute xor.left_commute)
qed simp

lemma blocks_then_tail:
  "8 * (i + n) + r \<le> length ptr \<Longrightarrow> r < 8 \<Longrightarrow>
    rbind (block_loop ptr [i..<i + n] h) (tail_switch ptr (8 * (i + n)) r) =
      Inr (murmur_mix (take (8 * n + r) (drop (8 * i) ptr)) h)"
proof (induction n arbitrary: i h)
  case 0
  have "length (take r (drop (8 * i) ptr)) = r" using 0 by simp
  moreover from this have "take r (drop (8 * i) ptr) = [] \<longleftrightarrow> r = 0" by (metis length_0_conv)
  ultimately show ?case using 0 by (subst murmur_mix.simps) (simp add: tail_switch_word)
next
  case (Suc n)
  let ?bs = "take (8 * Suc n + r) (drop (8 * i) ptr)" and ?k = "word_of_bytes (take 8 (drop (8 * i) ptr))"
  have u: "[i..<i + Suc n] = i # [Suc i..<Suc i + n]" by (simp add: upt_conv_Cons)
  have l: "unaligned_load ptr (8 * i) = Inr ?k" using Suc.prems(1) by (simp add: unaligned_load_def require_def)
  have len: "8 \<le> length ?bs" using Suc.prems(1) by simp
  have t: "take 8 ?bs = take 8 (drop (8 * i) ptr)" by (simp add: min_def)
  have d: "drop 8 ?bs = take (8 * n + r) (drop (8 * Suc i) ptr)" by (simp add: drop_take add.commute)
  have "murmur_mix ?bs h = murmur_mix (take (8 * n + r) (drop (8 * Suc i) ptr)) (mix_block h ?k)"
    using len by (subst murmur_mix.simps) (simp only: t d if_True)
  then show ?case using Suc.IH [of "Suc i" "mix_block h ?k"] Suc.prems unfolding u by (simp add: l)
qed

lemma hash_bytes_murmur:
  assumes "len \<le> length ptr"
  shows "hash_bytes ptr len = Inr (murmur (take len ptr))"
proof -
  let ?h = "hash_seed XOR (of_nat len * hash_m)"
  have len: "8 * (len div 8) + len mod 8 = len" by simp
  have "rbind (block_loop ptr [0..<0 + len div 8] ?h) (tail_switch ptr (8 * (0 + len div 8)) (len mod 8)) =
      Inr (murmur_mix (take len ptr) ?h)"
    using blocks_then_tail [of 0 "len div 8" "len mod 8" ptr ?h] assms unfolding add_0 len by simp
  moreover have "length (take len ptr) = len" using assms by simp
  ultimately show ?thesis
    unfolding hash_bytes_def murmur_def by (auto simp: Let_def rbind_def split: sum.splits)
qed

end
