(* ===== verification/Node_Pool.thy ===== *)
theory Node_Pool
  imports Prelude
begin

text \<open>
  The memory of the nodes of a hash table (\<open>include/utils/robin_hood.h\<close>, class
  \<open>detail::BulkPoolAllocator\<close>): blocks from \<open>malloc\<close>, cut into elements of one size; the unused elements
  form a list through their own first words, and so do the blocks.

  An address is a number, the null pointer is 0. \<open>cell\<close> is the pointer stored at an address. \<open>blocks\<close>
  records what \<open>malloc\<close> has given and \<open>free\<close> has not taken back: reading or writing outside of it or
  at an address that is not aligned to a pointer, and freeing anything else than such a block, is undefined
  behaviour. Where \<open>malloc\<close> puts a block is a parameter; 0 means that it fails, which raises \<open>bad_alloc\<close>.
\<close>

section \<open>Memory\<close>

type_synonym addr = nat

record Memory =
  cell :: "addr \<Rightarrow> addr"
  blocks :: "(addr \<times> nat) list"

type_synonym allocation = "Memory \<Rightarrow> nat \<Rightarrow> addr"

definition in_block :: "addr \<Rightarrow> Memory \<Rightarrow> bool" where
  "in_block a m \<longleftrightarrow> a mod 8 = 0 \<and> list_ex (\<lambda>(p, n). p \<le> a \<and> a + 8 \<le> p + n) (blocks m)"

definition read_ptr :: "addr \<Rightarrow> Memory \<Rightarrow> addr res" where
  "read_ptr a m = require (in_block a m) (cell m a)"

definition write_ptr :: "addr \<Rightarrow> addr \<Rightarrow> Memory \<Rightarrow> Memory res" where
  "write_ptr a v m = require (in_block a m) (m\<lparr>cell := (cell m)(a := v)\<rparr>)"

definition malloc_block :: "allocation \<Rightarrow> nat \<Rightarrow> Memory \<Rightarrow> (addr \<times> Memory) res" where
  "malloc_block malloc numBytes m =
     (let p = malloc m numBytes in
      if p = 0 then Inl Terminated else Inr (p, m\<lparr>blocks := (p, numBytes) # blocks m\<rparr>))"

definition free_block :: "addr \<Rightarrow> Memory \<Rightarrow> Memory res" where
  "free_block p m =
     require (p \<in> set (map fst (blocks m))) (m\<lparr>blocks := filter (\<lambda>b. fst b \<noteq> p) (blocks m)\<rparr>)"

section \<open>The allocator\<close>

text \<open>The size and the alignment of the objects.\<close>

record layout =
  type_size :: nat
  type_alignment :: nat

definition ALIGNMENT :: "layout \<Rightarrow> nat" where
  "ALIGNMENT ly = max (type_alignment ly) 8"

definition ALIGNED_SIZE :: "layout \<Rightarrow> nat" where
  "ALIGNED_SIZE ly = ((type_size ly - 1) div ALIGNMENT ly + 1) * ALIGNMENT ly"

definition MinNumAllocs :: nat where
  "MinNumAllocs = 4"

definition MaxNumAllocs :: nat where
  "MaxNumAllocs = 16384"

record BulkPoolAllocator =
  mHead :: addr
  mListForFree :: addr

definition new_pool :: BulkPoolAllocator where
  "new_pool = \<lparr>mHead = 0, mListForFree = 0\<rparr>"

text \<open>Moving and assigning: the pool that is moved from is left empty. A copy starts empty.\<close>

definition pool_move :: "BulkPoolAllocator \<Rightarrow> BulkPoolAllocator \<times> BulkPoolAllocator" where
  "pool_move other = (other, other\<lparr>mListForFree := 0, mHead := 0\<rparr>)"

definition pool_copy :: "BulkPoolAllocator \<Rightarrow> BulkPoolAllocator" where
  "pool_copy other = new_pool"

definition pool_copy_assign :: "BulkPoolAllocator \<Rightarrow> BulkPoolAllocator \<Rightarrow> BulkPoolAllocator" where
  "pool_copy_assign pl other = pl"

definition pool_swap :: "BulkPoolAllocator \<Rightarrow> BulkPoolAllocator \<Rightarrow> BulkPoolAllocator \<times> BulkPoolAllocator" where
  "pool_swap pl other =
     (pl\<lparr>mHead := mHead other, mListForFree := mListForFree other\<rparr>,
      other\<lparr>mHead := mHead pl, mListForFree := mListForFree pl\<rparr>)"

text \<open>Each round frees a block, so the loop ends: a block is not freed twice.\<close>

lemma free_block_less: "free_block p m = Inr m' \<Longrightarrow> length (blocks m') < length (blocks m)"
  by (auto simp: free_block_def intro!: length_filter_less)

function reset_loop :: "BulkPoolAllocator \<Rightarrow> Memory \<Rightarrow> (BulkPoolAllocator \<times> Memory) res" where
  "reset_loop pl m =
     (if mListForFree pl = 0 then Inr (pl, m)
      else rbind (read_ptr (mListForFree pl) m) (\<lambda>tmp.
        rbind (free_block (mListForFree pl) m) (\<lambda>m1.
        reset_loop (pl\<lparr>mListForFree := tmp\<rparr>) m1)))"
  by pat_completeness auto
termination
  by (relation "measure (\<lambda>(pl, m). length (blocks m))") (auto dest: free_block_less)

definition reset :: "BulkPoolAllocator \<Rightarrow> Memory \<Rightarrow> (BulkPoolAllocator \<times> Memory) res" where
  "reset pl m = rbind (reset_loop pl m) (\<lambda>(pl1, m1). Inr (pl1\<lparr>mHead := 0\<rparr>, m1))"

definition pool_move_assign ::
  "BulkPoolAllocator \<Rightarrow> BulkPoolAllocator \<Rightarrow> Memory
    \<Rightarrow> (BulkPoolAllocator \<times> BulkPoolAllocator \<times> Memory) res" where
  "pool_move_assign pl other m =
     rbind (reset pl m) (\<lambda>(pl1, m1).
     Inr (pl1\<lparr>mHead := mHead other, mListForFree := mListForFree other\<rparr>,
       other\<lparr>mListForFree := 0, mHead := 0\<rparr>, m1))"

text \<open>\<open>MinNumAllocs\<close> is positive by a \<open>static_assert\<close>, so that doubling ends the loop.\<close>

function count_loop :: "nat \<Rightarrow> addr \<Rightarrow> Memory \<Rightarrow> nat res" where
  "count_loop numAllocs tmp m =
     (if 0 < numAllocs \<and> numAllocs * 2 \<le> MaxNumAllocs \<and> tmp \<noteq> 0 then
        rbind (read_ptr tmp m) (\<lambda>x. count_loop (numAllocs * 2) x m)
      else Inr numAllocs)"
  by pat_completeness auto
termination
  by (relation "measure (\<lambda>(numAllocs, tmp, m). MaxNumAllocs - numAllocs)") auto

definition calcNumElementsToAlloc :: "BulkPoolAllocator \<Rightarrow> Memory \<Rightarrow> nat res" where
  "calcNumElementsToAlloc pl m = count_loop MinNumAllocs (mListForFree pl) m"

fun link_loop :: "layout \<Rightarrow> addr \<Rightarrow> nat list \<Rightarrow> Memory \<Rightarrow> Memory res" where
  "link_loop ly head [] m = Inr m"
| "link_loop ly head (i # is) m =
     rbind (write_ptr (head + i * ALIGNED_SIZE ly) (head + (i + 1) * ALIGNED_SIZE ly) m) (link_loop ly head is)"

definition pool_add ::
  "layout \<Rightarrow> addr \<Rightarrow> nat \<Rightarrow> BulkPoolAllocator \<Rightarrow> Memory \<Rightarrow> (BulkPoolAllocator \<times> Memory) res" where
  "pool_add ly ptr numBytes pl m =
     (let numElements = (numBytes - ALIGNMENT ly) div ALIGNED_SIZE ly;
          head = ptr + ALIGNMENT ly in
      rbind (write_ptr ptr (mListForFree pl) m) (\<lambda>m1.
      rbind (link_loop ly head [0..<numElements] m1) (\<lambda>m2.
      rbind (write_ptr (head + (numElements - 1) * ALIGNED_SIZE ly) (mHead pl) m2) (\<lambda>m3.
      Inr (pl\<lparr>mListForFree := ptr, mHead := head\<rparr>, m3)))))"

definition performAllocation ::
  "allocation \<Rightarrow> layout \<Rightarrow> BulkPoolAllocator \<Rightarrow> Memory \<Rightarrow> (BulkPoolAllocator \<times> Memory) res" where
  "performAllocation malloc ly pl m =
     rbind (calcNumElementsToAlloc pl m) (\<lambda>numElementsToAlloc.
     let bytes = ALIGNMENT ly + ALIGNED_SIZE ly * numElementsToAlloc in
     rbind (malloc_block malloc bytes m) (\<lambda>(p, m1). pool_add ly p bytes pl m1))"

definition allocate ::
  "allocation \<Rightarrow> layout \<Rightarrow> BulkPoolAllocator \<Rightarrow> Memory \<Rightarrow> (addr \<times> BulkPoolAllocator \<times> Memory) res" where
  "allocate malloc ly pl m =
     rbind (if mHead pl = 0 then performAllocation malloc ly pl m else Inr (pl, m)) (\<lambda>(pl1, m1).
     let tmp = mHead pl1 in
     rbind (read_ptr tmp m1) (\<lambda>next. Inr (tmp, pl1\<lparr>mHead := next\<rparr>, m1)))"

definition deallocate :: "addr \<Rightarrow> BulkPoolAllocator \<Rightarrow> Memory \<Rightarrow> (BulkPoolAllocator \<times> Memory) res" where
  "deallocate obj pl m = rbind (write_ptr obj (mHead pl) m) (\<lambda>m1. Inr (pl\<lparr>mHead := obj\<rparr>, m1))"

definition addOrFree ::
  "layout \<Rightarrow> addr \<Rightarrow> nat \<Rightarrow> BulkPoolAllocator \<Rightarrow> Memory \<Rightarrow> (BulkPoolAllocator \<times> Memory) res" where
  "addOrFree ly ptr numBytes pl m =
     (if numBytes < ALIGNMENT ly + ALIGNED_SIZE ly then rbind (free_block ptr m) (\<lambda>m1. Inr (pl, m1))
      else pool_add ly ptr numBytes pl m)"

declare reset_loop.simps [simp del] count_loop.simps [simp del]

section \<open>Lists through the memory\<close>

fun chain :: "(addr \<Rightarrow> addr) \<Rightarrow> addr \<Rightarrow> addr list \<Rightarrow> bool" where
  "chain f a [] \<longleftrightarrow> a = 0"
| "chain f a (x # xs) \<longleftrightarrow> a = x \<and> x \<noteq> 0 \<and> chain f (f x) xs"

lemma chain_null [simp]: "chain f 0 xs \<longleftrightarrow> xs = []"
  by (cases xs) auto

lemma chain_cong: "\<forall>x \<in> set xs. f x = g x \<Longrightarrow> chain f a xs = chain g a xs"
  by (induction xs arbitrary: a) auto

lemma chain_upd [simp]: "a \<notin> set xs \<Longrightarrow> chain (f(a := v)) b xs = chain f b xs"
  by (rule chain_cong) auto

lemma chain_nonnull: "a \<noteq> 0 \<Longrightarrow> chain f a xs \<Longrightarrow> \<exists>ys. xs = a # ys \<and> chain f (f a) ys"
  by (cases xs) auto

lemma chain_append:
  "xs \<noteq> [] \<Longrightarrow> (\<forall>i < length xs. xs ! i \<noteq> 0 \<and> f (xs ! i) = (if i + 1 < length xs then xs ! (i + 1) else b)) \<Longrightarrow>
    chain f b ys \<Longrightarrow> chain f (xs ! 0) (xs @ ys)"
proof (induction xs)
  case (Cons x xs)
  then show ?case
  proof (cases xs)
    case (Cons y zs)
    have "\<forall>i < length xs. xs ! i \<noteq> 0 \<and> f (xs ! i) = (if i + 1 < length xs then xs ! (i + 1) else b)"
    proof (intro allI impI)
      fix i assume "i < length xs"
      then show "xs ! i \<noteq> 0 \<and> f (xs ! i) = (if i + 1 < length xs then xs ! (i + 1) else b)"
        using Cons.prems(2) [rule_format, of "Suc i"] by simp
    qed
    then have "chain f (xs ! 0) (xs @ ys)" using Cons.IH Cons.prems(3) Cons by simp
    moreover have "x \<noteq> 0 \<and> f x = xs ! 0" using Cons.prems(2) [rule_format, of 0] Cons by simp
    ultimately show ?thesis by simp
  qed simp
qed simp

end
