(* ===== verification/Node_Table.thy ===== *)
theory Node_Table
  imports Robin_Hood_Map Robin_Hood_Capacity Node_Pool
begin

text \<open>
  The hash table with its memory, for the tables whose slots hold pointers (\<open>include/utils/robin_hood.h\<close>,
  \<open>Table<false, ...>\<close> with \<open>DataNode<M, false>\<close>): what \<open>unordered_map\<close> is for the orders of a book, whose
  pairs are larger than 48 bytes. The slots, the info bytes and the counts are those of \<open>Robin_Hood\<close>; a value
  there is the address of the node together with the value in it. Added here are the pool the nodes come
  from, a base class of the table, and the array of slots and info bytes, a block of its own.
\<close>

section \<open>State\<close>

record ('k, 'v) NodeTable =
  table :: "('k, addr \<times> 'v) Table"
  pool :: BulkPoolAllocator
  array :: addr

definition new_node_table :: "('k, 'v) NodeTable" where
  "new_node_table = \<lparr>table = new_table, pool = new_pool, array = 0\<rparr>"

abbreviation node_address :: "'k \<times> addr \<times> 'v \<Rightarrow> addr" where
  "node_address kv \<equiv> fst (snd kv)"

text \<open>A slot is a pointer, of eight bytes.\<close>

definition calcNumBytesTotal :: "nat \<Rightarrow> nat" where
  "calcNumBytesTotal numElements = numElements * 8 + calcNumBytesInfo numElements"

section \<open>Growing\<close>

definition node_initData ::
  "allocation \<Rightarrow> nat \<Rightarrow> ('k, 'v) NodeTable \<Rightarrow> Memory \<Rightarrow> (('k, 'v) NodeTable \<times> Memory) res" where
  "node_initData malloc max_elements nt m =
     rbind (malloc_block malloc (calcNumBytesTotal (calcNumElementsWithBuffer max_elements)) m) (\<lambda>(p, m1).
     Inr (nt\<lparr>table := initData max_elements (table nt), array := p\<rparr>, m1))"

text \<open>The old array is freed, or becomes memory for nodes.\<close>

definition node_rehash ::
  "allocation \<Rightarrow> layout \<Rightarrow> ('k \<Rightarrow> u64) \<Rightarrow> nat \<Rightarrow> bool \<Rightarrow> ('k, 'v) NodeTable \<Rightarrow> Memory
    \<Rightarrow> (('k, 'v) NodeTable \<times> Memory) res" where
  "node_rehash malloc ly h numBuckets forceFree nt m =
     (let oldKeyVals = array nt;
          oldMaxElementsWithBuffer = calcNumElementsWithBuffer (mMask (table nt) + 1) in
      rbind (node_initData malloc numBuckets nt m) (\<lambda>(nt1, m1).
      rbind (rehashPowerOfTwo h numBuckets (table nt)) (\<lambda>t.
      let nt2 = nt1\<lparr>table := t\<rparr> in
      if 1 < oldMaxElementsWithBuffer then
        (if forceFree then rbind (free_block oldKeyVals m1) (\<lambda>m2. Inr (nt2, m2))
         else rbind (addOrFree ly oldKeyVals (calcNumBytesTotal oldMaxElementsWithBuffer) (pool nt2) m1)
           (\<lambda>(pl, m2). Inr (nt2\<lparr>pool := pl\<rparr>, m2)))
      else Inr (nt2, m1))))"

definition node_increase_size ::
  "allocation \<Rightarrow> layout \<Rightarrow> ('k \<Rightarrow> u64) \<Rightarrow> ('k, 'v) NodeTable \<Rightarrow> Memory
    \<Rightarrow> (('k, 'v) NodeTable \<times> Memory) res" where
  "node_increase_size malloc ly h nt m =
     (let t = table nt in
      if mMask t = 0 then node_initData malloc InitialNumElements nt m
      else
        let maxNumElementsAllowed = calcMaxNumElementsAllowed (mMask t + 1) in
        rbind (if mNumElements t < maxNumElementsAllowed then try_increase_info t else Inr None) (\<lambda>r.
        case r of Some t1 \<Rightarrow> Inr (nt\<lparr>table := t1\<rparr>, m)
        | None \<Rightarrow>
            if mNumElements t * 2 < calcMaxNumElementsAllowed (mMask t + 1)
            then node_rehash malloc ly h (mMask t + 1) True (nt\<lparr>table := nextHashMultiplier t\<rparr>) m
            else node_rehash malloc ly h ((mMask t + 1) * 2) False nt m))"

definition node_reserve ::
  "allocation \<Rightarrow> layout \<Rightarrow> ('k \<Rightarrow> u64) \<Rightarrow> nat \<Rightarrow> bool \<Rightarrow> ('k, 'v) NodeTable \<Rightarrow> Memory
    \<Rightarrow> (('k, 'v) NodeTable \<times> Memory) res" where
  "node_reserve malloc ly h c forceRehash nt m =
     rbind (size_for (max c (mNumElements (table nt)))) (\<lambda>newSize.
     if forceRehash \<or> mMask (table nt) + 1 < newSize then node_rehash malloc ly h newSize False nt m
     else Inr (nt, m))"

definition node_compact ::
  "allocation \<Rightarrow> layout \<Rightarrow> ('k \<Rightarrow> u64) \<Rightarrow> ('k, 'v) NodeTable \<Rightarrow> Memory
    \<Rightarrow> (('k, 'v) NodeTable \<times> Memory) res" where
  "node_compact malloc ly h nt m =
     rbind (size_for (mNumElements (table nt))) (\<lambda>newSize.
     if newSize < mMask (table nt) + 1 then node_rehash malloc ly h newSize True nt m else Inr (nt, m))"

section \<open>Inserting\<close>

fun node_attempts ::
  "nat \<Rightarrow> allocation \<Rightarrow> layout \<Rightarrow> ('k \<Rightarrow> u64) \<Rightarrow> 'k \<Rightarrow> ('k, 'v) NodeTable \<Rightarrow> Memory
    \<Rightarrow> (nat \<times> InsertionState \<times> ('k, 'v) NodeTable \<times> Memory) res" where
  "node_attempts 0 malloc ly h key nt m = Inr (0, overflow_error, nt, m)"
| "node_attempts (Suc n) malloc ly h key nt m =
     (let t = table nt in
      case keyToIdx h t key of (idx, info) \<Rightarrow>
      rbind (nextWhileLess t info idx) (\<lambda>(info, idx).
      rbind (skip_equal t key info idx) (\<lambda>(found, info, idx).
      if found then Inr (idx, key_found, nt, m)
      else if mMaxNumElementsAllowed t \<le> mNumElements t then
        rbind (node_increase_size malloc ly h nt m) (\<lambda>(nt1, m1). node_attempts n malloc ly h key nt1 m1)
      else
        rbind (occupy idx info t) (\<lambda>(e, t1).
        Inr (idx, if e = idx then new_node else overwrite_node, nt\<lparr>table := t1\<rparr>, m)))))"

text \<open>Putting a node into the slot that was prepared for it.\<close>

definition place_node ::
  "nat \<Rightarrow> 'k \<times> addr \<times> 'v \<Rightarrow> ('k, 'v) NodeTable \<Rightarrow> Memory
    \<Rightarrow> (nat \<times> bool \<times> ('k, 'v) NodeTable \<times> Memory) res" where
  "place_node idx kv nt m = rbind (put_node idx kv (table nt)) (\<lambda>t. Inr (idx, True, nt\<lparr>table := t\<rparr>, m))"

text \<open>\<open>emplace\<close> makes the node first, and gives it back if the key is there.\<close>

definition node_emplace ::
  "allocation \<Rightarrow> layout \<Rightarrow> ('k \<Rightarrow> u64) \<Rightarrow> 'k \<Rightarrow> 'v \<Rightarrow> ('k, 'v) NodeTable \<Rightarrow> Memory
    \<Rightarrow> (nat \<times> bool \<times> ('k, 'v) NodeTable \<times> Memory) res" where
  "node_emplace malloc ly h key v nt m =
     rbind (allocate malloc ly (pool nt) m) (\<lambda>(a, pl, m1).
     rbind (node_attempts 256 malloc ly h key (nt\<lparr>pool := pl\<rparr>) m1) (\<lambda>(idx, st, nt1, m2).
     case st of
       key_found \<Rightarrow> rbind (deallocate a (pool nt1) m2) (\<lambda>(pl1, m3). Inr (idx, False, nt1\<lparr>pool := pl1\<rparr>, m3))
     | new_node \<Rightarrow> place_node idx (key, a, v) nt1 m2
     | overwrite_node \<Rightarrow> place_node idx (key, a, v) nt1 m2
     | overflow_error \<Rightarrow> Inl Terminated))"

text \<open>\<open>try_emplace\<close>, and \<open>operator[]\<close> with a default value: the node is made only for a new key.\<close>

definition make_node ::
  "allocation \<Rightarrow> layout \<Rightarrow> nat \<Rightarrow> 'k \<Rightarrow> 'v \<Rightarrow> ('k, 'v) NodeTable \<Rightarrow> Memory
    \<Rightarrow> (nat \<times> bool \<times> ('k, 'v) NodeTable \<times> Memory) res" where
  "make_node malloc ly idx key v nt m =
     rbind (allocate malloc ly (pool nt) m) (\<lambda>(a, pl, m1). place_node idx (key, a, v) (nt\<lparr>pool := pl\<rparr>) m1)"

definition node_try_emplace ::
  "allocation \<Rightarrow> layout \<Rightarrow> ('k \<Rightarrow> u64) \<Rightarrow> 'k \<Rightarrow> 'v \<Rightarrow> ('k, 'v) NodeTable \<Rightarrow> Memory
    \<Rightarrow> (nat \<times> bool \<times> ('k, 'v) NodeTable \<times> Memory) res" where
  "node_try_emplace malloc ly h key v nt m =
     rbind (node_attempts 256 malloc ly h key nt m) (\<lambda>(idx, st, nt1, m1).
     case st of
       key_found \<Rightarrow> Inr (idx, False, nt1, m1)
     | new_node \<Rightarrow> make_node malloc ly idx key v nt1 m1
     | overwrite_node \<Rightarrow> make_node malloc ly idx key v nt1 m1
     | overflow_error \<Rightarrow> Inl Terminated)"

section \<open>Erasing\<close>

definition node_erase_at ::
  "nat \<Rightarrow> ('k, 'v) NodeTable \<Rightarrow> Memory \<Rightarrow> (('k, 'v) NodeTable \<times> Memory) res" where
  "node_erase_at idx nt m =
     rbind (node_at (table nt) idx) (\<lambda>kv.
     rbind (deallocate (node_address kv) (pool nt) m) (\<lambda>(pl, m1).
     rbind (erase_at idx (table nt)) (\<lambda>t. Inr (nt\<lparr>table := t, pool := pl\<rparr>, m1))))"

function node_erase_loop ::
  "'k \<Rightarrow> nat \<Rightarrow> nat \<Rightarrow> ('k, 'v) NodeTable \<Rightarrow> Memory \<Rightarrow> (nat \<times> ('k, 'v) NodeTable \<times> Memory) res" where
  "node_erase_loop key info idx nt m =
     rbind (slot_matches (table nt) key info idx) (\<lambda>found.
     if found then rbind (node_erase_at idx nt m) (\<lambda>(nt1, m1). Inr (1, nt1, m1))
     else rbind (info_at (table nt) (idx + 1)) (\<lambda>b.
     if info + mInfoInc (table nt) \<le> b then node_erase_loop key (info + mInfoInc (table nt)) (idx + 1) nt m
     else Inr (0, nt, m)))"
  by pat_completeness auto
termination
  by (relation "measure (\<lambda>(key, info, idx, nt, m). length (mInfo (table nt)) - idx)") (auto dest!: info_at_Inr)

definition node_erase ::
  "('k \<Rightarrow> u64) \<Rightarrow> 'k \<Rightarrow> ('k, 'v) NodeTable \<Rightarrow> Memory \<Rightarrow> (nat \<times> ('k, 'v) NodeTable \<times> Memory) res" where
  "node_erase h key nt m = (case keyToIdx h (table nt) key of (idx, info) \<Rightarrow> node_erase_loop key info idx nt m)"

section \<open>Whole tables\<close>

text \<open>The nodes of the occupied slots, in order: the loop of \<open>Destroyer\<close>.\<close>

definition occupied_nodes :: "('k, 'v) NodeTable \<Rightarrow> ('k \<times> addr \<times> 'v) list res" where
  "occupied_nodes nt =
     old_nodes (take (calcNumElementsWithBuffer (mMask (table nt) + 1)) (mInfo (table nt))) (mKeyVals (table nt))"

fun deallocate_all :: "addr list \<Rightarrow> BulkPoolAllocator \<Rightarrow> Memory \<Rightarrow> (BulkPoolAllocator \<times> Memory) res" where
  "deallocate_all [] pl m = Inr (pl, m)"
| "deallocate_all (a # as) pl m = rbind (deallocate a pl m) (\<lambda>(pl1, m1). deallocate_all as pl1 m1)"

definition destroy_nodes :: "('k, 'v) NodeTable \<Rightarrow> Memory \<Rightarrow> (('k, 'v) NodeTable \<times> Memory) res" where
  "destroy_nodes nt m =
     rbind (occupied_nodes nt) (\<lambda>kvs.
     rbind (deallocate_all (map node_address kvs) (pool nt) m) (\<lambda>(pl, m1).
     Inr (nt\<lparr>table := (table nt)\<lparr>mNumElements := 0\<rparr>, pool := pl\<rparr>, m1)))"

definition node_clear :: "('k, 'v) NodeTable \<Rightarrow> Memory \<Rightarrow> (('k, 'v) NodeTable \<times> Memory) res" where
  "node_clear nt m =
     (if table_empty (table nt) then Inr (nt, m)
      else rbind (destroy_nodes nt m) (\<lambda>(nt1, m1). Inr (nt1\<lparr>table := table_clear (table nt)\<rparr>, m1)))"

text \<open>
  \<open>destroy\<close> runs the destructors of the nodes but leaves their memory to the pool, and frees the array;
  what is left of the table is either given a new state or destructed.
\<close>

definition node_destroy :: "('k, 'v) NodeTable \<Rightarrow> Memory \<Rightarrow> (('k, 'v) NodeTable \<times> Memory) res" where
  "node_destroy nt m =
     (if mMask (table nt) = 0 then Inr (nt, m)
      else rbind (occupied_nodes nt) (\<lambda>kvs.
        rbind (free_block (array nt) m) (\<lambda>m1. Inr (nt\<lparr>table := (table nt)\<lparr>mNumElements := 0\<rparr>\<rparr>, m1))))"

definition node_init :: "('k, 'v) NodeTable \<Rightarrow> ('k, 'v) NodeTable" where
  "node_init nt = nt\<lparr>table := new_table\<lparr>mHashMultiplier := mHashMultiplier (table nt)\<rparr>, array := 0\<rparr>"

text \<open>The destructor: \<open>destroy\<close>, then the pool's own destructor.\<close>

definition node_delete :: "('k, 'v) NodeTable \<Rightarrow> Memory \<Rightarrow> Memory res" where
  "node_delete nt m =
     rbind (node_destroy nt m) (\<lambda>(nt1, m1). rbind (reset (pool nt1) m1) (\<lambda>(pl, m2). Inr m2))"

definition node_move :: "('k, 'v) NodeTable \<Rightarrow> ('k, 'v) NodeTable \<times> ('k, 'v) NodeTable" where
  "node_move other =
     (case pool_move (pool other) of (pl, other_pl) \<Rightarrow>
      if mMask (table other) \<noteq> 0
      then (\<lparr>table = table other, pool = pl, array = array other\<rparr>, node_init (other\<lparr>pool := other_pl\<rparr>))
      else (\<lparr>table = new_table, pool = pl, array = 0\<rparr>, other\<lparr>pool := other_pl\<rparr>))"

definition node_move_assign ::
  "('k, 'v) NodeTable \<Rightarrow> ('k, 'v) NodeTable \<Rightarrow> Memory
    \<Rightarrow> (('k, 'v) NodeTable \<times> ('k, 'v) NodeTable \<times> Memory) res" where
  "node_move_assign nt other m =
     (if mMask (table other) \<noteq> 0 then
        rbind (node_destroy nt m) (\<lambda>(nt1, m1).
        rbind (pool_move_assign (pool nt1) (pool other) m1) (\<lambda>(pl, other_pl, m2).
        Inr (\<lparr>table = table other, pool = pl, array = array other\<rparr>, node_init (other\<lparr>pool := other_pl\<rparr>), m2)))
      else rbind (node_clear nt m) (\<lambda>(nt1, m1). Inr (nt1, other, m1)))"

text \<open>\<open>std::swap\<close> on two tables: a move to a temporary, two assignments, and the end of the temporary.\<close>

definition node_swap ::
  "('k, 'v) NodeTable \<Rightarrow> ('k, 'v) NodeTable \<Rightarrow> Memory
    \<Rightarrow> (('k, 'v) NodeTable \<times> ('k, 'v) NodeTable \<times> Memory) res" where
  "node_swap nt other m =
     (case node_move other of (tmp, other1) \<Rightarrow>
      rbind (node_move_assign other1 nt m) (\<lambda>(other2, nt1, m1).
      rbind (node_move_assign nt1 tmp m1) (\<lambda>(nt2, tmp1, m2).
      rbind (node_delete tmp1 m2) (\<lambda>m3. Inr (nt2, other2, m3)))))"

text \<open>\<open>Cloner\<close>: a new node for every occupied slot, in the same slot.\<close>

fun clone_slots ::
  "allocation \<Rightarrow> layout \<Rightarrow> nat list \<Rightarrow> ('k \<times> addr \<times> 'v) option list \<Rightarrow> BulkPoolAllocator \<Rightarrow> Memory
    \<Rightarrow> (('k \<times> addr \<times> 'v) option list \<times> BulkPoolAllocator \<times> Memory) res" where
  "clone_slots malloc ly [] nodes pl m = Inr ([], pl, m)"
| "clone_slots malloc ly (b # infos) [] pl m =
     (if b = 0 then
        rbind (clone_slots malloc ly infos [] pl m) (\<lambda>(ns, pl1, m1). Inr (None # ns, pl1, m1))
      else Inl UndefinedBehaviour)"
| "clone_slots malloc ly (b # infos) (node # nodes) pl m =
     (if b = 0 then
        rbind (clone_slots malloc ly infos nodes pl m) (\<lambda>(ns, pl1, m1). Inr (None # ns, pl1, m1))
      else
        rbind (deref node) (\<lambda>kv.
        rbind (allocate malloc ly pl m) (\<lambda>(a, pl1, m1).
        rbind (clone_slots malloc ly infos nodes pl1 m1) (\<lambda>(ns, pl2, m2).
        Inr (Some (fst kv, a, snd (snd kv)) # ns, pl2, m2)))))"

definition cloneData ::
  "allocation \<Rightarrow> layout \<Rightarrow> ('k, 'v) NodeTable \<Rightarrow> ('k, 'v) NodeTable \<Rightarrow> Memory
    \<Rightarrow> (('k, 'v) NodeTable \<times> Memory) res" where
  "cloneData malloc ly other nt m =
     (let s = table other; n = calcNumElementsWithBuffer (mMask (table nt) + 1) in
      rbind (require (calcNumBytesInfo n \<le> length (mInfo s)) ()) (\<lambda>_.
      rbind (clone_slots malloc ly (take n (mInfo s)) (mKeyVals s) (pool nt) m) (\<lambda>(ns, pl, m1).
      Inr (nt\<lparr>table := (table nt)\<lparr>mInfo := take (calcNumBytesInfo n) (mInfo s), mKeyVals := ns\<rparr>, pool := pl\<rparr>, m1))))"

text \<open>The members that both the copy constructor and the copy assignment take over before they clone.\<close>

definition copy_members :: "('k, 'v) Table \<Rightarrow> ('k, 'v) Table \<Rightarrow> ('k, 'v) Table" where
  "copy_members s t = t\<lparr>mHashMultiplier := mHashMultiplier s, mNumElements := mNumElements s, mMask := mMask s,
     mMaxNumElementsAllowed := mMaxNumElementsAllowed s, mInfoInc := mInfoInc s,
     mInfoHashShift := mInfoHashShift s\<rparr>"

definition node_copy ::
  "allocation \<Rightarrow> layout \<Rightarrow> ('k, 'v) NodeTable \<Rightarrow> Memory \<Rightarrow> (('k, 'v) NodeTable \<times> Memory) res" where
  "node_copy malloc ly other m =
     (let nt = \<lparr>table = new_table, pool = pool_copy (pool other), array = 0\<rparr> in
      if table_empty (table other) then Inr (nt, m)
      else
        rbind (malloc_block malloc
          (calcNumBytesTotal (calcNumElementsWithBuffer (mMask (table other) + 1))) m) (\<lambda>(p, m1).
        cloneData malloc ly other (nt\<lparr>table := copy_members (table other) (table nt), array := p\<rparr>) m1))"

definition node_copy_assign ::
  "allocation \<Rightarrow> layout \<Rightarrow> ('k, 'v) NodeTable \<Rightarrow> ('k, 'v) NodeTable \<Rightarrow> Memory
    \<Rightarrow> (('k, 'v) NodeTable \<times> Memory) res" where
  "node_copy_assign malloc ly nt other m =
     (if table_empty (table other) then
        (if mMask (table nt) = 0 then Inr (nt, m)
         else rbind (node_destroy nt m) (\<lambda>(nt1, m1).
           Inr ((node_init nt1)\<lparr>pool := pool_copy_assign (pool nt1) (pool other)\<rparr>, m1)))
      else
        rbind (destroy_nodes nt m) (\<lambda>(nt1, m1).
        rbind (if mMask (table nt1) \<noteq> mMask (table other) then
            rbind (if mMask (table nt1) \<noteq> 0 then free_block (array nt1) m1 else Inr m1) (\<lambda>m2.
            rbind (malloc_block malloc
              (calcNumBytesTotal (calcNumElementsWithBuffer (mMask (table other) + 1))) m2) (\<lambda>(p, m3).
            Inr (nt1\<lparr>array := p\<rparr>, m3)))
          else Inr (nt1, m1)) (\<lambda>(nt2, m4).
        cloneData malloc ly other
          (nt2\<lparr>table := copy_members (table other) (table nt2),
            pool := pool_copy_assign (pool nt2) (pool other)\<rparr>) m4)))"

declare node_erase_loop.simps [simp del]

end
