(* ===== verification/Node_Pool_Proofs.thy ===== *)
theory Node_Pool_Proofs
  imports Node_Pool
begin

text \<open>
  The invariant of the node allocator and that every operation keeps it: the free elements and the
  elements in use lie in the blocks of the pool, apart from each other, and no operation writes to an
  element in use or to a block of anybody else.
\<close>

section \<open>Layout\<close>

text \<open>An alignment is a power of two.\<close>

definition layout_ok :: "layout \<Rightarrow> bool" where
  "layout_ok ly \<longleftrightarrow> 0 < type_size ly \<and> (type_alignment ly \<le> 8 \<or> type_alignment ly mod 8 = 0)"

lemma layout_static_asserts:
  assumes "layout_ok ly"
  shows "8 \<le> ALIGNMENT ly" and "ALIGNMENT ly mod 8 = 0" and "8 \<le> ALIGNED_SIZE ly"
    and "ALIGNED_SIZE ly mod 8 = 0" and "type_size ly \<le> ALIGNED_SIZE ly"
proof -
  show al: "8 \<le> ALIGNMENT ly" "ALIGNMENT ly mod 8 = 0"
    using assms by (auto simp: layout_ok_def ALIGNMENT_def max_def)
  show "8 \<le> ALIGNED_SIZE ly" using al(1) by (simp add: ALIGNED_SIZE_def)
  show "ALIGNED_SIZE ly mod 8 = 0" using al(2) by (simp add: ALIGNED_SIZE_def mod_mult_right_eq [symmetric] del: mult_Suc mult_Suc_right)
  have "(type_size ly - 1) mod ALIGNMENT ly < ALIGNMENT ly" using al(1) by simp
  then show "type_size ly \<le> ALIGNED_SIZE ly"
    using div_mult_mod_eq [of "type_size ly - 1" "ALIGNMENT ly"]
    unfolding ALIGNED_SIZE_def add_mult_distrib by linarith
qed

section \<open>Blocks\<close>

definition heap_ok :: "Memory \<Rightarrow> bool" where
  "heap_ok m \<longleftrightarrow> list_all (\<lambda>(p, n). 0 < p \<and> p mod 8 = 0 \<and> 0 < n) (blocks m) \<and>
     sorted_wrt (\<lambda>(p, n) (q, k). p + n \<le> q \<or> q + k \<le> p) (blocks m)"

text \<open>The contract of \<open>malloc\<close>: it fails, or returns an aligned address outside of all blocks.\<close>

definition malloc_ok :: "allocation \<Rightarrow> bool" where
  "malloc_ok malloc \<longleftrightarrow> (\<forall>m n. malloc m n = 0 \<or> malloc m n mod 8 = 0 \<and>
     (\<forall>(q, k) \<in> set (blocks m). malloc m n + n \<le> q \<or> q + k \<le> malloc m n))"

lemma heap_ok_cell [simp]: "heap_ok (m\<lparr>cell := f\<rparr>) = heap_ok m"
  by (simp add: heap_ok_def)

lemma sorted_wrt_apart:
  "sorted_wrt R xs \<Longrightarrow> x \<in> set xs \<Longrightarrow> y \<in> set xs \<Longrightarrow> x \<noteq> y \<Longrightarrow> (\<And>x y. R x y \<Longrightarrow> R y x) \<Longrightarrow> R x y"
  by (induction xs) auto

lemma heap_blocks:
  assumes "heap_ok m" and "(p, n) \<in> set (blocks m)"
  shows "0 < p" and "p mod 8 = 0" and "0 < n"
    and "(q, k) \<in> set (blocks m) \<Longrightarrow> (p, n) \<noteq> (q, k) \<Longrightarrow> p + n \<le> q \<or> q + k \<le> p"
proof -
  show "0 < p" "p mod 8 = 0" "0 < n" using assms by (auto simp: heap_ok_def list_all_iff)
  assume q: "(q, k) \<in> set (blocks m)" "(p, n) \<noteq> (q, k)"
  have "sorted_wrt (\<lambda>(p, n) (q, k). p + n \<le> q \<or> q + k \<le> p) (blocks m)" using assms(1) by (simp add: heap_ok_def)
  from sorted_wrt_apart [OF this assms(2) q] show "p + n \<le> q \<or> q + k \<le> p" by auto
qed

lemma heap_block_unique:
  assumes "heap_ok m" and "(p, n) \<in> set (blocks m)" and "(p, k) \<in> set (blocks m)"
  shows "n = k"
proof (rule ccontr)
  assume "n \<noteq> k"
  then have "p + n \<le> p \<or> p + k \<le> p" using heap_blocks(4) [OF assms(1,2,3)] by simp
  then show False using heap_blocks(3) [OF assms(1)] assms(2,3) by force
qed

lemma heap_block_iff:
  assumes "heap_ok m" and "(p, n) \<in> set (blocks m)" and "b \<in> set (blocks m)"
  shows "fst b = p \<longleftrightarrow> b = (p, n)"
  using heap_block_unique [OF assms(1,2)] assms(3) by (metis fst_conv prod.collapse)

lemma in_block_I:
  "(p, n) \<in> set (blocks m) \<Longrightarrow> p \<le> a \<Longrightarrow> a + 8 \<le> p + n \<Longrightarrow> a mod 8 = 0 \<Longrightarrow> in_block a m"
  by (auto simp: in_block_def list_ex_iff)

lemma in_block_cell [simp]: "in_block a (m\<lparr>cell := f\<rparr>) = in_block a m"
  by (simp add: in_block_def)

lemma malloc_block_ok:
  assumes "malloc_ok malloc" and "heap_ok m" and "0 < n"
  shows "overflow_or (malloc_block malloc n m) (\<lambda>(p, m'). heap_ok m' \<and> m' = m\<lparr>blocks := (p, n) # blocks m\<rparr> \<and>
    (\<forall>(q, k) \<in> set (blocks m). p + n \<le> q \<or> q + k \<le> p))"
proof -
  have "malloc m n = 0 \<or> malloc m n mod 8 = 0 \<and>
      (\<forall>(q, k) \<in> set (blocks m). malloc m n + n \<le> q \<or> q + k \<le> malloc m n)"
    using assms(1) unfolding malloc_ok_def by blast
  then show ?thesis
    using assms(2,3) by (auto simp: malloc_block_def Let_def heap_ok_def)
qed

lemma heap_ok_filter: "heap_ok m \<Longrightarrow> heap_ok (m\<lparr>blocks := filter P (blocks m)\<rparr>)"
  by (auto simp: heap_ok_def list_all_iff sorted_wrt_filter)

section \<open>Elements\<close>

definition elements :: "layout \<Rightarrow> addr \<Rightarrow> nat \<Rightarrow> addr list" where
  "elements ly p n =
     map (\<lambda>i. p + ALIGNMENT ly + i * ALIGNED_SIZE ly) [0..<(n - ALIGNMENT ly) div ALIGNED_SIZE ly]"

lemma elements_iff:
  "a \<in> set (elements ly p n) \<longleftrightarrow>
    (\<exists>i < (n - ALIGNMENT ly) div ALIGNED_SIZE ly. a = p + ALIGNMENT ly + i * ALIGNED_SIZE ly)"
  by (auto simp: elements_def image_iff)

lemma element_bounds:
  assumes ly: "layout_ok ly" and a: "a \<in> set (elements ly p n)" and p: "p mod 8 = 0"
  shows "p + ALIGNMENT ly \<le> a" and "a + ALIGNED_SIZE ly \<le> p + n" and "a mod 8 = 0" and "0 < a"
proof -
  obtain i where i: "a = p + ALIGNMENT ly + i * ALIGNED_SIZE ly" "i < (n - ALIGNMENT ly) div ALIGNED_SIZE ly"
    using a unfolding elements_iff by blast
  note s = layout_static_asserts [OF ly]
  show "p + ALIGNMENT ly \<le> a" "0 < a" using i(1) s(1) by auto
  have "(i + 1) * ALIGNED_SIZE ly \<le> (n - ALIGNMENT ly) div ALIGNED_SIZE ly * ALIGNED_SIZE ly"
    using i(2) by (intro mult_le_mono1) simp
  also have "\<dots> \<le> n - ALIGNMENT ly" by (rule div_times_less_eq_dividend)
  finally have "(i + 1) * ALIGNED_SIZE ly \<le> n - ALIGNMENT ly" .
  then show "a + ALIGNED_SIZE ly \<le> p + n" using i(1) s(3) by (simp add: add_mult_distrib)
  have "8 dvd p + ALIGNMENT ly + i * ALIGNED_SIZE ly"
    using p s(2,4) by (intro dvd_add dvd_mult) (auto simp: dvd_eq_mod_eq_0)
  then show "a mod 8 = 0" using i(1) by (simp add: dvd_eq_mod_eq_0)
qed

lemma elements_apart:
  assumes "a \<in> set (elements ly p n)" and "b \<in> set (elements ly p n)" and "a \<noteq> b"
  shows "a + ALIGNED_SIZE ly \<le> b \<or> b + ALIGNED_SIZE ly \<le> a"
proof -
  obtain i j where ij: "a = p + ALIGNMENT ly + i * ALIGNED_SIZE ly" "b = p + ALIGNMENT ly + j * ALIGNED_SIZE ly"
    using assms(1,2) unfolding elements_iff by blast
  then have "i < j \<or> j < i" using assms(3) by (metis nat_neq_iff)
  then have "(i + 1) * ALIGNED_SIZE ly \<le> j * ALIGNED_SIZE ly \<or> (j + 1) * ALIGNED_SIZE ly \<le> i * ALIGNED_SIZE ly"
    by (metis Suc_eq_plus1 Suc_leI mult_le_mono1)
  then show ?thesis using ij by (auto simp: add_mult_distrib)
qed

lemma distinct_elements: "layout_ok ly \<Longrightarrow> distinct (elements ly p n)"
  using layout_static_asserts(3) [of ly] by (auto simp: elements_def distinct_map inj_on_def)

section \<open>The invariant\<close>

text \<open>The elements of the pool whose blocks are \<open>bs\<close>, and the blocks of everybody else.\<close>

definition pool_elements :: "layout \<Rightarrow> Memory \<Rightarrow> addr list \<Rightarrow> addr set" where
  "pool_elements ly m bs = (\<Union>(p, n) \<in> {b \<in> set (blocks m). fst b \<in> set bs}. set (elements ly p n))"

definition others :: "Memory \<Rightarrow> addr list \<Rightarrow> (addr \<times> nat) set" where
  "others m bs = {b \<in> set (blocks m). fst b \<notin> set bs}"

definition pool_ok :: "layout \<Rightarrow> BulkPoolAllocator \<Rightarrow> Memory \<Rightarrow> addr list \<Rightarrow> addr list \<Rightarrow> addr set \<Rightarrow> bool" where
  "pool_ok ly pl m bs fs used \<longleftrightarrow> heap_ok m \<and>
     chain (cell m) (mListForFree pl) bs \<and> distinct bs \<and> set bs \<subseteq> set (map fst (blocks m)) \<and>
     (\<forall>(p, n) \<in> set (blocks m). p \<in> set bs \<longrightarrow> ALIGNMENT ly + ALIGNED_SIZE ly \<le> n) \<and>
     chain (cell m) (mHead pl) fs \<and> distinct fs \<and>
     set fs \<subseteq> pool_elements ly m bs \<and> used \<subseteq> pool_elements ly m bs \<and> set fs \<inter> used = {}"

text \<open>The memory that is not the pool's to write: elements in use and other blocks.\<close>

definition undisturbed :: "layout \<Rightarrow> addr list \<Rightarrow> addr set \<Rightarrow> Memory \<Rightarrow> Memory \<Rightarrow> bool" where
  "undisturbed ly bs used m m' \<longleftrightarrow>
     (\<forall>a \<in> used. \<forall>c. a \<le> c \<and> c < a + ALIGNED_SIZE ly \<longrightarrow> cell m' c = cell m c) \<and>
     (\<forall>(q, k) \<in> others m bs. \<forall>c. q \<le> c \<and> c < q + k \<longrightarrow> cell m' c = cell m c)"

lemma pool_element_block:
  assumes "layout_ok ly" and "heap_ok m" and "a \<in> pool_elements ly m bs"
  obtains p n where "(p, n) \<in> set (blocks m)" and "p \<in> set bs" and "a \<in> set (elements ly p n)"
    and "p + ALIGNMENT ly \<le> a" and "a + ALIGNED_SIZE ly \<le> p + n" and "a mod 8 = 0" and "0 < a"
proof -
  obtain p n where p: "(p, n) \<in> set (blocks m)" "p \<in> set bs" "a \<in> set (elements ly p n)"
    using assms(3) by (auto simp: pool_elements_def)
  from that [OF p] element_bounds [OF assms(1) p(3) heap_blocks(2) [OF assms(2) p(1)]] show ?thesis by simp
qed

lemma pool_element_in_block:
  assumes "layout_ok ly" and "heap_ok m" and "a \<in> pool_elements ly m bs"
  shows "in_block a m"
  using assms
proof (rule pool_element_block)
  fix p n assume "(p, n) \<in> set (blocks m)" "p + ALIGNMENT ly \<le> a" "a + ALIGNED_SIZE ly \<le> p + n" "a mod 8 = 0"
  then show ?thesis using layout_static_asserts [OF assms(1)] by (intro in_block_I [of p n]) auto
qed

lemma pool_elements_apart:
  assumes ly: "layout_ok ly" and h: "heap_ok m"
    and a: "a \<in> pool_elements ly m bs" and b: "b \<in> pool_elements ly m bs" and ne: "a \<noteq> b"
  shows "a + ALIGNED_SIZE ly \<le> b \<or> b + ALIGNED_SIZE ly \<le> a"
proof -
  obtain p n where p: "(p, n) \<in> set (blocks m)" "a \<in> set (elements ly p n)" "p + ALIGNMENT ly \<le> a"
      "a + ALIGNED_SIZE ly \<le> p + n" by (rule pool_element_block [OF ly h a])
  obtain q k where q: "(q, k) \<in> set (blocks m)" "b \<in> set (elements ly q k)" "q + ALIGNMENT ly \<le> b"
      "b + ALIGNED_SIZE ly \<le> q + k" by (rule pool_element_block [OF ly h b])
  show ?thesis
  proof (cases "(p, n) = (q, k)")
    case True
    then show ?thesis using elements_apart [OF p(2) _ ne] q(2) by simp
  next
    case False
    then have "p + n \<le> q \<or> q + k \<le> p" using heap_blocks(4) [OF h p(1) q(1)] by simp
    then show ?thesis using p q by auto
  qed
qed

lemma pool_element_not_header:
  assumes ly: "layout_ok ly" and h: "heap_ok m" and a: "a \<in> pool_elements ly m bs" and b: "(b, k) \<in> set (blocks m)"
  shows "a \<noteq> b"
proof -
  obtain p n where p: "(p, n) \<in> set (blocks m)" "p + ALIGNMENT ly \<le> a" "a + ALIGNED_SIZE ly \<le> p + n"
    by (rule pool_element_block [OF ly h a])
  show ?thesis
  proof
    assume "a = b"
    moreover have "(p, n) = (b, k) \<or> p + n \<le> b \<or> b + k \<le> p" using heap_blocks(4) [OF h p(1) b] by blast
    ultimately show False using p layout_static_asserts [OF ly] heap_blocks(3) [OF h b] by auto
  qed
qed

text \<open>Writing to a free element disturbs nobody.\<close>

lemma write_free_undisturbed:
  assumes ly: "layout_ok ly" and h: "heap_ok m" and a: "a \<in> pool_elements ly m bs" and u: "a \<notin> used"
    and used: "used \<subseteq> pool_elements ly m bs"
  shows "undisturbed ly bs used m (m\<lparr>cell := (cell m)(a := v)\<rparr>)"
proof -
  have "a \<noteq> c" if "b \<in> used" "b \<le> c \<and> c < b + ALIGNED_SIZE ly" for b c
  proof -
    have "b \<in> pool_elements ly m bs" "a \<noteq> b" using that used u by auto
    then show ?thesis
      using pool_elements_apart [OF ly h a, of b] that(2) layout_static_asserts(3) [OF ly] by auto
  qed
  moreover have "a \<noteq> c" if "(q, k) \<in> others m bs" "q \<le> c \<and> c < q + k" for q k c
  proof -
    obtain p n where p: "(p, n) \<in> set (blocks m)" "p \<in> set bs" "p + ALIGNMENT ly \<le> a" "a + ALIGNED_SIZE ly \<le> p + n"
      by (rule pool_element_block [OF ly h a])
    have "p + n \<le> q \<or> q + k \<le> p" using heap_blocks(4) [OF h p(1), of q k] that p(2) by (auto simp: others_def)
    then show ?thesis using that(2) p layout_static_asserts(3) [OF ly] by auto
  qed
  ultimately show ?thesis unfolding undisturbed_def by fastforce
qed

lemma undisturbed_refl: "undisturbed ly bs used m m"
  by (simp add: undisturbed_def)

section \<open>Taking and giving back\<close>

lemma read_ptr_element:
  "layout_ok ly \<Longrightarrow> heap_ok m \<Longrightarrow> a \<in> pool_elements ly m bs \<Longrightarrow> read_ptr a m = Inr (cell m a)"
  by (simp add: read_ptr_def pool_element_in_block)

lemma write_ptr_element:
  "layout_ok ly \<Longrightarrow> heap_ok m \<Longrightarrow> a \<in> pool_elements ly m bs \<Longrightarrow>
    write_ptr a v m = Inr (m\<lparr>cell := (cell m)(a := v)\<rparr>)"
  by (simp add: write_ptr_def pool_element_in_block)

lemma pool_elements_cell [simp]: "pool_elements ly (m\<lparr>cell := f\<rparr>) bs = pool_elements ly m bs"
  by (simp add: pool_elements_def)

lemma deallocate_ok:
  assumes ly: "layout_ok ly" and ok: "pool_ok ly pl m bs fs used" and a: "a \<in> used"
  obtains pl' m' where "deallocate a pl m = Inr (pl', m')" and "pool_ok ly pl' m' bs (a # fs) (used - {a})"
    and "blocks m' = blocks m" and "undisturbed ly bs (used - {a}) m m'"
proof -
  let ?m = "m\<lparr>cell := (cell m)(a := mHead pl)\<rparr>"
  have h: "heap_ok m" and used: "used \<subseteq> pool_elements ly m bs" and sub: "set bs \<subseteq> set (map fst (blocks m))"
    using ok by (simp_all add: pool_ok_def)
  have e: "a \<in> pool_elements ly m bs" using a used by auto
  have nb: "a \<notin> set bs"
  proof
    assume "a \<in> set bs"
    then obtain k where "(a, k) \<in> set (blocks m)" using sub by auto
    then show False using pool_element_not_header [OF ly h e] by blast
  qed
  have nz: "a \<noteq> 0" by (rule pool_element_block [OF ly h e]) simp
  have nf: "a \<notin> set fs" using ok a by (auto simp: pool_ok_def)
  have "pool_ok ly (pl\<lparr>mHead := a\<rparr>) ?m bs (a # fs) (used - {a})"
    using ok a nb nf nz e unfolding pool_ok_def by (auto simp: disjoint_iff)
  moreover have "undisturbed ly bs (used - {a}) m ?m"
    using write_free_undisturbed [OF ly h e, of "used - {a}"] used by auto
  ultimately show ?thesis
    using that [of "pl\<lparr>mHead := a\<rparr>" ?m] write_ptr_element [OF ly h e] by (simp add: deallocate_def)
qed

lemma pop_ok:
  assumes ly: "layout_ok ly" and ok: "pool_ok ly pl m bs (a # fs) used"
  shows "read_ptr (mHead pl) m = Inr (cell m a)" and "mHead pl = a" and "a \<notin> used"
    and "pool_ok ly (pl\<lparr>mHead := cell m a\<rparr>) m bs fs (insert a used)"
proof -
  show head: "mHead pl = a" "a \<notin> used" using ok by (auto simp: pool_ok_def)
  have e: "a \<in> pool_elements ly m bs" "heap_ok m" using ok by (auto simp: pool_ok_def)
  show "read_ptr (mHead pl) m = Inr (cell m a)" using read_ptr_element [OF ly e(2,1)] head by simp
  show "pool_ok ly (pl\<lparr>mHead := cell m a\<rparr>) m bs fs (insert a used)"
    using ok e unfolding pool_ok_def by auto
qed

section \<open>Adding a block\<close>

lemma link_loop_ok:
  assumes "\<forall>i \<in> set is. in_block (base + i * ALIGNED_SIZE ly) m" and "0 < ALIGNED_SIZE ly"
  obtains m' where "link_loop ly base is m = Inr m'" and "blocks m' = blocks m"
    and "\<forall>c. cell m' c = (if \<exists>i \<in> set is. c = base + i * ALIGNED_SIZE ly then c + ALIGNED_SIZE ly else cell m c)"
  using assms(1)
proof (induction "is" arbitrary: m thesis)
  case Nil
  then show ?case by simp
next
  case (Cons i "is")
  let ?m = "m\<lparr>cell := (cell m)(base + i * ALIGNED_SIZE ly := base + (i + 1) * ALIGNED_SIZE ly)\<rparr>"
  obtain m' where m': "link_loop ly base is ?m = Inr m'" "blocks m' = blocks ?m"
      "\<forall>c. cell m' c = (if \<exists>i \<in> set is. c = base + i * ALIGNED_SIZE ly then c + ALIGNED_SIZE ly else cell ?m c)"
    using Cons.IH [of ?m] Cons.prems(2) by auto
  have "link_loop ly base (i # is) m = Inr m'" using m'(1) Cons.prems(2) by (simp add: write_ptr_def)
  then show ?case using Cons.prems(1) [of m'] m'(2,3) assms(2) by auto
qed

lemma heap_ok_blocks: "blocks m' = blocks m \<Longrightarrow> heap_ok m' = heap_ok m"
  by (simp add: heap_ok_def)

lemma pool_elements_blocks: "blocks m' = blocks m \<Longrightarrow> pool_elements ly m' bs = pool_elements ly m bs"
  by (simp add: pool_elements_def)

lemma pool_elements_Cons:
  assumes "heap_ok m" and "(p, n) \<in> set (blocks m)"
  shows "pool_elements ly m (p # bs) = set (elements ly p n) \<union> pool_elements ly m bs"
proof -
  have "{b \<in> set (blocks m). fst b \<in> set (p # bs)} = insert (p, n) {b \<in> set (blocks m). fst b \<in> set bs}"
    using heap_block_iff [OF assms] assms(2) by auto
  then show ?thesis by (simp add: pool_elements_def)
qed

lemma pool_element_outside:
  assumes ly: "layout_ok ly" and h: "heap_ok m" and a: "a \<in> pool_elements ly m bs"
    and p: "(p, n) \<in> set (blocks m)" "p \<notin> set bs"
  shows "a < p \<or> p + n \<le> a"
proof -
  obtain q k where q: "(q, k) \<in> set (blocks m)" "q \<in> set bs" "q + ALIGNMENT ly \<le> a" "a + ALIGNED_SIZE ly \<le> q + k"
    by (rule pool_element_block [OF ly h a])
  have "q + k \<le> p \<or> p + n \<le> q" using heap_blocks(4) [OF h q(1) p(1)] q(2) p(2) by auto
  then show ?thesis using q layout_static_asserts(3) [OF ly] by auto
qed

lemma header_outside:
  assumes h: "heap_ok m" and b: "b \<in> set (map fst (blocks m))" and p: "(p, n) \<in> set (blocks m)" "b \<noteq> p"
  shows "b < p \<or> p + n \<le> b"
proof -
  obtain k where k: "(b, k) \<in> set (blocks m)" using b by auto
  then have "b + k \<le> p \<or> p + n \<le> b" using heap_blocks(4) [OF h k p(1)] p(2) by auto
  then show ?thesis using heap_blocks(3) [OF h k] by auto
qed

definition last_element :: "layout \<Rightarrow> addr \<Rightarrow> nat \<Rightarrow> addr" where
  "last_element ly p n = p + ALIGNMENT ly + ((n - ALIGNMENT ly) div ALIGNED_SIZE ly - 1) * ALIGNED_SIZE ly"

lemma elements_room:
  assumes "layout_ok ly" and "ALIGNMENT ly + ALIGNED_SIZE ly \<le> n"
  shows "0 < (n - ALIGNMENT ly) div ALIGNED_SIZE ly" and "last_element ly p n \<in> set (elements ly p n)"
proof -
  show k: "0 < (n - ALIGNMENT ly) div ALIGNED_SIZE ly"
    using assms(2) layout_static_asserts(3) [OF assms(1)] by (simp add: div_greater_zero_iff)
  show "last_element ly p n \<in> set (elements ly p n)"
    unfolding elements_iff last_element_def by (rule exI [of _ "(n - ALIGNMENT ly) div ALIGNED_SIZE ly - 1"]) (use k in simp)
qed

text \<open>What the elements of a new block hold: each the next one, and the last one what was the head.\<close>

lemma pool_add_run:
  assumes ly: "layout_ok ly" and h: "heap_ok m" and p: "(p, n) \<in> set (blocks m)"
    and big: "ALIGNMENT ly + ALIGNED_SIZE ly \<le> n"
  obtains m' where "pool_add ly p n pl m = Inr (pl\<lparr>mListForFree := p, mHead := p + ALIGNMENT ly\<rparr>, m')"
    and "blocks m' = blocks m"
    and "\<And>c. cell m' c = (if c = last_element ly p n then mHead pl
      else if c \<in> set (elements ly p n) then c + ALIGNED_SIZE ly else if c = p then mListForFree pl else cell m c)"
proof -
  let ?S = "ALIGNED_SIZE ly" and ?hd = "p + ALIGNMENT ly" and ?k = "(n - ALIGNMENT ly) div ALIGNED_SIZE ly"
  note s = layout_static_asserts [OF ly]
  note hp = heap_blocks [OF h p]
  have inb: "in_block a m" if "a \<in> set (elements ly p n)" for a
    using element_bounds [OF ly that hp(2)] s(3) by (intro in_block_I [OF p]) auto
  have inp: "in_block p m" using hp(2) big s(1) by (intro in_block_I [OF p]) auto
  let ?m1 = "m\<lparr>cell := (cell m)(p := mListForFree pl)\<rparr>"
  have el: "?hd + i * ?S \<in> set (elements ly p n)" if "i < ?k" for i using that unfolding elements_iff by blast
  obtain m2 where m2: "link_loop ly ?hd [0..<?k] ?m1 = Inr m2" "blocks m2 = blocks m"
      "\<forall>c. cell m2 c = (if \<exists>i \<in> set [0..<?k]. c = ?hd + i * ?S then c + ?S else cell ?m1 c)"
    by (rule link_loop_ok [of "[0..<?k]" ?hd ly ?m1]) (use inb el s(3) in auto)
  have "in_block (last_element ly p n) m2"
    using inb [OF elements_room(2) [OF ly big]] m2(2) by (simp add: in_block_def)
  then have "pool_add ly p n pl m = Inr (pl\<lparr>mListForFree := p, mHead := ?hd\<rparr>,
      m2\<lparr>cell := (cell m2)(last_element ly p n := mHead pl)\<rparr>)"
    using inp m2(1) by (simp add: pool_add_def write_ptr_def Let_def last_element_def)
  then show ?thesis by (rule that) (use m2(2,3) in \<open>auto simp: elements_iff\<close>)
qed

lemma elements_chain:
  assumes ly: "layout_ok ly" and big: "ALIGNMENT ly + ALIGNED_SIZE ly \<le> n" and p: "0 < p"
    and f: "\<And>c. c \<in> set (elements ly p n) \<Longrightarrow> f c = (if c = last_element ly p n then b else c + ALIGNED_SIZE ly)"
    and rest: "chain f b fs"
  shows "chain f (p + ALIGNMENT ly) (elements ly p n @ fs)"
proof -
  let ?S = "ALIGNED_SIZE ly" and ?k = "(n - ALIGNMENT ly) div ALIGNED_SIZE ly"
  have S: "0 < ?S" using layout_static_asserts(3) [OF ly] by simp
  have k: "0 < ?k" by (rule elements_room(1) [OF ly big])
  have nth: "elements ly p n ! i = p + ALIGNMENT ly + i * ?S" if "i < ?k" for i using that by (simp add: elements_def)
  have len: "length (elements ly p n) = ?k" by (simp add: elements_def)
  have "chain f (elements ly p n ! 0) (elements ly p n @ fs)"
  proof (rule chain_append [OF _ _ rest])
    show "elements ly p n \<noteq> []" using k len by auto
    show "\<forall>i < length (elements ly p n). elements ly p n ! i \<noteq> 0 \<and> f (elements ly p n ! i) =
        (if i + 1 < length (elements ly p n) then elements ly p n ! (i + 1) else b)"
    proof (intro allI impI)
      fix i assume "i < length (elements ly p n)"
      then have i: "i < ?k" and mem: "elements ly p n ! i \<in> set (elements ly p n)" using len by simp_all
      have "(elements ly p n ! i = last_element ly p n) = (i = ?k - 1)"
        using S by (simp add: nth [OF i] last_element_def)
      then show "elements ly p n ! i \<noteq> 0 \<and> f (elements ly p n ! i) =
          (if i + 1 < length (elements ly p n) then elements ly p n ! (i + 1) else b)"
        unfolding f [OF mem] len using i nth [OF i] nth [of "i + 1"] p by auto
    qed
  qed
  then show ?thesis using nth [OF k] by simp
qed

lemma pool_add_ok:
  assumes ly: "layout_ok ly" and ok: "pool_ok ly pl m bs fs used" and p: "(p, n) \<in> set (blocks m)"
    and new: "p \<notin> set bs" and big: "ALIGNMENT ly + ALIGNED_SIZE ly \<le> n"
  obtains pl' m' where "pool_add ly p n pl m = Inr (pl', m')" and "pool_ok ly pl' m' (p # bs) (elements ly p n @ fs) used"
    and "blocks m' = blocks m" and "\<forall>c. c < p \<or> p + n \<le> c \<longrightarrow> cell m' c = cell m c"
proof -
  note s = layout_static_asserts [OF ly]
  have h: "heap_ok m" using ok by (simp add: pool_ok_def)
  note hp = heap_blocks [OF h p]
  obtain m' where run: "pool_add ly p n pl m = Inr (pl\<lparr>mListForFree := p, mHead := p + ALIGNMENT ly\<rparr>, m')"
    and bl: "blocks m' = blocks m"
    and cells: "\<And>c. cell m' c = (if c = last_element ly p n then mHead pl
      else if c \<in> set (elements ly p n) then c + ALIGNED_SIZE ly else if c = p then mListForFree pl else cell m c)"
    using pool_add_run [OF ly h p big] by metis
  note last = elements_room(2) [OF ly big, of p]
  have bd: "p + ALIGNMENT ly \<le> c \<and> c + ALIGNED_SIZE ly \<le> p + n" if "c \<in> set (elements ly p n)" for c
    using element_bounds(1,2) [OF ly that hp(2)] by simp
  have out: "cell m' c = cell m c" if "c < p \<or> p + n \<le> c" for c
  proof -
    have "c \<notin> set (elements ly p n)" "c \<noteq> p" using that bd [of c] big s(1,3) by auto
    then show ?thesis using cells last by metis
  qed
  have outs: "c < p \<or> p + n \<le> c" if "c \<in> pool_elements ly m bs" for c
    by (rule pool_element_outside [OF ly h that p new])
  have sub: "set bs \<subseteq> set (map fst (blocks m))" and fs: "set fs \<subseteq> pool_elements ly m bs"
    and used: "used \<subseteq> pool_elements ly m bs"
    using ok by (simp_all add: pool_ok_def)
  have "cell m' c = cell m c" if "c \<in> set fs" for c using that fs outs out by blast
  then have "chain (cell m') (mHead pl) fs" using ok chain_cong [of fs "cell m'" "cell m"] by (simp add: pool_ok_def)
  from elements_chain [OF ly big hp(1) _ this]
  have free: "chain (cell m') (p + ALIGNMENT ly) (elements ly p n @ fs)" using cells by auto
  have "cell m' b = cell m b" if "b \<in> set bs" for b
    using header_outside [OF h, of b p n] that sub p new out by blast
  then have "chain (cell m') (mListForFree pl) bs"
    using ok chain_cong [of bs "cell m'" "cell m"] by (simp add: pool_ok_def)
  moreover have "p \<notin> set (elements ly p n)" using bd [of p] s(1) by auto
  then have "cell m' p = mListForFree pl" using cells last by metis
  ultimately have headers: "chain (cell m') p (p # bs)" using hp(1) by simp
  have apart: "set (elements ly p n) \<inter> pool_elements ly m bs = {}" using outs bd s(3) by force
  have pe: "pool_elements ly m' (p # bs) = set (elements ly p n) \<union> pool_elements ly m bs"
    using pool_elements_Cons [OF h p] bl pool_elements_blocks [of m' m] by simp
  have big': "ALIGNMENT ly + ALIGNED_SIZE ly \<le> k" if "(q, k) \<in> set (blocks m)" "q \<in> set (p # bs)" for q k
    using that heap_block_unique [OF h p, of k] big ok unfolding pool_ok_def by (cases "q = p") auto
  have "pool_ok ly (pl\<lparr>mListForFree := p, mHead := p + ALIGNMENT ly\<rparr>) m' (p # bs) (elements ly p n @ fs) used"
    unfolding pool_ok_def pe
    using ok free headers new p distinct_elements [OF ly] fs used apart bl big' heap_ok_blocks [of m' m]
    by (auto simp: pool_ok_def image_iff Bex_def)
  then show ?thesis by (rule that [OF run]) (use bl out in auto)
qed

section \<open>Allocating\<close>

lemma header_in_block:
  assumes ly: "layout_ok ly" and ok: "pool_ok ly pl m bs fs used" and b: "b \<in> set bs"
  shows "in_block b m"
proof -
  have h: "heap_ok m" using ok by (simp add: pool_ok_def)
  have "b \<in> fst ` set (blocks m)" using ok b by (auto simp: pool_ok_def)
  then obtain n where n: "(b, n) \<in> set (blocks m)" by auto
  then have "ALIGNMENT ly + ALIGNED_SIZE ly \<le> n" using ok b unfolding pool_ok_def by auto
  then show ?thesis
    using heap_blocks(2) [OF h n] layout_static_asserts(1) [OF ly] by (intro in_block_I [OF n]) auto
qed

lemma count_loop_ok:
  "0 < n \<Longrightarrow> chain (cell m) a bs \<Longrightarrow> \<forall>b \<in> set bs. in_block b m \<Longrightarrow> \<exists>k. count_loop n a m = Inr k \<and> n \<le> k"
proof (induction bs arbitrary: n a)
  case Nil
  then show ?case by (simp add: count_loop.simps [of n 0])
next
  case (Cons b bs)
  then have a: "a = b" "a \<noteq> 0" "chain (cell m) (cell m a) bs" "in_block a m" by auto
  show ?case
  proof (cases "n * 2 \<le> MaxNumAllocs")
    case True
    obtain k where k: "count_loop (n * 2) (cell m a) m = Inr k" "n * 2 \<le> k"
      using Cons.IH [of "n * 2" "cell m a"] Cons.prems a by auto
    then have "count_loop n a m = Inr k"
      using True a Cons.prems(1) by (subst count_loop.simps) (simp add: read_ptr_def)
    with k(2) show ?thesis by auto
  next
    case False
    then show ?thesis by (subst count_loop.simps) simp
  qed
qed

lemma pool_ok_more_blocks:
  assumes ok: "pool_ok ly pl m bs fs used" and h: "heap_ok m'" and m': "m' = m\<lparr>blocks := (p, n) # blocks m\<rparr>"
  shows "pool_ok ly pl m' bs fs used" and "p \<notin> set bs" and "others m' (p # bs) = others m bs"
proof -
  have p: "p \<noteq> q" if "(q, k) \<in> set (blocks m)" for q k
  proof -
    have "sorted_wrt (\<lambda>(p, n) (q, k). p + n \<le> q \<or> q + k \<le> p) ((p, n) # blocks m)" "0 < n" "0 < k"
      using h that by (auto simp: heap_ok_def m' list_all_iff)
    then have "p + n \<le> q \<or> q + k \<le> p" "0 < n" "0 < k" using that by auto
    then show ?thesis by auto
  qed
  have pf: "p \<notin> fst ` set (blocks m)"
  proof
    assume "p \<in> fst ` set (blocks m)"
    then obtain k where "(p, k) \<in> set (blocks m)" by auto
    then show False using p by blast
  qed
  show new: "p \<notin> set bs" using ok pf by (auto simp: pool_ok_def)
  have "pool_elements ly m' bs = pool_elements ly m bs" using new by (auto simp: pool_elements_def m')
  then show "pool_ok ly pl m' bs fs used" using ok h new unfolding pool_ok_def by (auto simp: m')
  show "others m' (p # bs) = others m bs" using pf by (force simp: others_def m')
qed

lemma undisturbed_outside:
  assumes ly: "layout_ok ly" and ok: "pool_ok ly pl m bs fs used" and bs: "\<forall>(q, k) \<in> set (blocks m). q \<notin> set bs' \<or> q \<in> set bs \<longrightarrow> p + n \<le> q \<or> q + k \<le> p"
    and bs': "set bs \<subseteq> set bs'" and out: "\<forall>c. c < p \<or> p + n \<le> c \<longrightarrow> cell m' c = cell m c"
  shows "undisturbed ly bs' used m m'"
  unfolding undisturbed_def
proof (intro conjI ballI allI impI)
  have h: "heap_ok m" using ok by (simp add: pool_ok_def)
  fix a c assume a: "a \<in> used" and c: "a \<le> c \<and> c < a + ALIGNED_SIZE ly"
  have "a \<in> pool_elements ly m bs" using ok a by (auto simp: pool_ok_def)
  from pool_element_block [OF ly h this] obtain q k where q: "(q, k) \<in> set (blocks m)" "q \<in> set bs"
      "q + ALIGNMENT ly \<le> a" "a + ALIGNED_SIZE ly \<le> q + k" by metis
  then have "p + n \<le> q \<or> q + k \<le> p" using bs by auto
  then show "cell m' c = cell m c" using out q(3,4) c by auto
next
  fix b assume b: "b \<in> others m bs'"
  obtain q k where qk: "b = (q, k)" by (cases b)
  then have "p + n \<le> q \<or> q + k \<le> p" using b bs by (auto simp: others_def)
  then show "case b of (q, k) \<Rightarrow> \<forall>c. q \<le> c \<and> c < q + k \<longrightarrow> cell m' c = cell m c" using out qk by auto
qed

lemma performAllocation_ok:
  assumes ly: "layout_ok ly" and mal: "malloc_ok malloc" and ok: "pool_ok ly pl m bs [] used"
  shows "overflow_or (performAllocation malloc ly pl m) (\<lambda>(pl', m'). \<exists>p n. pool_ok ly pl' m' (p # bs) (elements ly p n) used \<and>
    elements ly p n \<noteq> [] \<and> others m' (p # bs) = others m bs \<and> undisturbed ly bs used m m')"
proof -
  note s = layout_static_asserts [OF ly]
  have h: "heap_ok m" using ok by (simp add: pool_ok_def)
  obtain k where k: "calcNumElementsToAlloc pl m = Inr k" "4 \<le> k"
    using count_loop_ok [of 4 m "mListForFree pl" bs] ok header_in_block [OF ly ok]
    by (auto simp: calcNumElementsToAlloc_def MinNumAllocs_def pool_ok_def)
  let ?n = "ALIGNMENT ly + ALIGNED_SIZE ly * k"
  have big: "ALIGNMENT ly + ALIGNED_SIZE ly \<le> ?n" using k(2) by (cases k) auto
  have pos: "0 < ?n" using s(1) by simp
  have el: "elements ly p ?n \<noteq> []" for p using k(2) s(3) by (simp add: elements_def)
  show ?thesis
    unfolding performAllocation_def k(1) Let_def rbind_simps
  proof (rule overflow_or_rbind [OF malloc_block_ok [OF mal h pos]], clarify)
    fix p m1 assume h1: "heap_ok (m\<lparr>blocks := (p, ?n) # blocks m\<rparr>)"
      and apart: "\<forall>(q, k') \<in> set (blocks m). p + ?n \<le> q \<or> q + k' \<le> p"
    let ?m1 = "m\<lparr>blocks := (p, ?n) # blocks m\<rparr>"
    note ok1 = pool_ok_more_blocks [OF ok h1 refl]
    have "(p, ?n) \<in> set (blocks ?m1)" by simp
    then obtain pl' m' where add: "pool_add ly p ?n pl ?m1 = Inr (pl', m')"
        "pool_ok ly pl' m' (p # bs) (elements ly p ?n @ []) used" "blocks m' = blocks ?m1"
        "\<forall>c. c < p \<or> p + ?n \<le> c \<longrightarrow> cell m' c = cell ?m1 c"
      by (rule pool_add_ok [OF ly ok1(1) _ ok1(2) big])
    have "others m' (p # bs) = others m bs" using ok1(3) add(3) by (simp add: others_def)
    moreover have "undisturbed ly bs used m m'"
      by (rule undisturbed_outside [OF ly ok, of _ p ?n]) (use apart add(4) in auto)
    ultimately show "overflow_or (pool_add ly p ?n pl ?m1) (\<lambda>(pl', m'). \<exists>p n. pool_ok ly pl' m' (p # bs) (elements ly p n) used \<and>
        elements ly p n \<noteq> [] \<and> others m' (p # bs) = others m bs \<and> undisturbed ly bs used m m')"
      using add(1,2) el [of p] by auto
  qed
qed

lemma allocate_ok:
  assumes ly: "layout_ok ly" and mal: "malloc_ok malloc" and ok: "pool_ok ly pl m bs fs used"
  shows "overflow_or (allocate malloc ly pl m) (\<lambda>(a, pl', m'). a \<notin> used \<and> (\<exists>bs' fs'. pool_ok ly pl' m' bs' fs' (insert a used) \<and>
    others m' bs' = others m bs \<and> undisturbed ly bs used m m'))"
proof (cases fs)
  case Nil
  then have nil: "mHead pl = 0" "pool_ok ly pl m bs [] used" using ok by (auto simp: pool_ok_def)
  have run: "allocate malloc ly pl m = rbind (performAllocation malloc ly pl m) (\<lambda>(pl1, m1).
      let tmp = mHead pl1 in rbind (read_ptr tmp m1) (\<lambda>next. Inr (tmp, pl1\<lparr>mHead := next\<rparr>, m1)))"
    using nil(1) by (simp add: allocate_def)
  show ?thesis
    unfolding run
  proof (rule overflow_or_rbind [OF performAllocation_ok [OF ly mal nil(2)]], clarify)
    fix pl1 m1 p n assume ok1: "pool_ok ly pl1 m1 (p # bs) (elements ly p n) used" and ne: "elements ly p n \<noteq> []"
      and rest: "others m1 (p # bs) = others m bs" "undisturbed ly bs used m m1"
    obtain a as where a: "elements ly p n = a # as" using ne by (cases "elements ly p n") auto
    note pop = pop_ok [OF ly ok1 [unfolded a]]
    show "overflow_or (let tmp = mHead pl1 in rbind (read_ptr tmp m1) (\<lambda>next. Inr (tmp, pl1\<lparr>mHead := next\<rparr>, m1)))
        (\<lambda>(a, pl', m'). a \<notin> used \<and> (\<exists>bs' fs'. pool_ok ly pl' m' bs' fs' (insert a used) \<and>
          others m' bs' = others m bs \<and> undisturbed ly bs used m m'))"
      using pop rest by (auto simp: Let_def)
  qed
next
  case (Cons a as)
  note pop = pop_ok [OF ly ok [unfolded Cons]]
  have "mHead pl \<noteq> 0" using ok Cons by (auto simp: pool_ok_def)
  then show ?thesis using pop undisturbed_refl by (auto simp: allocate_def Let_def)
qed

section \<open>Adding a block, and giving back all blocks\<close>

text \<open>A block that the owner hands over leaves the other blocks, whether it is kept or freed.\<close>

lemma free_block_ok:
  assumes h: "heap_ok m" and p: "(p, n) \<in> set (blocks m)"
  shows "\<exists>m'. free_block p m = Inr m' \<and> heap_ok m' \<and> cell m' = cell m \<and> set (blocks m') = set (blocks m) - {(p, n)}"
proof -
  have "{b \<in> set (blocks m). fst b \<noteq> p} = set (blocks m) - {(p, n)}"
    using heap_block_iff [OF h p] unfolding set_eq_iff mem_Collect_eq Diff_iff singleton_iff by blast
  moreover have "p \<in> set (map fst (blocks m))" using p by force
  ultimately show ?thesis using heap_ok_filter [OF h] by (simp add: free_block_def)
qed

lemma pool_ok_fewer_blocks:
  assumes ok: "pool_ok ly pl m bs fs used" and h: "heap_ok m'" and p: "p \<notin> set bs"
    and m': "cell m' = cell m" "set (blocks m') = set (blocks m) - {(p, n)}"
  shows "pool_ok ly pl m' bs fs used"
proof -
  have sub: "set bs \<subseteq> fst ` set (blocks m')"
  proof
    fix b assume b: "b \<in> set bs"
    then have "b \<in> fst ` set (blocks m)" using ok by (auto simp: pool_ok_def)
    then obtain k where "(b, k) \<in> set (blocks m)" by auto
    moreover have "b \<noteq> p" using b p by auto
    ultimately have "(b, k) \<in> set (blocks m')" unfolding m'(2) by blast
    then show "b \<in> fst ` set (blocks m')" by (rule image_eqI [rotated]) simp
  qed
  have "{b \<in> set (blocks m'). fst b \<in> set bs} = {b \<in> set (blocks m). fst b \<in> set bs}"
    unfolding m'(2) using p by force
  then have "pool_elements ly m' bs = pool_elements ly m bs" by (simp add: pool_elements_def)
  then show ?thesis using ok h sub m' unfolding pool_ok_def by auto
qed

lemma others_Cons: "heap_ok m \<Longrightarrow> (p, n) \<in> set (blocks m) \<Longrightarrow> others m (p # bs) = others m bs - {(p, n)}"
  using heap_block_iff [of m p n]
  unfolding others_def set_eq_iff mem_Collect_eq Diff_iff singleton_iff list.set insert_iff by blast

lemma addOrFree_ok:
  assumes ly: "layout_ok ly" and ok: "pool_ok ly pl m bs fs used" and p: "(p, n) \<in> others m bs"
  obtains pl' m' bs' fs' where "addOrFree ly p n pl m = Inr (pl', m')" and "pool_ok ly pl' m' bs' fs' used"
    and "others m' bs' = others m bs - {(p, n)}" and "undisturbed ly (p # bs) used m m'"
proof -
  have h: "heap_ok m" using ok by (simp add: pool_ok_def)
  have p': "(p, n) \<in> set (blocks m)" "p \<notin> set bs" using p by (auto simp: others_def)
  show ?thesis
  proof (cases "n < ALIGNMENT ly + ALIGNED_SIZE ly")
    case True
    obtain m' where m': "free_block p m = Inr m'" "heap_ok m'" "cell m' = cell m" "set (blocks m') = set (blocks m) - {(p, n)}"
      using free_block_ok [OF h p'(1)] by blast
    have "others m' bs = others m bs - {(p, n)}" using m'(4) by (auto simp: others_def)
    moreover have "undisturbed ly (p # bs) used m m'" using m'(3) by (simp add: undisturbed_def)
    ultimately show ?thesis
      using that [of pl m' bs fs] m'(1) pool_ok_fewer_blocks [OF ok m'(2) p'(2) m'(3,4)] True by (simp add: addOrFree_def)
  next
    case False
    then have big: "ALIGNMENT ly + ALIGNED_SIZE ly \<le> n" by simp
    obtain pl' m' where add: "pool_add ly p n pl m = Inr (pl', m')" "pool_ok ly pl' m' (p # bs) (elements ly p n @ fs) used"
        "blocks m' = blocks m" "\<forall>c. c < p \<or> p + n \<le> c \<longrightarrow> cell m' c = cell m c"
      by (rule pool_add_ok [OF ly ok p' big])
    have "others m' (p # bs) = others m bs - {(p, n)}"
      using others_Cons [OF h p'(1)] add(3) by (simp add: others_def)
    moreover have "undisturbed ly (p # bs) used m m'"
    proof (rule undisturbed_outside [OF ly ok _ _ add(4)])
      show "\<forall>(q, k) \<in> set (blocks m). q \<notin> set (p # bs) \<or> q \<in> set bs \<longrightarrow> p + n \<le> q \<or> q + k \<le> p"
        using heap_blocks(4) [OF h p'(1)] p'(2) by auto
    qed auto
    ultimately show ?thesis using that [of pl' m' "p # bs" "elements ly p n @ fs"] add(1,2) False by (simp add: addOrFree_def)
  qed
qed

lemma reset_loop_ok:
  assumes "heap_ok m" and "chain (cell m) (mListForFree pl) bs" and "distinct bs" and "set bs \<subseteq> set (map fst (blocks m))"
    and "\<forall>b \<in> set bs. in_block b m"
  shows "\<exists>m'. reset_loop pl m = Inr (pl\<lparr>mListForFree := 0\<rparr>, m') \<and> heap_ok m' \<and> cell m' = cell m \<and>
    set (blocks m') = others m bs"
  using assms
proof (induction bs arbitrary: pl m)
  case Nil
  then show ?case by (subst reset_loop.simps) (auto simp: others_def)
next
  case (Cons b bs)
  then have b: "mListForFree pl = b" "b \<noteq> 0" "chain (cell m) (cell m b) bs" "b \<notin> set bs" "in_block b m" by auto
  obtain n where n: "(b, n) \<in> set (blocks m)" using Cons.prems(4) by auto
  obtain m1 where m1: "free_block b m = Inr m1" "heap_ok m1" "cell m1 = cell m" "set (blocks m1) = set (blocks m) - {(b, n)}"
    using free_block_ok [OF Cons.prems(1) n] by blast
  have other: "(q, k) \<in> set (blocks m1)" if "(q, k) \<in> set (blocks m)" "q \<noteq> b" for q k using that m1(4) by auto
  have sub: "set bs \<subseteq> set (map fst (blocks m1))"
  proof
    fix q assume q: "q \<in> set bs"
    then obtain k where "(q, k) \<in> set (blocks m)" using Cons.prems(4) by auto
    then have "(q, k) \<in> set (blocks m1)" using other q b(4) by blast
    then show "q \<in> set (map fst (blocks m1))" by force
  qed
  have "in_block q m1" if q: "q \<in> set bs" for q
  proof -
    have "in_block q m" using Cons.prems(5) q by simp
    then obtain r k where r: "(r, k) \<in> set (blocks m)" "r \<le> q" "q + 8 \<le> r + k" "q mod 8 = 0"
      by (auto simp: in_block_def list_ex_iff)
    have "q < b \<or> b + n \<le> q"
      using header_outside [OF Cons.prems(1), of q b n] n q b(4) Cons.prems(4) by auto
    then have "r \<noteq> b" using r heap_block_unique [OF Cons.prems(1) n, of k] by auto
    then show ?thesis using other [OF r(1)] r by (intro in_block_I) auto
  qed
  then obtain m' where m': "reset_loop (pl\<lparr>mListForFree := cell m b\<rparr>) m1 = Inr (pl\<lparr>mListForFree := 0\<rparr>, m')"
      "heap_ok m'" "cell m' = cell m1" "set (blocks m') = others m1 bs"
    using Cons.IH [of m1 "pl\<lparr>mListForFree := cell m b\<rparr>"] m1(2,3) b(3) Cons.prems(3) sub by auto
  have "reset_loop pl m = Inr (pl\<lparr>mListForFree := 0\<rparr>, m')"
    using b m1(1) m'(1) by (subst reset_loop.simps) (simp add: read_ptr_def)
  moreover have "others m1 bs = others m (b # bs)"
    using others_Cons [OF Cons.prems(1) n] m1(4) by (auto simp: others_def)
  ultimately show ?case using m' m1(3) by auto
qed

lemma reset_ok:
  assumes ly: "layout_ok ly" and ok: "pool_ok ly pl m bs fs used"
  obtains m' where "reset pl m = Inr (new_pool, m')" and "heap_ok m'" and "cell m' = cell m"
    and "set (blocks m') = others m bs"
proof -
  have p: "heap_ok m" "chain (cell m) (mListForFree pl) bs" "distinct bs" "set bs \<subseteq> set (map fst (blocks m))"
    using ok by (simp_all add: pool_ok_def)
  have "\<forall>b \<in> set bs. in_block b m" using header_in_block [OF ly ok] by blast
  from reset_loop_ok [OF p this] obtain m' where m': "reset_loop pl m = Inr (pl\<lparr>mListForFree := 0\<rparr>, m')"
      "heap_ok m'" "cell m' = cell m" "set (blocks m') = others m bs" by blast
  have "pl\<lparr>mListForFree := 0, mHead := 0\<rparr> = new_pool" by (simp add: new_pool_def)
  then show ?thesis using that m' by (simp add: reset_def)
qed

lemma new_pool_ok: "heap_ok m \<Longrightarrow> pool_ok ly new_pool m [] [] {}"
  by (simp add: pool_ok_def new_pool_def)

section \<open>Ownership\<close>

text \<open>
  The invariant without the lists: the pool has the elements \<open>U\<close> in use, and the blocks \<open>R\<close> of the
  memory are not its own. What no operation writes to: the elements in use, and those blocks.
\<close>

definition owns :: "layout \<Rightarrow> BulkPoolAllocator \<Rightarrow> Memory \<Rightarrow> addr set \<Rightarrow> (addr \<times> nat) set \<Rightarrow> bool" where
  "owns ly pl m U R \<longleftrightarrow> (\<exists>bs fs. pool_ok ly pl m bs fs U \<and> others m bs = R)"

definition untouched :: "layout \<Rightarrow> addr set \<Rightarrow> (addr \<times> nat) set \<Rightarrow> Memory \<Rightarrow> Memory \<Rightarrow> bool" where
  "untouched ly U R m m' \<longleftrightarrow>
     (\<forall>a \<in> U. \<forall>c. a \<le> c \<and> c < a + ALIGNED_SIZE ly \<longrightarrow> cell m' c = cell m c) \<and>
     (\<forall>(q, k) \<in> R. \<forall>c. q \<le> c \<and> c < q + k \<longrightarrow> cell m' c = cell m c)"

lemma undisturbed_untouched: "undisturbed ly bs U m m' \<longleftrightarrow> untouched ly U (others m bs) m m'"
  by (simp add: undisturbed_def untouched_def)

lemma untouched_cell: "cell m' = cell m \<Longrightarrow> untouched ly U R m m'"
  by (simp add: untouched_def)

lemma untouched_then_cell: "untouched ly U R m m1 \<Longrightarrow> cell m2 = cell m1 \<Longrightarrow> untouched ly U R m m2"
  by (simp add: untouched_def)

lemma untouched_trans:
  assumes "untouched ly U R m m1" and "untouched ly U' R' m1 m2" and "V \<subseteq> U \<inter> U'" and "S \<subseteq> R \<inter> R'"
  shows "untouched ly V S m m2"
  unfolding untouched_def
proof (intro conjI ballI allI impI)
  fix a c assume "a \<in> V" "a \<le> c \<and> c < a + ALIGNED_SIZE ly"
  then show "cell m2 c = cell m c" using assms(1-3) unfolding untouched_def by (metis Int_iff subsetD)
next
  fix b assume b: "b \<in> S"
  obtain q k where qk: "b = (q, k)" by (cases b)
  have "(q, k) \<in> R" "(q, k) \<in> R'" using b qk assms(4) by auto
  then show "case b of (q, k) \<Rightarrow> \<forall>c. q \<le> c \<and> c < q + k \<longrightarrow> cell m2 c = cell m c"
    using assms(1,2) qk unfolding untouched_def by fastforce
qed

lemma untouched_mono: "untouched ly U R m m' \<Longrightarrow> V \<subseteq> U \<Longrightarrow> S \<subseteq> R \<Longrightarrow> untouched ly V S m m'"
  unfolding untouched_def by (meson subsetD)

lemma owns_new: "heap_ok m \<Longrightarrow> owns ly new_pool m {} (set (blocks m))"
  using new_pool_ok [of m ly] unfolding owns_def others_def by force

lemma owns_forget: "owns ly pl m U R \<Longrightarrow> V \<subseteq> U \<Longrightarrow> owns ly pl m V R"
  unfolding owns_def pool_ok_def by blast

lemma owns_heap: "owns ly pl m U R \<Longrightarrow> heap_ok m \<and> R \<subseteq> set (blocks m)"
  by (auto simp: owns_def pool_ok_def others_def)

lemma owns_allocate:
  assumes "layout_ok ly" and "malloc_ok malloc" and "owns ly pl m U R"
  shows "overflow_or (allocate malloc ly pl m) (\<lambda>(a, pl', m'). a \<notin> U \<and> owns ly pl' m' (insert a U) R \<and> untouched ly U R m m')"
proof -
  obtain bs fs where ok: "pool_ok ly pl m bs fs U" "others m bs = R" using assms(3) by (auto simp: owns_def)
  show ?thesis
    by (rule overflow_or_mono [OF allocate_ok [OF assms(1,2) ok(1)]])
      (use ok(2) in \<open>auto simp: owns_def undisturbed_untouched\<close>)
qed

lemma owns_deallocate:
  assumes "layout_ok ly" and "owns ly pl m U R" and "a \<in> U"
  shows "\<exists>pl' m'. deallocate a pl m = Inr (pl', m') \<and> owns ly pl' m' (U - {a}) R \<and> untouched ly (U - {a}) R m m'"
proof -
  obtain bs fs where ok: "pool_ok ly pl m bs fs U" "others m bs = R" using assms(2) by (auto simp: owns_def)
  obtain pl' m' where d: "deallocate a pl m = Inr (pl', m')" "pool_ok ly pl' m' bs (a # fs) (U - {a})"
      "blocks m' = blocks m" "undisturbed ly bs (U - {a}) m m'"
    by (rule deallocate_ok [OF assms(1) ok(1) assms(3)])
  have "others m' bs = R" using d(3) ok(2) by (simp add: others_def)
  with d(2) have "owns ly pl' m' (U - {a}) R" unfolding owns_def by blast
  moreover have "untouched ly (U - {a}) R m m'" using d(4) ok(2) by (simp add: undisturbed_untouched)
  ultimately show ?thesis using d(1) by blast
qed

lemma owns_addOrFree:
  assumes "layout_ok ly" and "owns ly pl m U R" and "(p, n) \<in> R"
  shows "\<exists>pl' m'. addOrFree ly p n pl m = Inr (pl', m') \<and> owns ly pl' m' U (R - {(p, n)}) \<and>
    untouched ly U (R - {(p, n)}) m m'"
proof -
  obtain bs fs where ok: "pool_ok ly pl m bs fs U" "others m bs = R" using assms(2) by (auto simp: owns_def)
  have h: "heap_ok m" "(p, n) \<in> set (blocks m)" using assms(2,3) owns_heap [OF assms(2)] by auto
  obtain pl' m' bs' fs' where d: "addOrFree ly p n pl m = Inr (pl', m')" "pool_ok ly pl' m' bs' fs' U"
      "others m' bs' = others m bs - {(p, n)}" "undisturbed ly (p # bs) U m m'"
    by (rule addOrFree_ok [OF assms(1) ok(1)]) (use assms(3) ok(2) in auto)
  have "others m (p # bs) = R - {(p, n)}" using others_Cons [OF h, of bs] ok(2) by simp
  then show ?thesis using d ok(2) unfolding owns_def undisturbed_untouched by metis
qed

lemma owns_reset:
  assumes "layout_ok ly" and "owns ly pl m U R"
  shows "\<exists>m'. reset pl m = Inr (new_pool, m') \<and> heap_ok m' \<and> set (blocks m') = R \<and> cell m' = cell m"
proof -
  obtain bs fs where ok: "pool_ok ly pl m bs fs U" "others m bs = R" using assms(2) by (auto simp: owns_def)
  show ?thesis using ok(2) by (rule_tac reset_ok [OF assms(1) ok(1)]) auto
qed

lemma owns_malloc:
  assumes "malloc_ok malloc" and "owns ly pl m U R" and "0 < n"
  shows "overflow_or (malloc_block malloc n m) (\<lambda>(p, m'). owns ly pl m' U (insert (p, n) R) \<and> (p, n) \<notin> R \<and>
    cell m' = cell m \<and> p \<noteq> 0)"
proof -
  obtain bs fs where ok: "pool_ok ly pl m bs fs U" "others m bs = R" using assms(2) by (auto simp: owns_def)
  have h: "heap_ok m" using owns_heap [OF assms(2)] by simp
  show ?thesis
  proof (rule overflow_or_mono [OF malloc_block_ok [OF assms(1) h assms(3)]], clarify)
    fix p assume h': "heap_ok (m\<lparr>blocks := (p, n) # blocks m\<rparr>)"
      and apart: "\<forall>(q, k) \<in> set (blocks m). p + n \<le> q \<or> q + k \<le> p"
    let ?m = "m\<lparr>blocks := (p, n) # blocks m\<rparr>"
    note more = pool_ok_more_blocks [OF ok(1) h' refl]
    have "others ?m bs = insert (p, n) R" using more(2) ok(2) by (auto simp: others_def)
    moreover have "(p, n) \<notin> R" using apart assms(3) owns_heap [OF assms(2)] by force
    moreover have "p \<noteq> 0" using heap_blocks(1) [OF h', of p n] by simp
    ultimately show "owns ly pl ?m U (insert (p, n) R) \<and> (p, n) \<notin> R \<and> cell ?m = cell m \<and> p \<noteq> 0"
      using more(1) by (auto simp: owns_def)
  qed
qed

lemma owns_free:
  assumes "owns ly pl m U R" and "(p, n) \<in> R"
  shows "\<exists>m'. free_block p m = Inr m' \<and> owns ly pl m' U (R - {(p, n)}) \<and> cell m' = cell m"
proof -
  obtain bs fs where ok: "pool_ok ly pl m bs fs U" "others m bs = R" using assms(1) by (auto simp: owns_def)
  have h: "heap_ok m" "(p, n) \<in> set (blocks m)" "p \<notin> set bs"
    using assms ok(2) owns_heap [OF assms(1)] by (auto simp: others_def)
  obtain m' where m': "free_block p m = Inr m'" "heap_ok m'" "cell m' = cell m" "set (blocks m') = set (blocks m) - {(p, n)}"
    using free_block_ok [OF h(1,2)] by blast
  have "others m' bs = R - {(p, n)}" using m'(4) ok(2) by (auto simp: others_def)
  then show ?thesis using m' pool_ok_fewer_blocks [OF ok(1) m'(2) h(3) m'(3,4)] unfolding owns_def by blast
qed

end
