(* ===== verification/Node_Table_Proofs.thy ===== *)
theory Node_Table_Proofs
  imports Node_Table Node_Pool_Proofs
begin

text \<open>
  The hash table with its memory: every operation does to the slots what the table of \<open>Robin_Hood\<close> does,
  its nodes are elements of its pool in use, and nothing of anybody else's is written to or freed.
\<close>

section \<open>The invariant\<close>

text \<open>The block of the array, if there is one.\<close>

definition array_blocks :: "('k, 'v) NodeTable \<Rightarrow> (addr \<times> nat) set" where
  "array_blocks nt = (if mMask (table nt) = 0 then {}
     else {(array nt, calcNumBytesTotal (calcNumElementsWithBuffer (mMask (table nt) + 1)))})"

lemma array_blocks_pool [simp]: "array_blocks (nt\<lparr>pool := pl\<rparr>) = array_blocks nt"
  by (simp add: array_blocks_def)

text \<open>The pool has the elements \<open>U\<close> in use; of the other blocks one is the array, the rest are \<open>F\<close>.\<close>

definition holds :: "layout \<Rightarrow> ('k, 'v) NodeTable \<Rightarrow> Memory \<Rightarrow> addr set \<Rightarrow> (addr \<times> nat) set \<Rightarrow> bool" where
  "holds ly nt m U F \<longleftrightarrow> owns ly (pool nt) m U (F \<union> array_blocks nt) \<and> array_blocks nt \<inter> F = {}"

definition addresses :: "('k, 'v) NodeTable \<Rightarrow> addr set" where
  "addresses nt = node_address ` set (entries (table nt))"

definition node_inv :: "layout \<Rightarrow> ('k \<Rightarrow> u64) \<Rightarrow> ('k, 'v) NodeTable \<Rightarrow> Memory \<Rightarrow> (addr \<times> nat) set \<Rightarrow> bool" where
  "node_inv ly h nt m F \<longleftrightarrow> table_inv h (table nt) \<and> distinct (map node_address (entries (table nt))) \<and>
     holds ly nt m (addresses nt) F"

lemma holds_same: "pool nt' = pool nt \<Longrightarrow> array nt' = array nt \<Longrightarrow> mMask (table nt') = mMask (table nt) \<Longrightarrow>
    holds ly nt' m U F = holds ly nt m U F"
  by (simp add: holds_def array_blocks_def)

lemma holds_allocate:
  assumes "layout_ok ly" and "malloc_ok malloc" and "holds ly nt m U F"
  shows "overflow_or (allocate malloc ly (pool nt) m) (\<lambda>(a, pl, m'). a \<notin> U \<and>
    holds ly (nt\<lparr>pool := pl\<rparr>) m' (insert a U) F \<and> untouched ly U F m m')"
proof -
  have o: "owns ly (pool nt) m U (F \<union> array_blocks nt)" using assms(3) by (simp add: holds_def)
  show ?thesis
    by (rule overflow_or_mono [OF owns_allocate [OF assms(1,2) o]])
      (use assms(3) in \<open>auto simp: holds_def elim: untouched_mono\<close>)
qed

lemma holds_deallocate:
  assumes "layout_ok ly" and "holds ly nt m U F" and "a \<in> U"
  shows "\<exists>pl m'. deallocate a (pool nt) m = Inr (pl, m') \<and> holds ly (nt\<lparr>pool := pl\<rparr>) m' (U - {a}) F \<and>
    untouched ly (U - {a}) F m m'"
proof -
  have "owns ly (pool nt) m U (F \<union> array_blocks nt)" using assms(2) by (simp add: holds_def)
  from owns_deallocate [OF assms(1) this assms(3)] obtain pl m' where d: "deallocate a (pool nt) m = Inr (pl, m')"
      "owns ly pl m' (U - {a}) (F \<union> array_blocks nt)" "untouched ly (U - {a}) (F \<union> array_blocks nt) m m'"
    by blast
  have "untouched ly (U - {a}) F m m'" using d(3) by (rule untouched_mono) auto
  then show ?thesis using d(1,2) assms(2) by (auto simp: holds_def)
qed

section \<open>Growing\<close>

lemma buffer_more_than_one: "1 < calcNumElementsWithBuffer (x + 1) \<longleftrightarrow> x \<noteq> 0"
  by (cases "x = 0") (auto simp: calcNumElementsWithBuffer_def calcMaxNumElementsAllowed_def)

lemma node_initData_ok:
  assumes mal: "malloc_ok malloc" and n: "8 \<le> n" and o: "owns ly (pool nt) m U R"
  shows "overflow_or (node_initData malloc n nt m) (\<lambda>(nt', m'). table nt' = initData n (table nt) \<and> pool nt' = pool nt \<and>
    owns ly (pool nt') m' U (R \<union> array_blocks nt') \<and> array_blocks nt' \<inter> R = {} \<and> cell m' = cell m)"
  unfolding node_initData_def
proof (rule overflow_or_rbind)
  show "overflow_or (malloc_block malloc (calcNumBytesTotal (calcNumElementsWithBuffer n)) m) (\<lambda>(p, m').
      owns ly (pool nt) m' U (insert (p, calcNumBytesTotal (calcNumElementsWithBuffer n)) R) \<and>
      (p, calcNumBytesTotal (calcNumElementsWithBuffer n)) \<notin> R \<and> cell m' = cell m \<and> p \<noteq> 0)"
    by (rule owns_malloc [OF mal o]) (simp add: calcNumBytesTotal_def calcNumBytesInfo_def)
next
  have mask: "mMask (initData n t) = n - 1" for t :: "('a, addr \<times> 'b) Table" by (simp add: initData_def Let_def)
  fix r assume r: "case r of (p, m') \<Rightarrow>
      owns ly (pool nt) m' U (insert (p, calcNumBytesTotal (calcNumElementsWithBuffer n)) R) \<and>
      (p, calcNumBytesTotal (calcNumElementsWithBuffer n)) \<notin> R \<and> cell m' = cell m \<and> p \<noteq> 0"
  obtain p m' where "r = (p, m')" by (cases r)
  with r n show "overflow_or (case r of (p, m1) \<Rightarrow> Inr (nt\<lparr>table := initData n (table nt), array := p\<rparr>, m1))
      (\<lambda>(nt', m'). table nt' = initData n (table nt) \<and> pool nt' = pool nt \<and>
        owns ly (pool nt') m' U (R \<union> array_blocks nt') \<and> array_blocks nt' \<inter> R = {} \<and> cell m' = cell m)"
    by (simp add: array_blocks_def mask)
qed

text \<open>Rehashing gives the old array away, and nothing else.\<close>

lemma old_array_released:
  assumes ly: "layout_ok ly" and own: "owns ly (pool nt) m U (F \<union> {old} \<union> array_blocks nt)"
    and apart: "array_blocks nt \<inter> (F \<union> {old}) = {}" and new: "old \<notin> F"
  shows "\<exists>m'. free_block (fst old) m = Inr m' \<and> holds ly nt m' U F \<and> untouched ly U F m m'"
    and "\<exists>pl m'. addOrFree ly (fst old) (snd old) (pool nt) m = Inr (pl, m') \<and> holds ly (nt\<lparr>pool := pl\<rparr>) m' U F \<and>
      untouched ly U F m m'"
proof -
  have mem: "(fst old, snd old) \<in> F \<union> {old} \<union> array_blocks nt" by simp
  have rest: "F \<union> {old} \<union> array_blocks nt - {(fst old, snd old)} = F \<union> array_blocks nt"
    using apart new by auto
  have arr: "array_blocks (nt\<lparr>pool := pl\<rparr>) = array_blocks nt" for pl by (simp add: array_blocks_def)
  have disj: "array_blocks nt \<inter> F = {}" using apart by auto
  obtain m' where "free_block (fst old) m = Inr m'" "owns ly (pool nt) m' U (F \<union> array_blocks nt)" "cell m' = cell m"
    using owns_free [OF own mem] rest by auto
  then show "\<exists>m'. free_block (fst old) m = Inr m' \<and> holds ly nt m' U F \<and> untouched ly U F m m'"
    using disj by (auto simp: holds_def intro: untouched_cell)
  obtain pl m' where "addOrFree ly (fst old) (snd old) (pool nt) m = Inr (pl, m')"
      "owns ly pl m' U (F \<union> array_blocks nt)" "untouched ly U (F \<union> array_blocks nt) m m'"
    using owns_addOrFree [OF ly own mem] rest by auto
  then show "\<exists>pl m'. addOrFree ly (fst old) (snd old) (pool nt) m = Inr (pl, m') \<and>
      holds ly (nt\<lparr>pool := pl\<rparr>) m' U F \<and> untouched ly U F m m'"
    using disj by (auto simp: holds_def arr elim: untouched_mono)
qed

lemma node_rehash_ok:
  assumes ly: "layout_ok ly" and mal: "malloc_ok malloc" and n: "8 \<le> n" and ho: "holds ly nt m U F"
    and t: "overflow_or (rehashPowerOfTwo h n (table nt)) (\<lambda>t. P t \<and> mMask t = n - 1)"
  shows "overflow_or (node_rehash malloc ly h n f nt m) (\<lambda>(nt', m').
    rehashPowerOfTwo h n (table nt) = Inr (table nt') \<and> P (table nt') \<and> holds ly nt' m' U F \<and> untouched ly U F m m')"
  unfolding node_rehash_def Let_def
proof (rule overflow_or_rbind)
  let ?old = "array_blocks nt" and ?n = "calcNumBytesTotal (calcNumElementsWithBuffer (mMask (table nt) + 1))"
  show "overflow_or (node_initData malloc n nt m) (\<lambda>(nt', m'). table nt' = initData n (table nt) \<and> pool nt' = pool nt \<and>
      owns ly (pool nt') m' U ((F \<union> ?old) \<union> array_blocks nt') \<and> array_blocks nt' \<inter> (F \<union> ?old) = {} \<and>
      cell m' = cell m)"
    using ho by (intro node_initData_ok [OF mal n]) (simp add: holds_def)
  fix r assume r: "case r of (nt', m') \<Rightarrow> table nt' = initData n (table nt) \<and> pool nt' = pool nt \<and>
      owns ly (pool nt') m' U ((F \<union> ?old) \<union> array_blocks nt') \<and> array_blocks nt' \<inter> (F \<union> ?old) = {} \<and>
      cell m' = cell m"
  obtain nt1 m1 where r': "r = (nt1, m1)" by (cases r)
  have i: "table nt1 = initData n (table nt)" "pool nt1 = pool nt"
      "owns ly (pool nt1) m1 U ((F \<union> ?old) \<union> array_blocks nt1)" "array_blocks nt1 \<inter> (F \<union> ?old) = {}"
      "cell m1 = cell m"
    using r r' by auto
  have mask: "mMask (table nt1) = n - 1" by (simp add: i(1) initData_def Let_def)
  let ?rest = "\<lambda>t. let nt2 = nt1\<lparr>table := t\<rparr> in
      if 1 < calcNumElementsWithBuffer (mMask (table nt) + 1) then
        (if f then rbind (free_block (array nt) m1) (\<lambda>m2. Inr (nt2, m2))
         else rbind (addOrFree ly (array nt) ?n (pool nt2) m1) (\<lambda>(pl, m2). Inr (nt2\<lparr>pool := pl\<rparr>, m2)))
      else Inr (nt2, m1)"
  have "overflow_or (rbind (rehashPowerOfTwo h n (table nt)) ?rest) (\<lambda>(nt', m').
      rehashPowerOfTwo h n (table nt) = Inr (table nt') \<and> P (table nt') \<and> holds ly nt' m' U F \<and> untouched ly U F m m')"
  proof (rule overflow_or_rbind [OF t])
    fix t assume t: "rehashPowerOfTwo h n (table nt) = Inr t" "P t \<and> mMask t = n - 1"
    let ?nt2 = "nt1\<lparr>table := t\<rparr>"
    have arr: "array_blocks ?nt2 = array_blocks nt1" using t(2) mask by (simp add: array_blocks_def)
    have since: "untouched ly U F m m'" if "untouched ly U F m1 m'" for m'
      by (rule untouched_trans [OF untouched_cell [OF i(5)] that, of U U F F]) auto
    show "overflow_or (?rest t) (\<lambda>(nt', m').
        rehashPowerOfTwo h n (table nt) = Inr (table nt') \<and> P (table nt') \<and> holds ly nt' m' U F \<and> untouched ly U F m m')"
    proof (cases "mMask (table nt) = 0")
      case True
      then have "?old = {}" by (simp add: array_blocks_def)
      then have "holds ly ?nt2 m1 U F" using i(2,3,4) arr by (simp add: holds_def)
      moreover have "untouched ly U F m m1" using i(5) by (rule untouched_cell)
      moreover have "?rest t = Inr (?nt2, m1)" using True buffer_more_than_one [of 0] by simp
      ultimately show ?thesis using t by simp
    next
      case False
      then have old: "?old = {(array nt, ?n)}" by (simp add: array_blocks_def)
      have "(array nt, ?n) \<notin> F" using ho old by (auto simp: holds_def)
      then have rel: "\<exists>m'. free_block (array nt) m1 = Inr m' \<and> holds ly ?nt2 m' U F \<and> untouched ly U F m1 m'"
          "\<exists>pl m'. addOrFree ly (array nt) ?n (pool ?nt2) m1 = Inr (pl, m') \<and> holds ly (?nt2\<lparr>pool := pl\<rparr>) m' U F \<and>
            untouched ly U F m1 m'"
        using old_array_released [OF ly, of ?nt2 m1 U F "(array nt, ?n)"] i(2-4) old arr by auto
      have "1 < calcNumElementsWithBuffer (mMask (table nt) + 1)" using False buffer_more_than_one by blast
      then show ?thesis using rel t since by (cases f) auto
    qed
  qed
  then show "overflow_or (case r of (nt1, m1) \<Rightarrow> rbind (rehashPowerOfTwo h n (table nt)) (\<lambda>t.
      if 1 < calcNumElementsWithBuffer (mMask (table nt) + 1) then
        if f then rbind (free_block (array nt) m1) (\<lambda>m2. Inr (nt1\<lparr>table := t\<rparr>, m2))
        else rbind (addOrFree ly (array nt) ?n (pool (nt1\<lparr>table := t\<rparr>)) m1)
          (\<lambda>(pl, m2). Inr (nt1\<lparr>table := t, pool := pl\<rparr>, m2))
      else Inr (nt1\<lparr>table := t\<rparr>, m1))) (\<lambda>(nt', m').
      rehashPowerOfTwo h n (table nt) = Inr (table nt') \<and> P (table nt') \<and> holds ly nt' m' U F \<and> untouched ly U F m m')"
    unfolding r' by (simp add: Let_def)
qed

lemma dummy_mask:
  assumes "is_dummy t"
  shows "mMask t = 0"
proof -
  obtain a where "t = new_table\<lparr>mHashMultiplier := a\<rparr>" using assms by (auto simp: is_dummy_def)
  then show ?thesis by (simp add: new_table_def)
qed

lemma node_increase_size_ok:
  assumes ly: "layout_ok ly" and mal: "malloc_ok malloc" and inv: "table_inv h (table nt)" and ho: "holds ly nt m U F"
  shows "overflow_or (node_increase_size malloc ly h nt m) (\<lambda>(nt', m').
    increase_size h (table nt) = Inr (table nt') \<and> holds ly nt' m' U F \<and> untouched ly U F m m')"
proof (cases "is_dummy (table nt)")
  case True
  then have mask: "mMask (table nt) = 0" by (rule dummy_mask)
  then have none: "array_blocks nt = {}" by (simp add: array_blocks_def)
  have o: "owns ly (pool nt) m U F" using ho none by (simp add: holds_def)
  have eight: "8 \<le> InitialNumElements" by (simp add: InitialNumElements_def)
  have "overflow_or (node_initData malloc InitialNumElements nt m) (\<lambda>(nt', m').
      increase_size h (table nt) = Inr (table nt') \<and> holds ly nt' m' U F \<and> untouched ly U F m m')"
    by (rule overflow_or_mono [OF node_initData_ok [OF mal eight o]])
      (auto simp: increase_size_def mask holds_def intro: untouched_cell)
  then show ?thesis using mask by (simp add: node_increase_size_def Let_def)
next
  case False
  let ?t = "table nt"
  have ok: "array_ok h ?t" using inv False by (simp add: table_inv_def)
  then have mask: "7 \<le> mMask ?t" "mMask ?t \<noteq> 0" and rm: "room_ok ?t" by (simp_all add: array_ok_def shape_ok_def Let_def)
  let ?small = "mNumElements ?t * 2 < calcMaxNumElementsAllowed (mMask ?t + 1)"
  let ?next = "nt\<lparr>table := nextHashMultiplier ?t\<rparr>"
  have r: "(if mNumElements ?t < calcMaxNumElementsAllowed (mMask ?t + 1) then try_increase_info ?t else Inr None)
      = Inr (if mNumElements ?t < calcMaxNumElementsAllowed (mMask ?t + 1) \<and> 2 < mInfoInc ?t then Some (narrowed ?t) else None)"
    by (simp add: try_increase_info_ok [OF ok])
  show ?thesis
  proof (cases "mNumElements ?t < calcMaxNumElementsAllowed (mMask ?t + 1) \<and> 2 < mInfoInc ?t")
    case True
    have "holds ly (nt\<lparr>table := narrowed ?t\<rparr>) m U F" using ho by (simp add: holds_same [of "nt\<lparr>table := narrowed ?t\<rparr>" nt])
    then show ?thesis
      using True mask untouched_cell [OF refl] unfolding node_increase_size_def increase_size_def Let_def r by simp
  next
    case grow: False
    have keys: "mKeyVals (nextHashMultiplier ?t) = mKeyVals ?t" "mInfo (nextHashMultiplier ?t) = mInfo ?t"
        "mMask (nextHashMultiplier ?t) = mMask ?t"
      by (simp_all add: nextHashMultiplier_def)
    have h1: "holds ly ?next m U F" using ho by (simp add: holds_same [of ?next nt] keys)
    have e1: "8 \<le> mMask ?t + 1" "8 \<le> (mMask ?t + 1) * 2" using mask(1) by auto
    have r1: "mNumElements ?t \<le> calcMaxNumElementsAllowed (mMask ?t + 1)"
        "mNumElements ?t \<le> calcMaxNumElementsAllowed ((mMask ?t + 1) * 2)"
      using rm calcMax_double [of "mMask ?t + 1"] by (auto simp: room_ok_def mult.commute)
    have t1: "overflow_or (rehashPowerOfTwo h (mMask ?t + 1) (table ?next)) (\<lambda>t. True \<and> mMask t = mMask ?t + 1 - 1)"
      using rehash_mask_ok [OF ok e1(1) r1(1) keys] by (auto elim!: overflow_or_mono)
    have t2: "overflow_or (rehashPowerOfTwo h ((mMask ?t + 1) * 2) ?t) (\<lambda>t. True \<and> mMask t = (mMask ?t + 1) * 2 - 1)"
      using rehash_mask_ok [OF ok e1(2) r1(2) refl refl refl] by (auto elim!: overflow_or_mono)
    have r0: "(if mNumElements ?t < calcMaxNumElementsAllowed (mMask ?t + 1) then try_increase_info ?t else Inr None)
        = Inr None" unfolding r using grow by simp
    have run: "node_increase_size malloc ly h nt m = (if ?small then node_rehash malloc ly h (mMask ?t + 1) True ?next m
        else node_rehash malloc ly h ((mMask ?t + 1) * 2) False nt m)"
        "increase_size h ?t = (if ?small then rehashPowerOfTwo h (mMask ?t + 1) (nextHashMultiplier ?t)
          else rehashPowerOfTwo h ((mMask ?t + 1) * 2) ?t)"
      using mask unfolding node_increase_size_def increase_size_def Let_def r0 by simp_all
    show ?thesis
      unfolding run
      using node_rehash_ok [OF ly mal e1(1) h1 t1, of True] node_rehash_ok [OF ly mal e1(2) ho t2, of False] by simp
  qed
qed

section \<open>Inserting\<close>

lemma shift_infos_mask: "mMask (shift_infos t e p) = mMask t"
  by (induction t e p rule: shift_infos.induct) (subst shift_infos.simps, simp add: Let_def)

lemma occupy_mask: "occupy i f t = Inr (e, t') \<Longrightarrow> mMask t' = mMask t"
  by (auto simp: occupy_def Let_def shiftUp_def shift_infos_mask split: if_splits)

lemma put_node_mask: "put_node i kv t = Inr t' \<Longrightarrow> mMask t' = mMask t"
  by (auto simp: put_node_def)

text \<open>The steps of the scan are those of the table; they do not fail since the table's do not.\<close>

lemma node_attempts_grow:
  fixes nt :: "('k, 'v) NodeTable"
  assumes ly: "layout_ok ly" and mal: "malloc_ok malloc" and inv: "table_inv h (table nt)" and ho: "holds ly nt m U F"
    and more: "\<And>(nt :: ('k, 'v) NodeTable) m. table_inv h (table nt) \<Longrightarrow> holds ly nt m U F \<Longrightarrow>
      overflow_or (node_attempts n malloc ly h k nt m) (\<lambda>(idx, st, nt', m').
        prepare_attempts n h k (table nt) = Inr (idx, st, table nt') \<and> holds ly nt' m' U F \<and> untouched ly U F m m')"
  shows "overflow_or (rbind (node_increase_size malloc ly h nt m) (\<lambda>(nt1, m1). node_attempts n malloc ly h k nt1 m1))
    (\<lambda>(idx, st, nt', m'). rbind (increase_size h (table nt)) (prepare_attempts n h k) = Inr (idx, st, table nt') \<and>
      holds ly nt' m' U F \<and> untouched ly U F m m')"
    (is "overflow_or _ ?Q")
proof (rule overflow_or_rbind [OF node_increase_size_ok [OF ly mal inv ho]])
  fix r assume r: "case r of (nt', m') \<Rightarrow>
      increase_size h (table nt) = Inr (table nt') \<and> holds ly nt' m' U F \<and> untouched ly U F m m'"
  obtain nt1 m1 where r': "r = (nt1, m1)" by (cases r)
  then have i: "increase_size h (table nt) = Inr (table nt1)" "holds ly nt1 m1 U F" "untouched ly U F m m1"
    using r by auto
  have inv1: "table_inv h (table nt1)" using increase_size_ok [OF inv] i(1) by (simp add: table_inv_def)
  have "overflow_or (node_attempts n malloc ly h k nt1 m1) ?Q"
    by (rule overflow_or_mono [OF more [OF inv1 i(2)]]) (auto simp: i(1) elim: untouched_trans [OF i(3)])
  then show "overflow_or (case r of (nt1, m1) \<Rightarrow> node_attempts n malloc ly h k nt1 m1) ?Q" by (simp add: r')
qed

lemma node_attempts_ok:
  assumes ly: "layout_ok ly" and mal: "malloc_ok malloc"
  shows "table_inv h (table nt) \<Longrightarrow> holds ly nt m U F \<Longrightarrow>
    overflow_or (node_attempts n malloc ly h k nt m) (\<lambda>(idx, st, nt', m').
      prepare_attempts n h k (table nt) = Inr (idx, st, table nt') \<and> holds ly nt' m' U F \<and> untouched ly U F m m')"
proof (induction n arbitrary: nt m)
  case 0
  then show ?case using untouched_cell [OF refl] by simp
next
  case (Suc n)
  let ?t = "table nt" and ?Q = "\<lambda>r. case r of (idx, st, nt', m') \<Rightarrow>
      prepare_attempts (Suc n) h k (table nt) = Inr (idx, st, table nt') \<and> holds ly nt' m' U F \<and> untouched ly U F m m'"
  obtain idx info where key: "keyToIdx h ?t k = (idx, info)" by (cases "keyToIdx h ?t k")
  have total: "overflow_or (prepare_attempts (Suc n) h k ?t) (prepared h ?t k)"
    by (rule prepare_attempts_ok [OF Suc.prems(1)])
  show ?case
  proof (cases "nextWhileLess ?t info idx")
    case (Inl e)
    then show ?thesis using total key by (simp add: overflow_or_def Let_def)
  next
    case scan1: (Inr r1)
    obtain info1 idx1 where r1: "r1 = (info1, idx1)" by (cases r1)
    show ?thesis
    proof (cases "skip_equal ?t k info1 idx1")
      case (Inl e)
      then show ?thesis using total key scan1 r1 by (simp add: overflow_or_def Let_def)
    next
      case skip: (Inr r2)
      obtain found info2 idx2 where r2: "r2 = (found, info2, idx2)" by (cases r2)
      note scan = key scan1 skip r1 r2
      show ?thesis
      proof (cases "\<not> found \<and> mMaxNumElementsAllowed ?t \<le> mNumElements ?t")
        case True
        show ?thesis
          using node_attempts_grow [OF ly mal Suc.prems Suc.IH] True scan by (simp add: Let_def)
      next
        case False
        show ?thesis
        proof (cases found)
          case True
          then show ?thesis using scan Suc.prems(2) untouched_cell [OF refl] by (simp add: Let_def)
        next
          case nf: False
          show ?thesis
          proof (cases "occupy idx2 info2 ?t")
            case (Inl e)
            then show ?thesis using total scan False nf by (simp add: overflow_or_def Let_def)
          next
            case (Inr r3)
            obtain e t1 where r3: "r3 = (e, t1)" by (cases r3)
            have "holds ly (nt\<lparr>table := t1\<rparr>) m U F"
              using Suc.prems(2) occupy_mask Inr r3 by (subst holds_same [of _ nt]) auto
            then show ?thesis using Inr r3 scan False nf untouched_cell [OF refl] by (simp add: Let_def)
          qed
        qed
      qed
    qed
  qed
qed

lemma addresses_mset:
  assumes "mset (entries (table nt')) = mset (entries (table nt))"
  shows "addresses nt' = addresses nt"
    and "distinct (map node_address (entries (table nt'))) = distinct (map node_address (entries (table nt)))"
proof -
  show "addresses nt' = addresses nt" using mset_eq_setD [OF assms] by (simp add: addresses_def)
  have "mset (map node_address (entries (table nt'))) = mset (map node_address (entries (table nt)))"
    using assms by simp
  then show "distinct (map node_address (entries (table nt'))) = distinct (map node_address (entries (table nt)))"
    by (rule mset_eq_imp_distinct_iff)
qed

lemma addresses_add_mset:
  assumes "mset (entries (table nt')) = add_mset (k, a, v) (mset (entries (table nt)))"
  shows "addresses nt' = insert a (addresses nt)"
    and "distinct (map node_address (entries (table nt'))) \<longleftrightarrow>
      a \<notin> addresses nt \<and> distinct (map node_address (entries (table nt)))"
proof -
  have ms: "mset (entries (table nt')) = mset ((k, a, v) # entries (table nt))" using assms by simp
  show "addresses nt' = insert a (addresses nt)" using mset_eq_setD [OF ms] by (simp add: addresses_def)
  have "mset (map node_address (entries (table nt'))) = mset (map node_address ((k, a, v) # entries (table nt)))"
    using arg_cong [OF ms, of "image_mset node_address"] by simp
  from mset_eq_imp_distinct_iff [OF this]
  show "distinct (map node_address (entries (table nt'))) \<longleftrightarrow>
      a \<notin> addresses nt \<and> distinct (map node_address (entries (table nt)))"
    by (auto simp: addresses_def)
qed

text \<open>A node that is placed, one that is given back, and the two ways to insert.\<close>

lemma place_node_ok:
  assumes p: "prepared h t k (i, st, table nt)" and st: "st = new_node \<or> st = overwrite_node"
    and ho: "holds ly nt m (insert a U) F" and a: "a \<notin> U"
    and U: "U = node_address ` set (entries t)" "distinct (map node_address (entries t))"
  shows "\<exists>nt'. place_node i (k, a, v) nt m = Inr (i, True, nt', m) \<and> node_inv ly h nt' m F \<and> key_at (table nt') i k \<and>
    mset (entries (table nt')) = add_mset (k, a, v) (mset (entries t)) \<and> \<not> has_key t k"
proof -
  have n: "\<not> has_key t k" and "\<exists>t''. put_node i (k, a, v) (table nt) = Inr t'' \<and> array_ok h t'' \<and> key_at t'' i k \<and>
      mset (entries t'') = add_mset (k, a, v) (mset (entries t))"
    using p st by auto
  then obtain t'' where t'': "put_node i (k, a, v) (table nt) = Inr t''" "array_ok h t''" "key_at t'' i k"
      "mset (entries t'') = add_mset (k, a, v) (mset (entries t))" by blast
  let ?nt = "nt\<lparr>table := t''\<rparr>" and ?t = "nt\<lparr>table := t\<rparr>"
  have e: "mset (entries (table ?nt)) = add_mset (k, a, v) (mset (entries (table ?t)))" using t''(4) by simp
  have "addresses ?nt = insert a U" "distinct (map node_address (entries t''))"
    using addresses_add_mset [OF e] a U by (simp_all add: addresses_def)
  moreover have "holds ly ?nt m (insert a U) F"
    using ho put_node_mask [OF t''(1)] by (subst holds_same [of _ nt]) auto
  ultimately have "node_inv ly h ?nt m F" using t''(2) by (simp add: node_inv_def table_inv_def)
  then show ?thesis using t'' n by (simp add: place_node_def)
qed

lemma node_emplace_ok:
  assumes ly: "layout_ok ly" and mal: "malloc_ok malloc" and inv: "node_inv ly h nt m F"
  shows "overflow_or (node_emplace malloc ly h k v nt m) (\<lambda>(i, b, nt', m'). node_inv ly h nt' m' F \<and>
    key_at (table nt') i k \<and> b = (\<not> has_key (table nt) k) \<and> untouched ly (addresses nt) F m m' \<and>
    (\<exists>a. a \<notin> addresses nt \<and> mset (entries (table nt')) =
      (if b then add_mset (k, a, v) (mset (entries (table nt))) else mset (entries (table nt)))))"
    (is "overflow_or _ ?Q")
  unfolding node_emplace_def
proof (rule overflow_or_rbind)
  let ?U = "addresses nt"
  have ti: "table_inv h (table nt)" and d: "distinct (map node_address (entries (table nt)))" and ho: "holds ly nt m ?U F"
    using inv by (simp_all add: node_inv_def)
  show "overflow_or (allocate malloc ly (pool nt) m) (\<lambda>(a, pl, m'). a \<notin> ?U \<and>
      holds ly (nt\<lparr>pool := pl\<rparr>) m' (insert a ?U) F \<and> untouched ly ?U F m m')"
    using ly mal ho by (rule holds_allocate)
  fix r assume r: "case r of (a, pl, m') \<Rightarrow> a \<notin> ?U \<and> holds ly (nt\<lparr>pool := pl\<rparr>) m' (insert a ?U) F \<and> untouched ly ?U F m m'"
  obtain a pl m1 where r': "r = (a, pl, m1)" by (cases r)
  have a: "a \<notin> ?U" "holds ly (nt\<lparr>pool := pl\<rparr>) m1 (insert a ?U) F" "untouched ly ?U F m m1" using r r' by auto
  let ?finish = "\<lambda>(idx, st, nt1, m2). case st of
       overflow_error \<Rightarrow> Inl Terminated
     | key_found \<Rightarrow> rbind (deallocate a (pool nt1) m2) (\<lambda>(pl1, m3). Inr (idx, False, nt1\<lparr>pool := pl1\<rparr>, m3))
     | new_node \<Rightarrow> place_node idx (k, a, v) nt1 m2
     | overwrite_node \<Rightarrow> place_node idx (k, a, v) nt1 m2"
  have "overflow_or (rbind (node_attempts 256 malloc ly h k (nt\<lparr>pool := pl\<rparr>) m1) ?finish) ?Q"
  proof (rule overflow_or_rbind [OF node_attempts_ok [OF ly mal _ a(2)]])
    show "table_inv h (table (nt\<lparr>pool := pl\<rparr>))" using ti by simp
    fix s assume s: "case s of (idx, st, nt', m') \<Rightarrow> prepare_attempts 256 h k (table (nt\<lparr>pool := pl\<rparr>)) = Inr (idx, st, table nt') \<and>
        holds ly nt' m' (insert a ?U) F \<and> untouched ly (insert a ?U) F m1 m'"
    obtain i st nt2 m2 where s': "s = (i, st, nt2, m2)" by (cases s)
    have p: "prepare_attempts 256 h k (table nt) = Inr (i, st, table nt2)" "holds ly nt2 m2 (insert a ?U) F"
        "untouched ly (insert a ?U) F m1 m2" using s s' by auto
    have pr: "prepared h (table nt) k (i, st, table nt2)"
      using prepare_attempts_ok [OF ti, of 256 k] p(1) by simp
    have un: "untouched ly ?U F m m2" by (rule untouched_trans [OF a(3) p(3)]) auto
    show "overflow_or (?finish s) ?Q"
    proof (cases "st = new_node \<or> st = overwrite_node")
      case True
      from place_node_ok [OF pr this p(2) a(1) addresses_def d] obtain nt' where
        "place_node i (k, a, v) nt2 m2 = Inr (i, True, nt', m2)" "node_inv ly h nt' m2 F" "key_at (table nt') i k"
        "mset (entries (table nt')) = add_mset (k, a, v) (mset (entries (table nt)))" "\<not> has_key (table nt) k"
        by blast
      then show ?thesis using True s' un a(1) by auto
    next
      case False
      show ?thesis
      proof (cases "st = key_found")
        case True
        then have f: "has_key (table nt) k" "table_inv h (table nt2)" "key_at (table nt2) i k"
            "mset (entries (table nt2)) = mset (entries (table nt))" using pr by auto
        obtain pl' m3 where dl: "deallocate a (pool nt2) m2 = Inr (pl', m3)"
            "holds ly (nt2\<lparr>pool := pl'\<rparr>) m3 (insert a ?U - {a}) F" "untouched ly (insert a ?U - {a}) F m2 m3"
          using holds_deallocate [OF ly p(2), of a] by auto
        have U: "insert a ?U - {a} = ?U" using a(1) by auto
        let ?nt = "nt2\<lparr>pool := pl'\<rparr>"
        have f4: "mset (entries (table ?nt)) = mset (entries (table nt))" using f(4) by simp
        have "node_inv ly h ?nt m3 F"
          using addresses_mset [OF f4] f(2) d dl(2) U by (simp add: node_inv_def)
        moreover have "untouched ly ?U F m m3" by (rule untouched_trans [OF un dl(3)]) (use U in auto)
        ultimately show ?thesis using True f dl(1) s' a(1) by auto
      next
        case other: False
        then have "st = overflow_error" using False by (cases st) auto
        then show ?thesis using s' by simp
      qed
    qed
  qed
  then show "overflow_or (case r of (a, pl, m1) \<Rightarrow> rbind (node_attempts 256 malloc ly h k (nt\<lparr>pool := pl\<rparr>) m1)
      (\<lambda>(idx, st, nt1, m2). case st of overflow_error \<Rightarrow> Inl Terminated
        | key_found \<Rightarrow> rbind (deallocate a (pool nt1) m2) (\<lambda>(pl1, m3). Inr (idx, False, nt1\<lparr>pool := pl1\<rparr>, m3))
        | new_node \<Rightarrow> place_node idx (k, a, v) nt1 m2 | overwrite_node \<Rightarrow> place_node idx (k, a, v) nt1 m2)) ?Q"
    by (simp add: r')
qed

end
