(* ===== verification/Node_Table_Erase.thy ===== *)
theory Node_Table_Erase
  imports Node_Table_Proofs
begin

text \<open>
  Erasing from a table with its memory, inserting by \<open>try_emplace\<close>, and changing the capacity.
\<close>

section \<open>Inserting a node made last\<close>

lemma make_node_ok:
  assumes ly: "layout_ok ly" and mal: "malloc_ok malloc" and p: "prepared h t k (i, st, table nt)"
    and st: "st = new_node \<or> st = overwrite_node" and ho: "holds ly nt m U F"
    and U: "U = node_address ` set (entries t)" "distinct (map node_address (entries t))"
  shows "overflow_or (make_node malloc ly i k v nt m) (\<lambda>(i', b, nt', m'). i' = i \<and> b \<and> node_inv ly h nt' m' F \<and>
    key_at (table nt') i k \<and> \<not> has_key t k \<and> untouched ly U F m m' \<and>
    (\<exists>a. a \<notin> U \<and> mset (entries (table nt')) = add_mset (k, a, v) (mset (entries t))))"
    (is "overflow_or _ ?Q")
  unfolding make_node_def
proof (rule overflow_or_rbind [OF holds_allocate [OF ly mal ho]])
  fix r assume r: "case r of (a, pl, m') \<Rightarrow> a \<notin> U \<and> holds ly (nt\<lparr>pool := pl\<rparr>) m' (insert a U) F \<and> untouched ly U F m m'"
  obtain a pl m1 where r': "r = (a, pl, m1)" by (cases r)
  then have a: "a \<notin> U" "holds ly (nt\<lparr>pool := pl\<rparr>) m1 (insert a U) F" "untouched ly U F m m1" using r by auto
  have "prepared h t k (i, st, table (nt\<lparr>pool := pl\<rparr>))" using p by simp
  from place_node_ok [OF this st a(2,1) U] obtain nt' where
    "place_node i (k, a, v) (nt\<lparr>pool := pl\<rparr>) m1 = Inr (i, True, nt', m1)" "node_inv ly h nt' m1 F"
    "key_at (table nt') i k" "mset (entries (table nt')) = add_mset (k, a, v) (mset (entries t))" "\<not> has_key t k"
    by blast
  then show "overflow_or (case r of (a, pl, m1) \<Rightarrow> place_node i (k, a, v) (nt\<lparr>pool := pl\<rparr>) m1) ?Q"
    using a(1,3) by (auto simp: r')
qed

lemma node_try_emplace_ok:
  assumes ly: "layout_ok ly" and mal: "malloc_ok malloc" and inv: "node_inv ly h nt m F"
  shows "overflow_or (node_try_emplace malloc ly h k v nt m) (\<lambda>(i, b, nt', m'). node_inv ly h nt' m' F \<and>
    key_at (table nt') i k \<and> b = (\<not> has_key (table nt) k) \<and> untouched ly (addresses nt) F m m' \<and>
    (\<exists>a. a \<notin> addresses nt \<and> mset (entries (table nt')) =
      (if b then add_mset (k, a, v) (mset (entries (table nt))) else mset (entries (table nt)))))"
    (is "overflow_or _ ?Q")
  unfolding node_try_emplace_def
proof (rule overflow_or_rbind)
  let ?U = "addresses nt"
  have ti: "table_inv h (table nt)" and d: "distinct (map node_address (entries (table nt)))" and ho: "holds ly nt m ?U F"
    using inv by (simp_all add: node_inv_def)
  show "overflow_or (node_attempts 256 malloc ly h k nt m) (\<lambda>(idx, st, nt', m').
      prepare_attempts 256 h k (table nt) = Inr (idx, st, table nt') \<and> holds ly nt' m' ?U F \<and> untouched ly ?U F m m')"
    by (rule node_attempts_ok [OF ly mal ti ho])
  fix s assume s: "case s of (idx, st, nt', m') \<Rightarrow>
      prepare_attempts 256 h k (table nt) = Inr (idx, st, table nt') \<and> holds ly nt' m' ?U F \<and> untouched ly ?U F m m'"
  obtain i st nt2 m2 where s': "s = (i, st, nt2, m2)" by (cases s)
  have p: "prepare_attempts 256 h k (table nt) = Inr (i, st, table nt2)" "holds ly nt2 m2 ?U F" "untouched ly ?U F m m2"
    using s s' by auto
  have pr: "prepared h (table nt) k (i, st, table nt2)" using prepare_attempts_ok [OF ti, of 256 k] p(1) by simp
  have make: "overflow_or (make_node malloc ly i k v nt2 m2) ?Q" if "st = new_node \<or> st = overwrite_node"
  proof (rule overflow_or_mono [OF make_node_ok [OF ly mal pr that p(2) addresses_def d]])
    fix r assume r: "case r of (i', b, nt', m') \<Rightarrow> i' = i \<and> b \<and> node_inv ly h nt' m' F \<and> key_at (table nt') i k \<and>
        \<not> has_key (table nt) k \<and> untouched ly ?U F m2 m' \<and>
        (\<exists>a. a \<notin> ?U \<and> mset (entries (table nt')) = add_mset (k, a, v) (mset (entries (table nt))))"
    obtain i' b nt' m' where r': "r = (i', b, nt', m')" by (cases r)
    have "untouched ly ?U F m m'" by (rule untouched_trans [OF p(3), of ?U F m']) (use r r' in auto)
    then show "?Q r" using r r' by auto
  qed
  have fresh: "\<exists>a. a \<notin> ?U" using ex_new_if_finite [of ?U] by (simp add: addresses_def)
  have found: "node_inv ly h nt2 m2 F \<and> mset (entries (table nt2)) = mset (entries (table nt))" if "st = key_found"
  proof -
    have f: "table_inv h (table nt2)" "mset (entries (table nt2)) = mset (entries (table nt))" using pr that by auto
    then show ?thesis using addresses_mset [OF f(2)] d p(2) by (simp add: node_inv_def)
  qed
  show "overflow_or (case s of (idx, st, nt1, m1) \<Rightarrow> case st of overflow_error \<Rightarrow> Inl Terminated
      | key_found \<Rightarrow> Inr (idx, False, nt1, m1) | new_node \<Rightarrow> make_node malloc ly idx k v nt1 m1
      | overwrite_node \<Rightarrow> make_node malloc ly idx k v nt1 m1) ?Q"
    using make found fresh pr p(3) by (cases st) (auto simp: s')
qed

section \<open>Erasing\<close>

lemma shift_down_mask: "shift_down_loop idx t = Inr t' \<Longrightarrow> mMask t' = mMask t"
proof (induction idx t arbitrary: t' rule: shift_down_loop.induct)
  case (1 idx t)
  obtain b where b: "info_at t (idx + 1) = Inr b" using "1.prems" by (subst (asm) shift_down_loop.simps) auto
  show ?case
  proof (cases "2 * mInfoInc t \<le> b")
    case True
    then obtain kv where kv: "node_at t (idx + 1) = Inr kv"
        "shift_down_loop (idx + 1) (t\<lparr>mInfo := (mInfo t)[idx := (b - mInfoInc t) mod 256],
          mKeyVals := (mKeyVals t)[idx := Some kv]\<rparr>) = Inr t'"
      using "1.prems" b by (subst (asm) shift_down_loop.simps) auto
    from "1.IH" [OF b True kv] show ?thesis by simp
  next
    case False
    then show ?thesis using "1.prems" b by (subst (asm) shift_down_loop.simps) auto
  qed
qed

lemma erase_at_mask: "erase_at idx t = Inr t' \<Longrightarrow> mMask t' = mMask t"
  by (auto simp: erase_at_def shiftDown_def dest: shift_down_mask)

lemma node_erase_loop_run:
  assumes "erase_loop key info idx (table nt) = Inr (c, t')"
  shows "c = 0 \<and> t' = table nt \<and> node_erase_loop key info idx nt m = Inr (0, nt, m) \<or>
    (\<exists>i kv. c = 1 \<and> node_at (table nt) i = Inr kv \<and> fst kv = key \<and> erase_at i (table nt) = Inr t' \<and>
      node_erase_loop key info idx nt m = rbind (node_erase_at i nt m) (\<lambda>r. Inr (1, r)))"
  using assms
proof (induction key info idx nt m rule: node_erase_loop.induct)
  case (1 key info idx nt m)
  obtain found where found: "slot_matches (table nt) key info idx = Inr found"
    using "1.prems" by (subst (asm) erase_loop.simps) auto
  show ?case
  proof (cases found)
    case True
    then have "erase_at idx (table nt) = Inr t' \<and> c = 1"
      using "1.prems" found by (subst (asm) erase_loop.simps) auto
    moreover have "\<exists>kv. node_at (table nt) idx = Inr kv \<and> fst kv = key"
      using found True by (auto simp: slot_matches_def split: if_splits)
    moreover have "node_erase_loop key info idx nt m = rbind (node_erase_at idx nt m) (\<lambda>r. Inr (1, r))"
      using found True by (subst node_erase_loop.simps) (cases "node_erase_at idx nt m"; simp add: case_prod_beta)
    ultimately show ?thesis by blast
  next
    case False
    then obtain b where b: "info_at (table nt) (idx + 1) = Inr b"
      using "1.prems" found by (subst (asm) erase_loop.simps) auto
    show ?thesis
    proof (cases "info + mInfoInc (table nt) \<le> b")
      case True
      then have run: "erase_loop key (info + mInfoInc (table nt)) (idx + 1) (table nt) = Inr (c, t')"
        using "1.prems" found False b by (subst (asm) erase_loop.simps) auto
      have step: "node_erase_loop key info idx nt m = node_erase_loop key (info + mInfoInc (table nt)) (idx + 1) nt m"
        using found False b True by (subst node_erase_loop.simps) simp
      show ?thesis unfolding step by (rule "1.IH" [OF found False b True run])
    next
      case poor: False
      then have "c = 0 \<and> t' = table nt" using "1.prems" found False b by (subst (asm) erase_loop.simps) auto
      moreover have "node_erase_loop key info idx nt m = Inr (0, nt, m)"
        using found False b poor by (subst node_erase_loop.simps) simp
      ultimately show ?thesis by simp
    qed
  qed
qed

lemma node_erase_at_ok:
  assumes ly: "layout_ok ly" and inv: "node_inv ly h nt m F" and i: "node_at (table nt) i = Inr (k, a, v)"
    and t': "erase_at i (table nt) = Inr t'"
  shows "\<exists>nt' m'. node_erase_at i nt m = Inr (nt', m') \<and> table nt' = t' \<and> node_inv ly h nt' m' F \<and>
    addresses nt' = addresses nt - {a} \<and> untouched ly (addresses nt') F m m'"
proof -
  have v: "i < length (mKeyVals (table nt))" "mKeyVals (table nt) ! i = Some (k, a, v)"
    using i by (auto simp: node_at_def split: if_splits)
  then have ok: "array_ok h (table nt)"
    using inv is_dummy_keys [of "table nt"] by (auto simp: node_inv_def table_inv_def)
  obtain t'' where e: "erase_at i (table nt) = Inr t''" "array_ok h t''"
      "add_mset (k, a, v) (mset (entries t'')) = mset (entries (table nt))"
    using erase_at_ok [OF ok v] by blast
  have t'': "t'' = t'" using e(1) t' by simp
  have mem: "a \<in> addresses nt" using v by (force simp: addresses_def entries_nth)
  have ho: "holds ly nt m (addresses nt) F" and d: "distinct (map node_address (entries (table nt)))"
    using inv by (simp_all add: node_inv_def)
  obtain pl m' where dl: "deallocate a (pool nt) m = Inr (pl, m')"
      "holds ly (nt\<lparr>pool := pl\<rparr>) m' (addresses nt - {a}) F" "untouched ly (addresses nt - {a}) F m m'"
    using holds_deallocate [OF ly ho mem] by blast
  let ?nt = "nt\<lparr>table := t', pool := pl\<rparr>"
  have "mset (entries (table nt)) = add_mset (k, a, v) (mset (entries (table ?nt)))" using e(3) t'' by simp
  from addresses_add_mset [OF this] d have ad: "addresses nt = insert a (addresses ?nt)" "a \<notin> addresses ?nt"
      "distinct (map node_address (entries (table ?nt)))" by auto
  have minus: "addresses ?nt = addresses nt - {a}" using ad by auto
  have "holds ly ?nt m' (addresses ?nt) F"
    using dl(2) erase_at_mask [OF t'] unfolding minus by (subst holds_same [of _ "nt\<lparr>pool := pl\<rparr>"]) auto
  then have "node_inv ly h ?nt m' F" using e(2) t'' ad(3) by (simp add: node_inv_def table_inv_def)
  then show ?thesis using i dl(1,3) t' minus by (auto simp: node_erase_at_def)
qed

lemma node_erase_ok:
  assumes ly: "layout_ok ly" and inv: "node_inv ly h nt m F"
  shows "\<exists>nt' m'. node_erase h k nt m = Inr (if has_key (table nt) k then 1 else 0, nt', m') \<and>
    node_inv ly h nt' m' F \<and> untouched ly (addresses nt') F m m' \<and>
    mset (entries (table nt')) = filter_mset (\<lambda>kv. fst kv \<noteq> k) (mset (entries (table nt)))"
proof -
  define c where "c = (if has_key (table nt) k then 1 else 0 :: nat)"
  have ti: "table_inv h (table nt)" using inv by (simp add: node_inv_def)
  obtain idx info where key: "keyToIdx h (table nt) k = (idx, info)" by (cases "keyToIdx h (table nt) k")
  obtain t' where t': "erase_loop k info idx (table nt) = Inr (c, t')"
      "mset (entries t') = filter_mset (\<lambda>kv. fst kv \<noteq> k) (mset (entries (table nt)))"
    using table_erase_ok [OF ti, of k] key by (auto simp: table_erase_def c_def)
  have run: "node_erase h k nt m = node_erase_loop k info idx nt m" using key by (simp add: node_erase_def)
  show ?thesis
    unfolding c_def [symmetric] run
    using node_erase_loop_run [OF t'(1), of m]
  proof
    assume z: "c = 0 \<and> t' = table nt \<and> node_erase_loop k info idx nt m = Inr (0, nt, m)"
    then show "\<exists>nt' m'. node_erase_loop k info idx nt m = Inr (c, nt', m') \<and> node_inv ly h nt' m' F \<and>
        untouched ly (addresses nt') F m m' \<and>
        mset (entries (table nt')) = filter_mset (\<lambda>kv. fst kv \<noteq> k) (mset (entries (table nt)))"
      using inv t'(2) untouched_cell [OF refl] by auto
  next
    assume "\<exists>i kv. c = 1 \<and> node_at (table nt) i = Inr kv \<and> fst kv = k \<and> erase_at i (table nt) = Inr t' \<and>
      node_erase_loop k info idx nt m = rbind (node_erase_at i nt m) (\<lambda>r. Inr (1, r))"
    then obtain i a v where i: "c = 1" "node_at (table nt) i = Inr (k, a, v)" "erase_at i (table nt) = Inr t'"
        "node_erase_loop k info idx nt m = rbind (node_erase_at i nt m) (\<lambda>r. Inr (1, r))"
      by (metis prod.collapse)
    obtain nt' m' where "node_erase_at i nt m = Inr (nt', m')" "table nt' = t'" "node_inv ly h nt' m' F"
        "untouched ly (addresses nt') F m m'"
      using node_erase_at_ok [OF ly inv i(2,3)] by blast
    then show "\<exists>nt' m'. node_erase_loop k info idx nt m = Inr (c, nt', m') \<and> node_inv ly h nt' m' F \<and>
        untouched ly (addresses nt') F m m' \<and>
        mset (entries (table nt')) = filter_mset (\<lambda>kv. fst kv \<noteq> k) (mset (entries (table nt)))"
      using i(1,4) t'(2) by simp
  qed
qed

end
