(* ===== verification/Node_Table_Whole.thy ===== *)
theory Node_Table_Whole
  imports Node_Table_Erase
begin

text \<open>
  Whole tables with their memory: changing the capacity, clearing, destroying, moving, swapping and copying.
\<close>

section \<open>Capacity\<close>

lemma node_rehash_inv:
  assumes ly: "layout_ok ly" and mal: "malloc_ok malloc" and inv: "node_inv ly h nt m F" and n: "8 \<le> n"
    and room: "mNumElements (table nt) \<le> calcMaxNumElementsAllowed n"
  shows "overflow_or (node_rehash malloc ly h n f nt m) (\<lambda>(nt', m'). node_inv ly h nt' m' F \<and>
    mset (entries (table nt')) = mset (entries (table nt)) \<and> untouched ly (addresses nt) F m m')"
proof -
  have ti: "table_inv h (table nt)" and d: "distinct (map node_address (entries (table nt)))"
    and ho: "holds ly nt m (addresses nt) F"
    using inv by (simp_all add: node_inv_def)
  have "overflow_or (rehashPowerOfTwo h n (table nt))
      (\<lambda>t. (table_inv h t \<and> mset (entries t) = mset (entries (table nt))) \<and> mMask t = n - 1)"
    using rehash_inv [OF ti n room] by (auto elim!: overflow_or_mono)
  from node_rehash_ok [OF ly mal n ho this, of f] show ?thesis
    using d by (auto elim!: overflow_or_mono simp: node_inv_def dest: addresses_mset)
qed

lemma node_reserve_ok:
  assumes ly: "layout_ok ly" and mal: "malloc_ok malloc" and inv: "node_inv ly h nt m F"
  shows "overflow_or (node_reserve malloc ly h c f nt m) (\<lambda>(nt', m'). node_inv ly h nt' m' F \<and>
    mset (entries (table nt')) = mset (entries (table nt)) \<and> untouched ly (addresses nt) F m m')"
    and "overflow_or (node_compact malloc ly h nt m) (\<lambda>(nt', m'). node_inv ly h nt' m' F \<and>
    mset (entries (table nt')) = mset (entries (table nt)) \<and> untouched ly (addresses nt) F m m')"
proof -
  have rehash: "overflow_or (node_rehash malloc ly h n g nt m) (\<lambda>(nt', m'). node_inv ly h nt' m' F \<and>
      mset (entries (table nt')) = mset (entries (table nt)) \<and> untouched ly (addresses nt) F m m')"
    if "8 \<le> n \<and> x \<le> calcMaxNumElementsAllowed n" "mNumElements (table nt) \<le> x" for n g x
    using that by (intro node_rehash_inv [OF ly mal inv]) auto
  show "overflow_or (node_reserve malloc ly h c f nt m) (\<lambda>(nt', m'). node_inv ly h nt' m' F \<and>
    mset (entries (table nt')) = mset (entries (table nt)) \<and> untouched ly (addresses nt) F m m')"
    unfolding node_reserve_def
    by (rule overflow_or_rbind [OF size_for_ok]) (use rehash inv untouched_cell [OF refl] in auto)
  show "overflow_or (node_compact malloc ly h nt m) (\<lambda>(nt', m'). node_inv ly h nt' m' F \<and>
    mset (entries (table nt')) = mset (entries (table nt)) \<and> untouched ly (addresses nt) F m m')"
    unfolding node_compact_def
    by (rule overflow_or_rbind [OF size_for_ok]) (use rehash inv untouched_cell [OF refl] in auto)
qed

section \<open>Clearing and destroying\<close>

text \<open>The loop over the occupied slots meets every node once.\<close>

lemma occupied_nodes_ok:
  assumes "table_inv h (table nt)"
  shows "occupied_nodes nt = Inr (entries (table nt))"
proof (cases "is_dummy (table nt)")
  case True
  then obtain a where t: "table nt = new_table\<lparr>mHashMultiplier := a\<rparr>" by (auto simp: is_dummy_def)
  have "calcNumElementsWithBuffer 1 = 1" by (simp add: calcNumElementsWithBuffer_def calcMaxNumElementsAllowed_def)
  then show ?thesis by (simp add: occupied_nodes_def t new_table_def entries_def)
next
  case False
  then have sh: "shape_ok (table nt)" and sl: "slots_ok h (table nt)"
    using assms by (auto simp: table_inv_def array_ok_def)
  have "calcNumElementsWithBuffer (mMask (table nt) + 1) = length (mKeyVals (table nt))"
    using sh unfolding shape_ok_def Let_def by simp
  then show ?thesis
    unfolding occupied_nodes_def entries_def
    using slot_zero [OF sh sl] length_mInfo [OF sh] by (intro trans [OF old_nodes_somes]) auto
qed

lemma deallocate_all_ok:
  assumes "layout_ok ly"
  shows "holds ly nt m U F \<Longrightarrow> distinct as \<Longrightarrow> set as \<subseteq> U \<Longrightarrow>
    \<exists>pl m'. deallocate_all as (pool nt) m = Inr (pl, m') \<and> holds ly (nt\<lparr>pool := pl\<rparr>) m' (U - set as) F \<and>
      untouched ly (U - set as) F m m'"
proof (induction "as" arbitrary: nt m U)
  case Nil
  then show ?case using untouched_cell [OF refl] by simp
next
  case (Cons a as)
  obtain pl m1 where d: "deallocate a (pool nt) m = Inr (pl, m1)" "holds ly (nt\<lparr>pool := pl\<rparr>) m1 (U - {a}) F"
      "untouched ly (U - {a}) F m m1"
    using holds_deallocate [OF assms Cons.prems(1), of a] Cons.prems(3) by auto
  obtain pl' m' where r: "deallocate_all as pl m1 = Inr (pl', m')"
      "holds ly (nt\<lparr>pool := pl'\<rparr>) m' (U - {a} - set as) F" "untouched ly (U - {a} - set as) F m1 m'"
    using Cons.IH [OF d(2)] Cons.prems(2,3) by auto
  have "untouched ly (U - set (a # as)) F m m'" by (rule untouched_trans [OF d(3) r(3)]) auto
  moreover have "U - {a} - set as = U - set (a # as)" by auto
  ultimately show ?case using d(1) r(1,2) by simp
qed

lemma destroy_nodes_ok:
  assumes ly: "layout_ok ly" and inv: "node_inv ly h nt m F"
  shows "\<exists>pl m'. destroy_nodes nt m = Inr (nt\<lparr>table := (table nt)\<lparr>mNumElements := 0\<rparr>, pool := pl\<rparr>, m') \<and>
    holds ly (nt\<lparr>pool := pl\<rparr>) m' {} F \<and> untouched ly {} F m m'"
proof -
  have ho: "holds ly nt m (addresses nt) F" and d: "distinct (map node_address (entries (table nt)))"
    using inv by (simp_all add: node_inv_def)
  have occ: "occupied_nodes nt = Inr (entries (table nt))"
    using inv by (intro occupied_nodes_ok [of h]) (simp add: node_inv_def)
  obtain pl m' where r: "deallocate_all (map node_address (entries (table nt))) (pool nt) m = Inr (pl, m')"
      "holds ly (nt\<lparr>pool := pl\<rparr>) m' (addresses nt - set (map node_address (entries (table nt)))) F"
      "untouched ly (addresses nt - set (map node_address (entries (table nt)))) F m m'"
    using deallocate_all_ok [OF ly ho d] by (auto simp: addresses_def)
  have none: "addresses nt - set (map node_address (entries (table nt))) = {}" by (simp add: addresses_def)
  have "holds ly (nt\<lparr>pool := pl\<rparr>) m' {} F" "untouched ly {} F m m'" using r(2,3) unfolding none by simp_all
  moreover have "destroy_nodes nt m = Inr (nt\<lparr>table := (table nt)\<lparr>mNumElements := 0\<rparr>, pool := pl\<rparr>, m')"
    using occ r(1) by (simp add: destroy_nodes_def)
  ultimately show ?thesis by blast
qed

lemma table_clear_mask: "mMask (table_clear t) = mMask t"
  by (simp add: table_clear_def Let_def)

lemma node_clear_ok:
  assumes ly: "layout_ok ly" and inv: "node_inv ly h nt m F"
  shows "\<exists>nt' m'. node_clear nt m = Inr (nt', m') \<and> node_inv ly h nt' m' F \<and> entries (table nt') = [] \<and>
    untouched ly {} F m m'"
proof (cases "table_empty (table nt)")
  case True
  have ti: "table_inv h (table nt)" using inv by (simp add: node_inv_def)
  have "entries (table nt) = []" using table_clear_ok(2) [OF ti] True by (simp add: table_clear_def)
  with True inv show ?thesis using untouched_cell [OF refl] by (auto simp: node_clear_def)
next
  case False
  have ti: "table_inv h (table nt)" using inv by (simp add: node_inv_def)
  note c = table_clear_ok [OF ti]
  obtain pl m' where r: "destroy_nodes nt m = Inr (nt\<lparr>table := (table nt)\<lparr>mNumElements := 0\<rparr>, pool := pl\<rparr>, m')"
      "holds ly (nt\<lparr>pool := pl\<rparr>) m' {} F" "untouched ly {} F m m'"
    using destroy_nodes_ok [OF ly inv] by blast
  let ?nt = "nt\<lparr>pool := pl, table := table_clear (table nt)\<rparr>"
  have "holds ly ?nt m' {} F" using r(2) table_clear_mask by (subst holds_same [of _ "nt\<lparr>pool := pl\<rparr>"]) auto
  then have "node_inv ly h ?nt m' F" using c by (simp add: node_inv_def addresses_def)
  then show ?thesis using False r(1,3) c(2) by (simp add: node_clear_def)
qed

text \<open>After \<open>destroy\<close> the array is gone; the memory of the nodes still belongs to the pool.\<close>

lemma node_destroy_ok:
  assumes inv: "node_inv ly h nt m F"
  shows "\<exists>nt' m'. node_destroy nt m = Inr (nt', m') \<and> pool nt' = pool nt \<and> owns ly (pool nt) m' (addresses nt) F \<and>
    mHashMultiplier (table nt') = mHashMultiplier (table nt) \<and> cell m' = cell m"
proof (cases "mMask (table nt) = 0")
  case True
  then have "array_blocks nt = {}" by (simp add: array_blocks_def)
  then show ?thesis using True inv by (simp add: node_destroy_def node_inv_def holds_def)
next
  case False
  let ?b = "(array nt, calcNumBytesTotal (calcNumElementsWithBuffer (mMask (table nt) + 1)))"
  have ab: "array_blocks nt = {?b}" using False by (simp add: array_blocks_def)
  have ho: "owns ly (pool nt) m (addresses nt) (F \<union> {?b})" "?b \<notin> F"
    using inv ab by (auto simp: node_inv_def holds_def)
  obtain m' where m': "free_block (array nt) m = Inr m'" "owns ly (pool nt) m' (addresses nt) (F \<union> {?b} - {?b})"
      "cell m' = cell m"
    using owns_free [OF ho(1)] by blast
  have "F \<union> {?b} - {?b} = F" using ho(2) by auto
  moreover have "occupied_nodes nt = Inr (entries (table nt))"
    using inv by (intro occupied_nodes_ok [of h]) (simp add: node_inv_def)
  ultimately show ?thesis using False m' by (simp add: node_destroy_def)
qed

text \<open>The destructor gives back every block the table had, and no other.\<close>

lemma node_delete_ok:
  assumes ly: "layout_ok ly" and inv: "node_inv ly h nt m F"
  shows "\<exists>m'. node_delete nt m = Inr m' \<and> heap_ok m' \<and> set (blocks m') = F \<and> cell m' = cell m"
proof -
  obtain nt1 m1 where d: "node_destroy nt m = Inr (nt1, m1)" "pool nt1 = pool nt" "owns ly (pool nt) m1 (addresses nt) F"
      "cell m1 = cell m"
    using node_destroy_ok [OF inv] by blast
  obtain m2 where "reset (pool nt) m1 = Inr (new_pool, m2)" "heap_ok m2" "set (blocks m2) = F" "cell m2 = cell m1"
    using owns_reset [OF ly d(3)] by blast
  then show ?thesis using d by (simp add: node_delete_def)
qed

end
