(* ===== verification/Node_Table_Copy.thy ===== *)
theory Node_Table_Copy
  imports Node_Table_Whole
begin

text \<open>
  Copying, moving and swapping whole tables with their memory. Two tables share a memory and own different
  blocks of it; an operation on one leaves the other as it was.
\<close>

section \<open>Another owner in the same memory\<close>

text \<open>A pool depends on its own blocks alone.\<close>

lemma owns_frame:
  assumes ly: "layout_ok ly" and o: "owns ly pl m U R" and h': "heap_ok m'"
    and keep: "set (blocks m) - R \<subseteq> set (blocks m')"
    and same: "\<forall>(p, n) \<in> set (blocks m) - R. \<forall>c. p \<le> c \<and> c < p + n \<longrightarrow> cell m' c = cell m c"
  shows "owns ly pl m' U (set (blocks m') - (set (blocks m) - R))"
proof -
  obtain bs fs where ok: "pool_ok ly pl m bs fs U" and R: "others m bs = R" using o by (auto simp: owns_def)
  have h: "heap_ok m" using ok by (simp add: pool_ok_def)
  let ?W = "{b \<in> set (blocks m). fst b \<in> set bs}"
  have W: "set (blocks m) - R = ?W" using R by (auto simp: others_def)
  have own: "{b \<in> set (blocks m'). fst b \<in> set bs} = ?W"
  proof (intro equalityI subsetI)
    fix b assume b: "b \<in> {b \<in> set (blocks m'). fst b \<in> set bs}"
    have "fst b \<in> fst ` set (blocks m)" using b ok by (auto simp: pool_ok_def)
    then obtain n where n: "(fst b, n) \<in> set (blocks m)" by auto
    then have "(fst b, n) \<in> ?W" using b by simp
    then have "(fst b, n) \<in> set (blocks m')" using keep W by blast
    from heap_block_iff [OF h' this, of b] b have "b = (fst b, n)" by simp
    then show "b \<in> ?W" using n b by (metis (mono_tags, lifting) mem_Collect_eq)
  qed (use keep W in blast)
  have inW: "cell m' c = cell m c" if "(p, n) \<in> ?W" "p \<le> c" "c < p + n" for p n c
    using same that unfolding W by blast
  have hd: "cell m' b = cell m b" if "b \<in> set bs" for b
  proof -
    have "b \<in> fst ` set (blocks m)" using ok that by (auto simp: pool_ok_def)
    then obtain n where n: "(b, n) \<in> set (blocks m)" by auto
    then show ?thesis using inW [of b n b] that heap_blocks(3) [OF h n] by simp
  qed
  have el: "cell m' a = cell m a" if a: "a \<in> pool_elements ly m bs" for a
  proof -
    obtain p n where p: "(p, n) \<in> set (blocks m)" "p \<in> set bs" "p + ALIGNMENT ly \<le> a" "a + ALIGNED_SIZE ly \<le> p + n"
      by (rule pool_element_block [OF ly h a])
    then show ?thesis using inW [of p n a] layout_static_asserts(3) [OF ly] by simp
  qed
  have sub: "set bs \<subseteq> set (map fst (blocks m'))"
  proof
    fix b assume b: "b \<in> set bs"
    then have "b \<in> fst ` set (blocks m)" using ok by (auto simp: pool_ok_def)
    then obtain n where "(b, n) \<in> ?W" using b by auto
    then have "(b, n) \<in> set (blocks m')" using keep W by blast
    then show "b \<in> set (map fst (blocks m'))" by force
  qed
  have pe: "pool_elements ly m' bs = pool_elements ly m bs" unfolding pool_elements_def own ..
  have "chain (cell m') (mListForFree pl) bs" using ok hd chain_cong [of bs "cell m'" "cell m"] by (simp add: pool_ok_def)
  moreover have "chain (cell m') (mHead pl) fs"
  proof -
    have "\<forall>x \<in> set fs. cell m' x = cell m x" using ok el by (auto simp: pool_ok_def)
    from chain_cong [OF this] show ?thesis using ok by (simp add: pool_ok_def)
  qed
  moreover have "ALIGNMENT ly + ALIGNED_SIZE ly \<le> n" if "(p, n) \<in> set (blocks m')" "p \<in> set bs" for p n
  proof -
    have "(p, n) \<in> {b \<in> set (blocks m'). fst b \<in> set bs}" using that by simp
    then have "(p, n) \<in> set (blocks m)" unfolding own by blast
    then show ?thesis using ok that(2) unfolding pool_ok_def by auto
  qed
  ultimately have "pool_ok ly pl m' bs fs U" using ok h' sub pe unfolding pool_ok_def by auto
  moreover have "others m' bs = set (blocks m') - ?W" unfolding own [symmetric] by (auto simp: others_def)
  ultimately show ?thesis unfolding W owns_def by blast
qed

text \<open>The blocks of a table, when the blocks of the others are \<open>F\<close>.\<close>

lemma node_inv_blocks:
  assumes "node_inv ly h nt m F"
  shows "heap_ok m" and "F \<subseteq> set (blocks m)" and "array_blocks nt \<subseteq> set (blocks m) - F"
  using assms owns_heap [of ly "pool nt" m "addresses nt" "F \<union> array_blocks nt"]
  by (auto simp: node_inv_def holds_def)

lemma node_inv_frame:
  assumes ly: "layout_ok ly" and inv: "node_inv ly h nt m F" and h': "heap_ok m'"
    and keep: "set (blocks m) - F \<subseteq> set (blocks m')"
    and same: "\<forall>(p, n) \<in> set (blocks m) - F. \<forall>c. p \<le> c \<and> c < p + n \<longrightarrow> cell m' c = cell m c"
  shows "node_inv ly h nt m' (set (blocks m') - (set (blocks m) - F))"
proof -
  note b = node_inv_blocks [OF inv]
  let ?A = "array_blocks nt" and ?W = "set (blocks m) - F"
  have o: "owns ly (pool nt) m (addresses nt) (F \<union> ?A)" "?A \<inter> F = {}" using inv by (simp_all add: node_inv_def holds_def)
  have sub: "set (blocks m) - (F \<union> ?A) \<subseteq> ?W" by auto
  have "owns ly (pool nt) m' (addresses nt) (set (blocks m') - (set (blocks m) - (F \<union> ?A)))"
    using ly o(1) h' by (rule owns_frame) (use keep same sub in blast)+
  moreover have "set (blocks m') - (set (blocks m) - (F \<union> ?A)) = (set (blocks m') - ?W) \<union> ?A"
    using b(3) keep by auto
  moreover have "?A \<inter> (set (blocks m') - ?W) = {}" using b(3) by auto
  ultimately show ?thesis using inv by (simp add: node_inv_def holds_def)
qed

text \<open>Two tables in one memory, and everything else \<open>G\<close>.\<close>

definition two_tables ::
  "layout \<Rightarrow> ('k \<Rightarrow> u64) \<Rightarrow> ('k, 'v) NodeTable \<Rightarrow> ('k, 'v) NodeTable \<Rightarrow> Memory \<Rightarrow> (addr \<times> nat) set \<Rightarrow> bool" where
  "two_tables ly h nt other m G \<longleftrightarrow> (\<exists>F F'. node_inv ly h nt m F \<and> node_inv ly h other m F' \<and>
     (set (blocks m) - F) \<inter> (set (blocks m) - F') = {} \<and> G = F \<inter> F')"

text \<open>An operation that respects everything outside the first table keeps the second.\<close>

lemma two_tables_step:
  assumes ly: "layout_ok ly" and other: "node_inv ly h other m F'" and apart: "set (blocks m) - F' \<subseteq> F"
    and sub: "F \<subseteq> set (blocks m)" and nt': "node_inv ly h nt' m' F" and un: "untouched ly U F m m'"
  shows "two_tables ly h nt' other m' (F \<inter> F')"
proof -
  let ?W = "set (blocks m) - F'"
  have F: "F \<subseteq> set (blocks m')" "heap_ok m'" using node_inv_blocks [OF nt'] by auto
  have "node_inv ly h other m' (set (blocks m') - ?W)"
  proof (rule node_inv_frame [OF ly other F(2)])
    show "?W \<subseteq> set (blocks m')" using apart F(1) by blast
    show "\<forall>(p, n) \<in> ?W. \<forall>c. p \<le> c \<and> c < p + n \<longrightarrow> cell m' c = cell m c"
      using apart un unfolding untouched_def by blast
  qed
  moreover have "(set (blocks m') - F) \<inter> (set (blocks m') - (set (blocks m') - ?W)) = {}" using apart by auto
  moreover have "F \<inter> F' = F \<inter> (set (blocks m') - ?W)" using F(1) node_inv_blocks(2) [OF other] sub by auto
  ultimately show ?thesis using nt' unfolding two_tables_def by blast
qed

lemma two_tables_sym: "two_tables ly h nt other m G \<Longrightarrow> two_tables ly h other nt m G"
  unfolding two_tables_def by (metis Int_commute)

section \<open>Moving\<close>

lemma empty_table_inv: "table_inv h (new_table\<lparr>mHashMultiplier := a\<rparr>)" "entries (new_table\<lparr>mHashMultiplier := a\<rparr>) = []"
  by (simp_all add: table_inv_def is_dummy_def entries_def new_table_def)

lemma new_table_empty: "entries new_table = []" "mMask new_table = 0"
  by (simp_all add: entries_def new_table_def)

lemma moved_pool: "other\<lparr>mListForFree := 0, mHead := 0\<rparr> = new_pool"
  by (simp add: new_pool_def)

text \<open>What a table that was moved from is: empty, and without a block.\<close>

lemma node_init_inv:
  assumes "heap_ok m"
  shows "node_inv ly h (node_init (nt\<lparr>pool := new_pool\<rparr>)) m (set (blocks m))"
    and "entries (table (node_init nt)) = []"
  using assms empty_table_inv owns_new [OF assms, of ly]
  by (simp_all add: node_init_def node_inv_def addresses_def holds_def array_blocks_def new_table_def [of] entries_def)

lemma node_move_ok:
  assumes inv: "node_inv ly h nt m F" and run: "node_move nt = (nt', old)"
  shows "node_inv ly h nt' m F" and "entries (table nt') = entries (table nt)"
    and "node_inv ly h old m (set (blocks m))" and "entries (table old) = []"
proof -
  have h: "heap_ok m" using node_inv_blocks [OF inv] by simp
  have "node_inv ly h nt' m F \<and> entries (table nt') = entries (table nt) \<and>
      node_inv ly h old m (set (blocks m)) \<and> entries (table old) = []"
  proof (cases "mMask (table nt) = 0")
    case True
    have dummy: "is_dummy (table nt)"
      using inv True by (auto simp: node_inv_def table_inv_def array_ok_def shape_ok_def Let_def)
    then obtain a where t: "table nt = new_table\<lparr>mHashMultiplier := a\<rparr>" by (auto simp: is_dummy_def)
    have e: "entries (table nt) = []" "table_inv h (table nt)" unfolding t by (rule empty_table_inv)+
    have "nt' = \<lparr>table = new_table, pool = pool nt, array = 0\<rparr>" "old = nt\<lparr>pool := new_pool\<rparr>"
      using run True by (simp_all add: node_move_def pool_move_def moved_pool)
    then show ?thesis
      using e inv True owns_new [OF h, of ly]
      by (simp add: node_inv_def addresses_def holds_def array_blocks_def new_table_empty table_inv_new)
  next
    case False
    then have nt': "nt' = \<lparr>table = table nt, pool = pool nt, array = array nt\<rparr>" and old: "old = node_init (nt\<lparr>pool := new_pool\<rparr>)"
      using run by (simp_all add: node_move_def pool_move_def moved_pool)
    have "nt' = nt" using nt' by simp
    then show ?thesis using inv node_init_inv(1) [OF h, of ly h nt] node_init_inv(2) [OF h, of "nt\<lparr>pool := new_pool\<rparr>"] old by simp
  qed
  then show "node_inv ly h nt' m F" "entries (table nt') = entries (table nt)"
      "node_inv ly h old m (set (blocks m))" "entries (table old) = []" by simp_all
qed

text \<open>Assigning by moving gives back what the table had, and takes over what the other one has.\<close>

lemma node_move_assign_ok:
  assumes ly: "layout_ok ly" and two: "two_tables ly h nt other m G"
  shows "\<exists>nt' old m'. node_move_assign nt other m = Inr (nt', old, m') \<and> two_tables ly h nt' old m' G \<and>
    entries (table nt') = entries (table other) \<and> entries (table old) = [] \<and> untouched ly {} G m m'"
proof -
  obtain F F' where nt: "node_inv ly h nt m F" and o: "node_inv ly h other m F'"
    and apart: "(set (blocks m) - F) \<inter> (set (blocks m) - F') = {}" and G: "G = F \<inter> F'"
    using two by (auto simp: two_tables_def)
  have sub: "F \<subseteq> set (blocks m)" "set (blocks m) - F' \<subseteq> F" "F' \<subseteq> set (blocks m)"
    using node_inv_blocks(2) [OF nt] node_inv_blocks(2) [OF o] apart by auto
  show ?thesis
  proof (cases "mMask (table other) = 0")
    case True
    obtain nt' m' where c: "node_clear nt m = Inr (nt', m')" "node_inv ly h nt' m' F" "entries (table nt') = []"
        "untouched ly {} F m m'"
      using node_clear_ok [OF ly nt] by blast
    have "is_dummy (table other)"
      using o True by (auto simp: node_inv_def table_inv_def array_ok_def shape_ok_def Let_def)
    then have e: "entries (table other) = []" using is_dummy_keys [of "table other"] by (simp add: entries_def)
    have "two_tables ly h nt' other m' G" unfolding G by (rule two_tables_step [OF ly o sub(2,1) c(2,4)])
    moreover have "untouched ly {} G m m'" using c(4) by (rule untouched_mono) (auto simp: G)
    ultimately show ?thesis using True c(1,3) e by (simp add: node_move_assign_def)
  next
    case False
    obtain nt1 m1 where d: "node_destroy nt m = Inr (nt1, m1)" "pool nt1 = pool nt" "owns ly (pool nt) m1 (addresses nt) F"
        "cell m1 = cell m"
      using node_destroy_ok [OF nt] by blast
    obtain m2 where r: "reset (pool nt) m1 = Inr (new_pool, m2)" "heap_ok m2" "set (blocks m2) = F" "cell m2 = cell m1"
      using owns_reset [OF ly d(3)] by blast
    let ?nt = "\<lparr>table = table other, pool = pool other, array = array other\<rparr>" and ?old = "node_init (other\<lparr>pool := new_pool\<rparr>)"
    have "new_pool\<lparr>mHead := mHead (pool other), mListForFree := mListForFree (pool other)\<rparr> = pool other"
      by (simp add: new_pool_def)
    then have run: "node_move_assign nt other m = Inr (?nt, ?old, m2)"
      using False d(1,2) r(1) by (simp add: node_move_assign_def pool_move_assign_def moved_pool)
    have "node_inv ly h other m2 (set (blocks m2) - (set (blocks m) - F'))"
      by (rule node_inv_frame [OF ly o r(2)]) (use sub r(3,4) d(4) in auto)
    moreover have "?nt = other" by simp
    ultimately have 1: "node_inv ly h ?nt m2 (F - (set (blocks m) - F'))" unfolding r(3) by metis
    have 2: "node_inv ly h ?old m2 (set (blocks m2))" by (rule node_init_inv(1) [OF r(2)])
    have "G = (F - (set (blocks m) - F')) \<inter> set (blocks m2)" using G r(3) sub by auto
    with 1 2 have "two_tables ly h ?nt ?old m2 G" unfolding two_tables_def by blast
    moreover have "untouched ly {} G m m2" using r(4) d(4) by (intro untouched_cell) simp
    ultimately show ?thesis using run node_init_inv(2) [OF r(2)] by simp
  qed
qed

text \<open>Destroying one of two tables.\<close>

lemma node_delete_other:
  assumes ly: "layout_ok ly" and two: "two_tables ly h nt other m G"
  shows "\<exists>m'. node_delete other m = Inr m' \<and> node_inv ly h nt m' G \<and> cell m' = cell m"
proof -
  obtain F F' where n: "node_inv ly h nt m F" and o: "node_inv ly h other m F'"
    and apart: "(set (blocks m) - F) \<inter> (set (blocks m) - F') = {}" and G: "G = F \<inter> F'"
    using two by (auto simp: two_tables_def)
  obtain m' where m': "node_delete other m = Inr m'" "heap_ok m'" "set (blocks m') = F'" "cell m' = cell m"
    using node_delete_ok [OF ly o] by blast
  have sub: "F \<subseteq> set (blocks m)" "F' \<subseteq> set (blocks m)" using node_inv_blocks(2) [OF n] node_inv_blocks(2) [OF o] .
  have "node_inv ly h nt m' (set (blocks m') - (set (blocks m) - F))"
    by (rule node_inv_frame [OF ly n m'(2)]) (use apart m'(3,4) sub in auto)
  moreover have "set (blocks m') - (set (blocks m) - F) = G" using G m'(3) sub by auto
  ultimately show ?thesis using m' by auto
qed

text \<open>Swapping exchanges the contents; the temporary owns nothing in the end.\<close>

lemma node_swap_ok:
  assumes ly: "layout_ok ly" and two: "two_tables ly h nt other m G"
  shows "\<exists>nt' other' m'. node_swap nt other m = Inr (nt', other', m') \<and> two_tables ly h nt' other' m' G \<and>
    entries (table nt') = entries (table other) \<and> entries (table other') = entries (table nt) \<and> untouched ly {} G m m'"
proof -
  obtain F F' where n: "node_inv ly h nt m F" and o: "node_inv ly h other m F'"
    and apart: "(set (blocks m) - F) \<inter> (set (blocks m) - F') = {}" and G: "G = F \<inter> F'"
    using two by (auto simp: two_tables_def)
  let ?B = "set (blocks m)"
  have F: "F \<subseteq> ?B" "F' \<subseteq> ?B" using node_inv_blocks(2) [OF n] node_inv_blocks(2) [OF o] .
  obtain tmp other1 where mv: "node_move other = (tmp, other1)" by (cases "node_move other")
  note t = node_move_ok [OF o mv]
  have "two_tables ly h other1 nt m F"
    unfolding two_tables_def using t(3) n F by (intro exI [of _ ?B] exI [of _ F]) auto
  then obtain other2 nt1 m1 where a1: "node_move_assign other1 nt m = Inr (other2, nt1, m1)"
      "two_tables ly h other2 nt1 m1 F" "entries (table other2) = entries (table nt)" "entries (table nt1) = []"
      "untouched ly {} F m m1"
    using node_move_assign_ok [OF ly] by blast
  obtain F2 F1 where i2: "node_inv ly h other2 m1 F2" and i1: "node_inv ly h nt1 m1 F1"
    and ap1: "(set (blocks m1) - F2) \<inter> (set (blocks m1) - F1) = {}" and F21: "F = F2 \<inter> F1"
    using a1(2) by (auto simp: two_tables_def)
  let ?B1 = "set (blocks m1)" and ?T = "?B - F'"
  have B1: "F2 \<subseteq> ?B1" "F1 \<subseteq> ?B1" "heap_ok m1" using node_inv_blocks [OF i2] node_inv_blocks [OF i1] by auto
  have T: "?T \<subseteq> F" using apart by auto
  have tmp1: "node_inv ly h tmp m1 (?B1 - ?T)"
  proof (rule node_inv_frame [OF ly t(1) B1(3)])
    show "?T \<subseteq> ?B1" using T F21 B1 by auto
    show "\<forall>(p, n) \<in> ?T. \<forall>c. p \<le> c \<and> c < p + n \<longrightarrow> cell m1 c = cell m c"
      using T a1(5) unfolding untouched_def by blast
  qed
  have "two_tables ly h nt1 tmp m1 (F1 \<inter> (?B1 - ?T))"
    unfolding two_tables_def using i1 tmp1 T F21 by (intro exI [of _ F1] exI [of _ "?B1 - ?T"]) auto
  then obtain nt2 tmp1 m2 where a2: "node_move_assign nt1 tmp m1 = Inr (nt2, tmp1, m2)"
      "two_tables ly h nt2 tmp1 m2 (F1 \<inter> (?B1 - ?T))" "entries (table nt2) = entries (table tmp)"
      "untouched ly {} (F1 \<inter> (?B1 - ?T)) m1 m2"
    using node_move_assign_ok [OF ly] by blast
  let ?G2 = "F1 \<inter> (?B1 - ?T)" and ?W = "?B1 - F2"
  obtain m3 where d: "node_delete tmp1 m2 = Inr m3" "node_inv ly h nt2 m3 ?G2" "cell m3 = cell m2"
    using node_delete_other [OF ly a2(2)] by blast
  have B3: "?G2 \<subseteq> set (blocks m3)" "heap_ok m3" using node_inv_blocks [OF d(2)] by auto
  have W: "?W \<subseteq> ?G2" using ap1 T F21 by auto
  have u2: "untouched ly {} ?G2 m1 m3" using a2(4) d(3) by (rule untouched_then_cell)
  have "node_inv ly h other2 m3 (set (blocks m3) - ?W)"
  proof (rule node_inv_frame [OF ly i2 B3(2)])
    show "?W \<subseteq> set (blocks m3)" using W B3(1) by blast
    show "\<forall>(p, n) \<in> ?W. \<forall>c. p \<le> c \<and> c < p + n \<longrightarrow> cell m3 c = cell m1 c"
      using W u2 unfolding untouched_def by blast
  qed
  moreover have "(set (blocks m3) - ?G2) \<inter> (set (blocks m3) - (set (blocks m3) - ?W)) = {}" using W by auto
  moreover have G2: "G = ?G2 \<inter> (set (blocks m3) - ?W)" using B3(1) G F F21 B1 T by auto
  ultimately have "two_tables ly h nt2 other2 m3 G" using d(2) unfolding two_tables_def by blast
  moreover have "untouched ly {} G m m3" by (rule untouched_trans [OF a1(5) u2]) (use G G2 in auto)
  moreover have "node_swap nt other m = Inr (nt2, other2, m3)"
    using mv a1(1) a2(1) d(1) by (simp add: node_swap_def)
  ultimately show ?thesis using a1(3) a2(3) t(2) by auto
qed

section \<open>Copying\<close>

text \<open>A pair without the address of its node, and what a table contains.\<close>

definition plain :: "'k \<times> addr \<times> 'v \<Rightarrow> 'k \<times> 'v" where
  "plain kv = (fst kv, snd (snd kv))"

lemma fst_plain [simp]: "fst (plain kv) = fst kv"
  by (simp add: plain_def)

definition node_contents :: "('k, 'v) NodeTable \<Rightarrow> ('k \<times> 'v) list" where
  "node_contents nt = map plain (entries (table nt))"

lemma somes_map: "somes (map (map_option f) xs) = map f (somes xs)"
  by (induction xs rule: somes.induct) auto

text \<open>The invariant of a table depends on its keys alone.\<close>

lemma array_ok_keys:
  assumes ok: "array_ok h t" and keys: "map (map_option fst) ns = map (map_option fst) (mKeyVals t)"
  shows "array_ok h (t\<lparr>mKeyVals := ns\<rparr>)"
proof -
  have len: "length ns = length (mKeyVals t)" using arg_cong [OF keys, of length] by simp
  have nth: "map_option fst (ns ! i) = map_option fst (mKeyVals t ! i)" if "i < length (mKeyVals t)" for i
    using arg_cong [OF keys, of "\<lambda>xs. xs ! i"] that len by simp
  have "map fst (somes ns) = map fst (somes (mKeyVals t))"
    unfolding somes_map [symmetric] keys ..
  then have e: "map fst (entries (t\<lparr>mKeyVals := ns\<rparr>)) = map fst (entries t)" by (simp add: entries_def)
  then have "length (entries (t\<lparr>mKeyVals := ns\<rparr>)) = length (entries t)" by (rule map_eq_imp_length_eq)
  moreover have "slots_ok h (t\<lparr>mKeyVals := ns\<rparr>)"
    unfolding slots_ok_def
  proof (intro allI impI)
    fix i assume "i < length (mKeyVals (t\<lparr>mKeyVals := ns\<rparr>))"
    then have i: "i < length (mKeyVals t)" using len by simp
    then have s: "mInfo t ! i \<le> 255" "mKeyVals t ! i = None \<longrightarrow> mInfo t ! i = 0"
        "\<forall>k v. mKeyVals t ! i = Some (k, v) \<longrightarrow> home h t k \<le> i \<and> mInfo t ! i = info_in h t k i"
      using ok by (auto simp: array_ok_def slots_ok_def)
    then show "mInfo (t\<lparr>mKeyVals := ns\<rparr>) ! i \<le> 255 \<and>
        (mKeyVals (t\<lparr>mKeyVals := ns\<rparr>) ! i = None \<longrightarrow> mInfo (t\<lparr>mKeyVals := ns\<rparr>) ! i = 0) \<and>
        (\<forall>k v. mKeyVals (t\<lparr>mKeyVals := ns\<rparr>) ! i = Some (k, v) \<longrightarrow> home h (t\<lparr>mKeyVals := ns\<rparr>) k \<le> i \<and>
          mInfo (t\<lparr>mKeyVals := ns\<rparr>) ! i = info_in h (t\<lparr>mKeyVals := ns\<rparr>) k i)"
      using nth [OF i] by (cases "mKeyVals t ! i") auto
  qed
  moreover have "shape_ok (t\<lparr>mKeyVals := ns\<rparr>)" using ok len by (auto simp: array_ok_def shape_ok_def Let_def)
  ultimately show ?thesis using ok len e by (simp add: array_ok_def room_ok_def)
qed

text \<open>The clones are new elements of the pool, with the same pairs in the same slots.\<close>

definition cloned :: "layout \<Rightarrow> ('k \<times> addr \<times> 'v) option list \<Rightarrow> addr set \<Rightarrow> (addr \<times> nat) set \<Rightarrow> Memory
    \<Rightarrow> ('k \<times> addr \<times> 'v) option list \<times> BulkPoolAllocator \<times> Memory \<Rightarrow> bool" where
  "cloned ly nodes U R m r \<longleftrightarrow> (case r of (ns, pl', m') \<Rightarrow>
     map (map_option plain) ns = map (map_option plain) nodes \<and>
     owns ly pl' m' (U \<union> node_address ` set (somes ns)) R \<and> distinct (map node_address (somes ns)) \<and>
     node_address ` set (somes ns) \<inter> U = {} \<and> untouched ly U R m m')"

lemma clone_slots_ok:
  assumes ly: "layout_ok ly" and mal: "malloc_ok malloc"
  shows "length infos = length nodes \<Longrightarrow> \<forall>i < length nodes. infos ! i = 0 \<longleftrightarrow> nodes ! i = None \<Longrightarrow>
    owns ly pl m U R \<Longrightarrow> overflow_or (clone_slots malloc ly infos nodes pl m) (cloned ly nodes U R m)"
proof (induction infos nodes arbitrary: pl m U rule: list_induct2)
  case Nil
  then show ?case using untouched_cell [OF refl] by (simp add: cloned_def)
next
  case (Cons b infos node nodes)
  have b: "b = 0 \<longleftrightarrow> node = None" using Cons.prems(1) by auto
  have rest: "\<forall>i < length nodes. infos ! i = 0 \<longleftrightarrow> nodes ! i = None" using Cons.prems(1) by auto
  note IH = Cons.IH [OF rest]
  show ?case
  proof (cases node)
    case None
    have "overflow_or (rbind (clone_slots malloc ly infos nodes pl m) (\<lambda>(ns, pl1, m1). Inr (None # ns, pl1, m1)))
        (cloned ly (None # nodes) U R m)"
      by (rule overflow_or_rbind [OF IH [OF Cons.prems(2)]]) (auto simp: cloned_def)
    then show ?thesis using b None by simp
  next
    case (Some kv)
    have "overflow_or (rbind (allocate malloc ly pl m) (\<lambda>(a, pl1, m1).
        rbind (clone_slots malloc ly infos nodes pl1 m1) (\<lambda>(ns, pl2, m2).
        Inr (Some (fst kv, a, snd (snd kv)) # ns, pl2, m2)))) (cloned ly (Some kv # nodes) U R m)"
    proof (rule overflow_or_rbind [OF owns_allocate [OF ly mal Cons.prems(2)]])
      fix r assume r: "case r of (a, pl', m') \<Rightarrow> a \<notin> U \<and> owns ly pl' m' (insert a U) R \<and> untouched ly U R m m'"
      obtain a pl1 m1 where r': "r = (a, pl1, m1)" by (cases r)
      have a: "a \<notin> U" "owns ly pl1 m1 (insert a U) R" "untouched ly U R m m1" using r r' by auto
      have "overflow_or (rbind (clone_slots malloc ly infos nodes pl1 m1) (\<lambda>(ns, pl2, m2).
          Inr (Some (fst kv, a, snd (snd kv)) # ns, pl2, m2))) (cloned ly (Some kv # nodes) U R m)"
      proof (rule overflow_or_rbind [OF IH [OF a(2)]])
        fix s assume s: "cloned ly nodes (insert a U) R m1 s"
        obtain ns pl2 m2 where s': "s = (ns, pl2, m2)" by (cases s)
        have "untouched ly U R m m2" by (rule untouched_trans [OF a(3), of "insert a U" R m2]) (use s s' in \<open>auto simp: cloned_def\<close>)
        then show "overflow_or (case s of (ns, pl2, m2) \<Rightarrow> Inr (Some (fst kv, a, snd (snd kv)) # ns, pl2, m2))
            (cloned ly (Some kv # nodes) U R m)"
          using s s' a(1) by (auto simp: cloned_def plain_def insert_commute)
      qed
      then show "overflow_or (case r of (a, pl1, m1) \<Rightarrow> rbind (clone_slots malloc ly infos nodes pl1 m1) (\<lambda>(ns, pl2, m2).
          Inr (Some (fst kv, a, snd (snd kv)) # ns, pl2, m2))) (cloned ly (Some kv # nodes) U R m)"
        by (simp add: r')
    qed
    then show ?thesis using b Some by simp
  qed
qed

lemma cloneData_ok:
  assumes ly: "layout_ok ly" and mal: "malloc_ok malloc" and s: "array_ok h (table other)"
    and t: "table nt = copy_members (table other) t0" and ho: "holds ly nt m {} F"
  shows "overflow_or (cloneData malloc ly other nt m) (\<lambda>(nt', m'). node_inv ly h nt' m' F \<and>
    node_contents nt' = node_contents other \<and> untouched ly {} F m m')"
proof -
  let ?s = "table other" and ?n = "length (mKeyVals (table other))"
  have sh: "shape_ok ?s" and sl: "slots_ok h ?s" using s by (simp_all add: array_ok_def)
  have n: "calcNumElementsWithBuffer (mMask ?s + 1) = ?n" using sh unfolding shape_ok_def Let_def by simp
  have mask: "mMask (table nt) = mMask ?s" by (simp add: t copy_members_def)
  have len: "length (mInfo ?s) = calcNumBytesInfo ?n" using length_mInfo [OF sh] by (simp add: calcNumBytesInfo_def)
  have run: "cloneData malloc ly other nt m =
      rbind (clone_slots malloc ly (take ?n (mInfo ?s)) (mKeyVals ?s) (pool nt) m) (\<lambda>(ns, pl, m1).
      Inr (nt\<lparr>table := ?s\<lparr>mKeyVals := ns\<rparr>, pool := pl\<rparr>, m1))"
  proof -
    have "(table nt)\<lparr>mInfo := mInfo ?s, mKeyVals := ns\<rparr> = ?s\<lparr>mKeyVals := ns\<rparr>" for ns
      by (simp add: t copy_members_def)
    then show ?thesis using n mask len unfolding cloneData_def Let_def by simp
  qed
  show ?thesis
    unfolding run
  proof (rule overflow_or_rbind)
    have o: "owns ly (pool nt) m {} (F \<union> array_blocks nt)" using ho by (simp add: holds_def)
    show "overflow_or (clone_slots malloc ly (take ?n (mInfo ?s)) (mKeyVals ?s) (pool nt) m)
        (cloned ly (mKeyVals ?s) {} (F \<union> array_blocks nt) m)"
      by (rule clone_slots_ok [OF ly mal _ _ o]) (use slot_zero [OF sh sl] length_mInfo [OF sh] in auto)
    fix r assume r: "cloned ly (mKeyVals ?s) {} (F \<union> array_blocks nt) m r"
    obtain ns pl m' where r': "r = (ns, pl, m')" by (cases r)
    have c: "map (map_option plain) ns = map (map_option plain) (mKeyVals ?s)"
        "owns ly pl m' (node_address ` set (somes ns)) (F \<union> array_blocks nt)" "distinct (map node_address (somes ns))"
        "untouched ly {} (F \<union> array_blocks nt) m m'"
      using r r' by (simp_all add: cloned_def)
    have "map (map_option fst) xs = map (map_option fst) (map (map_option plain) xs)" for xs :: "('a \<times> addr \<times> 'b) option list"
      by (simp add: option.map_comp comp_def)
    then have "map (map_option fst) ns = map (map_option fst) (mKeyVals ?s)" using c(1) by metis
    then have ok: "array_ok h (?s\<lparr>mKeyVals := ns\<rparr>)" by (rule array_ok_keys [OF s])
    let ?nt = "nt\<lparr>table := ?s\<lparr>mKeyVals := ns\<rparr>, pool := pl\<rparr>"
    have "array_blocks ?nt = array_blocks nt" using mask by (simp add: array_blocks_def)
    then have "node_inv ly h ?nt m' F"
      using ok c(2,3) ho by (simp add: node_inv_def table_inv_def holds_def addresses_def entries_def)
    moreover have "node_contents ?nt = node_contents other"
      using c(1) by (simp add: node_contents_def entries_def flip: somes_map)
    moreover have "untouched ly {} F m m'" using c(4) by (rule untouched_mono) auto
    ultimately show "overflow_or (case r of (ns, pl, m1) \<Rightarrow> Inr (nt\<lparr>table := ?s\<lparr>mKeyVals := ns\<rparr>, pool := pl\<rparr>, m1))
        (\<lambda>(nt', m'). node_inv ly h nt' m' F \<and> node_contents nt' = node_contents other \<and> untouched ly {} F m m')"
      by (simp add: r')
  qed
qed

lemma node_contents_empty:
  assumes "node_inv ly h nt m F" and "table_empty (table nt)"
  shows "node_contents nt = []"
proof -
  have "table_inv h (table nt)" using assms(1) by (simp add: node_inv_def)
  then have "entries (table nt) = []" using table_clear_ok(2) assms(2) by (fastforce simp: table_clear_def)
  then show ?thesis by (simp add: node_contents_def)
qed

lemma nonempty_array_ok:
  assumes "node_inv ly h nt m F" and "\<not> table_empty (table nt)"
  shows "array_ok h (table nt)" and "mMask (table nt) \<noteq> 0"
proof -
  show ok: "array_ok h (table nt)" using assms dummy_empty by (auto simp: node_inv_def table_inv_def)
  show "mMask (table nt) \<noteq> 0" using ok by (auto simp: array_ok_def shape_ok_def Let_def)
qed

lemma node_copy_ok:
  assumes ly: "layout_ok ly" and mal: "malloc_ok malloc" and o: "node_inv ly h other m F"
  shows "overflow_or (node_copy malloc ly other m) (\<lambda>(nt, m'). two_tables ly h nt other m' F \<and>
    node_contents nt = node_contents other \<and> untouched ly {} (set (blocks m)) m m')"
proof -
  let ?B = "set (blocks m)" and ?s = "table other"
  have h: "heap_ok m" and sub: "F \<subseteq> ?B" "?B - F \<subseteq> ?B" "?B \<inter> F = F" using node_inv_blocks [OF o] by auto
  note new = owns_new [OF h, of ly]
  show ?thesis
  proof (cases "table_empty ?s")
    case True
    let ?nt = "\<lparr>table = new_table, pool = new_pool, array = 0\<rparr> :: ('a, 'b) NodeTable"
    have n: "node_inv ly h ?nt m ?B"
      using new by (simp add: node_inv_def table_inv_new new_table_empty addresses_def holds_def array_blocks_def)
    have "two_tables ly h ?nt other m (?B \<inter> F)"
      by (rule two_tables_step [OF ly o sub(2) order_refl n untouched_cell [OF refl, of ly "{}" ?B]])
    moreover have "node_contents ?nt = []" by (simp add: node_contents_def new_table_empty)
    ultimately show ?thesis
      using True node_contents_empty [OF o True] untouched_cell [OF refl, of ly "{}" ?B m] sub(3)
      by (simp add: node_copy_def Let_def pool_copy_def)
  next
    case False
    note s = nonempty_array_ok [OF o False]
    let ?n = "calcNumBytesTotal (calcNumElementsWithBuffer (mMask ?s + 1))"
    let ?nt = "\<lambda>p. \<lparr>table = copy_members ?s new_table, pool = new_pool, array = p\<rparr>"
    have run: "node_copy malloc ly other m = rbind (malloc_block malloc ?n m) (\<lambda>(p, m1). cloneData malloc ly other (?nt p) m1)"
      using False by (simp add: node_copy_def Let_def pool_copy_def)
    have pos: "0 < ?n" by (simp add: calcNumBytesTotal_def calcNumBytesInfo_def)
    show ?thesis
      unfolding run
    proof (rule overflow_or_rbind [OF owns_malloc [OF mal new pos]])
      fix r assume r: "case r of (p, m') \<Rightarrow> owns ly new_pool m' {} (insert (p, ?n) ?B) \<and> (p, ?n) \<notin> ?B \<and>
          cell m' = cell m \<and> p \<noteq> 0"
      obtain p m1 where r': "r = (p, m1)" by (cases r)
      have m1: "owns ly new_pool m1 {} (insert (p, ?n) ?B)" "(p, ?n) \<notin> ?B" "cell m1 = cell m" using r r' by auto
      have ho: "holds ly (?nt p) m1 {} ?B"
        using m1(1,2) s(2) by (simp add: holds_def array_blocks_def copy_members_def)
      have "overflow_or (cloneData malloc ly other (?nt p) m1) (\<lambda>(nt, m'). two_tables ly h nt other m' F \<and>
          node_contents nt = node_contents other \<and> untouched ly {} ?B m m')"
      proof (rule overflow_or_mono [OF cloneData_ok [OF ly mal s(1) _ ho]])
        show "table (?nt p) = copy_members ?s new_table" by simp
        fix q assume q: "case q of (nt', m') \<Rightarrow> node_inv ly h nt' m' ?B \<and> node_contents nt' = node_contents other \<and>
            untouched ly {} ?B m1 m'"
        obtain nt' m' where q': "q = (nt', m')" by (cases q)
        have u: "untouched ly {} ?B m m'" by (rule untouched_trans [OF untouched_cell [OF m1(3)]]) (use q q' in auto)
        have "two_tables ly h nt' other m' (?B \<inter> F)"
          by (rule two_tables_step [OF ly o sub(2) order_refl _ u]) (use q q' in auto)
        then show "case q of (nt, m') \<Rightarrow> two_tables ly h nt other m' F \<and> node_contents nt = node_contents other \<and>
            untouched ly {} ?B m m'" using q q' u sub(3) by simp
      qed
      then show "overflow_or (case r of (p, m1) \<Rightarrow> cloneData malloc ly other (?nt p) m1) (\<lambda>(nt, m'). two_tables ly h nt other m' F \<and>
          node_contents nt = node_contents other \<and> untouched ly {} ?B m m')"
        by (simp add: r')
    qed
  qed
qed

text \<open>The array of the assigned table: kept if it has the size of the other's, else replaced.\<close>

lemma realloc_ok:
  assumes mal: "malloc_ok malloc" and ho: "holds ly nt m {} F" and s: "mMask s \<noteq> 0"
  shows "overflow_or (if mMask (table nt) \<noteq> mMask s then
      rbind (if mMask (table nt) \<noteq> 0 then free_block (array nt) m else Inr m) (\<lambda>m2.
      rbind (malloc_block malloc (calcNumBytesTotal (calcNumElementsWithBuffer (mMask s + 1))) m2) (\<lambda>(p, m3).
      Inr (nt\<lparr>array := p\<rparr>, m3)))
    else Inr (nt, m)) (\<lambda>(nt2, m4). table nt2 = table nt \<and> pool nt2 = pool nt \<and>
      holds ly (nt2\<lparr>table := copy_members s (table nt)\<rparr>) m4 {} F \<and> untouched ly {} F m m4)"
proof (cases "mMask (table nt) = mMask s")
  case True
  have "holds ly (nt\<lparr>table := copy_members s (table nt)\<rparr>) m {} F"
    using ho True by (subst holds_same [of _ nt]) (auto simp: copy_members_def)
  then show ?thesis using True untouched_cell [OF refl] by simp
next
  case False
  let ?n = "calcNumBytesTotal (calcNumElementsWithBuffer (mMask s + 1))"
  have "\<exists>m2. (if mMask (table nt) \<noteq> 0 then free_block (array nt) m else Inr m) = Inr m2 \<and>
      owns ly (pool nt) m2 {} F \<and> cell m2 = cell m"
  proof (cases "mMask (table nt) = 0")
    case True
    then show ?thesis using ho by (simp add: holds_def array_blocks_def)
  next
    case nz: False
    let ?b = "(array nt, calcNumBytesTotal (calcNumElementsWithBuffer (mMask (table nt) + 1)))"
    have o: "owns ly (pool nt) m {} (F \<union> {?b})" "?b \<notin> F" using ho nz by (auto simp: holds_def array_blocks_def)
    obtain m2 where "free_block (array nt) m = Inr m2" "owns ly (pool nt) m2 {} (F \<union> {?b} - {?b})" "cell m2 = cell m"
      using owns_free [OF o(1)] by blast
    moreover have "F \<union> {?b} - {?b} = F" using o(2) by auto
    ultimately show ?thesis using nz by simp
  qed
  then obtain m2 where m2: "(if mMask (table nt) \<noteq> 0 then free_block (array nt) m else Inr m) = Inr m2"
      "owns ly (pool nt) m2 {} F" "cell m2 = cell m" by blast
  have pos: "0 < ?n" by (simp add: calcNumBytesTotal_def calcNumBytesInfo_def)
  have "overflow_or (rbind (malloc_block malloc ?n m2) (\<lambda>(p, m3). Inr (nt\<lparr>array := p\<rparr>, m3)))
      (\<lambda>(nt2, m4). table nt2 = table nt \<and> pool nt2 = pool nt \<and>
        holds ly (nt2\<lparr>table := copy_members s (table nt)\<rparr>) m4 {} F \<and> untouched ly {} F m m4)"
  proof (rule overflow_or_rbind [OF owns_malloc [OF mal m2(2) pos]])
    fix r assume r: "case r of (p, m') \<Rightarrow> owns ly (pool nt) m' {} (insert (p, ?n) F) \<and> (p, ?n) \<notin> F \<and>
        cell m' = cell m2 \<and> p \<noteq> 0"
    obtain p m3 where r': "r = (p, m3)" by (cases r)
    have "holds ly ((nt\<lparr>array := p\<rparr>)\<lparr>table := copy_members s (table nt)\<rparr>) m3 {} F"
      using r r' s by (simp add: holds_def array_blocks_def copy_members_def)
    moreover have "untouched ly {} F m m3" using r r' m2(3) by (intro untouched_cell) simp
    ultimately show "overflow_or (case r of (p, m3) \<Rightarrow> Inr (nt\<lparr>array := p\<rparr>, m3))
        (\<lambda>(nt2, m4). table nt2 = table nt \<and> pool nt2 = pool nt \<and>
          holds ly (nt2\<lparr>table := copy_members s (table nt)\<rparr>) m4 {} F \<and> untouched ly {} F m m4)"
      by (simp add: r')
  qed
  then show ?thesis using False m2(1) by simp
qed

lemma copy_assign_empty:
  assumes n: "node_inv ly h nt m F" and empty: "table_empty (table other)"
  shows "\<exists>nt' m'. node_copy_assign malloc ly nt other m = Inr (nt', m') \<and> node_inv ly h nt' m' F \<and>
    node_contents nt' = [] \<and> cell m' = cell m"
proof (cases "mMask (table nt) = 0")
  case True
  have "is_dummy (table nt)"
    using n True by (auto simp: node_inv_def table_inv_def array_ok_def shape_ok_def Let_def)
  then have "node_contents nt = []" using node_contents_empty [OF n] dummy_empty by blast
  then show ?thesis using n empty True by (simp add: node_copy_assign_def)
next
  case False
  obtain nt1 m1 where d: "node_destroy nt m = Inr (nt1, m1)" "pool nt1 = pool nt" "owns ly (pool nt) m1 (addresses nt) F"
      "cell m1 = cell m"
    using node_destroy_ok [OF n] by blast
  let ?nt = "(node_init nt1)\<lparr>pool := pool nt1\<rparr>"
  have t: "table ?nt = new_table\<lparr>mHashMultiplier := mHashMultiplier (table nt1)\<rparr>" by (simp add: node_init_def)
  have "owns ly (pool nt) m1 {} F" using d(3) by (rule owns_forget) simp
  then have "node_inv ly h ?nt m1 F"
    using d(2) t
    by (simp add: empty_table_inv node_inv_def addresses_def holds_def array_blocks_def new_table_empty)
  moreover have "node_contents ?nt = []" unfolding node_contents_def t by (simp add: empty_table_inv)
  ultimately show ?thesis using empty False d(1,4) by (simp add: node_copy_assign_def pool_copy_assign_def)
qed

lemma copy_assign_nonempty:
  assumes ly: "layout_ok ly" and mal: "malloc_ok malloc" and n: "node_inv ly h nt m F"
    and o: "node_inv ly h other m F'" and full: "\<not> table_empty (table other)"
  shows "overflow_or (node_copy_assign malloc ly nt other m) (\<lambda>(nt', m'). node_inv ly h nt' m' F \<and>
    node_contents nt' = node_contents other \<and> untouched ly {} F m m')"
    (is "overflow_or _ ?Q")
proof -
  note s = nonempty_array_ok [OF o full]
  obtain pl m1 where d: "destroy_nodes nt m = Inr (nt\<lparr>table := (table nt)\<lparr>mNumElements := 0\<rparr>, pool := pl\<rparr>, m1)"
      "holds ly (nt\<lparr>pool := pl\<rparr>) m1 {} F" "untouched ly {} F m m1"
    using destroy_nodes_ok [OF ly n] by blast
  let ?nt1 = "nt\<lparr>table := (table nt)\<lparr>mNumElements := 0\<rparr>, pool := pl\<rparr>"
  have ho: "holds ly ?nt1 m1 {} F" using d(2) by (subst holds_same [of _ "nt\<lparr>pool := pl\<rparr>"]) auto
  let ?s = "table other"
  let ?re = "if mMask (table ?nt1) \<noteq> mMask ?s then
      rbind (if mMask (table ?nt1) \<noteq> 0 then free_block (array ?nt1) m1 else Inr m1) (\<lambda>m2.
      rbind (malloc_block malloc (calcNumBytesTotal (calcNumElementsWithBuffer (mMask ?s + 1))) m2) (\<lambda>(p, m3).
      Inr (?nt1\<lparr>array := p\<rparr>, m3)))
    else Inr (?nt1, m1)"
  have same: "nt2\<lparr>table := t, pool := pool nt2\<rparr> = nt2\<lparr>table := t\<rparr>" for nt2 :: "('a, 'b) NodeTable" and t
    by (cases nt2) simp
  have run: "node_copy_assign malloc ly nt other m = rbind ?re (\<lambda>(nt2, m4).
      cloneData malloc ly other (nt2\<lparr>table := copy_members ?s (table nt2)\<rparr>) m4)"
    using full d(1) unfolding node_copy_assign_def pool_copy_assign_def same by simp
  show ?thesis
    unfolding run
  proof (rule overflow_or_rbind [OF realloc_ok [OF mal ho s(2)]])
    fix r assume r: "case r of (nt2, m4) \<Rightarrow> table nt2 = table ?nt1 \<and> pool nt2 = pool ?nt1 \<and>
        holds ly (nt2\<lparr>table := copy_members ?s (table ?nt1)\<rparr>) m4 {} F \<and> untouched ly {} F m1 m4"
    obtain nt2 m4 where r': "r = (nt2, m4)" by (cases r)
    let ?nt3 = "nt2\<lparr>table := copy_members ?s (table nt2)\<rparr>"
    have ho3: "holds ly ?nt3 m4 {} F" and t3: "table ?nt3 = copy_members ?s (table nt2)" and u: "untouched ly {} F m1 m4"
      using r r' by auto
    have "overflow_or (cloneData malloc ly other ?nt3 m4) ?Q"
    proof (rule overflow_or_mono [OF cloneData_ok [OF ly mal s(1) t3 ho3]])
      fix q assume q: "case q of (nt', m') \<Rightarrow> node_inv ly h nt' m' F \<and> node_contents nt' = node_contents other \<and>
          untouched ly {} F m4 m'"
      obtain nt' m' where q': "q = (nt', m')" by (cases q)
      have u1: "untouched ly {} F m m4" by (rule untouched_trans [OF d(3) u]) auto
      have u2: "untouched ly {} F m m'" by (rule untouched_trans [OF u1]) (use q q' in auto)
      show "?Q q" using q q' u2 by auto
    qed
    then show "overflow_or (case r of (nt2, m4) \<Rightarrow> cloneData malloc ly other (nt2\<lparr>table := copy_members ?s (table nt2)\<rparr>) m4) ?Q"
      by (simp add: r')
  qed
qed

lemma node_copy_assign_ok:
  assumes ly: "layout_ok ly" and mal: "malloc_ok malloc" and two: "two_tables ly h nt other m G"
  shows "overflow_or (node_copy_assign malloc ly nt other m) (\<lambda>(nt', m'). two_tables ly h nt' other m' G \<and>
    node_contents nt' = node_contents other \<and> untouched ly {} G m m')"
    (is "overflow_or _ ?Q")
proof -
  obtain F F' where n: "node_inv ly h nt m F" and o: "node_inv ly h other m F'"
    and apart: "(set (blocks m) - F) \<inter> (set (blocks m) - F') = {}" and G: "G = F \<inter> F'"
    using two by (auto simp: two_tables_def)
  have sub: "F \<subseteq> set (blocks m)" "set (blocks m) - F' \<subseteq> F"
    using node_inv_blocks(2) [OF n] apart by auto
  have finish: "?Q (nt', m')"
    if "node_inv ly h nt' m' F" "node_contents nt' = node_contents other" "untouched ly {} F m m'" for nt' m'
    using two_tables_step [OF ly o sub(2,1) that(1,3)] that(2,3) G by (auto elim: untouched_mono)
  show ?thesis
  proof (cases "table_empty (table other)")
    case True
    obtain nt' m' where r: "node_copy_assign malloc ly nt other m = Inr (nt', m')" "node_inv ly h nt' m' F"
        "node_contents nt' = []" "cell m' = cell m"
      using copy_assign_empty [OF n True] by blast
    have "?Q (nt', m')"
      using finish [OF r(2) _ untouched_cell [OF r(4)]] r(3) node_contents_empty [OF o True] by simp
    then show ?thesis using r(1) by simp
  next
    case False
    show ?thesis
      by (rule overflow_or_mono [OF copy_assign_nonempty [OF ly mal n o False]]) (use finish in auto)
  qed
qed

end
