(* ===== verification/Node_Run.thy ===== *)
theory Node_Run
  imports Node_Table_Copy
begin

text \<open>
  The contract of a node allocator and its clients, and sequences of operations on a hash table with its
  memory, against the association lists that the book is modelled with.
\<close>

section \<open>The contract of an allocator\<close>

text \<open>
  A client takes nodes and gives back nodes it holds, each of them by its place in the list of those it holds.
\<close>

fun client :: "('p \<Rightarrow> (addr \<times> 'p) res) \<Rightarrow> (addr \<Rightarrow> 'p \<Rightarrow> 'p res) \<Rightarrow> nat option list \<Rightarrow> addr list \<Rightarrow> 'p
    \<Rightarrow> (addr list \<times> 'p) res" where
  "client take_node give_node [] held p = Inr (held, p)"
| "client take_node give_node (None # rs) held p =
     rbind (take_node p) (\<lambda>(a, p'). client take_node give_node rs (held @ [a]) p')"
| "client take_node give_node (Some i # rs) held p =
     rbind (give_node (held ! i) p) (\<lambda>p'. client take_node give_node rs (take i held @ drop (Suc i) held) p')"

fun disciplined :: "nat option list \<Rightarrow> nat \<Rightarrow> bool" where
  "disciplined [] n = True"
| "disciplined (None # rs) n = disciplined rs (Suc n)"
| "disciplined (Some i # rs) n = (i < n \<and> disciplined rs (n - 1))"

lemma distinct_without:
  assumes "distinct xs" and "i < length xs"
  shows "distinct (take i xs @ drop (Suc i) xs)" and "set (take i xs @ drop (Suc i) xs) = set xs - {xs ! i}"
proof -
  have xs: "xs = take i xs @ xs ! i # drop (Suc i) xs" using assms(2) by (rule id_take_nth_drop)
  have "distinct (take i xs @ xs ! i # drop (Suc i) xs)" using assms(1) xs by simp
  moreover have "set xs = set (take i xs @ xs ! i # drop (Suc i) xs)" using xs by simp
  ultimately show "distinct (take i xs @ drop (Suc i) xs)" "set (take i xs @ drop (Suc i) xs) = set xs - {xs ! i}"
    by auto
qed

text \<open>
  What a client may rely on: an allocation gives an element that is not in use, and giving back an element
  in use always works. \<open>apart\<close> is what the elements in use have in common.
\<close>

locale node_allocator =
  fixes take_node :: "'p \<Rightarrow> (addr \<times> 'p) res" and give_node :: "addr \<Rightarrow> 'p \<Rightarrow> 'p res"
    and in_use :: "'p \<Rightarrow> addr set \<Rightarrow> bool" and apart :: "addr set \<Rightarrow> bool"
  assumes take_node: "in_use p U \<Longrightarrow> overflow_or (take_node p) (\<lambda>(a, p'). a \<notin> U \<and> in_use p' (insert a U))"
    and give_node: "in_use p U \<Longrightarrow> a \<in> U \<Longrightarrow> \<exists>p'. give_node a p = Inr p' \<and> in_use p' (U - {a})"
    and in_use_apart: "in_use p U \<Longrightarrow> apart U"
begin

lemma client_ok:
  "in_use p (set held) \<Longrightarrow> distinct held \<Longrightarrow> disciplined rs (length held) \<Longrightarrow>
    overflow_or (client take_node give_node rs held p) (\<lambda>(held', p'). in_use p' (set held') \<and> distinct held')"
proof (induction rs arbitrary: held p)
  case (Cons r rs)
  show ?case
  proof (cases r)
    case None
    have "overflow_or (rbind (take_node p) (\<lambda>(a, p'). client take_node give_node rs (held @ [a]) p'))
        (\<lambda>(held', p'). in_use p' (set held') \<and> distinct held')"
    proof (rule overflow_or_rbind [OF take_node [OF Cons.prems(1)]])
      fix q assume q: "case q of (a, p') \<Rightarrow> a \<notin> set held \<and> in_use p' (insert a (set held))"
      obtain a p' where q': "q = (a, p')" by (cases q)
      have "in_use p' (set (held @ [a]))" "distinct (held @ [a])" "disciplined rs (length (held @ [a]))"
        using q q' Cons.prems(2,3) None by auto
      from Cons.IH [OF this]
      show "overflow_or (case q of (a, p') \<Rightarrow> client take_node give_node rs (held @ [a]) p')
          (\<lambda>(held', p'). in_use p' (set held') \<and> distinct held')"
        by (simp add: q')
    qed
    then show ?thesis using None by simp
  next
    case (Some i)
    have i: "i < length held" using Cons.prems(3) Some by simp
    obtain p' where p': "give_node (held ! i) p = Inr p'" "in_use p' (set held - {held ! i})"
      using give_node [OF Cons.prems(1), of "held ! i"] i by auto
    note d = distinct_without [OF Cons.prems(2) i]
    have "length (take i held @ drop (Suc i) held) = length held - 1" using i by simp
    then show ?thesis using Cons.IH [of p' "take i held @ drop (Suc i) held"] p' d Cons.prems(3) Some by simp
  qed
qed simp

end

text \<open>The pool provides it.\<close>

definition pool_take :: "allocation \<Rightarrow> layout \<Rightarrow> BulkPoolAllocator \<times> Memory \<Rightarrow> (addr \<times> BulkPoolAllocator \<times> Memory) res" where
  "pool_take malloc ly = (\<lambda>(pl, m). allocate malloc ly pl m)"

definition pool_give :: "addr \<Rightarrow> BulkPoolAllocator \<times> Memory \<Rightarrow> (BulkPoolAllocator \<times> Memory) res" where
  "pool_give a = (\<lambda>(pl, m). deallocate a pl m)"

definition pool_in_use ::
  "allocation \<Rightarrow> layout \<Rightarrow> (addr \<times> nat) set \<Rightarrow> BulkPoolAllocator \<times> Memory \<Rightarrow> addr set \<Rightarrow> bool" where
  "pool_in_use malloc ly R p U \<longleftrightarrow> layout_ok ly \<and> malloc_ok malloc \<and> owns ly (fst p) (snd p) U R"

definition nodes_apart :: "layout \<Rightarrow> addr set \<Rightarrow> bool" where
  "nodes_apart ly U \<longleftrightarrow> (\<forall>a \<in> U. \<forall>b \<in> U. a \<noteq> b \<longrightarrow> a + type_size ly \<le> b \<or> b + type_size ly \<le> a)"

lemma owns_apart:
  assumes ly: "layout_ok ly" and o: "owns ly pl m U R"
  shows "nodes_apart ly U"
  unfolding nodes_apart_def
proof (intro ballI impI)
  obtain bs fs where ok: "pool_ok ly pl m bs fs U" using o by (auto simp: owns_def)
  fix a b assume "a \<in> U" "b \<in> U" "a \<noteq> b"
  then have "a \<in> pool_elements ly m bs" "b \<in> pool_elements ly m bs" "heap_ok m" using ok by (auto simp: pool_ok_def)
  from pool_elements_apart [OF ly this(3,1,2) \<open>a \<noteq> b\<close>] show "a + type_size ly \<le> b \<or> b + type_size ly \<le> a"
    using layout_static_asserts(5) [OF ly] by auto
qed

interpretation pools: node_allocator "pool_take malloc ly" pool_give "pool_in_use malloc ly R" "nodes_apart ly"
  for malloc ly R
proof
  show "overflow_or (pool_take malloc ly p) (\<lambda>(a, p'). a \<notin> U \<and> pool_in_use malloc ly R p' (insert a U))"
    if "pool_in_use malloc ly R p U" for p U
    using that owns_allocate [of ly malloc "fst p" "snd p" U R]
    by (auto simp: pool_in_use_def pool_take_def case_prod_beta elim!: overflow_or_mono)
  show "\<exists>p'. pool_give a p = Inr p' \<and> pool_in_use malloc ly R p' (U - {a})"
    if "pool_in_use malloc ly R p U" "a \<in> U" for p U a
    using that owns_deallocate [of ly "fst p" "snd p" U R a] by (auto simp: pool_in_use_def pool_give_def case_prod_beta)
  show "nodes_apart ly U" if "pool_in_use malloc ly R p U" for p U
    using that owns_apart by (auto simp: pool_in_use_def)
qed

section \<open>Sequences of operations on a table\<close>

datatype ('k, 'v) node_op = Put 'k 'v | TryPut 'k 'v | Remove 'k | Reserve nat bool | Compact | Clear

fun node_step ::
  "allocation \<Rightarrow> layout \<Rightarrow> ('k \<Rightarrow> u64) \<Rightarrow> ('k, 'v) node_op \<Rightarrow> ('k, 'v) NodeTable \<Rightarrow> Memory
    \<Rightarrow> (('k, 'v) NodeTable \<times> Memory) res" where
  "node_step malloc ly h (Put k v) nt m = rbind (node_emplace malloc ly h k v nt m) (\<lambda>(i, b, r). Inr r)"
| "node_step malloc ly h (TryPut k v) nt m = rbind (node_try_emplace malloc ly h k v nt m) (\<lambda>(i, b, r). Inr r)"
| "node_step malloc ly h (Remove k) nt m = rbind (node_erase h k nt m) (\<lambda>(n, r). Inr r)"
| "node_step malloc ly h (Reserve c f) nt m = node_reserve malloc ly h c f nt m"
| "node_step malloc ly h Compact nt m = node_compact malloc ly h nt m"
| "node_step malloc ly h Clear nt m = node_clear nt m"

fun node_run ::
  "allocation \<Rightarrow> layout \<Rightarrow> ('k \<Rightarrow> u64) \<Rightarrow> ('k, 'v) node_op list \<Rightarrow> ('k, 'v) NodeTable \<Rightarrow> Memory
    \<Rightarrow> (('k, 'v) NodeTable \<times> Memory) res" where
  "node_run malloc ly h [] nt m = Inr (nt, m)"
| "node_run malloc ly h (op # ops) nt m =
     rbind (node_step malloc ly h op nt m) (\<lambda>(nt1, m1). node_run malloc ly h ops nt1 m1)"

text \<open>The same on the association lists that the book is modelled with.\<close>

fun list_step :: "('k, 'v) node_op \<Rightarrow> ('k, 'v) hmap \<Rightarrow> ('k, 'v) hmap" where
  "list_step (Put k v) l = hm_emplace k v l"
| "list_step (TryPut k v) l = hm_emplace k v l"
| "list_step (Remove k) l = hm_erase k l"
| "list_step (Reserve c f) l = l"
| "list_step Compact l = l"
| "list_step Clear l = []"

definition stands_for ::
  "layout \<Rightarrow> ('k \<Rightarrow> u64) \<Rightarrow> (addr \<times> nat) set \<Rightarrow> ('k, 'v) NodeTable \<Rightarrow> Memory \<Rightarrow> ('k, 'v) hmap \<Rightarrow> bool" where
  "stands_for ly h F nt m l \<longleftrightarrow> node_inv ly h nt m F \<and> mset (node_contents nt) = mset l"

lemma node_contents_mset: "mset (node_contents nt) = image_mset plain (mset (entries (table nt)))"
  by (simp add: node_contents_def)

lemma node_contents_fst: "fst ` set (node_contents nt) = fst ` set (entries (table nt))"
  by (auto simp: node_contents_def image_image)

lemma stands_for_distinct:
  assumes "stands_for ly h F nt m l"
  shows "distinct (map fst l)"
proof -
  have "distinct (map fst (entries (table nt)))"
    using assms by (auto simp: stands_for_def node_inv_def intro: table_inv_distinct)
  then have "distinct (map fst (node_contents nt))" by (simp add: node_contents_def comp_def)
  moreover have "mset (map fst (node_contents nt)) = mset (map fst l)" using assms by (simp add: stands_for_def)
  ultimately show ?thesis using mset_eq_imp_distinct_iff by blast
qed

lemma stands_for_key:
  assumes "stands_for ly h F nt m l"
  shows "has_key (table nt) k \<longleftrightarrow> hm_find k l \<noteq> None"
proof -
  have "set (node_contents nt) = set l" using assms unfolding stands_for_def by (metis set_mset_mset)
  then show ?thesis using node_contents_fst [of nt] by (simp add: has_key_def hm_find_def map_of_eq_None_iff)
qed

lemma stands_for_put:
  assumes s: "stands_for ly h F nt m l" and b: "b = (\<not> has_key (table nt) k)" and n: "node_inv ly h nt' m' F"
    and e: "mset (entries (table nt')) =
      (if b then add_mset (k, a, v) (mset (entries (table nt))) else mset (entries (table nt)))"
  shows "stands_for ly h F nt' m' (hm_emplace k v l)"
  using s n e b stands_for_key [OF s, of k]
  by (auto simp: stands_for_def node_contents_mset hm_emplace_def plain_def)

lemma stands_for_remove:
  assumes s: "stands_for ly h F nt m l" and n: "node_inv ly h nt' m' F"
    and e: "mset (entries (table nt')) = filter_mset (\<lambda>kv. fst kv \<noteq> k) (mset (entries (table nt)))"
  shows "stands_for ly h F nt' m' (hm_erase k l)"
proof -
  have l: "mset (hm_erase k l) = filter_mset (\<lambda>kv. fst kv \<noteq> k) (mset l)"
    by (simp add: hm_erase_def case_prod_beta)
  have plain: "image_mset plain (filter_mset (\<lambda>kv. fst kv \<noteq> k) M) =
      filter_mset (\<lambda>kv. fst kv \<noteq> k) (image_mset plain M)" for M :: "('a \<times> addr \<times> 'b) multiset"
    by (induction M) auto
  have "image_mset plain (mset (entries (table nt'))) = mset (hm_erase k l)"
    using s unfolding e plain l by (simp add: stands_for_def node_contents_mset)
  then show ?thesis using n by (simp add: stands_for_def node_contents_mset)
qed

text \<open>What every step does, with the memory of everybody else left alone.\<close>

lemma node_step_ok:
  assumes ly: "layout_ok ly" and mal: "malloc_ok malloc" and s: "stands_for ly h F nt m l"
  shows "overflow_or (node_step malloc ly h op nt m)
    (\<lambda>(nt', m'). stands_for ly h F nt' m' (list_step op l) \<and> untouched ly {} F m m')"
proof -
  have inv: "node_inv ly h nt m F" using s by (simp add: stands_for_def)
  have same: "stands_for ly h F nt' m' l"
    if "node_inv ly h nt' m' F" "mset (entries (table nt')) = mset (entries (table nt))" for nt' m'
    using that s by (simp add: stands_for_def node_contents_mset)
  have less: "untouched ly {} F m m'" if "untouched ly U F m m'" for U m' using that by (rule untouched_mono) auto
  show ?thesis
  proof (cases op)
    case (Put k v)
    show ?thesis unfolding Put node_step.simps list_step.simps
      by (rule overflow_or_rbind [OF node_emplace_ok [OF ly mal inv]]) (auto intro: stands_for_put [OF s] less)
  next
    case (TryPut k v)
    show ?thesis unfolding TryPut node_step.simps list_step.simps
      by (rule overflow_or_rbind [OF node_try_emplace_ok [OF ly mal inv]]) (auto intro: stands_for_put [OF s] less)
  next
    case (Remove k)
    show ?thesis using node_erase_ok [OF ly inv, of k] Remove by (auto intro: stands_for_remove [OF s] less)
  next
    case (Reserve c f)
    show ?thesis unfolding Reserve node_step.simps list_step.simps
      by (rule overflow_or_mono [OF node_reserve_ok(1) [OF ly mal inv]]) (auto intro: same less)
  next
    case Compact
    show ?thesis unfolding Compact node_step.simps list_step.simps
      by (rule overflow_or_mono [OF node_reserve_ok(2) [OF ly mal inv]]) (auto intro: same less)
  next
    case Clear
    show ?thesis using node_clear_ok [OF ly inv] Clear by (auto simp: stands_for_def node_contents_def)
  qed
qed

lemma node_run_ok:
  assumes ly: "layout_ok ly" and mal: "malloc_ok malloc"
  shows "stands_for ly h F nt m l \<Longrightarrow> overflow_or (node_run malloc ly h ops nt m)
    (\<lambda>(nt', m'). stands_for ly h F nt' m' (fold list_step ops l) \<and> untouched ly {} F m m')"
proof (induction ops arbitrary: nt m l)
  case Nil
  then show ?case by (simp add: untouched_cell)
next
  case (Cons op ops)
  show ?case unfolding node_run.simps
  proof (rule overflow_or_rbind [OF node_step_ok [OF ly mal Cons.prems, of op]])
    fix r assume r: "case r of (nt', m') \<Rightarrow> stands_for ly h F nt' m' (list_step op l) \<and> untouched ly {} F m m'"
    obtain nt1 m1 where r1: "r = (nt1, m1)" by (cases r)
    have s1: "stands_for ly h F nt1 m1 (list_step op l)" and u1: "untouched ly {} F m m1" using r r1 by auto
    show "overflow_or (case r of (nt1, m1) \<Rightarrow> node_run malloc ly h ops nt1 m1)
        (\<lambda>(nt', m'). stands_for ly h F nt' m' (fold list_step (op # ops) l) \<and> untouched ly {} F m m')"
      unfolding r1 prod.case
      by (rule overflow_or_mono [OF Cons.IH [OF s1]]) (auto intro: untouched_trans [OF u1])
  qed
qed

lemma stands_for_new:
  assumes "heap_ok m"
  shows "stands_for ly h (set (blocks m)) new_node_table m []"
  using owns_new [OF assms, of ly] table_inv_new
  by (auto simp: stands_for_def node_inv_def new_node_table_def new_table_empty addresses_def holds_def
      array_blocks_def node_contents_def)

lemma stands_for_find:
  assumes "stands_for ly h F nt m l"
  shows "rbind (table_find h (table nt) k) (\<lambda>r. Inr (map_option plain r)) = Inr (map_option (Pair k) (hm_find k l))"
proof -
  have ti: "table_inv h (table nt)" using assms by (simp add: stands_for_def node_inv_def)
  note d = table_inv_distinct [OF ti] stands_for_distinct [OF assms]
  have sl: "set l = plain ` set (entries (table nt))"
    using assms unfolding stands_for_def node_contents_def by (metis set_mset_mset list.set_map)
  have same: "map_option snd (map_of (entries (table nt)) k) = map_of l k"
  proof (cases "map_of (entries (table nt)) k")
    case None
    then have "k \<notin> fst ` set l" unfolding sl by (auto simp: map_of_eq_None_iff image_image)
    then have "map_of l k = None" by (simp add: map_of_eq_None_iff)
    then show ?thesis using None by simp
  next
    case (Some av)
    then have "(k, snd av) \<in> set l" unfolding sl by (force simp: plain_def dest: map_of_SomeD)
    then show ?thesis using Some d(2) by simp
  qed
  then show ?thesis using table_find_ok [OF ti, of k]
    by (cases "map_of (entries (table nt)) k") (auto simp: plain_def hm_find_def simp flip: same)
qed

section \<open>Where the nodes are\<close>

lemma owns_block:
  assumes ly: "layout_ok ly" and o: "owns ly pl m U R" and a: "a \<in> U"
  shows "\<exists>(p, n) \<in> set (blocks m) - R. p \<le> a \<and> a + type_size ly \<le> p + n"
proof -
  obtain bs fs where ok: "pool_ok ly pl m bs fs U" "others m bs = R" using o by (auto simp: owns_def)
  have e: "a \<in> pool_elements ly m bs" "heap_ok m" using ok(1) a by (auto simp: pool_ok_def)
  obtain p n where p: "(p, n) \<in> set (blocks m)" "p \<in> set bs" "p + ALIGNMENT ly \<le> a" "a + ALIGNED_SIZE ly \<le> p + n"
    by (rule pool_element_block [OF ly e(2,1)])
  have "(p, n) \<notin> R" using p(2) ok(2) by (auto simp: others_def)
  moreover have "p \<le> a" "a + type_size ly \<le> p + n" using p(3,4) layout_static_asserts(5) [OF ly] by linarith+
  ultimately show ?thesis using p(1) by blast
qed

lemma node_owns: "node_inv ly h nt m F \<Longrightarrow> owns ly (pool nt) m (addresses nt) (F \<union> array_blocks nt)"
  by (simp add: node_inv_def holds_def)

lemma nodes_apart_node: "layout_ok ly \<Longrightarrow> node_inv ly h nt m F \<Longrightarrow> nodes_apart ly (addresses nt)"
  using owns_apart node_owns by blast

text \<open>The nodes of two tables do not meet.\<close>

lemma two_tables_apart:
  assumes ly: "layout_ok ly" and two: "two_tables ly h nt other m G"
    and a: "a \<in> addresses nt" and b: "b \<in> addresses other"
  shows "a + type_size ly \<le> b \<or> b + type_size ly \<le> a"
proof -
  obtain F F' where n: "node_inv ly h nt m F" and o: "node_inv ly h other m F'"
    and apart: "(set (blocks m) - F) \<inter> (set (blocks m) - F') = {}"
    using two by (auto simp: two_tables_def)
  obtain p k where p: "(p, k) \<in> set (blocks m) - F" "p \<le> a" "a + type_size ly \<le> p + k"
    using owns_block [OF ly node_owns [OF n] a] by blast
  obtain q l where q: "(q, l) \<in> set (blocks m) - F'" "q \<le> b" "b + type_size ly \<le> q + l"
    using owns_block [OF ly node_owns [OF o] b] by blast
  have "(p, k) \<noteq> (q, l)" using p(1) q(1) apart by blast
  then have "p + k \<le> q \<or> q + l \<le> p"
    using heap_blocks(4) [OF node_inv_blocks(1) [OF n], of p k q l] p(1) q(1) by blast
  then show ?thesis using p(2,3) q(2,3) by linarith
qed

lemma two_tables_disjoint:
  assumes "layout_ok ly" and "two_tables ly h nt other m G"
  shows "addresses nt \<inter> addresses other = {}"
  using two_tables_apart [OF assms] assms(1) by (force simp: layout_ok_def)

section \<open>What keeps a node\<close>

lemma node_step_keeps:
  assumes ly: "layout_ok ly" and mal: "malloc_ok malloc" and inv: "node_inv ly h nt m F"
    and k: "(k, a, v) \<in> set (entries (table nt))" and op: "op \<noteq> Clear" "op \<noteq> Remove k"
  shows "overflow_or (node_step malloc ly h op nt m) (\<lambda>(nt', m'). node_inv ly h nt' m' F \<and>
    (k, a, v) \<in> set (entries (table nt')) \<and> untouched ly {a} F m m')"
proof -
  have a: "a \<in> addresses nt" using k by (force simp: addresses_def)
  have at: "untouched ly {a} F m m'" if "untouched ly (addresses nt) F m m'" for m'
    using that by (rule untouched_mono) (use a in auto)
  have ins: "(k, a, v) \<in> set (entries (table nt'))"
    if "mset (entries (table nt')) = (if b then add_mset x (mset (entries (table nt))) else mset (entries (table nt)))"
    for nt' b x
    using k arg_cong [OF that, of set_mset] by (auto split: if_splits)
  have same: "(k, a, v) \<in> set (entries (table nt'))"
    if "mset (entries (table nt')) = mset (entries (table nt))" for nt'
    using k mset_eq_setD [OF that] by simp
  show ?thesis
  proof (cases op)
    case (Put k1 v1)
    show ?thesis unfolding Put node_step.simps
      by (rule overflow_or_rbind [OF node_emplace_ok [OF ly mal inv]]) (auto intro: at ins)
  next
    case (TryPut k1 v1)
    show ?thesis unfolding TryPut node_step.simps
      by (rule overflow_or_rbind [OF node_try_emplace_ok [OF ly mal inv]]) (auto intro: at ins)
  next
    case (Remove k1)
    then obtain nt' m' where r: "node_step malloc ly h op nt m = Inr (nt', m')" "node_inv ly h nt' m' F"
        "untouched ly (addresses nt') F m m'"
        "mset (entries (table nt')) = filter_mset (\<lambda>kv. fst kv \<noteq> k1) (mset (entries (table nt)))"
      using node_erase_ok [OF ly inv, of k1] by auto
    have "(k, a, v) \<in> set (entries (table nt'))"
      using k op(2) Remove arg_cong [OF r(4), of set_mset] by auto
    moreover from this have "a \<in> addresses nt'" by (force simp: addresses_def)
    then have "untouched ly {a} F m m'" using r(3) by (auto elim: untouched_mono)
    ultimately show ?thesis using r by simp
  next
    case (Reserve c f)
    show ?thesis unfolding Reserve node_step.simps
      by (rule overflow_or_mono [OF node_reserve_ok(1) [OF ly mal inv]]) (auto intro: at same)
  next
    case Compact
    show ?thesis unfolding Compact node_step.simps
      by (rule overflow_or_mono [OF node_reserve_ok(2) [OF ly mal inv]]) (auto intro: at same)
  next
    case Clear
    with op show ?thesis by simp
  qed
qed

end
