(* ===== verification/Node_Pointers.thy ===== *)
theory Node_Pointers
  imports Node_Run
begin

text \<open>
  Pointers into a hash table of nodes. The levels of a book link the orders that lie in the map, and the book
  changes an order through such a pointer, long after the map has moved its slots. The model of the book
  has names instead, the IDs of the orders, and looks them up. Here both are run on the same operations.
\<close>

section \<open>Reading and writing through pointers\<close>

definition pointer_to :: "('k \<Rightarrow> u64) \<Rightarrow> ('k, 'v) NodeTable \<Rightarrow> 'k \<Rightarrow> addr option res" where
  "pointer_to h nt k = rbind (table_find h (table nt) k) (\<lambda>r. Inr (map_option node_address r))"

text \<open>A pointer that leads to no node of the table is dangling.\<close>

definition read_node :: "addr \<Rightarrow> ('k, 'v) NodeTable \<Rightarrow> ('k \<times> 'v) res" where
  "read_node a nt = rbind (deref (find (\<lambda>kv. node_address kv = a) (entries (table nt)))) (\<lambda>kv. Inr (plain kv))"

definition write_node :: "addr \<Rightarrow> 'v \<Rightarrow> ('k, 'v) NodeTable \<Rightarrow> ('k, 'v) NodeTable res" where
  "write_node a v nt =
     rbind (read_node a nt) (\<lambda>_.
     Inr (nt\<lparr>table := (table nt)\<lparr>mKeyVals :=
       map (map_option (\<lambda>(k, b, w). (k, b, if b = a then v else w))) (mKeyVals (table nt))\<rparr>\<rparr>))"

section \<open>A client with pointers\<close>

text \<open>
  The client keeps the pointers it has asked for and the pairs it has read through them; the other client
  keeps names.
\<close>

datatype ('k, 'v) client_op = Operate "('k, 'v) node_op" | Locate 'k | ReadPtr nat | WritePtr nat 'v

record ('k, 'v) PointerClient =
  client_table :: "('k, 'v) NodeTable"
  client_memory :: Memory
  pointers :: "addr option list"
  seen :: "('k \<times> 'v) list"

fun pointer_step ::
  "allocation \<Rightarrow> layout \<Rightarrow> ('k \<Rightarrow> u64) \<Rightarrow> ('k, 'v) client_op \<Rightarrow> ('k, 'v) PointerClient \<Rightarrow> ('k, 'v) PointerClient res" where
  "pointer_step malloc ly h (Operate op) c =
     rbind (node_step malloc ly h op (client_table c) (client_memory c)) (\<lambda>(nt, m).
     Inr (c\<lparr>client_table := nt, client_memory := m\<rparr>))"
| "pointer_step malloc ly h (Locate k) c =
     rbind (pointer_to h (client_table c) k) (\<lambda>p. Inr (c\<lparr>pointers := pointers c @ [p]\<rparr>))"
| "pointer_step malloc ly h (ReadPtr i) c =
     rbind (deref (pointers c ! i)) (\<lambda>a.
     rbind (read_node a (client_table c)) (\<lambda>kv. Inr (c\<lparr>seen := seen c @ [kv]\<rparr>)))"
| "pointer_step malloc ly h (WritePtr i v) c =
     rbind (deref (pointers c ! i)) (\<lambda>a.
     rbind (write_node a v (client_table c)) (\<lambda>nt. Inr (c\<lparr>client_table := nt\<rparr>)))"

fun pointer_run ::
  "allocation \<Rightarrow> layout \<Rightarrow> ('k \<Rightarrow> u64) \<Rightarrow> ('k, 'v) client_op list \<Rightarrow> ('k, 'v) PointerClient
    \<Rightarrow> ('k, 'v) PointerClient res" where
  "pointer_run malloc ly h [] c = Inr c"
| "pointer_run malloc ly h (op # ops) c = rbind (pointer_step malloc ly h op c) (pointer_run malloc ly h ops)"

record ('k, 'v) NameClient =
  name_map :: "('k, 'v) hmap"
  names :: "'k option list"
  read_pairs :: "('k \<times> 'v) list"

text \<open>A removed key is no longer a valid name, even if it is inserted again: its node is another one.\<close>

fun valid_after :: "('k, 'v) node_op \<Rightarrow> 'k option \<Rightarrow> 'k option" where
  "valid_after (Remove k) n = (if n = Some k then None else n)"
| "valid_after Clear n = None"
| "valid_after op n = n"

definition known_name :: "'k \<Rightarrow> ('k, 'v) hmap \<Rightarrow> 'k option" where
  "known_name k l = (case hm_find k l of None \<Rightarrow> None | Some v \<Rightarrow> Some k)"

fun name_step :: "('k, 'v) client_op \<Rightarrow> ('k, 'v) NameClient \<Rightarrow> ('k, 'v) NameClient" where
  "name_step (Operate op) c =
     c\<lparr>name_map := list_step op (name_map c), names := map (valid_after op) (names c)\<rparr>"
| "name_step (Locate k) c = c\<lparr>names := names c @ [known_name k (name_map c)]\<rparr>"
| "name_step (ReadPtr i) c =
     (case names c ! i of None \<Rightarrow> c
      | Some k \<Rightarrow> (case hm_find k (name_map c) of None \<Rightarrow> c | Some v \<Rightarrow> c\<lparr>read_pairs := read_pairs c @ [(k, v)]\<rparr>))"
| "name_step (WritePtr i v) c =
     (case names c ! i of None \<Rightarrow> c | Some k \<Rightarrow> c\<lparr>name_map := hm_store k v (name_map c)\<rparr>)"

text \<open>The discipline: no use of a pointer whose key was absent, or has been removed since.\<close>

fun careful :: "('k, 'v) client_op \<Rightarrow> ('k, 'v) NameClient \<Rightarrow> bool" where
  "careful (ReadPtr i) c \<longleftrightarrow> i < length (names c) \<and> \<not> Option.is_none (names c ! i)"
| "careful (WritePtr i v) c \<longleftrightarrow> i < length (names c) \<and> \<not> Option.is_none (names c ! i)"
| "careful op c \<longleftrightarrow> True"

fun always_careful :: "('k, 'v) client_op list \<Rightarrow> ('k, 'v) NameClient \<Rightarrow> bool" where
  "always_careful [] c = True"
| "always_careful (op # ops) c = (careful op c \<and> always_careful ops (name_step op c))"

definition new_pointer_client :: "Memory \<Rightarrow> ('k, 'v) PointerClient" where
  "new_pointer_client m = \<lparr>client_table = new_node_table, client_memory = m, pointers = [], seen = []\<rparr>"

definition new_name_client :: "('k, 'v) NameClient" where
  "new_name_client = \<lparr>name_map = [], names = [], read_pairs = []\<rparr>"

section \<open>The simulation\<close>

text \<open>A valid name goes with a pointer to the node of that key.\<close>

definition points_at :: "('k, 'v) NodeTable \<Rightarrow> addr option \<Rightarrow> 'k option \<Rightarrow> bool" where
  "points_at nt p n \<longleftrightarrow> (case n of None \<Rightarrow> True | Some k \<Rightarrow> \<exists>a v. p = Some a \<and> (k, a, v) \<in> set (entries (table nt)))"

definition names_ok ::
  "layout \<Rightarrow> ('k \<Rightarrow> u64) \<Rightarrow> (addr \<times> nat) set \<Rightarrow> ('k, 'v) PointerClient \<Rightarrow> ('k, 'v) NameClient \<Rightarrow> bool" where
  "names_ok ly h F c n \<longleftrightarrow> stands_for ly h F (client_table c) (client_memory c) (name_map n) \<and>
     list_all2 (points_at (client_table c)) (pointers c) (names n) \<and> seen c = read_pairs n"

lemma entry_unique:
  assumes "node_inv ly h nt m F" and "(k, a, v) \<in> set (entries (table nt))" and "kv \<in> set (entries (table nt))"
  shows "node_address kv = a \<longleftrightarrow> kv = (k, a, v)" and "fst kv = k \<longleftrightarrow> kv = (k, a, v)"
proof -
  have inj: "inj_on node_address (set (entries (table nt)))" using assms(1) by (simp add: node_inv_def distinct_map)
  show "node_address kv = a \<longleftrightarrow> kv = (k, a, v)" using inj_on_eq_iff [OF inj assms(3,2)] by simp
  have "distinct (map fst (entries (table nt)))" using assms(1) by (auto simp: node_inv_def intro: table_inv_distinct)
  then have inj: "inj_on fst (set (entries (table nt)))" by (simp add: distinct_map)
  show "fst kv = k \<longleftrightarrow> kv = (k, a, v)" using inj_on_eq_iff [OF inj assms(3,2)] by simp
qed

lemma read_node_ok:
  assumes inv: "node_inv ly h nt m F" and e: "(k, a, v) \<in> set (entries (table nt))"
  shows "read_node a nt = Inr (k, v)"
proof -
  obtain kv where kv: "find (\<lambda>kv. node_address kv = a) (entries (table nt)) = Some kv"
    using e by (cases "find (\<lambda>kv. node_address kv = a) (entries (table nt))") (auto simp: find_None_iff)
  then have "kv \<in> set (entries (table nt))" "node_address kv = a" by (auto simp: find_Some_iff)
  then have "kv = (k, a, v)" using entry_unique(1) [OF inv e] by simp
  then show ?thesis using kv by (simp add: read_node_def plain_def)
qed

lemma stands_for_entry:
  assumes s: "stands_for ly h F nt m l" and e: "(k, a, v) \<in> set (entries (table nt))"
  shows "hm_find k l = Some v"
proof -
  have "set l = plain ` set (entries (table nt))"
    using s unfolding stands_for_def node_contents_def by (metis set_mset_mset list.set_map)
  then have "(k, v) \<in> set l" using e by (force simp: plain_def)
  then show ?thesis using stands_for_distinct [OF s] by (simp add: hm_find_def)
qed

definition written :: "addr \<Rightarrow> 'v \<Rightarrow> ('k, 'v) NodeTable \<Rightarrow> ('k, 'v) NodeTable" where
  "written a v nt = nt\<lparr>table := (table nt)\<lparr>mKeyVals :=
     map (map_option (\<lambda>(k, b, w). (k, b, if b = a then v else w))) (mKeyVals (table nt))\<rparr>\<rparr>"

lemma written_entries:
  "entries (table (written a v nt)) = map (\<lambda>(k, b, w). (k, b, if b = a then v else w)) (entries (table nt))"
  by (simp add: written_def entries_def somes_map)

lemma written_inv:
  assumes inv: "node_inv ly h nt m F"
  shows "node_inv ly h (written a v nt) m F"
proof -
  have "table_inv h (table (written a v nt))"
  proof (cases "is_dummy (table nt)")
    case True
    then have "table (written a v nt) = table nt" by (simp add: written_def is_dummy_keys)
    then show ?thesis using inv by (simp add: node_inv_def)
  next
    case False
    then have "array_ok h (table nt)" using inv by (simp add: node_inv_def table_inv_def)
    then have "array_ok h (table (written a v nt))"
      unfolding written_def by (simp, intro array_ok_keys) (auto simp: option.map_comp comp_def case_prod_beta)
    then show ?thesis by (simp add: table_inv_def)
  qed
  moreover have "map node_address (entries (table (written a v nt))) = map node_address (entries (table nt))"
    by (simp add: written_entries case_prod_beta comp_def)
  moreover from this have "addresses (written a v nt) = addresses nt" by (metis addresses_def list.set_map)
  moreover have "holds ly (written a v nt) m U F = holds ly nt m U F" for U
    by (rule holds_same) (simp_all add: written_def)
  ultimately show ?thesis using inv by (simp add: node_inv_def)
qed

lemma write_node_ok:
  assumes s: "stands_for ly h F nt m l" and e: "(k, a, w) \<in> set (entries (table nt))"
  shows "write_node a v nt = Inr (written a v nt)" and "stands_for ly h F (written a v nt) m (hm_store k v l)"
proof -
  have inv: "node_inv ly h nt m F" using s by (simp add: stands_for_def)
  show "write_node a v nt = Inr (written a v nt)"
    by (simp add: write_node_def written_def read_node_ok [OF inv e])
  have "plain (case kv of (k', b, w) \<Rightarrow> (k', b, if b = a then v else w)) =
      (case plain kv of (k', w) \<Rightarrow> (k', if k' = k then v else w))" if "kv \<in> set (entries (table nt))" for kv
    using entry_unique [OF inv e that] by (cases kv) (auto simp: plain_def)
  then have "node_contents (written a v nt) = hm_store k v (node_contents nt)"
    by (auto simp: node_contents_def written_entries hm_store_def)
  then have "mset (node_contents (written a v nt)) = mset (hm_store k v l)"
    using s unfolding hm_store_def stands_for_def by (metis mset_map)
  then show "stands_for ly h F (written a v nt) m (hm_store k v l)"
    using written_inv [OF inv] by (simp add: stands_for_def)
qed

lemma written_points: "points_at nt p n \<Longrightarrow> points_at (written a v nt) p n"
  by (force simp: points_at_def written_entries split: option.splits)

section \<open>The steps\<close>

lemma locate_ok:
  assumes s: "stands_for ly h F nt m l"
  shows "\<exists>p. pointer_to h nt k = Inr p \<and> points_at nt p (known_name k l)"
proof -
  have ti: "table_inv h (table nt)" using s by (simp add: stands_for_def node_inv_def)
  show ?thesis
  proof (cases "map_of (entries (table nt)) k")
    case None
    then have "hm_find k l = None" using stands_for_key [OF s, of k] by (auto simp: has_key_def map_of_eq_None_iff)
    then show ?thesis using None by (simp add: pointer_to_def table_find_ok [OF ti] points_at_def known_name_def)
  next
    case (Some av)
    obtain a v where av: "av = (a, v)" by (cases av)
    have e: "(k, a, v) \<in> set (entries (table nt))" using Some av by (auto dest: map_of_SomeD)
    then show ?thesis using Some av stands_for_entry [OF s e]
      by (auto simp: pointer_to_def table_find_ok [OF ti] points_at_def known_name_def)
  qed
qed

lemma points_after:
  assumes ly: "layout_ok ly" and mal: "malloc_ok malloc" and inv: "node_inv ly h nt m F"
    and p: "points_at nt p n" and r: "node_step malloc ly h op nt m = Inr (nt', m')"
  shows "points_at nt' p (valid_after op n)"
proof (cases "valid_after op n")
  case None
  then show ?thesis by (simp add: points_at_def)
next
  case (Some k)
  then have n: "n = Some k" "op \<noteq> Clear" "op \<noteq> Remove k" by (cases op; auto split: if_splits)+
  then obtain a v where e: "p = Some a" "(k, a, v) \<in> set (entries (table nt))" using p by (auto simp: points_at_def)
  then show ?thesis using node_step_keeps [OF ly mal inv e(2) n(2,3)] r Some by (auto simp: points_at_def)
qed

lemma pointer_step_ok:
  assumes ly: "layout_ok ly" and mal: "malloc_ok malloc" and ok: "names_ok ly h F c n" and care: "careful op n"
  shows "overflow_or (pointer_step malloc ly h op c) (\<lambda>c'. names_ok ly h F c' (name_step op n))"
proof -
  have s: "stands_for ly h F (client_table c) (client_memory c) (name_map n)"
    and ps: "list_all2 (points_at (client_table c)) (pointers c) (names n)" and seen: "seen c = read_pairs n"
    using ok by (auto simp: names_ok_def)
  have inv: "node_inv ly h (client_table c) (client_memory c) F" using s by (simp add: stands_for_def)
  have named: "\<exists>k a v. names n ! i = Some k \<and> pointers c ! i = Some a \<and> (k, a, v) \<in> set (entries (table (client_table c)))"
    if "i < length (names n)" "\<not> Option.is_none (names n ! i)" for i
    using list_all2_nthD2 [OF ps that(1)] that(2) by (auto simp: points_at_def Option.is_none_def split: option.splits)
  show ?thesis
  proof (cases op)
    case (Operate op')
    show ?thesis unfolding Operate pointer_step.simps name_step.simps
      by (rule overflow_or_rbind [OF node_step_ok [OF ly mal s]])
        (auto simp: names_ok_def seen list_all2_map2 intro!: list_all2_mono [OF ps] points_after [OF ly mal inv])
  next
    case (Locate k)
    then show ?thesis using locate_ok [OF s, of k] s ps seen by (auto simp: names_ok_def list_all2_appendI)
  next
    case (ReadPtr i)
    with care obtain k a v where e: "names n ! i = Some k" "pointers c ! i = Some a"
        "(k, a, v) \<in> set (entries (table (client_table c)))" using named [of i] by auto
    then show ?thesis using ReadPtr s ps seen read_node_ok [OF inv e(3)] stands_for_entry [OF s e(3)]
      by (simp add: names_ok_def)
  next
    case (WritePtr i v)
    with care obtain k a w where e: "names n ! i = Some k" "pointers c ! i = Some a"
        "(k, a, w) \<in> set (entries (table (client_table c)))" using named [of i] by auto
    then show ?thesis using WritePtr ps seen write_node_ok [OF s e(3)]
      by (auto simp: names_ok_def intro: list_all2_mono [OF ps] written_points)
  qed
qed

lemma pointer_run_ok:
  assumes ly: "layout_ok ly" and mal: "malloc_ok malloc"
  shows "names_ok ly h F c n \<Longrightarrow> always_careful ops n \<Longrightarrow>
    overflow_or (pointer_run malloc ly h ops c) (\<lambda>c'. names_ok ly h F c' (fold name_step ops n))"
proof (induction ops arbitrary: c n)
  case (Cons op ops)
  show ?case unfolding pointer_run.simps
    by (rule overflow_or_rbind [OF pointer_step_ok [OF ly mal Cons.prems(1)]])
      (use Cons.prems(2) in \<open>auto intro: Cons.IH\<close>)
qed simp

lemma new_names_ok: "heap_ok m \<Longrightarrow> names_ok ly h (set (blocks m)) (new_pointer_client m) new_name_client"
  by (simp add: names_ok_def new_pointer_client_def new_name_client_def stands_for_new)

end
