(* ===== verification/Robin_Hood_Equal.thy ===== *)
theory Robin_Hood_Equal
  imports Robin_Hood_Map Robin_Hood_Capacity
begin

text \<open>
  Comparing two hash tables, and inserting a range (\<open>include/utils/robin_hood.h\<close>: \<open>operator==\<close>, \<open>has\<close>,
  \<open>insert(first, last)\<close>). \<open>second\<close> stands for \<open>getSecond\<close> of a slot: the value itself where the pair
  lies in the slot, what the pointer leads to where it does not.
\<close>

section \<open>Operations\<close>

definition table_has ::
  "('v \<Rightarrow> 'w) \<Rightarrow> ('k \<Rightarrow> u64) \<Rightarrow> ('k, 'v) Table \<Rightarrow> 'k \<times> 'v \<Rightarrow> bool res" where
  "table_has second h t e =
     rbind (table_find h t (fst e)) (\<lambda>it.
     Inr (case it of None \<Rightarrow> False | Some kv \<Rightarrow> second (snd kv) = second (snd e)))"

fun has_all ::
  "('v \<Rightarrow> 'w) \<Rightarrow> ('k \<Rightarrow> u64) \<Rightarrow> ('k, 'v) Table \<Rightarrow> ('k \<times> 'v) list \<Rightarrow> bool res" where
  "has_all second h t [] = Inr True"
| "has_all second h t (e # es) =
     rbind (table_has second h t e) (\<lambda>b. if \<not> b then Inr False else has_all second h t es)"

definition table_equal ::
  "('v \<Rightarrow> 'w) \<Rightarrow> ('k \<Rightarrow> u64) \<Rightarrow> ('k, 'v) Table \<Rightarrow> ('k, 'v) Table \<Rightarrow> bool res" where
  "table_equal second h t other =
     (if table_size other \<noteq> table_size t then Inr False
      else rbind (iterate other) (has_all second h t))"

fun insert_range :: "('k \<Rightarrow> u64) \<Rightarrow> ('k \<times> 'v) list \<Rightarrow> ('k, 'v) Table \<Rightarrow> ('k, 'v) Table res" where
  "insert_range h [] t = Inr t"
| "insert_range h (kv # kvs) t =
     rbind (table_emplace h (fst kv) (snd kv) t) (\<lambda>(i, inserted, t'). insert_range h kvs t')"

section \<open>What they do\<close>

text \<open>The contents as far as values are compared.\<close>

definition pairs :: "('v \<Rightarrow> 'w) \<Rightarrow> ('k, 'v) Table \<Rightarrow> ('k \<times> 'w) set" where
  "pairs second t = (\<lambda>kv. (fst kv, second (snd kv))) ` set (entries t)"

lemma table_size_entries: "table_inv h t \<Longrightarrow> table_size t = length (entries t)"
  using dummy_empty [of t] is_dummy_keys [of t]
  by (auto simp: table_inv_def entries_def table_size_def table_empty_def array_ok_def room_ok_def)

lemma finite_pairs: "finite (pairs second t)"
  by (simp add: pairs_def)

lemma card_pairs:
  assumes "table_inv h t"
  shows "card (pairs second t) = length (entries t)"
proof -
  have d: "distinct (map fst (entries t))" using assms by (rule table_inv_distinct)
  then have "inj_on fst (set (entries t))" "distinct (entries t)" by (auto simp: distinct_map)
  then have "inj_on (\<lambda>kv. (fst kv, second (snd kv))) (set (entries t))" by (auto simp: inj_on_def)
  then show ?thesis using \<open>distinct (entries t)\<close> by (simp add: pairs_def card_image distinct_card)
qed

lemma pairs_map_of:
  assumes "table_inv h t"
  shows "(k, w) \<in> pairs second t \<longleftrightarrow> (\<exists>v. map_of (entries t) k = Some v \<and> w = second v)"
  using map_of_eq_Some_iff [OF table_inv_distinct [OF assms], of k] by (force simp: pairs_def image_iff)

lemma table_has_ok:
  assumes inv: "table_inv h t"
  shows "table_has second h t e = Inr ((fst e, second (snd e)) \<in> pairs second t)"
  unfolding pairs_map_of [OF inv]
  by (cases "map_of (entries t) (fst e)") (auto simp: table_has_def table_find_ok [OF inv])

lemma has_all_ok:
  "table_inv h t \<Longrightarrow> has_all second h t es = Inr (\<forall>e \<in> set es. (fst e, second (snd e)) \<in> pairs second t)"
  by (induction es) (auto simp: table_has_ok)

text \<open>Two tables compare equal exactly if they map the same keys to the same values.\<close>

lemma table_equal_ok:
  assumes t: "table_inv h t" and o: "table_inv h other"
  shows "table_equal second h t other = Inr (pairs second t = pairs second other)"
proof (cases "table_size other = table_size t")
  case True
  then have card: "card (pairs second other) = card (pairs second t)"
    using card_pairs [OF t, of second] card_pairs [OF o, of second] table_size_entries [OF t] table_size_entries [OF o] by simp
  have "(\<forall>e \<in> set (entries other). (fst e, second (snd e)) \<in> pairs second t) \<longleftrightarrow>
      pairs second other \<subseteq> pairs second t"
    by (auto simp: pairs_def [of _ other])
  also have "\<dots> \<longleftrightarrow> pairs second t = pairs second other"
    using card_subset_eq [OF finite_pairs _ card] by auto
  finally show ?thesis
    using True iterate_ok [OF o] has_all_ok [OF t, of second] by (simp add: table_equal_def)
next
  case False
  then have "card (pairs second other) \<noteq> card (pairs second t)"
    using card_pairs [OF t, of second] card_pairs [OF o, of second] table_size_entries [OF t] table_size_entries [OF o] by simp
  then show ?thesis using False by (auto simp: table_equal_def)
qed

text \<open>Inserting a range is inserting its pairs one after the other.\<close>

lemma insert_range_run: "insert_range h kvs t = table_run h (map (\<lambda>kv. Emplace (fst kv) (snd kv)) kvs) t"
  by (induction kvs arbitrary: t) (auto simp: rbind_def split: sum.split)

end
