(* ===== verification/Node_Properties.thy ===== *)
theory Node_Properties
  imports Node_Pointers Robin_Hood_Equal Robin_Hood_Properties
begin

text \<open>
  The properties of the allocator of nodes and of the hash table with its memory, and a sample heap.
\<close>

section \<open>A sample heap\<close>

text \<open>A \<open>malloc\<close> that puts every block behind all others, and the layout of the pairs of a book.\<close>

definition bump :: allocation where
  "bump m n = 16 * (1 + fold max (map (\<lambda>(p, k). p + k) (blocks m)) 0 div 16)"

lemma bump_ok: "malloc_ok bump"
  unfolding malloc_ok_def
proof (intro allI disjI2 conjI ballI)
  fix m :: Memory and n :: nat
  let ?x = "fold max (map (\<lambda>(p, k). p + k) (blocks m)) 0"
  show "bump m n mod 8 = 0" by (simp add: bump_def mod_eq_0_iff_dvd del: mult_Suc_right)
  fix b assume b: "b \<in> set (blocks m)"
  have "?x = Max (set (0 # map (\<lambda>(p, k). p + k) (blocks m)))" by (rule Max.set_eq_fold [symmetric])
  also have "(case b of (p, k) \<Rightarrow> p + k) \<le> \<dots>" using b by (intro Max_ge) auto
  finally have "(case b of (p, k) \<Rightarrow> p + k) \<le> 16 * (1 + ?x div 16)" by simp
  then show "case b of (q, k) \<Rightarrow> bump m n + n \<le> q \<or> q + k \<le> bump m n" by (auto simp: bump_def)
qed

definition order_layout :: layout where
  "order_layout = \<lparr>type_size = 136, type_alignment = 8\<rparr>"

lemma order_layout_ok: "layout_ok order_layout"
  by (simp add: layout_ok_def order_layout_def)

definition sample_memory :: Memory where
  "sample_memory = \<lparr>cell = (\<lambda>a. 0), blocks = [(16, 40)]\<rparr>"

lemma sample_memory_ok: "heap_ok sample_memory"
  by (simp add: heap_ok_def sample_memory_def)

definition sample_node_ops :: "(u64, nat) node_op list" where
  "sample_node_ops = [Put 1 10, TryPut 2 20, Put 3 30, Put 2 99, Remove 1]"

definition sample_nodes :: "(u64, nat) NodeTable \<times> Memory" where
  "sample_nodes = (case node_run bump order_layout hash_of sample_node_ops new_node_table sample_memory of
     Inl e \<Rightarrow> (new_node_table, sample_memory) | Inr r \<Rightarrow> r)"

lemma sample_nodes_run:
  "node_run bump order_layout hash_of sample_node_ops new_node_table sample_memory = Inr sample_nodes"
proof -
  have "case node_run bump order_layout hash_of sample_node_ops new_node_table sample_memory of
      Inl e \<Rightarrow> False | Inr r \<Rightarrow> True" by code_simp
  then show ?thesis by (auto simp: sample_nodes_def split: sum.splits)
qed

lemma sample_nodes_stand:
  "stands_for order_layout hash_of {(16, 40)} (fst sample_nodes) (snd sample_nodes) (fold list_step sample_node_ops [])"
  using node_run_ok [OF order_layout_ok bump_ok stands_for_new [OF sample_memory_ok],
      of hash_of sample_node_ops] sample_nodes_run
  by (simp add: case_prod_beta sample_memory_def)

lemma sample_nodes_inv: "node_inv order_layout hash_of (fst sample_nodes) (snd sample_nodes) {(16, 40)}"
  using sample_nodes_stand by (simp add: stands_for_def)

section \<open>Properties\<close>

text \<open>
  C34. Whatever a client does with a pool that starts empty, as long as it gives back only nodes it holds:
  either \<open>malloc\<close> has failed and \<open>bad_alloc\<close> is thrown, or the nodes it holds are pairwise apart and lie
  in blocks that the pool has allocated, and \<open>reset\<close> frees exactly these blocks, each once. Every pointer
  that the pool reads or writes is inside an allocated block.
\<close>

theorem pool_client_safe:
  assumes "layout_ok ly" and "malloc_ok malloc" and "heap_ok m" and "disciplined rs 0"
  shows "client (pool_take malloc ly) pool_give rs [] (new_pool, m) = Inl Terminated \<or>
    (\<exists>held pl m'. client (pool_take malloc ly) pool_give rs [] (new_pool, m) = Inr (held, pl, m') \<and>
      distinct held \<and> nodes_apart ly (set held) \<and>
      (\<forall>a \<in> set held. \<exists>(p, n) \<in> set (blocks m') - set (blocks m). p \<le> a \<and> a + type_size ly \<le> p + n) \<and>
      (\<exists>m''. reset pl m' = Inr (new_pool, m'') \<and> set (blocks m'') = set (blocks m)))"
proof -
  let ?R = "set (blocks m)"
  have "pool_in_use malloc ly ?R (new_pool, m) (set [])"
    using assms(1,2) owns_new [OF assms(3)] by (simp add: pool_in_use_def)
  from pools.client_ok [OF this] have run: "overflow_or (client (pool_take malloc ly) pool_give rs [] (new_pool, m))
      (\<lambda>(held, p). pool_in_use malloc ly ?R p (set held) \<and> distinct held)"
    using assms(4) by simp
  have "?thesis" if c: "client (pool_take malloc ly) pool_give rs [] (new_pool, m) = Inr (held, pl, m')"
    and u: "pool_in_use malloc ly ?R (pl, m') (set held)" and d: "distinct held" for held pl m'
  proof -
    have o: "owns ly pl m' (set held) ?R" using u by (simp add: pool_in_use_def)
    have "\<exists>m''. reset pl m' = Inr (new_pool, m'') \<and> set (blocks m'') = ?R" using owns_reset [OF assms(1) o] by auto
    then show ?thesis using c d pools.in_use_apart [OF u] owns_block [OF assms(1) o] by blast
  qed
  then show ?thesis using run by (auto simp: overflow_or_def)
qed

theorem pool_client_safe_witness:
  "\<exists>a b c d e pl m'. client (pool_take bump order_layout) pool_give [None, None, None, Some 1, None, None, None]
      [] (new_pool, sample_memory) = Inr ([a, b, c, d, e], pl, m') \<and> distinct [a, b, c, d, e]"
proof -
  let ?run = "client (pool_take bump order_layout) pool_give [None, None, None, Some 1, None, None, None] []
    (new_pool, sample_memory)"
  have "case ?run of Inl e \<Rightarrow> False | Inr (held, p) \<Rightarrow> length held = 5" by code_simp
  then obtain held p where r: "?run = Inr (held, p)" "length held = 5" by (auto split: sum.splits)
  have "distinct held"
    using pool_client_safe [OF order_layout_ok bump_ok sample_memory_ok,
        of "[None, None, None, Some 1, None, None, None]"] r(1) by auto
  moreover obtain a b c d e where "held = [a, b, c, d, e]"
    using r(2) by (auto simp: length_Suc_conv numeral_eq_Suc)
  ultimately show ?thesis using r(1) by (cases p) auto
qed

text \<open>
  C33. The hash table with its memory refines the association list that the book and the market are modelled
  with: after any sequence of operations on a new table, under any hash function, either an exception was
  thrown (the table or the memory is full), or it holds exactly the pairs of the list, every lookup gives
  the same answer, its nodes are pairwise apart, no memory outside of it has changed, and its destructor
  frees exactly what it has allocated.
\<close>

theorem node_table_refines_list:
  assumes "layout_ok ly" and "malloc_ok malloc" and "heap_ok m"
  shows "node_run malloc ly h ops new_node_table m = Inl Terminated \<or>
    (\<exists>nt m'. node_run malloc ly h ops new_node_table m = Inr (nt, m') \<and>
      mset (node_contents nt) = mset (fold list_step ops []) \<and>
      (\<forall>k. rbind (table_find h (table nt) k) (\<lambda>r. Inr (map_option plain r)) =
        Inr (map_option (Pair k) (hm_find k (fold list_step ops [])))) \<and>
      distinct (map node_address (entries (table nt))) \<and> nodes_apart ly (addresses nt) \<and>
      (\<forall>(p, n) \<in> set (blocks m). \<forall>c. p \<le> c \<and> c < p + n \<longrightarrow> cell m' c = cell m c) \<and>
      (\<exists>m''. node_delete nt m' = Inr m'' \<and> set (blocks m'') = set (blocks m)))"
proof -
  let ?F = "set (blocks m)" and ?l = "fold list_step ops []"
  have run: "overflow_or (node_run malloc ly h ops new_node_table m)
      (\<lambda>(nt', m'). stands_for ly h ?F nt' m' ?l \<and> untouched ly {} ?F m m')"
    by (rule node_run_ok [OF assms(1,2) stands_for_new [OF assms(3)]])
  have "?thesis" if c: "node_run malloc ly h ops new_node_table m = Inr (nt, m')"
    and s: "stands_for ly h ?F nt m' ?l" and u: "untouched ly {} ?F m m'" for nt m'
  proof -
    have inv: "node_inv ly h nt m' ?F" using s by (simp add: stands_for_def)
    have "\<exists>m''. node_delete nt m' = Inr m'' \<and> set (blocks m'') = ?F" using node_delete_ok [OF assms(1) inv] by auto
    moreover have "\<forall>(p, n) \<in> ?F. \<forall>c. p \<le> c \<and> c < p + n \<longrightarrow> cell m' c = cell m c" using u by (simp add: untouched_def)
    moreover have "distinct (map node_address (entries (table nt)))" using inv by (simp add: node_inv_def)
    moreover have "mset (node_contents nt) = mset ?l" using s by (simp add: stands_for_def)
    ultimately show ?thesis using c stands_for_find [OF s] nodes_apart_node [OF assms(1) inv] by blast
  qed
  then show ?thesis using run by (auto simp: overflow_or_def)
qed

theorem node_table_refines_list_witness:
  "mset (node_contents (fst sample_nodes)) = {#(2, 20), (3, 30)#} \<and>
   (\<exists>m''. node_delete (fst sample_nodes) (snd sample_nodes) = Inr m'' \<and> set (blocks m'') = {(16, 40)})"
proof -
  have l: "mset (fold list_step sample_node_ops []) = {#(2, 20), (3, 30)#}" by code_simp
  have b: "set (blocks sample_memory) = {(16, 40)}" by (simp add: sample_memory_def)
  have "\<exists>nt m'. sample_nodes = (nt, m') \<and> mset (node_contents nt) = {#(2, 20), (3, 30)#} \<and>
      (\<exists>m''. node_delete nt m' = Inr m'' \<and> set (blocks m'') = {(16, 40)})"
    using node_table_refines_list [OF order_layout_ok bump_ok sample_memory_ok, of hash_of sample_node_ops]
      sample_nodes_run unfolding b l by auto
  then obtain nt m' where n: "sample_nodes = (nt, m')" and r: "mset (node_contents nt) = {#(2, 20), (3, 30)#}"
      "\<exists>m''. node_delete nt m' = Inr m'' \<and> set (blocks m'') = {(16, 40)}"
    by blast
  show ?thesis unfolding n fst_conv snd_conv using r by blast
qed

text \<open>
  Pointers to the values of a table stay valid: whatever is done with it short of clearing it or removing
  the key, a pair that was in the table is still at the same address, with the same value, and nobody else
  has written there.
\<close>

lemma node_pointers_stable:
  assumes "layout_ok ly" and "malloc_ok malloc" and "node_inv ly h nt m F"
    and "(k, a, v) \<in> set (entries (table nt))" and "op \<noteq> Clear" and "op \<noteq> Remove k"
    and "node_step malloc ly h op nt m = Inr (nt', m')"
  shows "(k, a, v) \<in> set (entries (table nt')) \<and> (\<forall>c. a \<le> c \<and> c < a + type_size ly \<longrightarrow> cell m' c = cell m c)"
  using node_step_keeps [OF assms(1-6)] assms(7) layout_static_asserts(5) [OF assms(1)]
  by (auto simp: overflow_or_def untouched_def)

text \<open>
  C35. A client that keeps pointers into the table, and reads and changes values through them between
  insertions, removals, growth and clearing, sees what a client sees that keeps the keys and looks them up
  in a plain map, and leaves the same contents, unless the table is full or memory ends; the discipline is
  that no pointer is used whose key was absent or has been removed since. The levels of a book link the
  orders in the map in this way, and the model of the book has their IDs instead.
\<close>

theorem pointer_clients_refined:
  assumes "layout_ok ly" and "malloc_ok malloc" and "heap_ok m" and "always_careful ops new_name_client"
  shows "pointer_run malloc ly h ops (new_pointer_client m) = Inl Terminated \<or>
    (\<exists>c. pointer_run malloc ly h ops (new_pointer_client m) = Inr c \<and>
      seen c = read_pairs (fold name_step ops new_name_client) \<and>
      mset (node_contents (client_table c)) = mset (name_map (fold name_step ops new_name_client)))"
  using pointer_run_ok [OF assms(1,2) new_names_ok [OF assms(3)] assms(4), of h]
  by (auto simp: overflow_or_def names_ok_def stands_for_def)

text \<open>A sample client: the first order is changed through its pointer after another one came and went.\<close>

definition pointer_ops :: "(u64, nat) client_op list" where
  "pointer_ops = [Operate (Put 2 20), Locate 2, Locate 7, Operate (Put 3 30), WritePtr 0 21, Operate (Remove 3), ReadPtr 0]"

theorem pointer_clients_refined_witness:
  "\<exists>c. pointer_run bump order_layout hash_of pointer_ops (new_pointer_client sample_memory) = Inr c \<and>
    seen c = [(2, 21)] \<and> mset (node_contents (client_table c)) = mset [(2, 21)]"
proof -
  have n: "case fold name_step pointer_ops new_name_client of
      n \<Rightarrow> always_careful pointer_ops new_name_client \<and> read_pairs n = [(2, 21)] \<and> name_map n = [(2, 21)]" by code_simp
  have "case pointer_run bump order_layout hash_of pointer_ops (new_pointer_client sample_memory) of
      Inl e \<Rightarrow> False | Inr c \<Rightarrow> True" by code_simp
  then show ?thesis
    using pointer_clients_refined [OF order_layout_ok bump_ok sample_memory_ok, of pointer_ops hash_of] n
    by (auto split: sum.splits)
qed

text \<open>
  C36. A copy is equal to its original and shares nothing with it: \<open>operator==\<close> says that they are equal,
  their nodes do not meet, the original's memory is as before, and destroying either of the two leaves the
  other one intact, with the destroyed one's memory returned.
\<close>

theorem node_copy_faithful:
  assumes "layout_ok ly" and "malloc_ok malloc" and "node_inv ly h other m F"
  shows "node_copy malloc ly other m = Inl Terminated \<or>
    (\<exists>nt m'. node_copy malloc ly other m = Inr (nt, m') \<and> node_contents nt = node_contents other \<and>
      table_equal snd h (table nt) (table other) = Inr True \<and> addresses nt \<inter> addresses other = {} \<and>
      (\<forall>(p, n) \<in> set (blocks m). \<forall>c. p \<le> c \<and> c < p + n \<longrightarrow> cell m' c = cell m c) \<and>
      (\<exists>m1. node_delete nt m' = Inr m1 \<and> node_inv ly h other m1 F) \<and>
      (\<exists>m2. node_delete other m' = Inr m2 \<and> node_inv ly h nt m2 F))"
proof -
  have "?thesis" if c: "node_copy malloc ly other m = Inr (nt, m')" and t: "two_tables ly h nt other m' F"
    and e: "node_contents nt = node_contents other" and u: "untouched ly {} (set (blocks m)) m m'" for nt m'
  proof -
    have ti: "table_inv h (table nt)" "table_inv h (table other)"
      using t by (auto simp: two_tables_def node_inv_def)
    have "pairs snd (table nt) = pairs snd (table other)"
      using arg_cong [OF e, of set] by (simp add: pairs_def node_contents_def plain_def)
    then have "table_equal snd h (table nt) (table other) = Inr True" using table_equal_ok [OF ti, of snd] by simp
    moreover have "\<exists>m1. node_delete nt m' = Inr m1 \<and> node_inv ly h other m1 F"
      using node_delete_other [OF assms(1) two_tables_sym [OF t]] by blast
    moreover have "\<exists>m2. node_delete other m' = Inr m2 \<and> node_inv ly h nt m2 F"
      using node_delete_other [OF assms(1) t] by blast
    moreover have "\<forall>(p, n) \<in> set (blocks m). \<forall>c. p \<le> c \<and> c < p + n \<longrightarrow> cell m' c = cell m c"
      using u by (simp add: untouched_def)
    ultimately show ?thesis using c e two_tables_disjoint [OF assms(1) t] by blast
  qed
  then show ?thesis using node_copy_ok [OF assms] by (auto simp: overflow_or_def)
qed

theorem node_copy_faithful_witness:
  "\<exists>nt m'. node_copy bump order_layout (fst sample_nodes) (snd sample_nodes) = Inr (nt, m') \<and>
    table_equal snd hash_of (table nt) (table (fst sample_nodes)) = Inr True"
proof -
  have "case node_copy bump order_layout (fst sample_nodes) (snd sample_nodes) of Inl e \<Rightarrow> False | Inr r \<Rightarrow> True"
    by code_simp
  with node_copy_faithful [OF order_layout_ok bump_ok sample_nodes_inv] show ?thesis by auto
qed

text \<open>
  C37. Assignment and \<open>swap\<close> between two tables: copying gives the left table the contents of the right one,
  moving and swapping never fail and pass on the very nodes; in each case the two tables are afterwards as
  separate as before, and nothing outside of them has changed.
\<close>

theorem node_assignments:
  assumes "layout_ok ly" and "malloc_ok malloc" and "two_tables ly h nt other m G"
  shows "(node_copy_assign malloc ly nt other m = Inl Terminated \<or>
      (\<exists>nt' m'. node_copy_assign malloc ly nt other m = Inr (nt', m') \<and> two_tables ly h nt' other m' G \<and>
        node_contents nt' = node_contents other \<and> untouched ly {} G m m')) \<and>
    (\<exists>nt' old m'. node_move_assign nt other m = Inr (nt', old, m') \<and> two_tables ly h nt' old m' G \<and>
      entries (table nt') = entries (table other) \<and> entries (table old) = [] \<and> untouched ly {} G m m') \<and>
    (\<exists>nt' other' m'. node_swap nt other m = Inr (nt', other', m') \<and> two_tables ly h nt' other' m' G \<and>
      entries (table nt') = entries (table other) \<and> entries (table other') = entries (table nt) \<and>
      untouched ly {} G m m')"
proof (intro conjI)
  show "node_copy_assign malloc ly nt other m = Inl Terminated \<or>
      (\<exists>nt' m'. node_copy_assign malloc ly nt other m = Inr (nt', m') \<and> two_tables ly h nt' other m' G \<and>
        node_contents nt' = node_contents other \<and> untouched ly {} G m m')"
    using node_copy_assign_ok [OF assms] by (auto simp: overflow_or_def)
qed (rule node_move_assign_ok [OF assms(1,3)] node_swap_ok [OF assms(1,3)])+

text \<open>The sample table and a new one.\<close>

lemma sample_two_tables:
  "two_tables order_layout hash_of new_node_table (fst sample_nodes) (snd sample_nodes) {(16, 40)}"
proof -
  have "node_inv order_layout hash_of new_node_table (snd sample_nodes) (set (blocks (snd sample_nodes)))"
    using stands_for_new node_inv_blocks(1) [OF sample_nodes_inv] by (fastforce simp: stands_for_def)
  then show ?thesis
    using sample_nodes_inv node_inv_blocks(2) [OF sample_nodes_inv] unfolding two_tables_def by blast
qed

theorem node_assignments_witness:
  "\<exists>nt' other' m'. node_swap new_node_table (fst sample_nodes) (snd sample_nodes) = Inr (nt', other', m') \<and>
    mset (node_contents nt') = {#(2, 20), (3, 30)#} \<and> node_contents other' = []"
proof -
  have "mset (node_contents (fst sample_nodes)) = {#(2, 20), (3, 30)#}" by code_simp
  moreover have "entries (table (new_node_table :: (u64, nat) NodeTable)) = []" by code_simp
  ultimately show ?thesis
    using node_assignments [OF order_layout_ok bump_ok sample_two_tables] by (fastforce simp: node_contents_def)
qed

text \<open>
  \<open>operator==\<close> is exact: it ends without a read outside the arrays, and answers whether the two tables
  map the same keys to the same values, wherever the pairs lie in them.
\<close>

lemma table_equal_exact:
  assumes "table_inv h t" and "table_inv h other"
  shows "table_equal second h t other =
    Inr (\<forall>k. map_option second (map_of (entries t) k) = map_option second (map_of (entries other) k))"
proof -
  have iff: "(k, w) \<in> pairs second s \<longleftrightarrow> map_option second (map_of (entries s) k) = Some w" if "table_inv h s" for s k w
    unfolding pairs_map_of [OF that] by auto
  have "pairs second t = pairs second other \<longleftrightarrow>
      (\<forall>k. map_option second (map_of (entries t) k) = map_option second (map_of (entries other) k))"
    unfolding set_eq_iff split_paired_All iff [OF assms(1)] iff [OF assms(2)] by (metis not_Some_eq)
  then show ?thesis using table_equal_ok [OF assms, of second] by simp
qed

lemma table_equal_exact_witness:
  "table_equal id hash_of sample_table new_table = Inr False"
proof -
  have "map_of (entries sample_table) 2 = Some 20" "map_of (entries (new_table :: (u64, nat) Table)) 2 = None"
    by code_simp+
  then have "\<not> (\<forall>k. map_option id (map_of (entries sample_table) k) = map_option id (map_of (entries new_table) k))"
    by (intro notI) (drule spec [of _ 2], simp)
  then show ?thesis using table_equal_exact [OF sample_table_inv table_inv_new, of id] by simp
qed

end
