(* ===== verification/Robin_Hood_Overloads.thy ===== *)
theory Robin_Hood_Overloads
  imports Robin_Hood_Equal
begin

text \<open>
  The remaining ways to insert into a hash table and to construct one, and the pairs in it
  (\<open>include/utils/robin_hood.h\<close>: \<open>try_emplace\<close>, the functions with a hint, the constructors from a range,
  the comparisons of \<open>pair\<close>). A hint is ignored. They all come down to \<open>emplace\<close>.
\<close>

section \<open>Insertion\<close>

definition table_insert :: "('k \<Rightarrow> u64) \<Rightarrow> 'k \<times> 'v \<Rightarrow> ('k, 'v) Table \<Rightarrow> (nat \<times> bool \<times> ('k, 'v) Table) res" where
  "table_insert h keyval t = table_emplace h (fst keyval) (snd keyval) t"

definition table_insert_hint :: "('k \<Rightarrow> u64) \<Rightarrow> nat \<Rightarrow> 'k \<times> 'v \<Rightarrow> ('k, 'v) Table \<Rightarrow> (nat \<times> ('k, 'v) Table) res" where
  "table_insert_hint h hint keyval t =
     rbind (table_emplace h (fst keyval) (snd keyval) t) (\<lambda>(i, inserted, t'). Inr (i, t'))"

definition table_emplace_hint :: "('k \<Rightarrow> u64) \<Rightarrow> nat \<Rightarrow> 'k \<Rightarrow> 'v \<Rightarrow> ('k, 'v) Table \<Rightarrow> (nat \<times> ('k, 'v) Table) res" where
  "table_emplace_hint h position key v t =
     rbind (table_emplace h key v t) (\<lambda>(i, inserted, t'). Inr (i, t'))"

definition table_try_emplace ::
  "('k \<Rightarrow> u64) \<Rightarrow> 'k \<Rightarrow> 'v \<Rightarrow> ('k, 'v) Table \<Rightarrow> (nat \<times> bool \<times> ('k, 'v) Table) res" where
  "table_try_emplace h key v t =
     rbind (insertKeyPrepareEmptySpot h key t) (\<lambda>(idx, st, t1).
     rbind (case st of
         key_found \<Rightarrow> Inr t1
       | new_node \<Rightarrow> put_node idx (key, v) t1
       | overwrite_node \<Rightarrow> put_node idx (key, v) t1
       | overflow_error \<Rightarrow> Inl Terminated) (\<lambda>t2.
     Inr (idx, st \<noteq> key_found, t2)))"

definition table_try_emplace_hint ::
  "('k \<Rightarrow> u64) \<Rightarrow> nat \<Rightarrow> 'k \<Rightarrow> 'v \<Rightarrow> ('k, 'v) Table \<Rightarrow> (nat \<times> ('k, 'v) Table) res" where
  "table_try_emplace_hint h hint key v t =
     rbind (table_try_emplace h key v t) (\<lambda>(i, inserted, t'). Inr (i, t'))"

definition insert_or_assign_hint ::
  "('k \<Rightarrow> u64) \<Rightarrow> nat \<Rightarrow> 'k \<Rightarrow> 'v \<Rightarrow> ('k, 'v) Table \<Rightarrow> (nat \<times> ('k, 'v) Table) res" where
  "insert_or_assign_hint h hint key v t =
     rbind (insert_or_assign h key v t) (\<lambda>(i, inserted, t'). Inr (i, t'))"

definition table_of_range :: "('k \<Rightarrow> u64) \<Rightarrow> ('k \<times> 'v) list \<Rightarrow> ('k, 'v) Table res" where
  "table_of_range h kvs = insert_range h kvs new_table"

definition table_not_equal :: "('v \<Rightarrow> 'w) \<Rightarrow> ('k \<Rightarrow> u64) \<Rightarrow> ('k, 'v) Table \<Rightarrow> ('k, 'v) Table \<Rightarrow> bool res" where
  "table_not_equal second h t other = rbind (table_equal second h t other) (\<lambda>b. Inr (\<not> b))"

lemma try_emplace_emplace: "table_try_emplace h k v t = table_emplace h k v t"
proof (cases "insertKeyPrepareEmptySpot h k t")
  case (Inr r)
  obtain i st t1 where "r = (i, st, t1)" by (cases r)
  with Inr show ?thesis
    by (cases st; cases "put_node i (k, v) t1") (simp_all add: table_try_emplace_def table_emplace_def)
qed (simp add: table_try_emplace_def table_emplace_def)

text \<open>A table made from a range finds of every key the first pair, in any order of the slots.\<close>

lemma map_of_list_run:
  "map_of (list_run (map (\<lambda>kv. Emplace (fst kv) (snd kv)) kvs) m) = map_of kvs ++ map_of m"
proof (induction kvs arbitrary: m)
  case (Cons kv kvs)
  have e: "map_of (hm_emplace k v l) = [k \<mapsto> v] ++ map_of l" for k and v :: 'b and l
    by (rule ext) (auto simp: hm_emplace_def hm_find_def map_add_def split: option.splits)
  show ?case unfolding list.map list_run.simps Cons.IH e by (cases kv) (simp add: map_add_def fun_eq_iff split: option.splits)
qed simp

lemma table_of_range_ok:
  "overflow_or (table_of_range h kvs) (\<lambda>t. table_inv h t \<and>
    (\<forall>k. table_find h t k = Inr (map_option (Pair k) (map_of kvs k))))"
  unfolding table_of_range_def insert_range_run
proof (rule overflow_or_mono [OF table_run_represents [OF table.represents_empty]])
  fix t
  assume r: "table.represents h t (list_run (map (\<lambda>kv. Emplace (fst kv) (snd kv)) kvs) [])"
  have "hm_find k (list_run (map (\<lambda>kv. Emplace (fst kv) (snd kv)) kvs) []) = map_of kvs k" for k
    by (simp add: hm_find_def map_of_list_run)
  then show "table_inv h t \<and> (\<forall>k. table_find h t k = Inr (map_option (Pair k) (map_of kvs k)))"
    using table.represents_find [OF r] r by (simp add: table.represents_def)
qed

section \<open>Pairs\<close>

definition pair_swap :: "'a \<times> 'b \<Rightarrow> 'a \<times> 'b \<Rightarrow> ('a \<times> 'b) \<times> ('a \<times> 'b)" where
  "pair_swap x y = ((fst y, snd y), (fst x, snd x))"

definition pair_equal :: "'a \<times> 'b \<Rightarrow> 'a \<times> 'b \<Rightarrow> bool" where
  "pair_equal x y \<longleftrightarrow> fst x = fst y \<and> snd x = snd y"

definition pair_not_equal :: "'a \<times> 'b \<Rightarrow> 'a \<times> 'b \<Rightarrow> bool" where
  "pair_not_equal x y \<longleftrightarrow> \<not> pair_equal x y"

definition pair_less :: "'a::ord \<times> 'b::ord \<Rightarrow> 'a \<times> 'b \<Rightarrow> bool" where
  "pair_less x y \<longleftrightarrow> fst x < fst y \<or> (\<not> fst y < fst x \<and> snd x < snd y)"

definition pair_greater :: "'a::ord \<times> 'b::ord \<Rightarrow> 'a \<times> 'b \<Rightarrow> bool" where
  "pair_greater x y \<longleftrightarrow> pair_less y x"

definition pair_less_equal :: "'a::ord \<times> 'b::ord \<Rightarrow> 'a \<times> 'b \<Rightarrow> bool" where
  "pair_less_equal x y \<longleftrightarrow> \<not> pair_greater x y"

definition pair_greater_equal :: "'a::ord \<times> 'b::ord \<Rightarrow> 'a \<times> 'b \<Rightarrow> bool" where
  "pair_greater_equal x y \<longleftrightarrow> \<not> pair_less x y"

lemmas pair_defs = pair_equal_def pair_not_equal_def pair_less_def pair_greater_def pair_less_equal_def
  pair_greater_equal_def

text \<open>The comparisons are those of one linear order, which agrees with equality.\<close>

lemma pair_linear_order:
  fixes x y z :: "'a::linorder \<times> 'b::linorder"
  shows "\<not> pair_less x x" and "pair_less x y \<Longrightarrow> pair_less y z \<Longrightarrow> pair_less x z"
    and "pair_less x y \<or> pair_equal x y \<or> pair_greater x y"
    and "pair_less_equal x y \<longleftrightarrow> pair_less x y \<or> pair_equal x y"
    and "pair_greater_equal x y \<longleftrightarrow> pair_less_equal y x"
  by (auto simp: pair_defs)

end
