(* ===== verification/Order_Factories.thy ===== *)
theory Order_Factories
  imports Samples
begin

text \<open>
  What each of the twelve factories of \<open>order.cpp\<close> returns, when a debug build refuses, and that the orders a
  client can have in its hands are orders a book takes.
\<close>

section \<open>Factories\<close>

text \<open>A new order: nothing of it is executed.\<close>

definition new_order ::
  "OrderType \<Rightarrow> OrderSide \<Rightarrow> OrderTimeInForce \<Rightarrow> u32 \<Rightarrow> u64 \<Rightarrow> u64 \<Rightarrow> u64 \<Rightarrow> u64 \<Rightarrow> u64 \<Rightarrow> Order" where
  "new_order ty sd t s p x a q i = \<lparr>otype = ty, side = sd, time_in_force = t, symbol_id = s, price = p, stop_price = x,
     trail_amount = a, last_executed_price = 0, oid = i, quantity = q, executed_quantity = 0, open_quantity = q,
     last_executed_quantity = 0\<rparr>"

text \<open>The fields that a type of order has are positive, the others are zero; nothing is executed.\<close>

definition fresh_order :: "Order \<Rightarrow> bool" where
  "fresh_order od \<longleftrightarrow> 0 < oid od \<and> 0 < symbol_id od \<and> 0 < quantity od \<and> open_quantity od = quantity od \<and>
     executed_quantity od = 0 \<and> last_executed_price od = 0 \<and> last_executed_quantity od = 0 \<and>
     (if limit_kind (otype od) then 0 < price od else price od = 0 \<and> time_in_force od \<noteq> GTC) \<and>
     (if otype od = Stop \<or> otype od = StopLimit then 0 < stop_price od else stop_price od = 0) \<and>
     (if trailing_kind (otype od) then 0 < trail_amount od else trail_amount od = 0)"

text \<open>A factory returns the order it was asked for; a debug build insists that it is one of its type.\<close>

definition made :: "build \<Rightarrow> Order \<Rightarrow> Order res" where
  "made d od = (if d = Debug \<and> \<not> fresh_order od then Inl AssertionFailure else Inr od)"

lemma made_Inr: "made d od = Inr od' \<Longrightarrow> od' = od"
  by (simp add: made_def split: if_splits)

lemma made_fresh: "fresh_order od \<Longrightarrow> made d od = Inr od"
  by (simp add: made_def)

lemmas kind_defs = limit_kind_def trailing_kind_def

lemma factories_made:
  "marketAskOrder d i s q t = made d (new_order Market Ask t s 0 0 0 q i)"
  "marketBidOrder d i s q t = made d (new_order Market Bid t s 0 0 0 q i)"
  "limitAskOrder d i s p q t = made d (new_order Limit Ask t s p 0 0 q i)"
  "limitBidOrder d i s p q t = made d (new_order Limit Bid t s p 0 0 q i)"
  "stopAskOrder d i s x q t = made d (new_order Stop Ask t s 0 x 0 q i)"
  "stopBidOrder d i s x q t = made d (new_order Stop Bid t s 0 x 0 q i)"
  "stopLimitAskOrder d i s p x q t = made d (new_order StopLimit Ask t s p x 0 q i)"
  "stopLimitBidOrder d i s p x q t = made d (new_order StopLimit Bid t s p x 0 q i)"
  "trailingStopAskOrder d i s a q t = made d (new_order TrailingStop Ask t s 0 0 a q i)"
  "trailingStopBidOrder d i s a q t = made d (new_order TrailingStop Bid t s 0 0 a q i)"
  "trailingStopLimitAskOrder d i s p a q t = made d (new_order TrailingStopLimit Ask t s p 0 a q i)"
  "trailingStopLimitBidOrder d i s p a q t = made d (new_order TrailingStopLimit Bid t s p 0 a q i)"
  by (auto simp: factory_defs made_def fresh_order_def new_order_def kind_defs newOrder_def Let_def check_def
      validateOrder_def)

lemma fresh_order_ok:
  assumes "fresh_order od" and "side od = Bid \<Longrightarrow> price od < u64_max"
  shows "order_ok d od"
  using assms by (auto simp: fresh_order_def order_ok_def quantity_ok_def)

lemma fresh_order_taken:
  assumes f: "fresh_order od" and r: "reachable d s b" and s: "symbol_id od = book_symbol_id b"
    and v: "order_view b (oid od) = None" and q: "total_open b + unat (quantity od) < 2 ^ 64"
    and u: "side od = Bid \<Longrightarrow> price od < u64_max"
  shows "\<exists>b'. addOrder d b od = Inr b' \<and> reachable d s b'"
proof -
  have "open_quantity od = quantity od" "open_quantity od \<noteq> 0" using f by (auto simp: fresh_order_def)
  then have p: "permitted d b (AddOrder od)" using fresh_order_ok [OF f u] s v q by (simp add: addable_def)
  have "book_inv d b" using reachable_inv [OF r] by simp
  from perform_ok [OF this p] obtain b' where b': "perform d b (AddOrder od) = Inr b'" by blast
  then have "reachable d s b'" using r p by (blast intro: reachable_step)
  with b' show ?thesis by auto
qed

section \<open>Property\<close>

text \<open>
  C5. Each of the twelve factories returns exactly the order of its own type and side, with its arguments in
  the fields they are meant for, the other fields zero and nothing executed. A release build always does; a
  debug build does if and only if the ID, the symbol, the quantity and the fields of the type are positive
  and the order is not good till cancelled unless it has a limit price, and otherwise an assertion fails. A
  reachable book takes each order that a debug build returns, if it is for the symbol of the book, its ID is
  not in use, the open quantities of the book and its own add up to less than \<open>2 ^ 64\<close>, and it is not a bid at
  the largest price.
\<close>

theorem factory_orders_typed:
  "marketAskOrder d i s q t = made d (new_order Market Ask t s 0 0 0 q i) \<and>
   marketBidOrder d i s q t = made d (new_order Market Bid t s 0 0 0 q i) \<and>
   limitAskOrder d i s p q t = made d (new_order Limit Ask t s p 0 0 q i) \<and>
   limitBidOrder d i s p q t = made d (new_order Limit Bid t s p 0 0 q i) \<and>
   stopAskOrder d i s x q t = made d (new_order Stop Ask t s 0 x 0 q i) \<and>
   stopBidOrder d i s x q t = made d (new_order Stop Bid t s 0 x 0 q i) \<and>
   stopLimitAskOrder d i s p x q t = made d (new_order StopLimit Ask t s p x 0 q i) \<and>
   stopLimitBidOrder d i s p x q t = made d (new_order StopLimit Bid t s p x 0 q i) \<and>
   trailingStopAskOrder d i s a q t = made d (new_order TrailingStop Ask t s 0 0 a q i) \<and>
   trailingStopBidOrder d i s a q t = made d (new_order TrailingStop Bid t s 0 0 a q i) \<and>
   trailingStopLimitAskOrder d i s p a q t = made d (new_order TrailingStopLimit Ask t s p 0 a q i) \<and>
   trailingStopLimitBidOrder d i s p a q t = made d (new_order TrailingStopLimit Bid t s p 0 a q i) \<and>
   (made Debug od = Inr od \<and> reachable d s' b \<and> symbol_id od = book_symbol_id b \<and> order_view b (oid od) = None \<and>
      total_open b + unat (quantity od) < 2 ^ 64 \<and> (side od = Bid \<longrightarrow> price od < u64_max) \<longrightarrow>
    (\<exists>b'. addOrder d b od = Inr b' \<and> reachable d s' b'))"
proof (intro conjI impI factories_made)
  assume a: "made Debug od = Inr od \<and> reachable d s' b \<and> symbol_id od = book_symbol_id b \<and>
      order_view b (oid od) = None \<and> total_open b + unat (quantity od) < 2 ^ 64 \<and>
      (side od = Bid \<longrightarrow> price od < u64_max)"
  then have "fresh_order od" by (auto simp: made_def split: if_splits)
  with a show "\<exists>b'. addOrder d b od = Inr b' \<and> reachable d s' b'" by (intro fresh_order_taken) simp_all
qed

theorem factory_orders_typed_witness:
  "\<exists>od b'. trailingStopLimitAskOrder Debug 9 1 120 5 10 GTC = Inr od \<and> side od = Ask \<and> price od = 120 \<and>
    addOrder Debug sample_book od = Inr b' \<and> reachable Debug 1 b'"
proof -
  let ?od = "new_order TrailingStopLimit Ask GTC 1 120 0 5 10 9"
  have f: "made Debug ?od = Inr ?od" by code_simp
  have a: "addable Debug sample_book ?od" by code_simp
  have s: "side ?od = Ask" "price ?od = 120" "quantity ?od = open_quantity ?od" by (simp_all add: new_order_def)
  have "symbol_id ?od = book_symbol_id sample_book" "order_view sample_book (oid ?od) = None"
      "total_open sample_book + unat (quantity ?od) < 2 ^ 64"
    using a s(3) unfolding addable_def by simp_all
  then have "trailingStopLimitAskOrder Debug 9 1 120 5 10 GTC = made Debug ?od \<and>
      (\<exists>b'. addOrder Debug sample_book ?od = Inr b' \<and> reachable Debug 1 b')"
    using factory_orders_typed [where d = Debug and i = 9 and s = 1 and p = 120 and a = 5 and q = 10 and t = GTC
        and od = ?od and s' = 1 and b = sample_book] f sample_reachable s(1) by simp
  then show ?thesis using f s by metis
qed

end
