(* ===== verification/Cancellations.thy ===== *)
theory Cancellations
  imports Samples
begin

text \<open>
  Cancelling a part of a resting order, in full: what each build does for every quantity. The code
  stores the cancelled quantity as the quantity of the order, and subtracts it from the open quantity
  even if it is larger; the section on deviations states what follows.
\<close>

section \<open>Books of the two builds\<close>

text \<open>A book that is consistent for a debug build is consistent for a release build.\<close>

lemma wrapper_ok_release: "wrapper_ok d s i w \<Longrightarrow> wrapper_ok Release s i w"
  by (auto simp: wrapper_ok_def order_ok_def quantity_ok_def)

lemma book_ok_release:
  assumes "book_ok d b"
  shows "book_ok Release b"
  using assms
  by (auto simp: book_ok_def wf_book_def views_ok_def orders_ok_def intro: wrapper_ok_release)

section \<open>Changing a resting order\<close>

text \<open>
  What is left to do when the order has been changed: on a book that is consistent for a release build
  neither build fails, as long as something of the order stays open.
\<close>

definition stored_back :: "build \<Rightarrow> Order \<Rightarrow> u64 \<Rightarrow> MapOrderBook \<Rightarrow> MapOrderBook res" where
  "stored_back d od i b = (if isFilled od then deleteOrder_notify d b i True else Inr b)"

definition cancelled :: "u64 \<Rightarrow> Order \<Rightarrow> Order" where
  "cancelled qty od = od\<lparr>quantity := min qty (open_quantity od), open_quantity := open_quantity od - qty\<rparr>"

lemma cancelled_simps [simp]:
  "otype (cancelled q od) = otype od" "side (cancelled q od) = side od" "oid (cancelled q od) = oid od"
  "price (cancelled q od) = price od" "stop_price (cancelled q od) = stop_price od"
  "time_in_force (cancelled q od) = time_in_force od" "symbol_id (cancelled q od) = symbol_id od"
  "trail_amount (cancelled q od) = trail_amount od" "executed_quantity (cancelled q od) = executed_quantity od"
  "quantity (cancelled q od) = min q (open_quantity od)" "open_quantity (cancelled q od) = open_quantity od - q"
  "last_executed_quantity (cancelled q od) = last_executed_quantity od"
  by (simp_all add: cancelled_def)

text \<open>The assertion of \<open>setQuantity\<close>, on an order of a consistent book.\<close>

definition cancel_asserted :: "u64 \<Rightarrow> Order \<Rightarrow> bool" where
  "cancel_asserted qty od \<longleftrightarrow> 0 < qty \<and> executed_quantity od \<le> min qty (open_quantity od) \<and>
     last_executed_quantity od \<le> min qty (open_quantity od)"

lemma validate_cancelled:
  assumes "order_ok d od" and "open_quantity od \<noteq> 0"
  shows "validateOrder (cancelled qty od) \<longleftrightarrow> cancel_asserted qty od"
  using assms
  by (cases "otype od") (auto simp: validateOrder_def cancel_asserted_def order_ok_def limit_kind_def
      trailing_kind_def word_gt_0 min_def)

lemma setQuantity_cancelled:
  assumes "order_ok d' od" and "open_quantity od \<noteq> 0"
  shows "setQuantity d qty od = check d (cancel_asserted qty od) (cancelled qty od)"
  using validate_cancelled [OF assms] by (simp add: setQuantity_def Let_def cancelled_def)

lemma wrapper_ok_cancelled:
  assumes "wrapper_ok d s i w"
  shows "wrapper_ok Release s i (w\<lparr>w_order := cancelled q (w_order w)\<rparr>)"
proof -
  have "erasing_map (cancelled q (w_order w)) = erasing_map (w_order w)"
      "level_price_of (cancelled q (w_order w)) = level_price_of (w_order w)"
    by (simp_all add: erasing_map_def level_price_of_def)
  with assms show ?thesis by (auto simp: wrapper_ok_def fits_def order_ok_def quantity_ok_def)
qed

section \<open>Cancelling what is open\<close>

lemma cancel_resting_run:
  assumes ok: "book_ok d' b" and w: "order_view b i = Some w" and l: "level_view b (level_it w) = Some l"
    and q: "qty \<le> open_quantity (w_order w)"
  shows "cancel_resting d b i qty = (if d = Debug \<and> \<not> cancel_asserted qty (w_order w) then Inl AssertionFailure
    else stored_back d (cancelled qty (w_order w)) i (store_level (level_it w) (l\<lparr>lv_volume := lv_volume l - qty\<rparr>)
      (emit (OrderUpdated (cancelled qty (w_order w))) (store_order i (cancelled qty (w_order w)) b))))"
proof -
  let ?od = "cancelled qty (w_order w)"
  note ok' = book_ok_release [OF ok]
  have wr: "wrapper_ok Release (book_symbol_id b) i w" using book_ok_views [OF ok'] w by (rule views_wrapper)
  have o: "open_quantity (w_order w) \<noteq> 0" using ok w by (rule book_ok_open)
  have set: "setQuantity d qty (w_order w) = check d (cancel_asserted qty (w_order w)) ?od"
    using wr o by (intro setQuantity_cancelled [where d' = Release]) (simp_all add: wrapper_ok_def)
  have heap: "book_heap (emit (OrderUpdated ?od) (store_order i ?od b)) = book_heap (store_order i ?od b)"
    by (simp add: book_heap_def)
  have "Level_reduceVolume d (book_heap (store_order i ?od b)) qty l = Inr (l\<lparr>lv_volume := lv_volume l - qty\<rparr>)"
    by (rule reduceVolume_ok(1) [OF book_ok_wf [OF ok'] w l wrapper_ok_cancelled [OF wr]]) (use q in simp_all)
  then show ?thesis
    using w l set by (cases "d = Debug \<and> \<not> cancel_asserted qty (w_order w)")
      (auto simp: cancel_resting_def find_order_eq find_level_eq Let_def heap stored_back_def check_def)
qed

text \<open>
  Where the order is cancelled in full, the assertion is exactly what the book needs to stay
  consistent; where a part stays open, no later step depends on the build.
\<close>

lemma cancellable_release: "qty \<le> open_quantity od \<Longrightarrow> cancellable Release qty od"
  by (simp add: cancellable_def quantity_ok_def)

lemma cancellable_asserted:
  assumes "cancellable Debug qty od"
  shows "cancel_asserted qty od"
proof -
  have "qty \<le> open_quantity od" "unat (executed_quantity od) \<le> unat qty"
    using assms by (simp_all add: cancellable_def quantity_ok_def)
  with assms show ?thesis by (auto simp: cancel_asserted_def cancellable_def quantity_ok_def min_def word_le_nat_alt)
qed

lemma asserted_in_full:
  "qty = open_quantity od \<Longrightarrow> cancel_asserted qty od \<Longrightarrow> cancellable d qty od"
  by (auto simp: cancellable_def quantity_ok_def cancel_asserted_def word_le_nat_alt)

lemma cancel_part_same:
  assumes ok: "book_ok d' b" and w: "order_view b i = Some w" and q: "qty < open_quantity (w_order w)"
    and a: "d = Debug \<Longrightarrow> cancel_asserted qty (w_order w)"
  shows "cancel_resting d b i qty = cancel_resting Release b i qty"
proof -
  obtain l where l: "level_view b (level_it w) = Some l" using ok w by (rule book_ok_home)
  have le: "qty \<le> open_quantity (w_order w)" using q by simp
  have "\<not> isFilled (cancelled qty (w_order w))" using q by auto
  then show ?thesis
    using a cancel_resting_run [OF ok w l le, of d] cancel_resting_run [OF ok w l le, of Release]
    by (cases d) (auto simp: stored_back_def)
qed

lemma cancel_resting_effect:
  assumes ok: "book_ok d b" and w: "order_view b i = Some w" and q: "qty \<le> open_quantity (w_order w)"
    and a: "d = Debug \<Longrightarrow> cancel_asserted qty (w_order w)" and od: "od = cancelled qty (w_order w)"
  shows "\<exists>b'. cancel_resting d b i qty = Inr b' \<and> book_ok Release b' \<and> reduced_to i od w b b' \<and>
    (cancellable d qty (w_order w) \<longrightarrow> book_ok d b') \<and>
    last_traded_price b' = last_traded_price b \<and> total_open b = total_open b' + unat qty \<and>
    events b' = events b @ OrderUpdated od # (if isFilled od then [OrderDeleted od] else [])"
proof -
  have od': "od = (w_order w)\<lparr>quantity := qty, open_quantity := open_quantity (w_order w) - qty\<rparr>"
    using q by (simp add: od cancelled_def min_def)
  show ?thesis
  proof (cases "cancellable d qty (w_order w)")
    case True
    with cancel_resting_ok [OF ok w True od'] show ?thesis by (blast intro: book_ok_release)
  next
    case False
    then have "qty < open_quantity (w_order w)" using a q asserted_in_full [of qty] cancellable_release
      by (cases d) (auto simp: order.order_iff_strict)
    then have "cancel_resting d b i qty = cancel_resting Release b i qty" using a by (rule cancel_part_same [OF ok w])
    with cancel_resting_ok [OF book_ok_release [OF ok] w cancellable_release [OF q] od'] False
    show ?thesis by auto
  qed
qed

lemma cancellable_if_ok:
  assumes "book_ok d b'" and "order_view b' i = Some (w\<lparr>w_order := cancelled qty (w_order w)\<rparr>)"
    and "qty \<le> open_quantity (w_order w)"
  shows "cancellable d qty (w_order w)"
proof -
  have "quantity_ok d (cancelled qty (w_order w))"
    using views_wrapper [OF book_ok_views [OF assms(1)] assms(2)] by (simp add: wrapper_ok_def order_ok_def)
  with assms(3) show ?thesis by (simp add: cancellable_def cancelled_def min_def)
qed

text \<open>
  C13. Cancelling at most what is open of an order of a consistent book. A debug build stops, with a failed
  assertion, if and only if the quantity is 0 or smaller than what was executed of the order, in all or last.
  In all other cases, and always in a release build, exactly the requested quantity is taken off the order,
  its level and the book, the update is reported, and the order is removed, and its deletion reported, if and
  only if nothing is left open. The requested quantity becomes the quantity of the order, so the resulting
  book, which a release build always keeps consistent, satisfies the debug build if and only if what was
  executed and what stays open fit into the requested quantity.
\<close>

theorem cancel_resting_contract:
  assumes "book_ok d b" and "order_view b i = Some w" and "qty \<le> open_quantity (w_order w)"
  shows "if d = Debug \<and> (qty = 0 \<or> qty < executed_quantity (w_order w) \<or> qty < last_executed_quantity (w_order w))
    then cancel_resting d b i qty = Inl AssertionFailure
    else \<exists>b' od. cancel_resting d b i qty = Inr b' \<and> book_ok Release b' \<and>
      (book_ok d b' \<longleftrightarrow> cancellable d qty (w_order w)) \<and>
      od = (w_order w)\<lparr>quantity := qty, open_quantity := open_quantity (w_order w) - qty\<rparr> \<and>
      order_view b' = (order_view b)
        (i := if open_quantity (w_order w) = qty then None else Some (w\<lparr>w_order := od\<rparr>)) \<and>
      (\<forall>it. it \<noteq> level_it w \<longrightarrow> level_view b' it = level_view b it) \<and>
      last_traded_price b' = last_traded_price b \<and>
      total_open b = total_open b' + unat qty \<and>
      events b' = events b @ OrderUpdated od #
        (if open_quantity (w_order w) = qty then [OrderDeleted od] else [])"
proof -
  obtain l where l: "level_view b (level_it w) = Some l" using assms(1,2) by (rule book_ok_home)
  let ?od = "cancelled qty (w_order w)"
  have od: "?od = (w_order w)\<lparr>quantity := qty, open_quantity := open_quantity (w_order w) - qty\<rparr>"
    using assms(3) by (simp add: cancelled_def min_def)
  have f: "isFilled ?od \<longleftrightarrow> open_quantity (w_order w) = qty" by simp
  have a: "cancel_asserted qty (w_order w) \<longleftrightarrow>
      \<not> (qty = 0 \<or> qty < executed_quantity (w_order w) \<or> qty < last_executed_quantity (w_order w))"
    using assms(3) by (auto simp: cancel_asserted_def min_def word_gt_0)
  show ?thesis
  proof (cases "d = Debug \<and> \<not> cancel_asserted qty (w_order w)")
    case True
    then show ?thesis using cancel_resting_run [OF assms(1,2) l assms(3), of d] a by auto
  next
    case False
    then obtain b' where b': "cancel_resting d b i qty = Inr b'" "book_ok Release b'" "reduced_to i ?od w b b'"
        "cancellable d qty (w_order w) \<longrightarrow> book_ok d b'" "last_traded_price b' = last_traded_price b"
        "total_open b = total_open b' + unat qty"
        "events b' = events b @ OrderUpdated ?od # (if isFilled ?od then [OrderDeleted ?od] else [])"
      using cancel_resting_effect [OF assms _ refl] by blast
    have ov: "order_view b' = (order_view b)
        (i := if open_quantity (w_order w) = qty then None else Some (w\<lparr>w_order := ?od\<rparr>))"
      using b'(3) by (simp add: reduced_to_def)
    have "cancellable d qty (w_order w)" if "book_ok d b'"
    proof (cases "open_quantity (w_order w) = qty")
      case True
      then show ?thesis using False asserted_in_full [of qty "w_order w" d] cancellable_release by (cases d) auto
    next
      case part: False
      then have "order_view b' i = Some (w\<lparr>w_order := ?od\<rparr>)" by (simp add: ov)
      with that show ?thesis using assms(3) by (rule cancellable_if_ok)
    qed
    then show ?thesis using False a b' ov by (auto simp: reduced_to_def od)
  qed
qed

text \<open>
  All of order 3 of the sample book is cancelled; taking 20 of the 60 of order 5 leaves 40 open of an
  order for 20.
\<close>

theorem cancel_resting_contract_witness:
  "(\<exists>b'. cancel_resting Debug sample_book 3 40 = Inr b' \<and> book_ok Debug b' \<and> order_view b' 3 = None) \<and>
   (\<exists>b'. cancel_resting Debug sample_book 5 20 = Inr b' \<and> \<not> book_ok Debug b' \<and> hasOrder b' 5)"
proof -
  have "case (order_view sample_book 3, order_view sample_book 5) of
      (Some w, Some w') \<Rightarrow> cancellable Debug 40 (w_order w) \<and> open_quantity (w_order w) = 40 \<and>
        executed_quantity (w_order w) = 0 \<and> last_executed_quantity (w_order w) = 0 \<and>
        \<not> cancellable Debug 20 (w_order w') \<and> open_quantity (w_order w') = 60 \<and>
        executed_quantity (w_order w') = 0 \<and> last_executed_quantity (w_order w') = 0
    | _ \<Rightarrow> False" by code_simp
  then obtain w w' where w: "order_view sample_book 3 = Some w" "cancellable Debug 40 (w_order w)"
      "open_quantity (w_order w) = 40" "executed_quantity (w_order w) = 0" "last_executed_quantity (w_order w) = 0"
    and w': "order_view sample_book 5 = Some w'" "\<not> cancellable Debug 20 (w_order w')"
      "open_quantity (w_order w') = 60" "executed_quantity (w_order w') = 0" "last_executed_quantity (w_order w') = 0"
    by (auto split: option.splits)
  have "\<exists>b'. cancel_resting Debug sample_book 3 40 = Inr b' \<and> book_ok Debug b' \<and> order_view b' 3 = None"
    using cancel_resting_contract [OF sample_ok w(1), of 40] w(2-5) by auto
  moreover have "\<exists>b'. cancel_resting Debug sample_book 5 20 = Inr b' \<and> \<not> book_ok Debug b' \<and> hasOrder b' 5"
    using cancel_resting_contract [OF sample_ok w'(1), of 20] w'(2-5) by (auto simp: hasOrder_eq)
  ultimately show ?thesis ..
qed

section \<open>The quantity is overwritten\<close>

text \<open>The assertion of \<open>execute\<close>, on any order of a book that is consistent for a release build.\<close>

lemma execute_resting_run:
  assumes ok: "book_ok Release b" and w: "order_view b i = Some w" and l: "level_view b (level_it w) = Some l"
    and q: "q = min qty (open_quantity (w_order w))"
  shows "execute_resting d b i qty price_of = (let od = executed (price_of (w_order w)) q (w_order w) in
    if d = Debug \<and> \<not> validateOrder od then Inl AssertionFailure
    else stored_back d od i (store_level (level_it w) (l\<lparr>lv_volume := lv_volume l - q\<rparr>)
      (emit (ExecutedOrder od) ((store_order i od b)\<lparr>last_traded_price := price_of (w_order w)\<rparr>))))"
proof -
  let ?x = "price_of (w_order w)" and ?od = "executed (price_of (w_order w)) q (w_order w)"
  have wr: "wrapper_ok Release (book_symbol_id b) i w" using book_ok_views [OF ok] w by (rule views_wrapper)
  have le: "q \<le> open_quantity (w_order w)" by (simp add: q)
  have wr': "wrapper_ok Release (book_symbol_id b) i (w\<lparr>w_order := ?od\<rparr>)"
    using wr by (intro wrapper_ok_same_terms [OF wr same_terms_executed] order_ok_executed [OF _ le])
      (simp add: wrapper_ok_def)
  have ex: "execute d (ucast ?x) q (w_order w) = check d (validateOrder ?od) ?od"
    by (simp add: execute_def Let_def executed_def)
  have heap: "book_heap (emit e ((store_order i ?od b)\<lparr>last_traded_price := ?x\<rparr>)) = book_heap (store_order i ?od b)" for e
    by (simp add: book_heap_def)
  have "Level_reduceVolume d (book_heap (store_order i ?od b)) q l = Inr (l\<lparr>lv_volume := lv_volume l - q\<rparr>)"
    by (rule reduceVolume_ok(1) [OF book_ok_wf [OF ok] w l wr']) (use le in simp_all)
  then show ?thesis
    using w l ex by (cases "d = Debug \<and> \<not> validateOrder ?od")
      (auto simp: execute_resting_def find_order_eq find_level_eq Let_def heap stored_back_def check_def q [symmetric])
qed

lemma validate_executed_cancelled:
  assumes "order_ok Debug od" and q: "0 < q" "q < open_quantity od" and x: "x \<le> open_quantity od - q"
    and e: "executed_quantity od \<le> q"
  shows "validateOrder (executed p x (cancelled q od)) \<longleftrightarrow> unat (executed_quantity od) + unat x \<le> unat q"
proof -
  have fit: "unat (executed_quantity od) + unat (open_quantity od) \<le> unat (quantity od)"
    using assms(1) by (simp add: order_ok_def quantity_ok_def)
  have "unat x \<le> unat (open_quantity od - q)" using x by (simp add: word_le_nat_alt)
  also have "\<dots> \<le> unat (open_quantity od)" using q(2) by (simp add: unat_sub_le)
  finally have "unat (executed_quantity od) + unat x < 18446744073709551616"
    using fit unat_u64_less [of "quantity od"] by linarith
  then have "unat (executed_quantity od + x) = unat (executed_quantity od) + unat x" by (rule unat_add_u64)
  then have sum: "executed_quantity od + x \<le> q \<longleftrightarrow> unat (executed_quantity od) + unat x \<le> unat q"
    by (simp add: word_le_nat_alt)
  have "min q (open_quantity od) = q" using q(2) by (intro min_absorb1) simp
  moreover have "x \<le> q" if "unat (executed_quantity od) + unat x \<le> unat q" using that by (simp add: word_le_nat_alt)
  ultimately show ?thesis
    using assms(1) q(1) sum
    by (cases "otype od") (auto simp: validateOrder_def order_ok_def limit_kind_def trailing_kind_def executed_def)
qed

text \<open>
  C17. \<open>cancelOrder\<close> overwrites the quantity of the order with the cancelled quantity. When a part of a resting
  order was cancelled, and the debug build let it pass, a later execution fails the validation of the order in a
  debug build exactly if what was executed before and what is executed now add up to more than the quantity that
  was cancelled, however much is open; a release build executes it.
\<close>

theorem cancelled_quantity_overwritten:
  assumes "book_ok Debug b" and "order_view b i = Some w" and "0 < q" and "q < open_quantity (w_order w)"
    and "executed_quantity (w_order w) \<le> q" and "last_executed_quantity (w_order w) \<le> q"
  shows "\<exists>b' w'. cancel_resting Debug b i q = Inr b' \<and> order_view b' i = Some w' \<and>
    quantity (w_order w') = q \<and> open_quantity (w_order w') = open_quantity (w_order w) - q \<and>
    (\<forall>n price_of. (if unat q < unat (executed_quantity (w_order w)) + unat (min n (open_quantity (w_order w')))
       then execute_resting Debug b' i n price_of = Inl AssertionFailure
       else \<exists>b''. execute_resting Debug b' i n price_of = Inr b'') \<and>
      (\<exists>b''. execute_resting Release b' i n price_of = Inr b''))"
proof -
  let ?c = "cancelled q (w_order w)" and ?w = "w\<lparr>w_order := cancelled q (w_order w)\<rparr>"
  have le: "q \<le> open_quantity (w_order w)" using assms(4) by simp
  have a: "cancel_asserted q (w_order w)" using assms(3-6) by (auto simp: cancel_asserted_def)
  obtain b' where b': "cancel_resting Debug b i q = Inr b'" "book_ok Release b'" "reduced_to i ?c w b b'"
      "cancellable Debug q (w_order w) \<longrightarrow> book_ok Debug b'"
    using cancel_resting_effect [OF assms(1,2) le a refl] by blast
  have w': "order_view b' i = Some ?w" using b'(3) assms(4) by (simp add: reduced_to_def)
  have od: "order_ok Debug (w_order w)"
    using views_wrapper [OF book_ok_views [OF assms(1)] assms(2)] by (simp add: wrapper_ok_def)
  have min: "min q (open_quantity (w_order w)) = q" using le by (simp add: min_def)
  obtain l where l: "level_view b' (level_it ?w) = Some l" using b'(2) w' by (rule book_ok_home)
  have release: "\<exists>b''. execute_resting Release b' i n f = Inr b''" for n f
    using execute_resting_ok [OF b'(2) w' refl] by blast
  have debug: "if unat q < unat (executed_quantity (w_order w)) + unat (min n (open_quantity (w_order w) - q))
      then execute_resting Debug b' i n f = Inl AssertionFailure
      else \<exists>b''. execute_resting Debug b' i n f = Inr b''" (is "if ?large then _ else _") for n f
  proof -
    let ?x = "min n (open_quantity (w_order w) - q)"
    note run = execute_resting_run [OF b'(2) w' l refl, of _ n f]
    have valid: "validateOrder (executed (f ?c) ?x ?c) \<longleftrightarrow> \<not> ?large"
      using validate_executed_cancelled [OF od assms(3,4) _ assms(5), of ?x] by (simp add: not_less)
    show ?thesis
    proof (cases "\<not> ?large \<and> ?x = open_quantity (w_order w) - q")
      case True
      then have "unat (executed_quantity (w_order w)) + unat (open_quantity (w_order w) - q) \<le> unat q"
        by (metis not_less)
      then have "cancellable Debug q (w_order w)"
        using assms(3,6) le by (simp add: cancellable_def quantity_ok_def)
      then have "book_ok Debug b'" using b'(4) by simp
      then have "\<exists>b''. execute_resting Debug b' i n f = Inr b''" using execute_resting_ok [OF _ w' refl] by blast
      then show ?thesis by (subst if_not_P [OF conjunct1 [OF True]])
    next
      case False
      then show ?thesis using run [of Debug] valid by (auto simp: Let_def stored_back_def)
    qed
  qed
  show ?thesis
    by (rule exI [of _ b'], rule exI [of _ ?w]) (use b'(1) w' release debug in \<open>simp add: min\<close>)
qed

text \<open>Of order 5 of the sample book 20 of 60 are cancelled; the debug build then refuses to execute 21.\<close>

theorem cancelled_quantity_overwritten_witness:
  "\<exists>b'. cancel_resting Debug sample_book 5 20 = Inr b' \<and>
    execute_resting Debug b' 5 21 getPrice = Inl AssertionFailure \<and>
    (\<exists>b''. execute_resting Debug b' 5 20 getPrice = Inr b'') \<and> (\<exists>b''. execute_resting Release b' 5 21 getPrice = Inr b'')"
proof -
  have "case order_view sample_book 5 of None \<Rightarrow> False | Some w \<Rightarrow> open_quantity (w_order w) = 60 \<and>
      executed_quantity (w_order w) = 0 \<and> last_executed_quantity (w_order w) = 0" by code_simp
  then obtain w where w: "order_view sample_book 5 = Some w" "open_quantity (w_order w) = 60"
      "executed_quantity (w_order w) = 0" "last_executed_quantity (w_order w) = 0"
    by (auto split: option.splits)
  have h: "0 < (20 :: u64)" "20 < open_quantity (w_order w)" "executed_quantity (w_order w) \<le> 20"
      "last_executed_quantity (w_order w) \<le> 20"
    using w(2-4) by simp_all
  from cancelled_quantity_overwritten [OF sample_ok w(1) h] show ?thesis
  proof (elim exE conjE, goal_cases)
    case (1 b' w')
    have n: "open_quantity (w_order w') = 40" using 1(4) w(2) by simp
    from 1(1) spec [OF spec [OF 1(5), of 21], of getPrice] spec [OF spec [OF 1(5), of 20], of getPrice]
    show ?case by (auto simp: n w(3) min_def)
  qed
qed

section \<open>Cancelling more than is open\<close>

lemma validateLevel_changed:
  assumes ok: "book_ok d b" and w: "order_view b i = Some w" and l: "level_view b (level_it w) = Some l"
    and same: "side od = side (w_order w)" "otype od = otype (w_order w)" "price od = price (w_order w)"
      "stop_price od = stop_price (w_order w)"
  shows "validateLevel (book_heap (store_order i od b))
    (l\<lparr>lv_volume := lv_volume l - open_quantity (w_order w) + open_quantity od\<rparr>)"
proof -
  note V = book_ok_views [OF ok]
  have v: "validateLevel (book_heap b) l" unfolding book_heap_view using V l by (rule views_validateLevel)
  have mem: "i \<in> set (lv_orders l)" using views_home [OF V w] l by auto
  have dist: "distinct (lv_orders l)" using views_level [OF V l] by (simp add: level_ok_def)
  have heap: "book_heap (store_order i od b) = (book_heap b)(i \<mapsto> od)"
    using order_view_store_order [OF w, of od] by (simp add: book_heap_view view_heap_def fun_eq_iff)
  have wi: "book_heap b i = Some (w_order w)" using w by (simp add: book_heap_view view_heap_def)
  let ?h = "(book_heap b)(i \<mapsto> od)"
  have "sum_list (map (open_of ?h) (remove1 i (lv_orders l))) = sum_list (map (open_of (book_heap b)) (remove1 i (lv_orders l)))"
    using dist by (intro arg_cong [where f = sum_list] map_cong refl) (auto simp: open_of_def)
  then have "actual_volume ?h l = actual_volume (book_heap b) l - open_quantity (w_order w) + open_quantity od"
    using mem wi unfolding sum_list_remove1_word [OF mem] actual_volume_def
    by (simp add: open_of_def algebra_simps)
  then have "actual_volume ?h (l\<lparr>lv_volume := x\<rparr>) = lv_volume l - open_quantity (w_order w) + open_quantity od" for x
    using v by (simp add: actual_volume_def validateLevel_def)
  moreover have "case ?h j of None \<Rightarrow> False | Some o' \<Rightarrow> valid_in_level (l\<lparr>lv_volume := x\<rparr>) o'"
    if "j \<in> set (lv_orders l)" for j x
  proof -
    have "case book_heap b j of None \<Rightarrow> False | Some o' \<Rightarrow> valid_in_level l o'"
      using v that by (auto simp: validateLevel_def list_all_iff)
    then show ?thesis
      using wi same by (cases "j = i") (auto simp: valid_in_level_def level_price_of_def split: option.splits)
  qed
  ultimately show ?thesis
    unfolding heap validateLevel_def list_all_iff by simp
qed

lemma cancel_beyond_run:
  assumes ok: "book_ok d b" and w: "order_view b i = Some w" and l: "level_view b (level_it w) = Some l"
    and q: "open_quantity (w_order w) < qty"
  shows "cancel_resting d b i qty =
    (if d = Debug \<and> \<not> (cancel_asserted qty (w_order w) \<and> qty \<le> lv_volume l) then Inl AssertionFailure
     else Inr (store_level (level_it w) (l\<lparr>lv_volume := lv_volume l - qty\<rparr>)
       (emit (OrderUpdated (cancelled qty (w_order w))) (store_order i (cancelled qty (w_order w)) b))))"
proof -
  let ?od = "cancelled qty (w_order w)"
  have wr: "wrapper_ok d (book_symbol_id b) i w" using book_ok_views [OF ok] w by (rule views_wrapper)
  have set: "setQuantity d qty (w_order w) = check d (cancel_asserted qty (w_order w)) ?od"
    using wr book_ok_open [OF ok w] by (intro setQuantity_cancelled [where d' = d]) (simp_all add: wrapper_ok_def)
  have heap: "book_heap (emit (OrderUpdated ?od) (store_order i ?od b)) = book_heap (store_order i ?od b)"
    by (simp add: book_heap_def)
  have "validateLevel (book_heap (store_order i ?od b)) (l\<lparr>lv_volume := lv_volume l - qty\<rparr>)"
    using validateLevel_changed [OF ok w l, of ?od] by (simp add: algebra_simps)
  then have red: "Level_reduceVolume d (book_heap (store_order i ?od b)) qty l =
      check d (qty \<le> lv_volume l) (l\<lparr>lv_volume := lv_volume l - qty\<rparr>)"
    by (simp add: Level_reduceVolume_def Let_def check_def)
  have nf: "\<not> isFilled ?od" using q by auto
  show ?thesis
    using w l set red nf
    by (cases d) (auto simp: cancel_resting_def find_order_eq find_level_eq Let_def heap check_def)
qed

text \<open>
  C18. Cancelling more than is open does not remove the order, as documented: its open quantity wraps around. In
  a release build, for every order of a consistent book and every such quantity, the order stays in the book with
  \<open>2 ^ 64\<close> less the excess open, its quantity becomes what was open, and the whole requested quantity is taken off
  its level. A debug build does the same, if nothing but the level's volume, of all its orders together, covers
  the request and no more was executed of the order than was open; otherwise an assertion fails.
\<close>

theorem cancel_beyond_open_wraps:
  assumes "book_ok d b" and "order_view b i = Some w" and "level_view b (level_it w) = Some l"
    and "open_quantity (w_order w) < qty"
  shows "if d = Debug \<and> (lv_volume l < qty \<or> open_quantity (w_order w) < executed_quantity (w_order w) \<or>
      open_quantity (w_order w) < last_executed_quantity (w_order w))
    then cancel_resting d b i qty = Inl AssertionFailure
    else \<exists>b' od. cancel_resting d b i qty = Inr b' \<and>
      order_view b' = (order_view b)(i \<mapsto> w\<lparr>w_order := od\<rparr>) \<and>
      od = (w_order w)\<lparr>quantity := open_quantity (w_order w), open_quantity := open_quantity od\<rparr> \<and>
      unat (open_quantity od) = 2 ^ 64 - (unat qty - unat (open_quantity (w_order w))) \<and>
      level_view b' = (level_view b)(level_it w \<mapsto> l\<lparr>lv_volume := lv_volume l - qty\<rparr>) \<and>
      events b' = events b @ [OrderUpdated od]"
proof -
  let ?od = "cancelled qty (w_order w)" and ?n = "open_quantity (w_order w)"
  let ?b = "store_level (level_it w) (l\<lparr>lv_volume := lv_volume l - qty\<rparr>) (emit (OrderUpdated ?od) (store_order i ?od b))"
  have m: "min qty ?n = ?n" using assms(4) by (intro min_absorb2) simp
  have a: "cancel_asserted qty (w_order w) \<longleftrightarrow> \<not> (?n < executed_quantity (w_order w) \<or> ?n < last_executed_quantity (w_order w))"
    using assms(4) by (auto simp: cancel_asserted_def m not_less word_gt_0)
  have ov: "order_view ?b = (order_view b)(i \<mapsto> w\<lparr>w_order := ?od\<rparr>)"
    using order_view_store_order [OF assms(2), of ?od] by simp
  have lv: "level_view ?b = (level_view b)(level_it w \<mapsto> l\<lparr>lv_volume := lv_volume l - qty\<rparr>)"
    using level_view_store_level [of "emit (OrderUpdated ?od) (store_order i ?od b)" "level_it w" l] assms(3) by simp
  have "unat ?n < unat qty" using assms(4) by (simp add: word_less_nat_alt)
  then have n: "unat (?n - qty) = 2 ^ 64 - (unat qty - unat ?n)" by (simp add: unat_sub_if')
  have od: "?od = (w_order w)\<lparr>quantity := ?n, open_quantity := open_quantity ?od\<rparr>" by (simp add: cancelled_def m)
  show ?thesis
    unfolding cancel_beyond_run [OF assms] using a ov lv n od
    by (auto simp: not_less intro!: exI [of _ ?od])
qed

text \<open>
  Order 3 of the sample book is alone in its level, and a debug build refuses to cancel 41 of its 40; order 1
  shares its level of 60 with another order, and both builds let 31 of its 30 be cancelled.
\<close>

theorem cancel_beyond_open_wraps_witness:
  "cancel_resting Debug sample_book 3 41 = Inl AssertionFailure \<and>
   (\<exists>b' w'. cancel_resting Debug sample_book 1 31 = Inr b' \<and> order_view b' 1 = Some w' \<and>
      unat (open_quantity (w_order w')) = 2 ^ 64 - 1)"
proof -
  have "case (order_view sample_book 3, order_view sample_book 1) of
      (Some w, Some w') \<Rightarrow> open_quantity (w_order w) = 40 \<and> open_quantity (w_order w') = 30 \<and>
        executed_quantity (w_order w') = 20 \<and> last_executed_quantity (w_order w') = 20 \<and>
        (case (level_view sample_book (level_it w), level_view sample_book (level_it w')) of
          (Some l, Some l') \<Rightarrow> lv_volume l = 40 \<and> lv_volume l' = 60 | _ \<Rightarrow> False)
    | _ \<Rightarrow> False" by code_simp
  then obtain w w' l l' where w: "order_view sample_book 3 = Some w" "level_view sample_book (level_it w) = Some l"
      "open_quantity (w_order w) = 40" "lv_volume l = 40"
    and w': "order_view sample_book 1 = Some w'" "level_view sample_book (level_it w') = Some l'"
      "open_quantity (w_order w') = 30" "executed_quantity (w_order w') = 20"
      "last_executed_quantity (w_order w') = 20" "lv_volume l' = 60"
    by (auto split: option.splits)
  have "cancel_resting Debug sample_book 3 41 = Inl AssertionFailure"
    using cancel_beyond_open_wraps [OF sample_ok w(1,2), of 41] w(3,4) by simp
  moreover have "\<exists>b' v. cancel_resting Debug sample_book 1 31 = Inr b' \<and> order_view b' 1 = Some v \<and>
      unat (open_quantity (w_order v)) = 2 ^ 64 - 1"
    using cancel_beyond_open_wraps [OF sample_ok w'(1,2), of 31] w'(3-6) by auto
  ultimately show ?thesis by blast
qed

end
