(* ===== verification/Quiet_Proofs.thy ===== *)
theory Quiet_Proofs
  imports Samples Event_Frame
begin

text \<open>
  Settling a book in which the market price has reached no stop price: nothing is activated, and of all
  orders only the trailing stop orders may get another stop price. For what an operation does between its
  own change of the book and the end, this is the frame.
\<close>

section \<open>What settling a quiet book leaves alone\<close>

text \<open>A wrapper after its order has followed the market, if it is one that does.\<close>

definition retrailed :: "OrderWrapper \<Rightarrow> OrderWrapper \<Rightarrow> bool" where
  "retrailed w w' \<longleftrightarrow> w' = w \<or>
     trailing_kind (otype (w_order w)) \<and> (\<exists>x. w_order w' = (w_order w)\<lparr>stop_price := x\<rparr>) \<and>
       fst (level_it w') = fst (level_it w)"

lemma retrailed_refl [simp]: "retrailed w w"
  by (simp add: retrailed_def)

lemma retrailed_trans: "retrailed u v \<Longrightarrow> retrailed v w \<Longrightarrow> retrailed u w"
  by (auto simp: retrailed_def)

definition quiet_rel :: "MapOrderBook \<Rightarrow> MapOrderBook \<Rightarrow> bool" where
  "quiet_rel b b' \<longleftrightarrow>
     book_symbol_id b' = book_symbol_id b \<and> last_traded_price b' = last_traded_price b \<and>
     total_open b' = total_open b \<and> stop_count b' = stop_count b \<and>
     (\<forall>i. case order_view b i of None \<Rightarrow> order_view b' i = None
        | Some w \<Rightarrow> \<exists>w'. order_view b' i = Some w' \<and> retrailed w w') \<and>
     (\<forall>K p. limit_map K \<longrightarrow> level_view b' (K, p) = level_view b (K, p))"

lemma quiet_rel_trans:
  assumes "quiet_rel b b1" and "quiet_rel b1 b2"
  shows "quiet_rel b b2"
proof -
  have "case order_view b i of None \<Rightarrow> order_view b2 i = None
      | Some w \<Rightarrow> \<exists>w'. order_view b2 i = Some w' \<and> retrailed w w'" for i
    using assms unfolding quiet_rel_def
    by (cases "order_view b i") (auto dest!: spec [of _ i], metis retrailed_trans)
  with assms show ?thesis by (simp add: quiet_rel_def)
qed

lemma quiet_rel_update:
  assumes ok: "book_ok d b" and u: "update_rel s b b'"
  shows "quiet_rel b b'"
proof -
  have "retrailed w (trailed s b w)" if w: "order_view b i = Some w" "fst (level_it w) = trailing_map s" for i w
  proof -
    have "fits (trailing_map s) (w_order w)"
      using views_wrapper [OF book_ok_views [OF ok] w(1)] w(2) by (simp add: wrapper_ok_def)
    then have "trailing_kind (otype (w_order w))"
      by (cases "otype (w_order w)"; cases "side (w_order w)"; cases s)
        (auto simp: fits_def erasing_map_def trailing_map_def trailing_kind_def)
    then show ?thesis using w(2) by (auto simp: retrailed_def trailed_def Let_def)
  qed
  then have "case order_view b i of None \<Rightarrow> order_view b' i = None
      | Some w \<Rightarrow> \<exists>w'. order_view b' i = Some w' \<and> retrailed w w'" for i
    using u unfolding update_rel_def by (cases "order_view b i") (auto, metis retrailed_refl)
  moreover have "level_view b' (K, p) = level_view b (K, p)" if "limit_map K" for K p
    using u that by (auto simp: update_rel_def limit_map_def trailing_map_def split: if_splits)
  ultimately show ?thesis using u by (simp add: quiet_rel_def update_rel_def)
qed

section \<open>Settling\<close>

lemma activation_loop_quiet:
  assumes ok: "book_ok d b" and n: "none_triggered s x b" and K: "stop_map s K"
  shows "activation_loop d s K x b a = Some (Inr (b, a))"
proof -
  have "\<not> triggered s x p" if "next_stop_level s K b = Some (p, l)" for p l
    using next_stop_level_Some [OF book_ok_wf [OF ok] that] n K unfolding none_triggered_def by blast
  then show ?thesis by (subst activation_loop.simps) (auto split: option.split)
qed

lemma activate_side_quiet:
  assumes "book_ok d b" and "none_triggered s (market_price s b) b"
  shows "activate_side d s b = Inr (b, False)"
  using activation_loop_quiet [OF assms] by (cases s) (simp_all add: activate_side_eq trailing_map_def)

lemma settle_quiet:
  assumes inv: "book_inv d b"
  shows "\<exists>b'. settle d b = Inr b' \<and> book_inv d b' \<and> quiet_rel b b'"
proof -
  have ok: "book_ok d b" and u: "uncrossed b" and q: "quiet b" using inv by (simp_all add: book_inv_def)
  obtain b2 where 2: "update_side d Ask b = Inr b2" "book_ok d b2" "update_rel Ask b b2"
    using update_side_ok [OF ok, of Ask] by blast
  obtain b4 where 4: "update_side d Bid b2 = Inr b4" "book_ok d b4" "update_rel Bid b2 b4"
    using update_side_ok [OF 2(2), of Bid] by blast
  have n: "none_triggered s (market_price s b) b" for s using q by (simp add: quiet_def)
  have "activate_side d Ask b2 = Inr (b2, False)"
    using update_none_triggered [OF 2(3) n] by (rule activate_side_quiet [OF 2(2)])
  then have "activation_round d b = Inr (b4, False)"
    using activate_side_quiet [OF ok n, of Bid] 2(1) 4(1) by (simp add: activation_round_eq)
  then have r: "activate_rounds d b = Some (Inr b4)" by (subst activate_rounds.simps) simp
  obtain b' where "settle d b = Inr b'" "book_inv d b'" using settle_ok [OF ok u] by blast
  moreover from this r have "b' = b4" by (auto simp: settle_def activateStopOrders_def check_def split: if_splits)
  ultimately show ?thesis
    using quiet_rel_trans [OF quiet_rel_update [OF ok 2(3)] quiet_rel_update [OF 2(2) 4(3)]] by blast
qed

text \<open>Without any stop order, settling records the market price and does nothing else.\<close>

lemma no_stop_levels:
  assumes ok: "book_ok d b" and z: "stop_count b = 0" and K: "\<not> limit_map K"
  shows "levels K b = []"
proof -
  have "level_view b (K, p) = None" for p
  proof (rule ccontr)
    assume "level_view b (K, p) \<noteq> None"
    then obtain l where l: "level_view b (K, p) = Some l" by blast
    obtain i w where w: "order_view b i = Some w" "level_it w = (K, p)" "wrapper_ok d (book_symbol_id b) i w"
      using ok l by (rule book_ok_front) blast
    have "K \<noteq> NewTrailingLevels" using l book_ok_new [OF ok] by auto
    then have t: "stop_kind (otype (w_order w))"
      using w(2,3) K by (cases "otype (w_order w)"; cases "side (w_order w)")
        (auto simp: wrapper_ok_def fits_def erasing_map_def limit_map_def stop_kind_def trailing_kind_def)
    obtain b1 where "stop_count b = (if stop_kind (otype (w_order w)) then 1 else 0) + stop_count b1"
      using ok w(1) by (rule book_ok_delete) blast
    with t z show False by simp
  qed
  then have "om_find p (levels K b) = None" for p by (simp add: level_view_def)
  then have "e \<notin> set (levels K b)" for e
    using om_find_Some_iff [OF wf_book_om [OF book_ok_wf [OF ok], of K], of "fst e" "snd e"] by simp
  then show ?thesis by (cases "levels K b") auto
qed

lemma no_stops_quiet:
  assumes ok: "book_ok d b" and z: "stop_count b = 0"
  shows "quiet b"
proof -
  have "level_view b (K, p) = None" if "stop_map s K" for s K p
    using no_stop_levels [OF ok z stop_map_not(1) [OF that]] by (simp add: level_view_def om_find_def)
  then show ?thesis by (auto simp: quiet_def none_triggered_def)
qed

definition market_noted :: "MapOrderBook \<Rightarrow> MapOrderBook" where
  "market_noted b = b\<lparr>trailing_bid_price := last_traded_price b, trailing_ask_price := last_traded_price b\<rparr>"

lemma settle_no_stops:
  assumes ok: "book_ok d b" and u: "uncrossed b" and z: "stop_count b = 0"
  shows "settle d b = Inr (market_noted b)"
proof -
  have n: "none_triggered s (market_price s b) b" for s using no_stops_quiet [OF ok z] by (simp add: quiet_def)
  have e: "trailing_stop_ask_levels b = []" "trailing_stop_bid_levels b = []"
    using no_stop_levels [OF ok z, where K = TrailingStopAskLevels]
      no_stop_levels [OF ok z, where K = TrailingStopBidLevels]
    by (simp_all add: limit_map_def)
  let ?b2 = "b\<lparr>trailing_bid_price := last_traded_price b\<rparr>"
  have u2: "update_side d Ask b = Inr ?b2" using e by (simp add: update_side_def updateAskStopOrders_def)
  have "none_triggered Ask (market_price Ask ?b2) ?b2"
    using n [of Ask] market_price_cong [of ?b2 b Ask] by (simp add: none_triggered_def)
  then have "activate_side d Ask ?b2 = Inr (?b2, False)" using ok by (intro activate_side_quiet) simp_all
  moreover have "update_side d Bid ?b2 = Inr (market_noted b)"
    using e by (simp add: update_side_def updateBidStopOrders_def market_noted_def)
  ultimately have "activation_round d b = Inr (market_noted b, False)"
    using activate_side_quiet [OF ok n, of Bid] u2 by (simp add: activation_round_eq)
  then have "activate_rounds d b = Some (Inr (market_noted b))" by (subst activate_rounds.simps) simp
  moreover obtain b' where "settle d b = Inr b'" using settle_ok [OF ok u] by blast
  ultimately show ?thesis by (auto simp: settle_def activateStopOrders_def check_def split: if_splits)
qed

section \<open>Events are only appended\<close>

lemma appends:
  assumes "\<And>es c. f (prior es c) = rmap (prior es) (f c)" and "f b = Inr b'"
  shows "\<exists>es. events b' = events b @ es"
proof -
  have "b = prior (events b) (silent b)" by (simp add: silent_def prior_def)
  then have "rmap (prior (events b)) (f (silent b)) = Inr b'" using assms by metis
  then show ?thesis by (auto simp: rmap_def rbind_eq_Inr)
qed

lemma settle_appends: "settle d b = Inr b' \<Longrightarrow> \<exists>es. events b' = events b @ es"
  by (rule appends [OF settle_prior])

lemma submit_appends: "submit d b od = Inr b' \<Longrightarrow> \<exists>es. events b' = events b @ es"
  by (rule appends [OF submit_prior])

section \<open>The queue of a side\<close>

text \<open>A queue depends on the levels of its side and the orders in them.\<close>

lemma opposite_queue_cong:
  assumes ok: "book_ok d b" and ok': "book_ok d b'"
    and lv: "\<And>p. level_view b' (opposite_map od, p) = level_view b (opposite_map od, p)"
    and ov: "\<And>i w. order_view b i = Some w \<Longrightarrow> fst (level_it w) = opposite_map od \<Longrightarrow> order_view b' i = Some w"
  shows "opposite_queue (side od) b' = opposite_queue (side od) b"
proof -
  let ?K = "opposite_map od"
  note om = wf_book_om [OF book_ok_wf [OF ok], of ?K] wf_book_om [OF book_ok_wf [OF ok'], of ?K]
  have "levels ?K b' = levels ?K b" using om lv by (intro om_ext) (simp_all add: level_view_def)
  then have bf: "best_first (side od) b' = best_first (side od) b" by (simp add: best_first_levels)
  have "level_entries (book_heap b') e = level_entries (book_heap b) e" if e: "e \<in> set (best_first (side od) b)" for e
  proof (rule level_entries_cong)
    fix i assume i: "i \<in> set (lv_orders (snd e))"
    have "level_view b (?K, fst e) = Some (snd e)" using best_first_view [OF book_ok_wf [OF ok] e] .
    then obtain w where "order_view b i = Some w" "level_it w = (?K, fst e)"
      using views_member [OF book_ok_views [OF ok] _ i] by blast
    then show "book_heap b' i = book_heap b i" using ov [of i w] by (simp add: book_heap_view view_heap_def)
  qed
  then show ?thesis unfolding opposite_queue_def bf by (intro arg_cong [where f = concat] map_cong refl)
qed

end
