(* ===== verification/Limit_Engine.thy ===== *)
theory Limit_Engine
  imports Quiet_Proofs
begin

text \<open>
  A book of limit orders as two queues. The specification \<open>engine_add\<close> knows two lists of (ID, price,
  quantity), best first: an incoming order takes from the front of the opposite list what its price accepts,
  and what is left of an order that is good till cancelled goes into the list of its own side, behind all
  orders that are at least as good. Adding a limit order to the book refines it.
\<close>

section \<open>The specification\<close>

definition other_side :: "OrderSide \<Rightarrow> OrderSide" where
  "other_side s = (if s = Ask then Bid else Ask)"

text \<open>An order keeps its place before an order that arrives later, if its price is at least as good.\<close>

definition goes_before :: "OrderSide \<Rightarrow> u64 \<Rightarrow> u64 \<Rightarrow> bool" where
  "goes_before s x p \<longleftrightarrow> (if s = Ask then x \<le> p else p \<le> x)"

fun enqueue :: "OrderSide \<Rightarrow> entry \<Rightarrow> entry list \<Rightarrow> entry list" where
  "enqueue s (i, p, n) [] = [(i, p, n)]"
| "enqueue s (i, p, n) ((j, x, m) # queue) =
     (if goes_before s x p then (j, x, m) # enqueue s (i, p, n) queue else (i, p, n) # (j, x, m) # queue)"

type_synonym queues = "entry list \<times> entry list"

text \<open>The queues of asks and bids after an order has come in, and the trades.\<close>

definition engine_add :: "Order \<Rightarrow> queues \<Rightarrow> queues \<times> entry list" where
  "engine_add od qs =
     (let (asks, bids) = qs;
          (fills, rest, left) = fill (side od) (price od) (open_quantity od) (if side od = Ask then bids else asks);
          own = (if side od = Ask then asks else bids);
          own' = (if left \<noteq> 0 \<and> time_in_force od = GTC then enqueue (side od) (oid od, price od, left) own else own)
      in (if side od = Ask then (own', rest) else (rest, own'), fills))"

section \<open>The abstraction\<close>

text \<open>The orders of a side that rest in the book, best first.\<close>

definition resting_queue :: "OrderSide \<Rightarrow> MapOrderBook \<Rightarrow> entry list" where
  "resting_queue s b = opposite_queue (other_side s) b"

definition book_queues :: "MapOrderBook \<Rightarrow> queues" where
  "book_queues b = (resting_queue Ask b, resting_queue Bid b)"

lemma queue_frame [simp]:
  "opposite_queue s (emit e b) = opposite_queue s b" "opposite_queue s (market_noted b) = opposite_queue s b"
  "resting_queue s (emit e b) = resting_queue s b" "resting_queue s (market_noted b) = resting_queue s b"
  by (simp_all add: resting_queue_def opposite_queue_def best_first_def market_noted_def emit_def book_heap_def)

lemma no_trades [simp]:
  "resting_trades s [OrderAdded od] = []" "resting_trades s [OrderDeleted od] = []"
  by (simp_all add: resting_trades_def)

lemma own_map_opposite: "own_map od = opposite_map (od\<lparr>side := other_side (side od)\<rparr>)"
  by (cases "side od") (simp_all add: own_map_def opposite_map_def other_side_def)

lemma own_not_opposite: "own_map od \<noteq> opposite_map od"
  by (cases "side od") (simp_all add: own_map_def opposite_map_def)

section \<open>Insertion into a queue\<close>

lemma enqueue_behind:
  assumes "\<forall>e \<in> set better. goes_before s (fst (snd e)) p"
  shows "enqueue s (i, p, n) (better @ queue) = better @ enqueue s (i, p, n) queue"
  using assms by (induction better) auto

lemma enqueue_before:
  assumes "\<forall>e \<in> set worse. \<not> goes_before s (fst (snd e)) p"
  shows "enqueue s (i, p, n) worse = (i, p, n) # worse"
  using assms by (cases worse) auto

text \<open>A sorted map, split at a key.\<close>

lemma om_inv_filter: "om_inv m \<Longrightarrow> om_inv (filter P m)"
  by (induction m) (auto simp: om_inv_Cons om_inv_def)

lemma om_split:
  assumes "om_inv m"
  shows "m = filter (\<lambda>e. fst e < p) m @ (case om_find p m of None \<Rightarrow> [] | Some l \<Rightarrow> [(p, l)]) @
    filter (\<lambda>e. p < fst e) m"
  using assms
proof (induction m)
  case (Cons e m)
  obtain k v where e: "e = (k, v)" by (cases e)
  have m: "om_inv m" "\<forall>x \<in> set m. k < fst x" using Cons.prems by (simp_all add: e om_inv_Cons)
  have none: "om_find p m = None" "filter (\<lambda>e. fst e < p) m = []" if "p \<le> k"
    using that m(2) by (auto simp: om_find_def map_of_eq_None_iff filter_empty_conv)
  have all: "filter (\<lambda>e. p < fst e) m = m" if "p \<le> k" using that m(2) by (auto simp: filter_id_conv)
  show ?case
    using Cons.IH [OF m(1)] none all unfolding e
    by (cases "k < p"; cases "k = p") (auto simp: om_find_def not_less)
qed (simp add: om_find_def)

lemma om_filter_same:
  assumes "om_inv m" and "om_inv m'" and "\<And>k. P k \<Longrightarrow> om_find k m' = om_find k m"
  shows "filter (\<lambda>e. P (fst e)) m' = filter (\<lambda>e. P (fst e)) m"
proof (rule om_ext)
  show "om_find k (filter (\<lambda>e. P (fst e)) m') = om_find k (filter (\<lambda>e. P (fst e)) m)" for k
  proof -
    have f: "om_find k (filter (\<lambda>e. P (fst e)) m) = Some v \<longleftrightarrow> P k \<and> om_find k m = Some v" if "om_inv m" for m v
      using om_find_Some_iff [OF that] om_find_Some_iff [OF om_inv_filter [OF that]] by auto
    show ?thesis using f [OF assms(1)] f [OF assms(2)] assms(3) by (metis not_None_eq)
  qed
qed (use assms(1,2) in \<open>simp_all add: om_inv_filter\<close>)

section \<open>A resting order joins the queue of its side\<close>

lemma best_first_split:
  assumes wf: "wf_book d b" and wf': "wf_book d b'"
    and lv: "level_view b' = (level_view b)((own_map od, p) \<mapsto> l')"
  obtains better worse where "best_first (other_side (side od)) b =
      better @ (case level_view b (own_map od, p) of None \<Rightarrow> [] | Some l \<Rightarrow> [(p, l)]) @ worse"
    and "best_first (other_side (side od)) b' = better @ [(p, l')] @ worse"
    and "\<forall>e \<in> set better. fst e \<noteq> p \<and> goes_before (side od) (fst e) p"
    and "\<forall>e \<in> set worse. \<not> goes_before (side od) (fst e) p"
proof -
  let ?K = "own_map od"
  let ?m = "levels ?K b" and ?m' = "levels ?K b'"
  let ?low = "filter (\<lambda>e. fst e < p) ?m" and ?high = "filter (\<lambda>e. p < fst e) ?m"
  have om: "om_inv ?m" "om_inv ?m'" using wf wf' by (simp_all add: wf_book_om)
  have f: "om_find k ?m' = (if k = p then Some l' else om_find k ?m)" for k
    using fun_cong [OF lv, of "(?K, k)"] by (simp add: level_view_def split: if_splits)
  have low: "filter (\<lambda>e. fst e < p) ?m' = ?low"
    by (rule om_filter_same [OF om, where P = "\<lambda>k. k < p"]) (auto simp: f)
  have high: "filter (\<lambda>e. p < fst e) ?m' = ?high"
    by (rule om_filter_same [OF om, where P = "\<lambda>k. p < k"]) (auto simp: f)
  have m: "?m = ?low @ (case level_view b (?K, p) of None \<Rightarrow> [] | Some l \<Rightarrow> [(p, l)]) @ ?high"
    using om_split [OF om(1), of p] by (simp add: level_view_def)
  have m': "?m' = ?low @ [(p, l')] @ ?high"
    using om_split [OF om(2), of p] f [of p] low high by simp
  show ?thesis
  proof (cases "side od")
    case Ask
    show ?thesis
      by (rule that [of ?low ?high]) (use Ask m m' in \<open>auto simp: goes_before_def best_first_def other_side_def own_map_def\<close>)
  next
    case Bid
    show ?thesis
    proof (rule that [of "rev ?high" "rev ?low"])
      show "best_first (other_side (side od)) b =
          rev ?high @ (case level_view b (?K, p) of None \<Rightarrow> [] | Some l \<Rightarrow> [(p, l)]) @ rev ?low"
        using arg_cong [OF m, of rev] Bid
        by (simp add: best_first_def other_side_def own_map_def split: option.split)
      show "best_first (other_side (side od)) b' = rev ?high @ [(p, l')] @ rev ?low"
        using arg_cong [OF m', of rev] Bid by (simp add: best_first_def other_side_def own_map_def)
    qed (use Bid in \<open>auto simp: goes_before_def\<close>)
  qed
qed


definition queue_of :: "heap \<Rightarrow> (u64 \<times> Level) list \<Rightarrow> entry list" where
  "queue_of h ls = concat (map (level_entries h) ls)"

lemma queue_of_append [simp]: "queue_of h (ls @ ls') = queue_of h ls @ queue_of h ls'"
  by (simp add: queue_of_def)

lemma queue_of_price: "e \<in> set (queue_of h ls) \<Longrightarrow> \<exists>x \<in> set ls. fst (snd e) = fst x"
  by (force simp: queue_of_def level_entries_def)

lemma resting_queue_of: "resting_queue s b = queue_of (book_heap b) (best_first (other_side s) b)"
  by (simp add: resting_queue_def opposite_queue_def queue_of_def)

lemma resting_queue_insert:
  assumes ok: "book_ok d b" and ok': "book_ok d b'" and absent: "order_view b (oid od) = None"
    and ov: "order_view b' = (order_view b)(oid od \<mapsto> \<lparr>w_order = od1, level_it = (own_map od, price od)\<rparr>)"
    and lv: "level_view b' = (level_view b)((own_map od, price od) \<mapsto> link_level (oid od) (open_quantity od1)
      (level_or_new (price od) (level_side (side od)) sid (level_view b (own_map od, price od))))"
  shows "resting_queue (side od) b' =
    enqueue (side od) (oid od, price od, open_quantity od1) (resting_queue (side od) b)"
proof -
  let ?i = "oid od" and ?p = "price od" and ?s = "side od" and ?h = "book_heap b" and ?h' = "book_heap b'"
  let ?old = "case level_view b (own_map od, ?p) of None \<Rightarrow> [] | Some l \<Rightarrow> [(?p, l)]"
  let ?new = "link_level ?i (open_quantity od1) (level_or_new ?p (level_side ?s) sid (level_view b (own_map od, ?p)))"
  obtain better worse where b: "best_first (other_side ?s) b = better @ ?old @ worse"
    and b': "best_first (other_side ?s) b' = better @ [(?p, ?new)] @ worse"
    and good: "\<forall>e \<in> set better. fst e \<noteq> ?p \<and> goes_before ?s (fst e) ?p"
    and bad: "\<forall>e \<in> set worse. \<not> goes_before ?s (fst e) ?p"
    using best_first_split [OF book_ok_wf [OF ok] book_ok_wf [OF ok'] lv] .
  have mem: "?i \<notin> set (lv_orders (snd e))" if e: "e \<in> set (best_first (other_side ?s) b)" for e
  proof -
    have "level_view b (own_map od, fst e) = Some (snd e)"
      using best_first_view [OF book_ok_wf [OF ok], of e "od\<lparr>side := other_side ?s\<rparr>"] e
      by (simp add: own_map_opposite)
    then show ?thesis using views_absent [OF book_ok_views [OF ok] absent] by blast
  qed
  have heap: "?h' j = (if j = ?i then Some od1 else ?h j)" for j
    by (simp add: book_heap_view view_heap_def ov)
  have same: "queue_of ?h' ls = queue_of ?h ls" if "set ls \<subseteq> set (best_first (other_side ?s) b)" for ls
    unfolding queue_of_def
    by (intro arg_cong [where f = concat] map_cong refl level_entries_cong) (use mem that heap in auto)
  have sub: "set better \<subseteq> set (best_first (other_side ?s) b)" "set worse \<subseteq> set (best_first (other_side ?s) b)"
    by (auto simp: b)
  have level: "queue_of ?h' [(?p, ?new)] = queue_of ?h ?old @ [(?i, ?p, open_quantity od1)]"
    using same [of ?old] b heap [of ?i]
    by (cases "level_view b (own_map od, ?p)")
      (auto simp: queue_of_def level_entries_def link_level_def level_or_new_def newLevel_def open_of_def)
  have before: "\<forall>e \<in> set (queue_of ?h better @ queue_of ?h ?old). goes_before ?s (fst (snd e)) ?p"
  proof
    fix e assume "e \<in> set (queue_of ?h better @ queue_of ?h ?old)"
    then have "e \<in> set (queue_of ?h (better @ ?old))" unfolding queue_of_append .
    then obtain x where "x \<in> set (better @ ?old)" "fst (snd e) = fst x" by (blast dest: queue_of_price)
    then show "goes_before ?s (fst (snd e)) ?p" using good by (auto simp: goes_before_def split: option.splits)
  qed
  have behind: "\<forall>e \<in> set (queue_of ?h worse). \<not> goes_before ?s (fst (snd e)) ?p"
    using bad queue_of_price [of _ ?h worse] by metis
  have "resting_queue ?s b' = (queue_of ?h better @ queue_of ?h ?old) @ (?i, ?p, open_quantity od1) # queue_of ?h worse"
    unfolding resting_queue_of b' queue_of_append level same [OF sub(1)] same [OF sub(2)] by simp
  also have "\<dots> = enqueue ?s (?i, ?p, open_quantity od1) ((queue_of ?h better @ queue_of ?h ?old) @ queue_of ?h worse)"
    unfolding enqueue_behind [OF before] enqueue_before [OF behind] ..
  finally show ?thesis unfolding resting_queue_of b queue_of_append by simp
qed

section \<open>Adding a limit order\<close>

lemma addLimitOrder_engine:
  assumes ok: "book_ok d b" and a: "addable d b od" and t: "otype od = Limit"
  obtains b' es where "addLimitOrder d b od = Inr b'" and "book_ok d b'" and "add_rel b od b'"
    and "events b' = events b @ es" and "engine_add od (book_queues b) = (book_queues b', resting_trades (side od) es)"
proof -
  have od: "order_ok d od" using a by (simp add: addable_def)
  obtain b1 od1 where m: "match d b od = Inr (b1, od1)" "book_ok d b1" "order_ok d od1" "match_rel b od b1 od1"
      "isFilled od1 \<or> (\<forall>p l. level_view b1 (opposite_map od, p) = Some l \<longrightarrow> \<not> crosses od p)"
    using ok od by (rule match_ok)
  obtain es where f: "events b1 = events b @ es"
      "fill (side od) (price od) (open_quantity od) (opposite_queue (side od) b)
        = (resting_trades (side od) es, opposite_queue (side od) b1, open_quantity od1)"
    using match_fill [OF ok od] m(1) by (auto simp: matches_fill_def)
  have terms: "same_terms od od1" using m(4) by (simp add: match_rel_def)
  have n1: "order_view b1 (oid od) = None" using m(4) a by (simp add: match_rel_def addable_def)
  let ?od = "od\<lparr>side := other_side (side od)\<rparr>"
  have own: "resting_queue (side od) b1 = resting_queue (side od) b"
    unfolding resting_queue_def
    using opposite_queue_cong [OF ok m(2), of ?od] m(4) own_not_opposite [of od]
    by (simp add: match_rel_def flip: own_map_opposite)
  have engine: "engine_add od (book_queues b) = (book_queues b', resting_trades (side od) es)"
    if "opposite_queue (side od) b' = opposite_queue (side od) b1"
      "resting_queue (side od) b' = (if open_quantity od1 \<noteq> 0 \<and> time_in_force od = GTC
        then enqueue (side od) (oid od, price od, open_quantity od1) (resting_queue (side od) b)
        else resting_queue (side od) b)" for b'
    using that f(2) by (cases "side od")
      (simp_all add: engine_add_def book_queues_def resting_queue_def other_side_def)
  show ?thesis
  proof (cases "\<not> isFilled od1 \<and> time_in_force od = GTC")
    case False
    let ?b = "emit (OrderDeleted od1) b1"
    have run: "addLimitOrder d b od = Inr ?b"
      using m(1) terms False by (cases "time_in_force od") (auto simp: addLimitOrder_def same_terms_def)
    have "engine_add od (book_queues b) = (book_queues ?b, resting_trades (side od) (es @ [OrderDeleted od1]))"
      using engine [of ?b] own False by auto
    with run show ?thesis
      using m(2) match_rel_add_rel [OF m(4)] f(1) by (intro that [of ?b "es @ [OrderDeleted od1]"]) simp_all
  next
    case True
    then have nc: "\<forall>p l. level_view b1 (opposite_map od, p) = Some l \<longrightarrow> \<not> crosses od p" using m(5) by simp
    obtain b' where i: "insertLimitOrder d b1 od1 = Inr b'" "book_ok d b'" "add_rel b od b'"
        "order_view b' = (order_view b1)(oid od \<mapsto> \<lparr>w_order = od1, level_it = (own_map od, price od)\<rparr>)"
        "level_view b' = (level_view b1)((own_map od, price od) \<mapsto> link_level (oid od) (open_quantity od1)
          (level_or_new (price od) (level_side (side od)) (book_symbol_id b1) (level_view b1 (own_map od, price od))))"
        "events b' = events b1"
      using rest_limit_order [OF m(2,3,4) _ nc a t] True by blast
    have run: "addLimitOrder d b od = Inr b'"
      using m(1) True terms i(1) by (simp add: addLimitOrder_def same_terms_def)
    have "opposite_queue (side od) b' = opposite_queue (side od) b1"
      by (rule opposite_queue_cong [OF m(2) i(2)]) (use i(4,5) n1 own_not_opposite [of od] in auto)
    moreover have "resting_queue (side od) b' =
        enqueue (side od) (oid od, price od, open_quantity od1) (resting_queue (side od) b)"
      using resting_queue_insert [OF m(2) i(2) n1 i(4,5)] own by simp
    ultimately have "engine_add od (book_queues b) = (book_queues b', resting_trades (side od) es)"
      using engine [of b'] True by simp
    with run show ?thesis using i(2,3,6) f(1) by (intro that [of b' es]) simp_all
  qed
qed

section \<open>Property\<close>

text \<open>
  C15. A book without stop orders is a price-time priority engine over two queues: adding a limit order, of any
  time in force, changes the queues of asks and bids as the specification does and reports exactly its trades, in
  their order. What is left of an order that is good till cancelled joins the queue of its side behind all orders
  that are at least as good; what is left of any other order is dropped. The build does not matter.
\<close>

theorem addOrder_refines_engine:
  assumes "book_inv d b" and "addable d b od" and "otype od = Limit" and "stop_count b = 0"
  shows "\<exists>b' es. addOrder d b od = Inr b' \<and> book_inv d b' \<and> stop_count b' = 0 \<and>
    events b' = events b @ OrderAdded od # es \<and>
    engine_add od (book_queues b) = (book_queues b', resting_trades (side od) es)"
proof -
  let ?b = "emit (OrderAdded od) b"
  have ok: "book_ok d ?b" and u: "uncrossed b" using assms(1) by (simp_all add: book_inv_def)
  have a: "addable d ?b od" using assms(2) by simp
  obtain b1 es where 1: "addLimitOrder d ?b od = Inr b1" "book_ok d b1" "add_rel ?b od b1"
      "events b1 = events ?b @ es" "engine_add od (book_queues ?b) = (book_queues b1, resting_trades (side od) es)"
    using ok a assms(3) by (rule addLimitOrder_engine)
  have u1: "uncrossed b1" and z: "stop_count b1 = 0" using 1(3) u assms(4) by (simp_all add: add_rel_def)
  have s: "settle d b1 = Inr (market_noted b1)" using 1(2) u1 z by (rule settle_no_stops)
  have "addOrder d b od = Inr (market_noted b1)"
    using 1(1) s assms(3) by (simp add: addOrder_def submit_def)
  moreover have "book_inv d (market_noted b1)" using settle_ok [OF 1(2) u1] s by auto
  moreover have "stop_count (market_noted b1) = 0" using z by (simp add: market_noted_def stop_count_def)
  moreover have "events (market_noted b1) = events b @ OrderAdded od # es"
    using 1(4) by (simp add: market_noted_def emit_def)
  moreover have "engine_add od (book_queues b) = (book_queues (market_noted b1), resting_trades (side od) es)"
    using 1(5) by (simp add: book_queues_def)
  ultimately show ?thesis by blast
qed

text \<open>Asks of 50 and 30 at 100 and 40 at 105 and a bid of 60 at 90; then a bid of 90 at 103 comes in.\<close>

definition limit_requests :: "request list" where
  "limit_requests =
     [AddOrder (sample_order Limit Ask GTC 100 0 0 50 1), AddOrder (sample_order Limit Ask GTC 105 0 0 40 2),
      AddOrder (sample_order Limit Ask GTC 100 0 0 30 3), AddOrder (sample_order Limit Bid GTC 90 0 0 60 4)]"

theorem addOrder_refines_engine_witness:
  "\<exists>b b' es. performs Debug (newMapOrderBook 1) limit_requests = Inr b \<and>
    addOrder Debug b (sample_order Limit Bid GTC 103 0 0 90 9) = Inr b' \<and>
    book_queues b' = ([(2, 105, 40)], [(9, 103, 10), (4, 90, 60)]) \<and>
    events b' = events b @ OrderAdded (sample_order Limit Bid GTC 103 0 0 90 9) # es \<and>
    resting_trades Bid es = [(1, 100, 50), (3, 100, 30)]"
proof -
  let ?od = "sample_order Limit Bid GTC 103 0 0 90 9"
  have p: "all_permitted Debug (newMapOrderBook 1) limit_requests" by code_simp
  have c: "case performs Debug (newMapOrderBook 1) limit_requests of Inl e \<Rightarrow> False
      | Inr b \<Rightarrow> addable Debug b ?od \<and> list_all (\<lambda>(i, w). otype (w_order w) = Limit) (orders b) \<and>
          engine_add ?od (book_queues b) = (([(2, 105, 40)], [(9, 103, 10), (4, 90, 60)]), [(1, 100, 50), (3, 100, 30)])"
    by code_simp
  then obtain b where b: "performs Debug (newMapOrderBook 1) limit_requests = Inr b" "addable Debug b ?od"
      "list_all (\<lambda>(i, w). otype (w_order w) = Limit) (orders b)"
      "engine_add ?od (book_queues b) = (([(2, 105, 40)], [(9, 103, 10), (4, 90, 60)]), [(1, 100, 50), (3, 100, 30)])"
    by (auto split: sum.splits)
  have inv: "book_inv Debug b" using reachable_inv [OF performs_reachable [OF reachable_new p b(1)]] by simp
  have z: "stop_count b = 0"
    using b(3) by (auto simp: stop_count_def hm_total_def stop_kind_def trailing_kind_def list_all_iff)
  have t: "otype ?od = Limit" "side ?od = Bid" by (simp_all add: sample_order_def)
  from addOrder_refines_engine [OF inv b(2) t(1) z] b(1,4) t(2) show ?thesis by auto
qed

end
