(* ===== verification/Replacement.thy ===== *)
theory Replacement
  imports Limit_Engine Book_Properties
begin

text \<open>
  Replacing an order: the old one is deleted, and an order with the new ID and the new price, and all other
  terms of the old one, is added. It trades at once if it crosses the opposite side, and rests otherwise.
\<close>

section \<open>The book without the old order\<close>

lemma stop_matches_triggered: "stop_matches b od \<longleftrightarrow> triggered (side od) (market_price (side od) b) (stop_price od)"
  by (cases "side od") (auto simp: stop_matches_def triggered_def market_price_def Let_def)

lemma none_triggered_fewer:
  assumes "none_triggered s (market_price s b) b" and "last_traded_price b' = last_traded_price b"
    and "\<And>K p. stop_map s K \<Longrightarrow> level_view b (K, p) = None \<Longrightarrow> level_view b' (K, p) \<noteq> None \<Longrightarrow>
      \<not> triggered s (market_price s b) p"
  shows "none_triggered s (market_price s b') b'"
  using assms unfolding none_triggered_def market_price_cong [OF assms(2)] by (metis option.exhaust)

lemma quiet_fewer:
  assumes "quiet b" and "last_traded_price b' = last_traded_price b"
    and "\<And>s K p. stop_map s K \<Longrightarrow> level_view b (K, p) = None \<Longrightarrow> level_view b' (K, p) \<noteq> None \<Longrightarrow>
      \<not> triggered s (market_price s b) p"
  shows "quiet b'"
  using assms none_triggered_fewer [of _ b b'] by (simp add: quiet_def)

lemma delete_quiet:
  assumes inv: "book_inv d b" and w: "order_view b i = Some w"
  obtains b1 where "deleteOrder_notify d b i True = Inr b1" and "book_inv d b1"
    and "order_view b1 = (order_view b)(i := None)"
    and "total_open b = unat (open_quantity (w_order w)) + total_open b1"
    and "activation_rel b b1" and "last_traded_price b1 = last_traded_price b"
    and "\<forall>it. it \<noteq> level_it w \<longrightarrow> level_view b1 it = level_view b it"
    and "events b1 = events b @ [OrderDeleted (w_order w)]"
proof -
  have ok: "book_ok d b" and u: "uncrossed b" and q: "quiet b" using inv by (simp_all add: book_inv_def)
  obtain b1 where 1: "deleteOrder_notify d b i True = Inr b1" "book_ok d b1"
      "order_view b1 = (order_view b)(i := None)"
      "total_open b = unat (open_quantity (w_order w)) + total_open b1" "activation_rel b b1"
      "\<forall>K p. (K, p) \<noteq> level_it w \<longrightarrow> level_view b1 (K, p) = level_view b (K, p)"
      "last_traded_price b1 = last_traded_price b"
      "events b1 = events b @ (if True then [OrderDeleted (w_order w)] else [])"
    using book_ok_delete [OF ok w, of True] by metis
  obtain l where "level_view b (level_it w) = Some l" using ok w by (rule book_ok_home)
  then have "level_view b1 (K, p) = None" if "level_view b (K, p) = None" for K p
    using 1(6) that by (cases "(K, p) = level_it w") auto
  then have "quiet b1" by (intro quiet_fewer [OF q 1(7)]) metis
  moreover have "uncrossed b1" using 1(5) u by (simp add: activation_rel_def)
  ultimately show ?thesis using 1 by (intro that [of b1]) (auto simp: book_inv_def)
qed

section \<open>An order that does not trade\<close>

lemma match_no_cross:
  assumes ok: "book_ok d b" and n: "\<forall>p. level_view b (opposite_map od, p) \<noteq> None \<longrightarrow> \<not> crosses od p"
  shows "match d b od = Inr (b, od)"
proof -
  have "\<not> (\<exists>p l. best_opposite b od = Some (p, l) \<and> crosses od p)"
    using best_opposite_crosses [OF book_ok_wf [OF ok], of od] n by auto
  then have "match_loop d b od = Inr (b, od)" by (subst match_loop.simps) (auto split: option.split)
  then show ?thesis using match_eq [OF ok, of od] by simp
qed

text \<open>Where an order rests, and as what.\<close>

definition resting_home :: "Order \<Rightarrow> LevelMap" where
  "resting_home od = (if otype od = Limit then own_map od else stop_home od)"

lemma submit_limit_rests:
  assumes inv: "book_inv d b" and a: "addable d b od" and t: "otype od = Limit" "time_in_force od = GTC"
    and n: "\<forall>p. level_view b (opposite_map od, p) \<noteq> None \<longrightarrow> \<not> crosses od p"
  shows "\<exists>b'. submit d b od = Inr b' \<and> book_inv d b' \<and>
    order_view b' = (order_view b)(oid od \<mapsto> \<lparr>w_order = od, level_it = (own_map od, price od)\<rparr>) \<and>
    total_open b' = total_open b + unat (open_quantity od) \<and> events b' = events b"
proof -
  have ok: "book_ok d b" and u: "uncrossed b" and q: "quiet b" using inv by (simp_all add: book_inv_def)
  have od: "order_ok d od" "\<not> isFilled od" using a by (simp_all add: addable_def)
  have nc: "\<forall>p l. level_view b (opposite_map od, p) = Some l \<longrightarrow> \<not> crosses od p" using n by simp
  obtain b' where b': "insertLimitOrder d b od = Inr b'" "book_ok d b'" "add_rel b od b'"
      "order_view b' = (order_view b)(oid od \<mapsto> \<lparr>w_order = od, level_it = (own_map od, price od)\<rparr>)"
      "level_view b' = (level_view b)((own_map od, price od) \<mapsto> link_level (oid od) (open_quantity od)
        (level_or_new (price od) (level_side (side od)) (book_symbol_id b) (level_view b (own_map od, price od))))"
      "total_open b' = total_open b + unat (open_quantity od)"
      "last_traded_price b' = last_traded_price b" "events b' = events b"
    using rest_limit_order [OF ok od(1) match_rel_refl od(2) nc a t(1)] by blast
  have "own_map od \<noteq> K" if "stop_map s K" for s K
    using stop_map_not(1) [OF that] by (auto simp: own_map_def limit_map_def)
  then have "quiet b'" by (intro quiet_fewer [OF q b'(7)]) (auto simp: b'(5) split: if_splits)
  moreover have "submit d b od = Inr b'"
    using b'(1) match_no_cross [OF ok n] od(2) t by (simp add: submit_def addLimitOrder_def)
  moreover have "uncrossed b'" using b'(3) u by (simp add: add_rel_def)
  ultimately show ?thesis using b' by (simp add: book_inv_def)
qed

lemma submit_stop_rests:
  assumes inv: "book_inv d b" and a: "addable d b od" and t: "stop_kind (otype od)"
    and n: "\<not> stop_matches b (with_stop_price b od)"
  shows "\<exists>b'. submit d b od = Inr b' \<and> book_inv d b' \<and>
    order_view b' = (order_view b)(oid od \<mapsto>
      \<lparr>w_order = with_stop_price b od, level_it = (stop_home od, stop_price (with_stop_price b od))\<rparr>) \<and>
    total_open b' = total_open b + unat (open_quantity od) \<and> events b' = events b"
proof -
  let ?od = "with_stop_price b od"
  have ok: "book_ok d b" and u: "uncrossed b" and q: "quiet b" using inv by (simp_all add: book_inv_def)
  have home: "stop_home ?od = stop_home od" by (simp add: stop_home_def)
  have a1: "addable d b ?od" using a by (rule addable_with_stop_price)
  have t1: "stop_kind (otype ?od)" using t by simp
  obtain b' where b': "insert_at d (stop_home ?od) (stop_price ?od) (level_side (side ?od)) ?od b = Inr b'"
      "book_ok d b'" "submit_rel b ?od b'"
      "order_view b' = (order_view b)(oid ?od \<mapsto> \<lparr>w_order = ?od, level_it = (stop_home ?od, stop_price ?od)\<rparr>)"
      "\<forall>it. it \<noteq> (stop_home ?od, stop_price ?od) \<longrightarrow> level_view b' it = level_view b it"
      "total_open b' = total_open b + unat (open_quantity ?od)"
      "last_traded_price b' = last_traded_price b" "events b' = events b"
    by (rule insert_stop_ok [OF ok a1 t1])
  have side: "s = side od" if "stop_map s (stop_home od)" for s
    using that t by (cases s; cases "side od"; cases "otype od")
      (auto simp: stop_map_def stop_home_def trailing_map_def trailing_kind_def stop_kind_def)
  have "\<not> triggered s (market_price s b) p" if "stop_map s K" "level_view b (K, p) = None" "level_view b' (K, p) \<noteq> None"
    for s K p
  proof -
    have "(K, p) = (stop_home ?od, stop_price ?od)" using b'(5) that(2,3) by metis
    then show ?thesis using side that(1) n by (simp add: home stop_matches_triggered)
  qed
  then have "quiet b'" by (rule quiet_fewer [OF q b'(7)])
  moreover have "submit d b od = addStopOrder d b od"
    using t by (cases "otype od") (simp_all add: submit_def stop_kind_def trailing_kind_def)
  then have "submit d b od = Inr b'"
    using addStopOrder_eq [of d od b] a t n b'(1) by (simp add: addable_def Let_def)
  moreover have "uncrossed b'" using b'(3) u by (simp add: submit_rel_def)
  ultimately show ?thesis using b' by (simp add: book_inv_def home)
qed


text \<open>An order that rests, and stays while the book is settled.\<close>

lemma submit_rests:
  assumes inv: "book_inv d b" and a: "addable d b od"
    and l: "otype od = Limit \<Longrightarrow> time_in_force od = GTC \<and>
      (\<forall>x. level_view b (opposite_map od, x) \<noteq> None \<longrightarrow> \<not> crosses od x)"
    and t: "otype od \<noteq> Limit \<Longrightarrow> stop_kind (otype od) \<and> \<not> stop_matches b (with_stop_price b od)"
  shows "\<exists>b' v. submit d b od = Inr b' \<and> book_inv d b' \<and> order_view b' = (order_view b)(oid od \<mapsto> v) \<and>
    retrailed \<lparr>w_order = od, level_it = (resting_home od, level_price_of od)\<rparr> v \<and>
    total_open b' = total_open b + unat (open_quantity od)"
proof (cases "otype od = Limit")
  case True
  have "level_price_of od = price od" using True by (simp add: level_price_of_def)
  moreover have "resting_home od = own_map od" using True by (simp add: resting_home_def)
  moreover obtain b' where "submit d b od = Inr b'" "book_inv d b'"
      "order_view b' = (order_view b)(oid od \<mapsto> \<lparr>w_order = od, level_it = (own_map od, price od)\<rparr>)"
      "total_open b' = total_open b + unat (open_quantity od)"
    using submit_limit_rests [OF inv a True] l [OF True] by blast
  ultimately show ?thesis by (intro exI [of _ b'] exI conjI) (assumption | simp)+
next
  case False
  let ?v = "\<lparr>w_order = with_stop_price b od, level_it = (stop_home od, stop_price (with_stop_price b od))\<rparr>"
  have "level_price_of od = stop_price od"
    using t [OF False] by (cases "otype od") (auto simp: level_price_of_def stop_kind_def trailing_kind_def)
  then have "retrailed \<lparr>w_order = od, level_it = (resting_home od, level_price_of od)\<rparr> ?v"
    using False by (auto simp: retrailed_def with_stop_price_def resting_home_def)
  then show ?thesis using submit_stop_rests [OF inv a] t [OF False] by blast
qed

lemma settled_twice:
  assumes inv: "book_inv d b" and s: "settle d b = Inr b1" "settle d b1 = Inr b2"
  shows "quiet_rel b b2"
proof -
  have 1: "book_inv d b1" "quiet_rel b b1" using settle_quiet [OF inv] s(1) by auto
  moreover have "quiet_rel b1 b2" using settle_quiet [OF 1(1)] s(2) by auto
  ultimately show ?thesis using quiet_rel_trans by blast
qed

section \<open>The replacement\<close>

lemma replaced_addable:
  assumes ok: "book_ok d b" and w: "order_view b i = Some w" and r: "replaceable b i j p (w_order w)"
    and b1: "order_view b1 = (order_view b)(i := None)" "book_symbol_id b1 = book_symbol_id b"
      "total_open b = unat (open_quantity (w_order w)) + total_open b1"
  shows "addable d b1 ((w_order w)\<lparr>oid := j, price := p\<rparr>)"
proof -
  have wr: "wrapper_ok d (book_symbol_id b) i w" using book_ok_views [OF ok] w by (rule views_wrapper)
  then have "order_ok d ((w_order w)\<lparr>oid := j, price := p\<rparr>)"
    by (intro order_ok_replaced(2) [OF _ r]) (simp add: wrapper_ok_def)
  moreover have "total_open b < 18446744073709551616" using book_ok_wf [OF ok] by (simp add: wf_book_def)
  ultimately show ?thesis
    using book_ok_open [OF ok w] wr r b1 by (auto simp: addable_def replaceable_def hasOrder_eq wrapper_ok_def)
qed

text \<open>The stop orders of a quiet book stay stop orders when their limit price changes.\<close>

lemma replaced_stop_home:
  assumes ok: "book_ok d b" and w: "order_view b i = Some w"
  shows "fst (level_it w) = resting_home (w_order w)" and "snd (level_it w) = level_price_of (w_order w)"
proof -
  have "fst (level_it w) \<noteq> NewTrailingLevels" using ok w by (rule book_ok_home)
  moreover have wr: "wrapper_ok d (book_symbol_id b) i w" using book_ok_views [OF ok] w by (rule views_wrapper)
  ultimately show "fst (level_it w) = resting_home (w_order w)"
    by (cases "otype (w_order w)"; cases "side (w_order w)")
      (auto simp: wrapper_ok_def fits_def erasing_map_def resting_home_def own_map_def stop_home_def
        trailing_kind_def trailing_map_def)
  show "snd (level_it w) = level_price_of (w_order w)" using wr by (simp add: wrapper_ok_def)
qed

lemma replaced_not_triggered:
  assumes inv: "book_inv d b" and w: "order_view b i = Some w" and t: "stop_kind (otype (w_order w))"
    and c: "last_traded_price c = last_traded_price b"
  shows "\<not> stop_matches c (with_stop_price c ((w_order w)\<lparr>oid := j, price := p\<rparr>))"
proof -
  let ?w = "w_order w" and ?s = "side (w_order w)"
  have ok: "book_ok d b" and n: "none_triggered ?s (market_price ?s b) b"
    using inv by (simp_all add: book_inv_def quiet_def)
  have wr: "wrapper_ok d (book_symbol_id b) i w" using book_ok_views [OF ok] w by (rule views_wrapper)
  obtain l where l: "level_view b (level_it w) = Some l" using ok w by (rule book_ok_home)
  have home: "level_it w = (stop_home ?w, stop_price ?w)"
    using replaced_stop_home [OF ok w] t
    by (cases "level_it w"; cases "otype ?w") (auto simp: resting_home_def level_price_of_def stop_kind_def trailing_kind_def)
  have K: "stop_map ?s (stop_home ?w)"
    using t by (cases ?s; cases "otype ?w") (auto simp: stop_map_def stop_home_def trailing_map_def trailing_kind_def stop_kind_def)
  have l': "level_view b (stop_home ?w, stop_price ?w) = Some l" using l home by simp
  have m: "market_price s c = market_price s b" for s using c by (rule market_price_cong)
  show ?thesis
  proof (cases "trailing_kind (otype ?w)")
    case True
    have "0 < trail_amount ?w" using wr True by (simp add: wrapper_ok_def order_ok_def)
    then have "\<not> triggered ?s (market_price ?s c) (new_stop ?s c (trail_amount ?w))"
      using none_triggered_market [OF n K l'] by (intro new_stop_not_triggered) (auto simp: m)
    with True show ?thesis by (simp add: stop_matches_triggered with_stop_price_def)
  next
    case False
    have "\<not> triggered ?s (market_price ?s b) (stop_price ?w)" using n K l' unfolding none_triggered_def by blast
    with False show ?thesis by (simp add: stop_matches_triggered with_stop_price_def m)
  qed
qed

lemma replaceOrder_run:
  assumes w: "order_view b i = Some w" and od: "order_ok d (w_order w)" and r: "replaceable b i j p (w_order w)"
    and b1: "deleteOrder_notify d b i True = Inr b1"
  shows "replaceOrder d b i j p = rbind (addOrder d b1 ((w_order w)\<lparr>oid := j, price := p\<rparr>)) (settle d)"
  using w order_ok_replaced [OF od r] b1
  by (simp add: replaceOrder_def find_order_eq setOrderID_def setPrice_def Let_def)

lemma engine_trades:
  "snd (engine_add od (book_queues b)) =
    fst (fill (side od) (price od) (open_quantity od) (opposite_queue (side od) b))"
  by (cases "side od")
    (simp_all add: engine_add_def book_queues_def resting_queue_def other_side_def split: prod.split)

lemma replaced_trades:
  assumes ok: "book_ok d b" and w: "order_view b i = Some w" and t: "otype (w_order w) = Limit"
    and b1: "book_inv d b1" "order_view b1 = (order_view b)(i := None)"
      "\<forall>it. it \<noteq> level_it w \<longrightarrow> level_view b1 it = level_view b it"
    and a: "addable d (emit e b1) od" and b2: "submit d (emit e b1) od = Inr b2" "events b2 = events (emit e b1) @ es"
    and od: "od = (w_order w)\<lparr>oid := j, price := p\<rparr>"
  shows "resting_trades (side od) es = fst (fill (side od) p (open_quantity od) (opposite_queue (side od) b))"
proof -
  have t': "otype od = Limit" and p: "price od = p" using t by (simp_all add: od)
  have ok1: "book_ok d b1" "book_ok d (emit e b1)" using b1(1) by (simp_all add: book_inv_def)
  have home: "fst (level_it w) \<noteq> opposite_map od"
    using replaced_stop_home(1) [OF ok w] t by (simp add: resting_home_def own_map_def opposite_map_def od)
  have lv: "level_view b1 (opposite_map od, x) = level_view b (opposite_map od, x)" for x
    using b1(3) home by (metis fst_conv)
  have "order_view b1 k = Some v" if "order_view b k = Some v" "fst (level_it v) = opposite_map od" for k v
    using that home w by (auto simp: b1(2))
  then have q: "opposite_queue (side od) b1 = opposite_queue (side od) b" by (rule opposite_queue_cong [OF ok ok1(1) lv])
  obtain b' es' where "addLimitOrder d (emit e b1) od = Inr b'" "events b' = events (emit e b1) @ es'"
      "engine_add od (book_queues (emit e b1)) = (book_queues b', resting_trades (side od) es')"
    using ok1(2) a t' by (rule addLimitOrder_engine)
  then have "resting_trades (side od) es = snd (engine_add od (book_queues (emit e b1)))"
    using b2 t' by (simp add: submit_def)
  also have "\<dots> = fst (fill (side od) p (open_quantity od) (opposite_queue (side od) b))"
    unfolding engine_trades by (simp add: q p)
  finally show ?thesis .
qed

lemma replaced_rests:
  assumes inv: "book_inv d b" and w: "order_view b i = Some w" and od: "od = (w_order w)\<lparr>oid := j, price := p\<rparr>"
    and b1: "book_inv d b1" "order_view b1 = (order_view b)(i := None)"
      "total_open b = unat (open_quantity (w_order w)) + total_open b1"
      "last_traded_price b1 = last_traded_price b" "\<forall>it. it \<noteq> level_it w \<longrightarrow> level_view b1 it = level_view b it"
    and a: "addable d (emit e b1) od" and b2: "submit d (emit e b1) od = Inr b2" "settle d b2 = Inr b3" "settle d b3 = Inr b'"
    and l: "otype od = Limit \<longrightarrow> time_in_force od = GTC"
    and n: "\<not> (otype od = Limit \<and> (\<exists>x. level_view b (opposite_map od, x) \<noteq> None \<and> crosses od x))"
  shows "total_open b' = total_open b \<and>
    (\<exists>v. order_view b' j = Some v \<and> retrailed \<lparr>w_order = od, level_it = (fst (level_it w), level_price_of od)\<rparr> v) \<and>
    (\<forall>k. k \<noteq> i \<and> k \<noteq> j \<longrightarrow> (case order_view b k of None \<Rightarrow> order_view b' k = None
      | Some u \<Rightarrow> \<exists>u'. order_view b' k = Some u' \<and> retrailed u u'))"
proof -
  have ok: "book_ok d b" using inv by (simp add: book_inv_def)
  have home: "resting_home od = fst (level_it w)"
    using replaced_stop_home(1) [OF ok w] by (simp add: od resting_home_def own_map_def stop_home_def)
  have wr: "wrapper_ok d (book_symbol_id b) i w" using book_ok_views [OF ok] w by (rule views_wrapper)
  have kind: "otype od \<noteq> Limit \<Longrightarrow> stop_kind (otype od)"
    using wr by (cases "otype (w_order w)")
      (auto simp: od wrapper_ok_def fits_def erasing_map_def stop_kind_def trailing_kind_def)
  have stop: "\<not> stop_matches (emit e b1) (with_stop_price (emit e b1) od)" if "otype od \<noteq> Limit"
    using replaced_not_triggered [OF inv w, where c = "emit e b1" and j = j and p = p] kind [OF that] b1(4) by (simp add: od)
  have cross: "\<not> crosses od x" if "otype od = Limit" "level_view (emit e b1) (opposite_map od, x) \<noteq> None" for x
  proof -
    have "own_map od = fst (level_it w)" using home that(1) by (simp add: resting_home_def)
    then have "(opposite_map od, x) \<noteq> level_it w" using own_not_opposite [of od] by (metis fst_conv)
    then have "level_view b1 (opposite_map od, x) = level_view b (opposite_map od, x)" using b1(5) by blast
    then have "level_view b (opposite_map od, x) \<noteq> None" using that(2) by simp
    then show ?thesis using that(1) n by blast
  qed
  have inv1: "book_inv d (emit e b1)"
    using b1(1) by (simp add: book_inv_def quiet_def none_triggered_def market_price_cong [of "emit e b1" b1])
  obtain v where v: "book_inv d b2" "order_view b2 = (order_view (emit e b1))(oid od \<mapsto> v)"
      "retrailed \<lparr>w_order = od, level_it = (resting_home od, level_price_of od)\<rparr> v"
      "total_open b2 = total_open (emit e b1) + unat (open_quantity od)"
    using submit_rests [OF inv1 a] l cross kind stop b2(1) by auto
  have rel: "quiet_rel b2 b'" using v(1) b2(2,3) by (rule settled_twice)
  have ov: "order_view b2 = (order_view b)(i := None, j \<mapsto> v)" using v(2) b1(2) by (simp add: od)
  have kept: "case order_view b2 k of None \<Rightarrow> order_view b' k = None
      | Some u \<Rightarrow> \<exists>u'. order_view b' k = Some u' \<and> retrailed u u'" for k
    using rel by (simp add: quiet_rel_def)
  have "\<exists>v'. order_view b' j = Some v' \<and> retrailed v v'" using kept [of j] by (simp add: ov)
  then have "\<exists>v'. order_view b' j = Some v' \<and> retrailed \<lparr>w_order = od, level_it = (fst (level_it w), level_price_of od)\<rparr> v'"
    using retrailed_trans [OF v(3)] by (auto simp: home)
  moreover have "total_open b' = total_open b" using rel v(4) b1(3) by (simp add: quiet_rel_def od)
  moreover have "\<forall>k. k \<noteq> i \<and> k \<noteq> j \<longrightarrow> (case order_view b k of None \<Rightarrow> order_view b' k = None
      | Some u \<Rightarrow> \<exists>u'. order_view b' k = Some u' \<and> retrailed u u')"
  proof (intro allI impI)
    fix k
    assume "k \<noteq> i \<and> k \<noteq> j"
    then show "case order_view b k of None \<Rightarrow> order_view b' k = None
      | Some u \<Rightarrow> \<exists>u'. order_view b' k = Some u' \<and> retrailed u u'" using kept [of k] by (simp add: ov)
  qed
  ultimately show ?thesis by blast
qed

text \<open>
  C14. Replacing an order succeeds whenever the new ID is positive and free (or is the old one) and, for an order
  with a limit price, the new price is positive and not a bid at the largest price. The old order is deleted and
  an order with the new ID, the new price and all other terms and quantities of the old one is added; both are
  reported, in this order. If it is a limit order that crosses the other side of the book, it trades with the
  queue of the other side in price-time priority at once. Otherwise, unless it is a limit order that is not good
  till cancelled, it rests in the book with all that was open, in the map of the old order, at its new price or
  its stop price, and every other order is as it was. Only trailing stop orders may have followed the market.
\<close>

theorem replaceOrder_replaces:
  assumes "book_inv d b" and "order_view b i = Some w" and "replaceable b i j p (w_order w)"
    and "od = (w_order w)\<lparr>oid := j, price := p\<rparr>"
  shows "\<exists>b' es. replaceOrder d b i j p = Inr b' \<and> book_inv d b' \<and> total_open b' \<le> total_open b \<and>
    (j \<noteq> i \<longrightarrow> \<not> hasOrder b' i) \<and> (\<forall>k. hasOrder b' k \<longrightarrow> hasOrder b k \<or> k = j) \<and>
    events b' = events b @ OrderDeleted (w_order w) # OrderAdded od # es \<and>
    (if otype od = Limit \<and> (\<exists>x. level_view b (opposite_map od, x) \<noteq> None \<and> crosses od x)
     then \<exists>es1 es2. es = es1 @ es2 \<and> resting_trades (side od) es1 =
       fst (fill (side od) p (open_quantity od) (opposite_queue (side od) b))
     else (otype od = Limit \<longrightarrow> time_in_force od = GTC) \<longrightarrow>
       total_open b' = total_open b \<and>
       (\<exists>v. order_view b' j = Some v \<and>
         retrailed \<lparr>w_order = od, level_it = (fst (level_it w), level_price_of od)\<rparr> v) \<and>
       (\<forall>k. k \<noteq> i \<and> k \<noteq> j \<longrightarrow> (case order_view b k of None \<Rightarrow> order_view b' k = None
         | Some u \<Rightarrow> \<exists>u'. order_view b' k = Some u' \<and> retrailed u u')))"
proof -
  have ok: "book_ok d b" using assms(1) by (simp add: book_inv_def)
  have wr: "wrapper_ok d (book_symbol_id b) i w" using book_ok_views [OF ok] assms(2) by (rule views_wrapper)
  then have od: "order_ok d (w_order w)" by (simp add: wrapper_ok_def)
  obtain b1 where 1: "deleteOrder_notify d b i True = Inr b1" "book_inv d b1" "order_view b1 = (order_view b)(i := None)"
      "total_open b = unat (open_quantity (w_order w)) + total_open b1" "activation_rel b b1"
      "last_traded_price b1 = last_traded_price b" "\<forall>it. it \<noteq> level_it w \<longrightarrow> level_view b1 it = level_view b it"
      "events b1 = events b @ [OrderDeleted (w_order w)]"
    using assms(1,2) by (rule delete_quiet)
  let ?c = "emit (OrderAdded od) b1"
  note run = replaceOrder_run [OF assms(2) od assms(3) 1(1), folded assms(4)]
  obtain b' where b': "replaceOrder d b i j p = Inr b'" "book_inv d b'" "total_open b' \<le> total_open b"
      "\<forall>k. k \<noteq> j \<longrightarrow> k = i \<or> \<not> hasOrder b k \<longrightarrow> \<not> hasOrder b' k"
    using replaceOrder_ok [OF assms(1-3)] by blast
  have a: "addable d ?c od"
    using replaced_addable [OF ok assms(2,3) 1(3) _ 1(4)] 1(5) by (simp add: assms(4) activation_rel_def)
  obtain b2 b3 where 2: "submit d ?c od = Inr b2" "settle d b2 = Inr b3" "settle d b3 = Inr b'"
    using b'(1) unfolding run addOrder_def by (auto simp: rbind_eq_Inr)
  obtain es1 where es1: "events b2 = events ?c @ es1" using submit_appends [OF 2(1)] by blast
  obtain es2 where es2: "events b' = events b2 @ es2"
    using settle_appends [OF 2(2)] settle_appends [OF 2(3)] by auto
  have ev: "events b' = events b @ OrderDeleted (w_order w) # OrderAdded od # es1 @ es2"
    using es1 es2 1(8) by (simp add: emit_def)
  show ?thesis
  proof (rule exI [of _ b'], rule exI [of _ "es1 @ es2"], intro conjI)
    show "j \<noteq> i \<longrightarrow> \<not> hasOrder b' i" "\<forall>k. hasOrder b' k \<longrightarrow> hasOrder b k \<or> k = j" using b'(4) by auto
    let ?crosses = "otype od = Limit \<and> (\<exists>x. level_view b (opposite_map od, x) \<noteq> None \<and> crosses od x)"
    show "if ?crosses then \<exists>es es'. es1 @ es2 = es @ es' \<and> resting_trades (side od) es =
          fst (fill (side od) p (open_quantity od) (opposite_queue (side od) b))
        else (otype od = Limit \<longrightarrow> time_in_force od = GTC) \<longrightarrow> total_open b' = total_open b \<and>
          (\<exists>v. order_view b' j = Some v \<and> retrailed \<lparr>w_order = od, level_it = (fst (level_it w), level_price_of od)\<rparr> v) \<and>
          (\<forall>k. k \<noteq> i \<and> k \<noteq> j \<longrightarrow> (case order_view b k of None \<Rightarrow> order_view b' k = None
            | Some u \<Rightarrow> \<exists>u'. order_view b' k = Some u' \<and> retrailed u u'))"
    proof (cases ?crosses)
      case True
      have "resting_trades (side od) es1 = fst (fill (side od) p (open_quantity od) (opposite_queue (side od) b))"
        by (rule replaced_trades [OF ok assms(2) _ 1(2,3,7) a 2(1) es1]) (use True assms(4) in simp_all)
      with True show ?thesis by auto
    next
      case False
      have "total_open b' = total_open b \<and>
          (\<exists>v. order_view b' j = Some v \<and> retrailed \<lparr>w_order = od, level_it = (fst (level_it w), level_price_of od)\<rparr> v) \<and>
          (\<forall>k. k \<noteq> i \<and> k \<noteq> j \<longrightarrow> (case order_view b k of None \<Rightarrow> order_view b' k = None
            | Some u \<Rightarrow> \<exists>u'. order_view b' k = Some u' \<and> retrailed u u'))"
        if "otype od = Limit \<longrightarrow> time_in_force od = GTC"
        by (rule replaced_rests [OF assms(1,2,4) 1(2-4,6,7) a 2]) (use that False in blast)+
      then show ?thesis unfolding if_not_P [OF False] by (rule impI)
    qed
  qed (use b' ev in simp_all)
qed

text \<open>Ask 3 of the sample book moves from 105 to 110 as order 11; moved to 90, it trades with bid 5.\<close>

theorem replaceOrder_replaces_witness:
  "(\<exists>b' w'. replaceOrder Debug sample_book 3 11 110 = Inr b' \<and> \<not> hasOrder b' 3 \<and> order_view b' 11 = Some w' \<and>
     price (w_order w') = 110 \<and> open_quantity (w_order w') = 40 \<and> level_it w' = (AskLevels, 110)) \<and>
   (\<exists>b' old new es es'. replaceOrder Debug sample_book 3 11 90 = Inr b' \<and>
     events b' = events sample_book @ OrderDeleted old # OrderAdded new # es @ es' \<and>
     oid old = 3 \<and> oid new = 11 \<and> resting_trades Ask es = [(5, 90, 40)])"
proof -
  have "case order_view sample_book 3 of None \<Rightarrow> False
    | Some w \<Rightarrow> replaceable sample_book 3 11 110 (w_order w) \<and> replaceable sample_book 3 11 90 (w_order w) \<and>
        otype (w_order w) = Limit \<and> side (w_order w) = Ask \<and> time_in_force (w_order w) = GTC \<and>
        open_quantity (w_order w) = 40 \<and> oid (w_order w) = 3 \<and> fst (level_it w) = AskLevels" by code_simp
  then obtain w where w: "order_view sample_book 3 = Some w" "replaceable sample_book 3 11 110 (w_order w)"
      "replaceable sample_book 3 11 90 (w_order w)" "otype (w_order w) = Limit" "side (w_order w) = Ask"
      "time_in_force (w_order w) = GTC" "open_quantity (w_order w) = 40" "oid (w_order w) = 3"
      "fst (level_it w) = AskLevels"
    by (auto split: option.splits)
  have best: "bestBid sample_book = 90" by code_simp
  have bids: "x \<le> 90" if "level_view sample_book (BidLevels, x) = Some l" for x l
    using best_prices_extreme [OF sample_ok] best that by (metis option.distinct(1))
  have bid: "\<exists>l. level_view sample_book (BidLevels, 90) = Some l"
    using best_prices_extreme [OF sample_ok] best by auto
  have q: "opposite_queue Ask sample_book = [(5, 90, 60)]" by code_simp
  have f: "fst (fill Ask 90 40 [(5, 90, 60)]) = [(5, 90, 40)]" by code_simp
  have no: "\<not> 110 \<le> x" if "level_view sample_book (BidLevels, x) = Some l" for x l
    using bids [OF that] by (auto simp: word_le_nat_alt)
  have "\<exists>b' w'. replaceOrder Debug sample_book 3 11 110 = Inr b' \<and> \<not> hasOrder b' 3 \<and> order_view b' 11 = Some w' \<and>
      price (w_order w') = 110 \<and> open_quantity (w_order w') = 40 \<and> level_it w' = (AskLevels, 110)"
    using replaceOrder_replaces [OF sample_inv w(1,2) refl] w no
    by (auto simp: opposite_map_def crosses_def retrailed_def trailing_kind_def level_price_of_def split: if_splits)
  moreover have "\<exists>b' old new es es'. replaceOrder Debug sample_book 3 11 90 = Inr b' \<and>
      events b' = events sample_book @ OrderDeleted old # OrderAdded new # es @ es' \<and>
      oid old = 3 \<and> oid new = 11 \<and> resting_trades Ask es = [(5, 90, 40)]"
  proof -
    let ?od = "(w_order w)\<lparr>oid := 11, price := 90\<rparr>"
    have "otype ?od = Limit \<and> (\<exists>x. level_view sample_book (opposite_map ?od, x) \<noteq> None \<and> crosses ?od x)"
      using bid w(4,5) by (auto simp: opposite_map_def crosses_def intro!: exI [of _ 90])
    from replaceOrder_replaces [OF sample_inv w(1,3) refl, unfolded if_P [OF this]]
    obtain b' es es' where "replaceOrder Debug sample_book 3 11 90 = Inr b'"
        "events b' = events sample_book @ OrderDeleted (w_order w) # OrderAdded ?od # es @ es'"
        "resting_trades (side ?od) es = fst (fill (side ?od) 90 (open_quantity ?od) (opposite_queue (side ?od) sample_book))"
      by blast
    moreover from this(3) have "resting_trades Ask es = [(5, 90, 40)]"
      using w(5,7) q f by (simp del: fill.simps)
    ultimately show ?thesis using w(8)
      by (intro exI [of _ b'] exI [of _ "w_order w"] exI [of _ ?od] exI [of _ es] exI [of _ es']) simp
  qed
  ultimately show ?thesis by blast
qed

end
