(* ===== verification/Histories.thy ===== *)
theory Histories
  imports Prelude
begin

text \<open>
  Histories of a machine with events: what the parallel components share. An event may be impossible in a
  state (a thread that waits does not move), and a possible event may fail.
\<close>

fun history :: "('e \<Rightarrow> 's \<Rightarrow> 's res) \<Rightarrow> 'e list \<Rightarrow> 's \<Rightarrow> 's res" where
  "history step [] s = Inr s"
| "history step (e # es) s = rbind (step e s) (history step es)"

fun legal :: "('e \<Rightarrow> 's \<Rightarrow> bool) \<Rightarrow> ('e \<Rightarrow> 's \<Rightarrow> 's res) \<Rightarrow> 'e list \<Rightarrow> 's \<Rightarrow> bool" where
  "legal enabled step [] s = True"
| "legal enabled step (e # es) s =
     (enabled e s \<and> (case step e s of Inl x \<Rightarrow> True | Inr s' \<Rightarrow> legal enabled step es s'))"

lemma history_append: "history step (es @ fs) s = rbind (history step es s) (history step fs)"
  by (induction es arbitrary: s) (auto simp: rbind_def split: sum.splits)

lemma legal_append:
  "legal enabled step (es @ fs) s \<longleftrightarrow> legal enabled step es s \<and>
    (case history step es s of Inl x \<Rightarrow> True | Inr s' \<Rightarrow> legal enabled step fs s')"
  by (induction es arbitrary: s) (auto split: sum.splits)

text \<open>
  A machine whose possible events keep \<open>ok\<close>, a relation between the events so far, the first state and
  the present one, never fails.
\<close>

locale safe_machine =
  fixes step :: "'e \<Rightarrow> 's \<Rightarrow> 's res" and enabled :: "'e \<Rightarrow> 's \<Rightarrow> bool" and fine :: "'e \<Rightarrow> bool"
    and ok :: "'e list \<Rightarrow> 's \<Rightarrow> 's \<Rightarrow> bool"
  assumes keeps: "ok es s0 s \<Longrightarrow> history step es s0 = Inr s \<Longrightarrow> enabled e s \<Longrightarrow> fine e \<Longrightarrow>
    \<exists>s'. step e s = Inr s' \<and> ok (es @ [e]) s0 s'"
begin

lemma runs_safely:
  "ok [] s0 s0 \<Longrightarrow> legal enabled step es s0 \<Longrightarrow> \<forall>e \<in> set es. fine e \<Longrightarrow>
    \<exists>s. history step es s0 = Inr s \<and> ok es s0 s"
proof (induction es rule: rev_induct)
  case (snoc e es)
  then obtain s where s: "history step es s0 = Inr s" "ok es s0 s" by (auto simp: legal_append)
  then obtain s' where "step e s = Inr s'" "ok (es @ [e]) s0 s'"
    using keeps [OF s(2,1), of e] snoc.prems(2,3) by (auto simp: legal_append)
  then show ?case using s(1) by (simp add: history_append)
qed simp

end

end
