(* ===== verification/Futures.thy ===== *)
theory Futures
  imports Thread_Pool Histories "HOL-Library.Multiset"
begin

text \<open>
  Tasks with a result (\<open>include/concurrent/thread_pool.h\<close>: \<open>submitWaitableTask\<close>). The function of a task
  runs on the state that the tasks share, changes it, and returns a value or throws; its outcome is kept in
  the shared state of a promise and its future. An exception that leaves the function of a thread ends the
  program.
\<close>

section \<open>Promises and tasks\<close>

type_synonym ('s, 'r, 'e) body = "'s \<Rightarrow> ('e + 'r) \<times> 's"

datatype ('r, 'e) promise = NotReady | Ready "'e + 'r"

datatype ('s, 'r, 'e) pool_task = Plain "('s, 'r, 'e) body" | Waitable "('s, 'r, 'e) body" nat

record ('s, 'r, 'e) PoolSystem =
  workers :: "('s, 'r, 'e) pool_task ThreadPool"
  promises :: "('r, 'e) promise list"
  shared :: 's

text \<open>
  \<open>set_value\<close> and \<open>set_exception\<close> throw when the promise has a result: the exception of the first is
  caught, that of the second is not.
\<close>

definition satisfy :: "nat \<Rightarrow> 'e + 'r \<Rightarrow> ('s, 'r, 'e) PoolSystem \<Rightarrow> ('s, 'r, 'e) PoolSystem res" where
  "satisfy n outcome sys =
     rbind (require (n < length (promises sys)) ()) (\<lambda>_.
     case promises sys ! n of
       NotReady \<Rightarrow> Inr (sys\<lparr>promises := (promises sys)[n := Ready outcome]\<rparr>)
     | Ready r \<Rightarrow> Inl Terminated)"

fun run_pool_task :: "('s, 'r, 'e) pool_task \<Rightarrow> ('s, 'r, 'e) PoolSystem \<Rightarrow> ('s, 'r, 'e) PoolSystem res" where
  "run_pool_task (Plain f) sys =
     (case f (shared sys) of (Inl e, s) \<Rightarrow> Inl Terminated | (Inr r, s) \<Rightarrow> Inr (sys\<lparr>shared := s\<rparr>))"
| "run_pool_task (Waitable f n) sys = (case f (shared sys) of (outcome, s) \<Rightarrow> satisfy n outcome (sys\<lparr>shared := s\<rparr>))"

text \<open>The result is the number of the future.\<close>

definition submitWaitableTask ::
  "nat \<Rightarrow> ('s, 'r, 'e) body \<Rightarrow> ('s, 'r, 'e) PoolSystem \<Rightarrow> (nat \<times> ('s, 'r, 'e) PoolSystem) res" where
  "submitWaitableTask queue_index f sys =
     (let n = length (promises sys) in
      rbind (submitTask queue_index (Waitable f n) (workers sys)) (\<lambda>p.
      Inr (n, sys\<lparr>workers := p, promises := promises sys @ [NotReady]\<rparr>)))"

text \<open>\<open>get\<close> on a future: \<open>None\<close> is a call that has to wait.\<close>

definition future_get :: "nat \<Rightarrow> ('s, 'r, 'e) PoolSystem \<Rightarrow> ('e + 'r) option" where
  "future_get n sys = (case promises sys ! n of NotReady \<Rightarrow> None | Ready r \<Rightarrow> Some r)"

section \<open>Histories\<close>

text \<open>The submissions of the clients, the turns of the workers, and the start of the destructor.\<close>

datatype ('s, 'r, 'e) event =
    Submit nat "('s, 'r, 'e) body"
  | SubmitWaitable nat "('s, 'r, 'e) body"
  | Turn nat
  | Finish

fun event_step :: "('s, 'r, 'e) event \<Rightarrow> ('s, 'r, 'e) PoolSystem \<Rightarrow> ('s, 'r, 'e) PoolSystem res" where
  "event_step (Submit i f) sys = rbind (submitTask i (Plain f) (workers sys)) (\<lambda>p. Inr (sys\<lparr>workers := p\<rparr>))"
| "event_step (SubmitWaitable i f) sys = rbind (submitWaitableTask i f sys) (\<lambda>(n, sys'). Inr sys')"
| "event_step (Turn i) sys =
     (case worker_turn i (workers sys) of
        (Run t, p) \<Rightarrow> run_pool_task t (sys\<lparr>workers := p\<rparr>)
      | (Return, p) \<Rightarrow> Inr (sys\<lparr>workers := p\<rparr>)
      | (Yield, p) \<Rightarrow> Inr (sys\<lparr>workers := p\<rparr>))"
| "event_step Finish sys = Inr (sys\<lparr>workers := destroy (workers sys)\<rparr>)"

fun enabled :: "('s, 'r, 'e) event \<Rightarrow> ('s, 'r, 'e) PoolSystem \<Rightarrow> bool" where
  "enabled (Submit i f) sys \<longleftrightarrow> i < num_threads (workers sys) \<and> running (workers sys)"
| "enabled (SubmitWaitable i f) sys \<longleftrightarrow> i < num_threads (workers sys) \<and> running (workers sys)"
| "enabled (Turn i) sys \<longleftrightarrow> i < num_threads (workers sys) \<and> \<not> worker_returned (workers sys) ! i"
| "enabled Finish sys \<longleftrightarrow> running (workers sys)"

definition new_system :: "('s, 'r, 'e) pool_task ThreadPool \<Rightarrow> 's \<Rightarrow> ('s, 'r, 'e) PoolSystem" where
  "new_system p s = \<lparr>workers = p, promises = [], shared = s\<rparr>"

text \<open>The functions of the futures, in the order of their numbers.\<close>

fun waitables :: "('s, 'r, 'e) event list \<Rightarrow> ('s, 'r, 'e) body list" where
  "waitables [] = []"
| "waitables (SubmitWaitable i f # es) = f # waitables es"
| "waitables (e # es) = waitables es"

definition never_throws :: "('s, 'r, 'e) body \<Rightarrow> bool" where
  "never_throws f \<longleftrightarrow> (\<forall>s. \<not> isl (fst (f s)))"

lemma waitables_append: "waitables (es @ fs) = waitables es @ waitables fs"
  by (induction es rule: waitables.induct) auto

section \<open>The futures that wait\<close>

fun promise_ids :: "('s, 'r, 'e) pool_task list \<Rightarrow> nat list" where
  "promise_ids [] = []"
| "promise_ids (Plain f # ts) = promise_ids ts"
| "promise_ids (Waitable f n # ts) = n # promise_ids ts"

definition not_ready :: "('r, 'e) promise list \<Rightarrow> nat set" where
  "not_ready ps = {n. n < length ps \<and> ps ! n = NotReady}"

lemma promise_ids_append: "promise_ids (ts @ us) = promise_ids ts @ promise_ids us"
  by (induction ts rule: promise_ids.induct) auto

lemma mset_concat_push:
  "i < length qs \<Longrightarrow> mset (promise_ids (concat (qs[i := qs ! i @ ts]))) = mset (promise_ids (concat qs)) + mset (promise_ids ts)"
  by (induction qs arbitrary: i) (auto simp: promise_ids_append split: nat.splits)

lemma mset_concat_pop:
  "i < length qs \<Longrightarrow> qs ! i = t # q \<Longrightarrow>
    mset (promise_ids (concat qs)) = mset (promise_ids [t]) + mset (promise_ids (concat (qs[i := q])))"
proof (induction qs arbitrary: i)
  case (Cons a qs)
  show ?case
  proof (cases i)
    case 0
    then show ?thesis using Cons.prems by (cases t) (auto simp: promise_ids_append)
  next
    case (Suc j)
    then show ?thesis using Cons.IH [of j] Cons.prems by (simp add: promise_ids_append)
  qed
qed simp

lemma not_ready_finite: "finite (not_ready ps)"
  by (simp add: not_ready_def)

lemma distinct_of_mset_set:
  assumes "mset xs = mset_set A" and "finite A"
  shows "distinct xs"
proof -
  have "set xs = A" using arg_cong [OF assms(1), of set_mset] assms(2) by simp
  then show ?thesis using assms by (simp add: distinct_count_atmost_1)
qed

lemma not_ready_new: "not_ready (ps @ [NotReady]) = insert (length ps) (not_ready ps)" "length ps \<notin> not_ready ps"
  by (auto simp: not_ready_def nth_append)

lemma not_ready_set: "not_ready (ps[n := Ready r]) = not_ready ps - {n}"
  by (cases "n < length ps") (auto simp: not_ready_def nth_list_update)

section \<open>The invariant\<close>

text \<open>
  Of every future that is not ready exactly one task is queued, and it has the future's function; a ready
  one holds what its function returned, on the state of some moment.
\<close>

definition delivered ::
  "('s, 'r, 'e) event list \<Rightarrow> ('s, 'r, 'e) PoolSystem \<Rightarrow> ('s, 'r, 'e) body \<Rightarrow> 'e + 'r \<Rightarrow> bool" where
  "delivered es sys0 f r \<longleftrightarrow> (\<exists>k < length es. \<exists>sys. history event_step (take k es) sys0 = Inr sys \<and> r = fst (f (shared sys)))"

fun task_ok :: "('s, 'r, 'e) body list \<Rightarrow> ('s, 'r, 'e) pool_task \<Rightarrow> bool" where
  "task_ok fs (Plain f) \<longleftrightarrow> True"
| "task_ok fs (Waitable f n) \<longleftrightarrow> n < length fs \<and> fs ! n = f"

definition futures_ok ::
  "nat \<Rightarrow> ('s, 'r, 'e) event list \<Rightarrow> ('s, 'r, 'e) PoolSystem \<Rightarrow> ('s, 'r, 'e) PoolSystem \<Rightarrow> bool" where
  "futures_ok n es sys0 sys \<longleftrightarrow>
     num_threads (workers sys) = n \<and> length (thread_queues (workers sys)) = n \<and>
     length (worker_returned (workers sys)) = n \<and>
     (\<forall>i < n. worker_returned (workers sys) ! i \<longrightarrow> \<not> running (workers sys) \<and> thread_queues (workers sys) ! i = []) \<and>
     length (promises sys) = length (waitables es) \<and>
     (\<forall>t \<in> set (concat (thread_queues (workers sys))). task_ok (waitables es) t) \<and>
     mset (promise_ids (concat (thread_queues (workers sys)))) = mset_set (not_ready (promises sys)) \<and>
     (\<forall>m < length (promises sys). \<forall>r. promises sys ! m = Ready r \<longrightarrow> delivered es sys0 (waitables es ! m) r)"

lemma delivered_append:
  assumes "delivered es sys0 f r"
  shows "delivered (es @ fs) sys0 f r"
proof -
  obtain k sys where k: "k < length es" "history event_step (take k es) sys0 = Inr sys" "r = fst (f (shared sys))"
    using assms by (auto simp: delivered_def)
  then have "k < length (es @ fs)" "take k (es @ fs) = take k es" by simp_all
  with k show ?thesis unfolding delivered_def by metis
qed

lemma task_ok_append: "task_ok fs t \<Longrightarrow> task_ok (fs @ gs) t"
  by (cases t) (auto simp: nth_append)

lemma futures_ok_new:
  assumes "newThreadPool d n = Inr p"
  shows "futures_ok n [] (new_system p s) (new_system p s)"
proof -
  have p: "p = \<lparr>running = True, num_threads = n, thread_queues = replicate n queue_new,
      thread_joinable = replicate n True, worker_returned = replicate n False\<rparr>"
    using assms by (auto simp: newThreadPool_def check_def split: if_splits)
  have "concat (replicate n []) = []" by simp
  then show ?thesis by (simp add: futures_ok_def p new_system_def queue_new_def not_ready_def)
qed

text \<open>Every enabled event succeeds and keeps it.\<close>

lemma submitPlain_ok:
  assumes ok: "futures_ok n es sys0 sys" and i: "i < n" "running (workers sys)"
  shows "\<exists>sys'. event_step (Submit i f) sys = Inr sys' \<and> futures_ok n (es @ [Submit i f]) sys0 sys'"
proof -
  let ?qs = "thread_queues (workers sys)" and ?t = "Plain f"
  let ?p = "(workers sys)\<lparr>thread_queues := ?qs[i := ?qs ! i @ [?t]]\<rparr>"
  have len: "i < length ?qs" using ok i(1) by (simp add: futures_ok_def)
  then have e: "event_step (Submit i f) sys = Inr (sys\<lparr>workers := ?p\<rparr>)"
    by (simp add: submitTask_def require_def queue_push_def)
  have q: "set (concat (?qs[i := ?qs ! i @ [?t]])) \<subseteq> insert ?t (set (concat ?qs))"
    using set_update_subset_insert [of ?qs i "?qs ! i @ [?t]"] len by fastforce
  have "futures_ok n (es @ [Submit i f]) sys0 (sys\<lparr>workers := ?p\<rparr>)"
    unfolding futures_ok_def
    using ok i q mset_concat_push [OF len, of "[?t]"]
    by (auto simp: futures_ok_def waitables_append nth_list_update intro: delivered_append)
  with e show ?thesis by blast
qed

lemma submitWaitable_ok:
  assumes ok: "futures_ok n es sys0 sys" and i: "i < n" "running (workers sys)"
  shows "\<exists>sys'. event_step (SubmitWaitable i f) sys = Inr sys' \<and> futures_ok n (es @ [SubmitWaitable i f]) sys0 sys'"
proof -
  let ?qs = "thread_queues (workers sys)" and ?m = "length (promises sys)"
  let ?t = "Waitable f ?m"
  let ?sys = "sys\<lparr>workers := (workers sys)\<lparr>thread_queues := ?qs[i := ?qs ! i @ [?t]]\<rparr>, promises := promises sys @ [NotReady]\<rparr>"
  let ?es = "es @ [SubmitWaitable i f]"
  have len: "i < length ?qs" and m: "?m = length (waitables es)" using ok i(1) by (simp_all add: futures_ok_def)
  have e: "event_step (SubmitWaitable i f) sys = Inr ?sys"
    using len by (simp add: submitWaitableTask_def submitTask_def require_def queue_push_def Let_def)
  have sub: "set (concat (?qs[i := ?qs ! i @ [?t]])) \<subseteq> insert ?t (set (concat ?qs))"
    using set_update_subset_insert [of ?qs i "?qs ! i @ [?t]"] len by fastforce
  have new: "task_ok (waitables ?es) ?t" using m by (simp add: waitables_append)
  have old: "task_ok (waitables ?es) t" if "t \<in> set (concat ?qs)" for t
    using that ok task_ok_append unfolding futures_ok_def waitables_append by blast
  have "\<forall>t \<in> set (concat (?qs[i := ?qs ! i @ [?t]])). task_ok (waitables ?es) t"
    using sub new old by blast
  then have "\<forall>t \<in> set (concat (thread_queues (workers ?sys))). task_ok (waitables ?es) t" by simp
  moreover have "mset (promise_ids (concat (thread_queues (workers ?sys)))) = mset_set (not_ready (promises ?sys))"
    using ok mset_concat_push [OF len, of "[?t]"] not_ready_new [of "promises sys"] not_ready_finite [of "promises sys"]
    by (simp add: futures_ok_def)
  moreover have "delivered ?es sys0 (waitables ?es ! k) r" if "k < Suc ?m" "(promises sys @ [NotReady]) ! k = Ready r" for k r
    using that ok m by (auto simp: futures_ok_def waitables_append nth_append less_Suc_eq intro: delivered_append split: if_splits)
  ultimately have "futures_ok n ?es sys0 ?sys"
    unfolding futures_ok_def [of n ?es] using ok i m by (auto simp: futures_ok_def waitables_append nth_list_update)
  with e show ?thesis by blast
qed

lemma finish_ok:
  assumes "futures_ok n es sys0 sys"
  shows "\<exists>sys'. event_step Finish sys = Inr sys' \<and> futures_ok n (es @ [Finish]) sys0 sys'"
  using assms by (auto simp: futures_ok_def destroy_def waitables_append intro: delivered_append)

text \<open>A turn of a worker: it leaves, has nothing to do, or runs the first task of its queue.\<close>

lemma promise_member: "n \<in> set (promise_ids ts) \<longleftrightarrow> (\<exists>f. Waitable f n \<in> set ts)"
  by (induction ts rule: promise_ids.induct) auto

lemma delivered_turn:
  assumes ok: "futures_ok n es sys0 sys" and h: "history event_step es sys0 = Inr sys"
  shows "delivered (es @ [e]) sys0 f (fst (f (shared sys)))"
    and "m < length (promises sys) \<Longrightarrow> promises sys ! m = Ready r \<Longrightarrow> delivered (es @ [e]) sys0 (waitables es ! m) r"
proof -
  show "delivered (es @ [e]) sys0 f (fst (f (shared sys)))"
    unfolding delivered_def by (rule exI [of _ "length es"]) (use h in simp)
  show "delivered (es @ [e]) sys0 (waitables es ! m) r" if "m < length (promises sys)" "promises sys ! m = Ready r"
    using that ok by (auto simp: futures_ok_def intro: delivered_append)
qed

lemma turn_idle_ok:
  assumes ok: "futures_ok n es sys0 sys" and h: "history event_step es sys0 = Inr sys" and i: "i < n"
    and q: "thread_queues (workers sys) ! i = []"
  shows "\<exists>sys'. event_step (Turn i) sys = Inr sys' \<and> futures_ok n (es @ [Turn i]) sys0 sys'"
proof (cases "running (workers sys)")
  case True
  then have "worker_turn i (workers sys) = (Yield, workers sys)" using q by (simp add: worker_turn_def tryPop_def)
  then have "event_step (Turn i) sys = Inr sys" by simp
  moreover have "futures_ok n (es @ [Turn i]) sys0 sys"
    using ok delivered_turn(2) [OF ok h] by (simp add: futures_ok_def waitables_append)
  ultimately show ?thesis by blast
next
  case False
  let ?p = "(workers sys)\<lparr>worker_returned := (worker_returned (workers sys))[i := True]\<rparr>"
  have "worker_turn i (workers sys) = (Return, ?p)" using q False by (simp add: worker_turn_def queue_empty_def)
  then have "event_step (Turn i) sys = Inr (sys\<lparr>workers := ?p\<rparr>)" by simp
  moreover have "thread_queues (workers sys) ! j = []" if "j < n" "worker_returned ?p ! j" for j
    using that ok q by (cases "j = i") (auto simp: futures_ok_def)
  then have "futures_ok n (es @ [Turn i]) sys0 (sys\<lparr>workers := ?p\<rparr>)"
    using ok delivered_turn(2) [OF ok h] False by (simp add: futures_ok_def waitables_append)
  ultimately show ?thesis by blast
qed

text \<open>What is left when a task has been taken from its queue.\<close>

definition popped :: "nat \<Rightarrow> ('s, 'r, 'e) pool_task list \<Rightarrow> ('s, 'r, 'e) PoolSystem \<Rightarrow> ('s, 'r, 'e) pool_task ThreadPool" where
  "popped i q sys = (workers sys)\<lparr>thread_queues := (thread_queues (workers sys))[i := q]\<rparr>"

lemma popped_simps [simp]:
  "num_threads (popped i q sys) = num_threads (workers sys)" "running (popped i q sys) = running (workers sys)"
  "worker_returned (popped i q sys) = worker_returned (workers sys)"
  "thread_queues (popped i q sys) = (thread_queues (workers sys))[i := q]"
  by (simp_all add: popped_def)

lemma pop_task_ok:
  assumes ok: "futures_ok n es sys0 sys" and i: "i < n" and q: "thread_queues (workers sys) ! i = t # q"
  shows "worker_turn i (workers sys) = (Run t, popped i q sys)" and "task_ok (waitables es) t"
    and "\<forall>u \<in> set (concat (thread_queues (popped i q sys))). task_ok (waitables es) u"
    and "mset (promise_ids [t]) + mset (promise_ids (concat (thread_queues (popped i q sys)))) = mset_set (not_ready (promises sys))"
    and "\<And>j. j < n \<Longrightarrow> worker_returned (workers sys) ! j \<longrightarrow> \<not> running (workers sys) \<and> thread_queues (popped i q sys) ! j = []"
proof -
  let ?qs = "thread_queues (workers sys)"
  have len: "i < length ?qs" using ok i by (simp add: futures_ok_def)
  show "worker_turn i (workers sys) = (Run t, popped i q sys)" using q by (simp add: worker_turn_Run popped_def)
  have old: "\<forall>u \<in> set (concat ?qs). task_ok (waitables es) u" using ok by (simp add: futures_ok_def)
  have first: "set (t # q) \<subseteq> set (concat ?qs)" using nth_mem [OF len] unfolding q by (auto intro: bexI [of _ "t # q"])
  then show "task_ok (waitables es) t" using old by auto
  have "set (concat (?qs[i := q])) \<subseteq> set (concat ?qs)"
    using first set_update_subset_insert [of ?qs i q] by fastforce
  then show "\<forall>u \<in> set (concat (thread_queues (popped i q sys))). task_ok (waitables es) u" using old by auto
  show "mset (promise_ids [t]) + mset (promise_ids (concat (thread_queues (popped i q sys)))) = mset_set (not_ready (promises sys))"
    using mset_concat_pop [OF len q] ok by (simp add: futures_ok_def)
  show "worker_returned (workers sys) ! j \<longrightarrow> \<not> running (workers sys) \<and> thread_queues (popped i q sys) ! j = []" if "j < n" for j
    using that ok q by (cases "j = i") (auto simp: futures_ok_def)
qed

lemma turn_plain_ok:
  assumes ok: "futures_ok n es sys0 sys" and h: "history event_step es sys0 = Inr sys" and i: "i < n"
    and q: "thread_queues (workers sys) ! i = Plain f # q" and calm: "\<not> isl (fst (f (shared sys)))"
  shows "\<exists>sys'. event_step (Turn i) sys = Inr sys' \<and> futures_ok n (es @ [Turn i]) sys0 sys'"
proof -
  note p = pop_task_ok [OF ok i q]
  obtain r s where f: "f (shared sys) = (Inr r, s)"
    using calm by (cases "f (shared sys)"; cases "fst (f (shared sys))") auto
  let ?sys = "sys\<lparr>workers := popped i q sys, shared := s\<rparr>"
  have "event_step (Turn i) sys = Inr ?sys" using p(1) f by simp
  moreover have "futures_ok n (es @ [Turn i]) sys0 ?sys"
    using ok delivered_turn(2) [OF ok h] p(3,4,5) by (simp add: futures_ok_def waitables_append)
  ultimately show ?thesis by blast
qed

lemma turn_waitable_ok:
  assumes ok: "futures_ok n es sys0 sys" and h: "history event_step es sys0 = Inr sys" and i: "i < n"
    and q: "thread_queues (workers sys) ! i = Waitable f m # q"
  shows "\<exists>sys'. event_step (Turn i) sys = Inr sys' \<and> futures_ok n (es @ [Turn i]) sys0 sys'"
proof -
  note p = pop_task_ok [OF ok i q]
  obtain r s where f: "f (shared sys) = (r, s)" by (cases "f (shared sys)")
  have wf: "m < length (waitables es)" "waitables es ! m = f" using p(2) by auto
  have mem: "m \<in># mset_set (not_ready (promises sys))" using p(4) [symmetric] by simp
  then have m: "m < length (promises sys)" "promises sys ! m = NotReady"
    using not_ready_finite [of "promises sys"] by (auto simp: not_ready_def)
  let ?ps = "(promises sys)[m := Ready r]"
  let ?sys = "sys\<lparr>workers := popped i q sys, shared := s, promises := ?ps\<rparr>"
  have "event_step (Turn i) sys = Inr ?sys" using p(1) f m by (simp add: satisfy_def require_def)
  moreover have "mset (promise_ids (concat (thread_queues (popped i q sys)))) = mset_set (not_ready ?ps)"
    using arg_cong [OF p(4), of "\<lambda>M. M - {#m#}"] mem not_ready_finite [of "promises sys"]
    by (simp add: not_ready_set mset_set_Diff)
  moreover have "delivered (es @ [Turn i]) sys0 (waitables es ! k) x" if "k < length ?ps" "?ps ! k = Ready x" for k x
    using that delivered_turn(2) [OF ok h, of k x "Turn i"] delivered_turn(1) [OF ok h, of "Turn i" f] wf f m
    by (auto simp: nth_list_update split: if_splits)
  ultimately have "event_step (Turn i) sys = Inr ?sys \<and> futures_ok n (es @ [Turn i]) sys0 ?sys"
    using ok p(3,5) by (simp add: futures_ok_def waitables_append)
  then show ?thesis by blast
qed

text \<open>The task that a turn would run does not end the program.\<close>

definition calm_turn :: "nat \<Rightarrow> ('s, 'r, 'e) PoolSystem \<Rightarrow> bool" where
  "calm_turn i sys \<longleftrightarrow> (case thread_queues (workers sys) ! i of
     Plain f # q \<Rightarrow> \<not> isl (fst (f (shared sys))) | _ \<Rightarrow> True)"

lemma turn_ok:
  assumes "futures_ok n es sys0 sys" and "history event_step es sys0 = Inr sys" and "i < n" and "calm_turn i sys"
  shows "\<exists>sys'. event_step (Turn i) sys = Inr sys' \<and> futures_ok n (es @ [Turn i]) sys0 sys'"
proof (cases "thread_queues (workers sys) ! i")
  case Nil
  then show ?thesis by (rule turn_idle_ok [OF assms(1-3)])
next
  case (Cons t q)
  then show ?thesis using turn_plain_ok [OF assms(1-3)] turn_waitable_ok [OF assms(1-3)] assms(4)
    by (cases t) (auto simp: calm_turn_def simp del: event_step.simps)
qed

lemma event_ok:
  assumes ok: "futures_ok n es sys0 sys" and h: "history event_step es sys0 = Inr sys" and en: "enabled e sys"
    and calm: "\<And>i. e = Turn i \<Longrightarrow> calm_turn i sys"
  shows "\<exists>sys'. event_step e sys = Inr sys' \<and> futures_ok n (es @ [e]) sys0 sys'"
proof -
  have n: "num_threads (workers sys) = n" using ok by (simp add: futures_ok_def)
  show ?thesis
    using submitPlain_ok [OF ok] submitWaitable_ok [OF ok] turn_ok [OF ok h] finish_ok [OF ok] en n calm
    by (cases e) (auto simp del: event_step.simps)
qed

fun fine :: "('s, 'r, 'e) event \<Rightarrow> bool" where
  "fine (Submit i f) = never_throws f"
| "fine (SubmitWaitable i f) = True"
| "fine (Turn i) = True"
| "fine Finish = True"

definition queued :: "('s, 'r, 'e) PoolSystem \<Rightarrow> ('s, 'r, 'e) pool_task set" where
  "queued sys = set (concat (thread_queues (workers sys)))"

definition calm :: "('s, 'r, 'e) PoolSystem \<Rightarrow> bool" where
  "calm sys \<longleftrightarrow> (\<forall>f. Plain f \<in> queued sys \<longrightarrow> never_throws f)"

text \<open>The tasks in the queues after an event.\<close>

fun new_tasks :: "('s, 'r, 'e) event \<Rightarrow> ('s, 'r, 'e) PoolSystem \<Rightarrow> ('s, 'r, 'e) pool_task set" where
  "new_tasks (Submit i f) sys = {Plain f}"
| "new_tasks (SubmitWaitable i f) sys = {Waitable f (length (promises sys))}"
| "new_tasks e sys = {}"

lemma satisfy_keeps: "satisfy n r sys = Inr sys' \<Longrightarrow> workers sys' = workers sys \<and> shared sys' = shared sys"
  by (auto simp: satisfy_def split: promise.splits)

lemma run_pool_task_keeps: "run_pool_task t sys = Inr sys' \<Longrightarrow> workers sys' = workers sys"
  by (cases t) (auto split: prod.splits sum.splits dest!: satisfy_keeps)

lemma queue_update_tasks:
  assumes "set q \<subseteq> A \<union> set (thread_queues (workers sys) ! i)"
    and "thread_queues (workers sys') = (thread_queues (workers sys))[i := q]"
  shows "queued sys' \<subseteq> A \<union> queued sys"
proof (cases "i < length (thread_queues (workers sys))")
  case True
  then have "set q \<subseteq> A \<union> queued sys" using assms(1) by (fastforce simp: queued_def)
  then show ?thesis
    using set_update_subset_insert [of "thread_queues (workers sys)" i q] unfolding queued_def assms(2) by fastforce
qed (use assms(2) in \<open>auto simp: queued_def list_update_beyond not_less\<close>)

lemma turn_tasks:
  assumes "event_step (Turn i) sys = Inr sys'"
  shows "queued sys' \<subseteq> queued sys"
proof -
  obtain u p where t: "worker_turn i (workers sys) = (u, p)" by (cases "worker_turn i (workers sys)")
  show ?thesis
  proof (cases u)
    case (Run t')
    then obtain q where q: "thread_queues (workers sys) ! i = t' # q"
        "p = (workers sys)\<lparr>thread_queues := (thread_queues (workers sys))[i := q]\<rparr>"
      using t by (auto simp: worker_turn_Run)
    have "workers sys' = p" using assms t Run by (auto dest!: run_pool_task_keeps)
    then show ?thesis using queue_update_tasks [of q "{}" sys i sys'] q by auto
  next
    case Return
    then show ?thesis using assms t by (auto simp: worker_turn_Return queued_def)
  next
    case Yield
    then show ?thesis using assms t
      by (auto simp: worker_turn_def queued_def split: if_splits prod.splits option.splits)
  qed
qed

lemma event_tasks:
  assumes "event_step e sys = Inr sys'"
  shows "queued sys' \<subseteq> new_tasks e sys \<union> queued sys"
proof (cases e)
  case (Submit i f)
  have "thread_queues (workers sys') = (thread_queues (workers sys))[i := thread_queues (workers sys) ! i @ [Plain f]]"
    using Submit assms by (auto simp: submitTask_def require_def queue_push_def split: if_splits)
  from queue_update_tasks [OF _ this, of "{Plain f}"] show ?thesis using Submit by simp
next
  case (SubmitWaitable i f)
  let ?t = "Waitable f (length (promises sys))"
  have "thread_queues (workers sys') = (thread_queues (workers sys))[i := thread_queues (workers sys) ! i @ [?t]]"
    using SubmitWaitable assms
    by (auto simp: submitWaitableTask_def submitTask_def require_def queue_push_def Let_def split: if_splits)
  from queue_update_tasks [OF _ this, of "{?t}"] show ?thesis using SubmitWaitable by simp
next
  case (Turn i)
  then show ?thesis using turn_tasks assms by simp
next
  case Finish
  then show ?thesis using assms by (auto simp: destroy_def queued_def)
qed

lemma calm_new: "newThreadPool d n = Inr p \<Longrightarrow> calm (new_system p s)"
  by (auto simp: newThreadPool_def check_def calm_def queued_def new_system_def queue_new_def split: if_splits)

lemma calm_event:
  assumes "calm sys" and "event_step e sys = Inr sys'" and "fine e"
  shows "calm sys'"
proof -
  have "Plain f \<in> new_tasks e sys \<Longrightarrow> never_throws f" for f using assms(3) by (cases e) auto
  then show ?thesis using event_tasks [OF assms(2)] assms(1) unfolding calm_def by blast
qed

lemma calm_calm_turn:
  assumes "calm sys" and "i < length (thread_queues (workers sys))"
  shows "calm_turn i sys"
proof (cases "thread_queues (workers sys) ! i")
  case (Cons t q)
  then have "t \<in> queued sys" using nth_mem [OF assms(2)] by (auto simp: queued_def intro: bexI [of _ "t # q"])
  then show ?thesis using assms(1) Cons by (cases t) (auto simp: calm_turn_def calm_def never_throws_def)
qed (simp add: calm_turn_def)

interpretation futures: safe_machine event_step enabled fine "\<lambda>es s0 s. futures_ok n es s0 s \<and> calm s" for n
proof
  fix es and s0 s :: "('a, 'b, 'c) PoolSystem" and e
  assume ok: "futures_ok n es s0 s \<and> calm s" and h: "history event_step es s0 = Inr s" and en: "enabled e s" and f: "fine e"
  have turn: "calm_turn i s" if "e = Turn i" for i using that ok en by (auto simp: futures_ok_def intro: calm_calm_turn)
  obtain s' where s': "event_step e s = Inr s'" "futures_ok n (es @ [e]) s0 s'"
    using event_ok [OF _ h en turn] ok by blast
  then have "calm s'" using calm_event [OF _ s'(1) f] ok by blast
  with s' show "\<exists>s'. event_step e s = Inr s' \<and> futures_ok n (es @ [e]) s0 s' \<and> calm s'" by blast
qed

section \<open>Property\<close>

text \<open>
  C28. Whatever the order of submissions, turns of workers and the start of the destructor: if no function
  of a plain task throws, nothing fails. Every future belongs to one submission; it is not ready while the
  task of this submission is queued, and then holds, for good, the value or exception its function gave
  when it ran, once. When all workers have returned, every \<open>get\<close> returns.
\<close>

theorem waitable_tasks_delivered:
  assumes "newThreadPool d n = Inr p" and "legal enabled event_step es (new_system p s)"
    and "\<forall>i f. Submit i f \<in> set es \<longrightarrow> never_throws f"
  shows "\<exists>sys. history event_step es (new_system p s) = Inr sys \<and> length (promises sys) = length (waitables es) \<and>
    (\<forall>m < length (waitables es).
      case future_get m sys of
        None \<Rightarrow> Waitable (waitables es ! m) m \<in> set (concat (thread_queues (workers sys)))
      | Some r \<Rightarrow> delivered es (new_system p s) (waitables es ! m) r) \<and>
    distinct (promise_ids (concat (thread_queues (workers sys)))) \<and>
    (list_all id (worker_returned (workers sys)) \<longrightarrow> (\<forall>m < length (waitables es). future_get m sys \<noteq> None))"
proof -
  have "\<forall>e \<in> set es. fine e"
  proof
    fix e assume e: "e \<in> set es"
    show "fine e" by (cases e) (use e assms(3) in auto)
  qed
  then obtain sys where h: "history event_step es (new_system p s) = Inr sys"
    and ok: "futures_ok n es (new_system p s) sys"
    using futures.runs_safely [OF conjI [OF futures_ok_new [OF assms(1)] calm_new [OF assms(1)]] assms(2)] by blast
  let ?ts = "concat (thread_queues (workers sys))"
  have len: "length (promises sys) = length (waitables es)" using ok by (simp add: futures_ok_def)
  have ids: "mset (promise_ids ?ts) = mset_set (not_ready (promises sys))" using ok by (simp add: futures_ok_def)
  have queued: "Waitable (waitables es ! m) m \<in> set ?ts" if m: "m < length (waitables es)" "promises sys ! m = NotReady" for m
  proof -
    have "m \<in># mset (promise_ids ?ts)" using m len not_ready_finite [of "promises sys"] by (simp add: ids not_ready_def)
    then obtain f where f: "Waitable f m \<in> set ?ts" by (auto simp: promise_member)
    then have "task_ok (waitables es) (Waitable f m)" using ok unfolding futures_ok_def by blast
    with f show ?thesis by simp
  qed
  have "distinct (promise_ids ?ts)"
    using ids not_ready_finite by (rule distinct_of_mset_set)
  moreover have "future_get m sys \<noteq> None" if "list_all id (worker_returned (workers sys))" "m < length (waitables es)" for m
  proof -
    have "\<forall>q \<in> set (thread_queues (workers sys)). q = []"
      using that(1) ok by (auto simp: futures_ok_def list_all_length in_set_conv_nth)
    then have "set ?ts = {}" by simp
    then have "promises sys ! m \<noteq> NotReady" using queued [OF that(2)] by (simp only: empty_iff) blast
    then show ?thesis by (cases "promises sys ! m") (auto simp: future_get_def)
  qed
  moreover have "case future_get m sys of None \<Rightarrow> Waitable (waitables es ! m) m \<in> set ?ts
      | Some r \<Rightarrow> delivered es (new_system p s) (waitables es ! m) r" if m: "m < length (waitables es)" for m
    using queued [OF m] ok m len by (cases "promises sys ! m") (auto simp: future_get_def futures_ok_def)
  ultimately show ?thesis using h len by blast
qed

text \<open>Two workers, two waitable tasks on a counter, one of which throws, and a plain one.\<close>

definition sample_events :: "(int, int, string) event list" where
  "sample_events = [SubmitWaitable 0 (\<lambda>s. (Inr s, s + 1)), SubmitWaitable 1 (\<lambda>s. (Inl ''bad'', s)),
     Submit 0 (\<lambda>s. (Inr 0, s + 10)), Turn 1, Turn 0, Finish, Turn 0, Turn 1, Turn 0]"

theorem waitable_tasks_delivered_witness:
  "\<exists>p sys. newThreadPool Debug 2 = Inr p \<and> history event_step sample_events (new_system p 5) = Inr sys \<and>
    future_get 0 sys \<noteq> None \<and> future_get 1 sys \<noteq> None"
proof -
  obtain p :: "(int, int, string) pool_task ThreadPool" where p: "newThreadPool Debug 2 = Inr p"
    and pv: "p = \<lparr>running = True, num_threads = 2, thread_queues = [[], []], thread_joinable = [True, True],
      worker_returned = [False, False]\<rparr>"
    by (simp add: newThreadPool_def queue_new_def numeral_2_eq_2)
  have l: "legal enabled event_step sample_events (new_system p 5)" unfolding pv by code_simp
  have t: "\<forall>i f. Submit i f \<in> set sample_events \<longrightarrow> never_throws f"
    by (auto simp: sample_events_def never_throws_def)
  have w: "length (waitables sample_events) = 2" by (simp add: sample_events_def)
  have r: "case history event_step sample_events (new_system p 5) of Inl e \<Rightarrow> False
      | Inr sys \<Rightarrow> list_all id (worker_returned (workers sys))" unfolding pv by code_simp
  from waitable_tasks_delivered [OF p l t] obtain sys where
    sys: "history event_step sample_events (new_system p 5) = Inr sys"
      "list_all id (worker_returned (workers sys)) \<longrightarrow> (\<forall>m < 2. future_get m sys \<noteq> None)"
    unfolding w by blast
  have "list_all id (worker_returned (workers sys))" using r sys(1) by simp
  then have "future_get 0 sys \<noteq> None \<and> future_get 1 sys \<noteq> None" using sys(2) by auto
  with p sys(1) show ?thesis by blast
qed

end
