(* ===== verification/Queue_Threads.thy ===== *)
theory Queue_Threads
  imports Thread_Pool Histories
begin

text \<open>
  The queue with its mutex and its condition variable (\<open>include/concurrent/queue.h\<close>): threads that stop
  between any two accesses. The pool is modelled with methods that are one step each; this is what makes
  them so.
\<close>

section \<open>Threads\<close>

text \<open>
  Where a thread is: outside of the queue, or in one of its methods, before it has the mutex (\<open>Enter\<close>),
  before an access to the queue, before the notification, asleep on the condition variable, or with its
  result before it gives the mutex back (\<open>Leave\<close>).
\<close>

datatype 'a point =
    Outside
  | PushEnter 'a | PushBody 'a | PushNotify | PushLeave
  | WaitEnter | WaitTest | WaitAsleep | WaitTake | WaitLeave 'a
  | TryEnter | TryBody | TryLeave "'a option"
  | EmptyEnter | EmptyBody | EmptyLeave bool

record 'a QueueThreads =
  mutex :: "nat option"
  contents :: "'a Queue"
  points :: "'a point list"
  pushed :: "'a list"
  popped :: "'a list"

definition new_threads :: "nat \<Rightarrow> 'a QueueThreads" where
  "new_threads n = \<lparr>mutex = None, contents = queue_new, points = replicate n Outside, pushed = [], popped = []\<rparr>"

fun entering :: "'a point \<Rightarrow> 'a point option" where
  "entering (PushEnter x) = Some (PushBody x)"
| "entering WaitEnter = Some WaitTest"
| "entering TryEnter = Some TryBody"
| "entering EmptyEnter = Some EmptyBody"
| "entering p = None"

definition asleep :: "'a point \<Rightarrow> bool" where
  "asleep p \<longleftrightarrow> p = WaitAsleep"

definition inside :: "'a point \<Rightarrow> bool" where
  "inside p \<longleftrightarrow> p \<noteq> Outside \<and> entering p = None \<and> \<not> asleep p"

definition goes_to :: "nat \<Rightarrow> 'a point \<Rightarrow> 'a QueueThreads \<Rightarrow> 'a QueueThreads" where
  "goes_to i p s = s\<lparr>points := (points s)[i := p]\<rparr>"

definition unlock :: "'a QueueThreads \<Rightarrow> 'a QueueThreads" where
  "unlock s = s\<lparr>mutex := None\<rparr>"

text \<open>
  What thread \<open>i\<close>, which has the mutex, does next. \<open>notify_one\<close> wakes a thread if one is asleep; \<open>j\<close> is the
  thread it chooses. Waiting on the condition variable gives the mutex back and falls asleep in one step.
\<close>

fun body_step :: "nat \<Rightarrow> nat \<Rightarrow> 'a point \<Rightarrow> 'a QueueThreads \<Rightarrow> 'a QueueThreads res" where
  "body_step i j (PushBody x) s =
     Inr (goes_to i PushNotify (s\<lparr>contents := queue_push x (contents s), pushed := pushed s @ [x]\<rparr>))"
| "body_step i j PushNotify s =
     Inr (goes_to i PushLeave (if list_ex asleep (points s) then goes_to j WaitEnter s else s))"
| "body_step i j PushLeave s = Inr (goes_to i Outside (unlock s))"
| "body_step i j WaitTest s =
     (if queue_empty (contents s) then Inr (goes_to i WaitAsleep (unlock s)) else Inr (goes_to i WaitTake s))"
| "body_step i j WaitTake s =
     (case waitAndPop (contents s) of
        None \<Rightarrow> Inl UndefinedBehaviour
      | Some (x, q) \<Rightarrow> Inr (goes_to i (WaitLeave x) (s\<lparr>contents := q, popped := popped s @ [x]\<rparr>)))"
| "body_step i j (WaitLeave x) s = Inr (goes_to i Outside (unlock s))"
| "body_step i j TryBody s =
     (case tryPop (contents s) of
        (None, q) \<Rightarrow> Inr (goes_to i (TryLeave None) (s\<lparr>contents := q\<rparr>))
      | (Some x, q) \<Rightarrow> Inr (goes_to i (TryLeave (Some x)) (s\<lparr>contents := q, popped := popped s @ [x]\<rparr>)))"
| "body_step i j (TryLeave r) s = Inr (goes_to i Outside (unlock s))"
| "body_step i j EmptyBody s = Inr (goes_to i (EmptyLeave (queue_empty (contents s))) s)"
| "body_step i j (EmptyLeave b) s = Inr (goes_to i Outside (unlock s))"
| "body_step i j p s = Inr s"

text \<open>A thread calls a method, takes its next step, or wakes up without a reason.\<close>

datatype 'a thread_event = CallMethod nat "'a point" | Go nat nat | Spurious nat

fun thread_enabled :: "'a thread_event \<Rightarrow> 'a QueueThreads \<Rightarrow> bool" where
  "thread_enabled (CallMethod i p) s \<longleftrightarrow> i < length (points s) \<and> points s ! i = Outside \<and> entering p \<noteq> None"
| "thread_enabled (Go i j) s \<longleftrightarrow> i < length (points s) \<and>
     (if entering (points s ! i) \<noteq> None then mutex s = None
      else inside (points s ! i) \<and> (points s ! i = PushNotify \<and> list_ex asleep (points s) \<longrightarrow>
        j < length (points s) \<and> asleep (points s ! j)))"
| "thread_enabled (Spurious i) s \<longleftrightarrow> i < length (points s) \<and> asleep (points s ! i)"

fun thread_step :: "'a thread_event \<Rightarrow> 'a QueueThreads \<Rightarrow> 'a QueueThreads res" where
  "thread_step (CallMethod i p) s = Inr (goes_to i p s)"
| "thread_step (Go i j) s =
     (case entering (points s ! i) of
        Some p \<Rightarrow> Inr (goes_to i p (s\<lparr>mutex := Some i\<rparr>))
      | None \<Rightarrow> body_step i j (points s ! i) s)"
| "thread_step (Spurious i) s = Inr (goes_to i WaitEnter s)"

section \<open>The invariant\<close>

text \<open>The threads in \<open>waitAndPop\<close> that are awake, and those that are about to notify.\<close>

definition hopeful :: "'a point \<Rightarrow> bool" where
  "hopeful p \<longleftrightarrow> p = WaitEnter \<or> p = WaitTest \<or> p = WaitTake \<or> p = PushNotify"

definition threads_ok :: "nat \<Rightarrow> 'a QueueThreads \<Rightarrow> bool" where
  "threads_ok n s \<longleftrightarrow> length (points s) = n \<and>
     (\<forall>i < n. inside (points s ! i) \<longleftrightarrow> mutex s = Some i) \<and> (\<forall>i. mutex s = Some i \<longrightarrow> i < n) \<and>
     (\<forall>i < n. points s ! i = WaitTake \<longrightarrow> contents s \<noteq> []) \<and>
     pushed s = popped s @ contents s \<and>
     (list_ex asleep (points s) \<longrightarrow> length (contents s) \<le> length (filter hopeful (points s)))"

lemma filter_update_length:
  "i < length xs \<Longrightarrow> length (filter P (xs[i := y])) + (if P (xs ! i) then 1 else 0) =
    length (filter P xs) + (if P y then 1 else 0)"
proof (induction xs arbitrary: i)
  case (Cons x xs)
  then show ?case by (cases i) auto
qed simp

lemma asleep_update:
  "i < length ps \<Longrightarrow> list_ex asleep (ps[i := p]) \<Longrightarrow> asleep p \<or> list_ex asleep ps"
  using set_update_subset_insert [of ps i p] by (auto simp: list_ex_iff)

text \<open>One thread moves: what has to be shown of the move alone.\<close>

lemma threads_ok_move:
  assumes ok: "threads_ok n s" and i: "i < n"
    and s': "points s' = (points s)[i := p]"
    and me: "inside p \<longleftrightarrow> mutex s' = Some i" and others: "\<And>j. j \<noteq> i \<Longrightarrow> mutex s' = Some j \<longleftrightarrow> mutex s = Some j"
    and q: "contents s' = contents s \<or> mutex s = Some i" and take: "p = WaitTake \<Longrightarrow> contents s' \<noteq> []"
    and data: "pushed s' = popped s' @ contents s'"
    and count: "asleep p \<or> list_ex asleep (points s) \<Longrightarrow>
      length (contents s') + (if hopeful (points s ! i) then 1 else 0) \<le>
        length (filter hopeful (points s)) + (if hopeful p then 1 else 0)"
  shows "threads_ok n s'"
proof -
  have len: "length (points s) = n" and ins: "\<forall>j < n. inside (points s ! j) \<longleftrightarrow> mutex s = Some j"
    using ok by (simp_all add: threads_ok_def)
  have "inside (points s' ! j) \<longleftrightarrow> mutex s' = Some j" if "j < n" for j
    using that me others ins len i s' by (cases "j = i") auto
  moreover have "j < n" if "mutex s' = Some j" for j
    using that others [of j] i ok by (cases "j = i") (auto simp: threads_ok_def)
  moreover have "contents s' \<noteq> []" if j: "j < n" "points s' ! j = WaitTake" for j
  proof (cases "j = i")
    case True
    then show ?thesis using take j s' len i by simp
  next
    case False
    then have t: "points s ! j = WaitTake" using j s' by simp
    have "mutex s = Some j" using ins [rule_format, OF j(1)] unfolding t by (simp add: inside_def asleep_def)
    then have "contents s' = contents s" using q False by auto
    then show ?thesis using ok j(1) t by (simp add: threads_ok_def)
  qed
  moreover have "length (contents s') \<le> length (filter hopeful (points s'))" if "list_ex asleep (points s')"
  proof -
    have "asleep p \<or> list_ex asleep (points s)" using that asleep_update [of i "points s" p] i len s' by simp
    from count [OF this] show ?thesis using filter_update_length [of i "points s" hopeful p] i len s' by simp
  qed
  ultimately show ?thesis using data len s' by (simp add: threads_ok_def)
qed

lemma threads_ok_new: "threads_ok n (new_threads n)"
  by (auto simp: threads_ok_def new_threads_def queue_new_def inside_def list_ex_iff asleep_def)

lemma call_ok:
  assumes ok: "threads_ok n s" and en: "thread_enabled (CallMethod i p) s"
  shows "\<exists>s'. thread_step (CallMethod i p) s = Inr s' \<and> threads_ok n s'"
proof -
  have i: "i < n" "points s ! i = Outside" "entering p \<noteq> None" using ok en by (auto simp: threads_ok_def)
  have p: "\<not> inside p" "\<not> asleep p" "p \<noteq> WaitTake" using i(3) by (auto simp: inside_def asleep_def)
  have "mutex s \<noteq> Some i" using ok i by (auto simp: threads_ok_def inside_def)
  then have "threads_ok n (goes_to i p s)"
    by (intro threads_ok_move [OF ok i(1)])
      (use ok i p in \<open>auto simp: goes_to_def threads_ok_def hopeful_def\<close>)
  then show ?thesis by simp
qed

lemma spurious_ok:
  assumes ok: "threads_ok n s" and en: "i < n" "asleep (points s ! i)"
  shows "threads_ok n (goes_to i WaitEnter s)"
    and "length (contents s) + 1 \<le> length (filter hopeful (points (goes_to i WaitEnter s)))"
proof -
  have a: "points s ! i = WaitAsleep" using en by (simp add: asleep_def)
  have len: "length (points s) = n" using ok by (simp add: threads_ok_def)
  have ex: "list_ex asleep (points s)" using en len by (auto simp: list_ex_length)
  have "mutex s \<noteq> Some i" using ok en a by (auto simp: threads_ok_def inside_def asleep_def)
  then show "threads_ok n (goes_to i WaitEnter s)"
    by (intro threads_ok_move [OF ok en(1)])
      (use ok a in \<open>auto simp: goes_to_def threads_ok_def hopeful_def inside_def asleep_def\<close>)
  show "length (contents s) + 1 \<le> length (filter hopeful (points (goes_to i WaitEnter s)))"
    using filter_update_length [of i "points s" hopeful WaitEnter] en a len ok ex
    by (simp add: goes_to_def threads_ok_def hopeful_def)
qed

lemma entering_point:
  "entering q = Some p \<Longrightarrow> inside p \<and> \<not> asleep p \<and> p \<noteq> WaitTake \<and> hopeful p = hopeful q"
  by (cases q) (auto simp: inside_def asleep_def hopeful_def)

lemma enter_ok:
  assumes ok: "threads_ok n s" and i: "i < n" and e: "entering (points s ! i) = Some p" and m: "mutex s = None"
  shows "threads_ok n (goes_to i p (s\<lparr>mutex := Some i\<rparr>))"
proof (rule threads_ok_move [OF ok i])
  note p = entering_point [OF e]
  show "inside p \<longleftrightarrow> mutex (goes_to i p (s\<lparr>mutex := Some i\<rparr>)) = Some i" using p by (simp add: goes_to_def)
  show "length (contents (goes_to i p (s\<lparr>mutex := Some i\<rparr>))) + (if hopeful (points s ! i) then 1 else 0) \<le>
      length (filter hopeful (points s)) + (if hopeful p then 1 else 0)" if "asleep p \<or> list_ex asleep (points s)"
    using that p ok by (simp add: goes_to_def threads_ok_def)
qed (use ok m entering_point [OF e] in \<open>simp_all add: goes_to_def threads_ok_def\<close>)

lemma leave_ok:
  assumes ok: "threads_ok n s" and i: "i < n" and m: "mutex s = Some i" and p: "\<not> hopeful (points s ! i)"
  shows "threads_ok n (goes_to i Outside (unlock s))"
  by (rule threads_ok_move [OF ok i])
    (use ok i m p in \<open>auto simp: goes_to_def unlock_def threads_ok_def hopeful_def inside_def asleep_def\<close>)

text \<open>What a thread with the mutex does.\<close>

lemma inside_ok:
  assumes "threads_ok n s" and "i < n" and "inside (points s ! i)"
  shows "mutex s = Some i" and "length (points s) = n" and "pushed s = popped s @ contents s"
    and "list_ex asleep (points s) \<Longrightarrow> length (contents s) \<le> length (filter hopeful (points s))"
  using assms by (auto simp: threads_ok_def)

lemmas point_simps = goes_to_def inside_def asleep_def hopeful_def

lemma push_body_ok:
  assumes ok: "threads_ok n s" and i: "i < n" and p: "points s ! i = PushBody x"
  shows "threads_ok n (goes_to i PushNotify (s\<lparr>contents := queue_push x (contents s), pushed := pushed s @ [x]\<rparr>))"
proof -
  have "inside (points s ! i)" using p by (simp add: point_simps)
  note f = inside_ok [OF ok i this]
  show ?thesis by (rule threads_ok_move [OF ok i]) (use p f in \<open>auto simp: point_simps queue_push_def\<close>)
qed

lemma push_notify_ok:
  assumes ok: "threads_ok n s" and i: "i < n" and p: "points s ! i = PushNotify"
    and j: "list_ex asleep (points s) \<longrightarrow> j < n \<and> asleep (points s ! j)"
  shows "threads_ok n (goes_to i PushLeave (if list_ex asleep (points s) then goes_to j WaitEnter s else s))"
proof -
  have "inside (points s ! i)" using p by (simp add: point_simps)
  note f = inside_ok [OF ok i this]
  show ?thesis
  proof (cases "list_ex asleep (points s)")
    case True
    have "j < n" "asleep (points s ! j)" using j True by simp_all
    note w = spurious_ok [OF ok this]
    have "i \<noteq> j" using p \<open>asleep (points s ! j)\<close> by (auto simp: asleep_def)
    then have "points (goes_to j WaitEnter s) ! i = PushNotify" using p by (simp add: goes_to_def)
    then have "threads_ok n (goes_to i PushLeave (goes_to j WaitEnter s))"
      by (intro threads_ok_move [OF w(1) i]) (use f w(2) in \<open>auto simp: point_simps\<close>)
    then show ?thesis using True by simp
  next
    case False
    have "threads_ok n (goes_to i PushLeave s)"
      by (rule threads_ok_move [OF ok i]) (use p False f in \<open>auto simp: point_simps\<close>)
    then show ?thesis using False by simp
  qed
qed

lemma wait_test_ok:
  assumes ok: "threads_ok n s" and i: "i < n" and p: "points s ! i = WaitTest"
  shows "threads_ok n (if queue_empty (contents s) then goes_to i WaitAsleep (unlock s) else goes_to i WaitTake s)"
proof -
  have "inside (points s ! i)" using p by (simp add: point_simps)
  note f = inside_ok [OF ok i this]
  show ?thesis
  proof (cases "queue_empty (contents s)")
    case True
    have "hopeful (points s ! i)" using p by (simp add: hopeful_def)
    then have "points s ! i \<in> set (filter hopeful (points s))" using i f(2) by simp
    then have "0 < length (filter hopeful (points s))" by (rule length_pos_if_in_set)
    then have "threads_ok n (goes_to i WaitAsleep (unlock s))"
      by (intro threads_ok_move [OF ok i])
        (use p True f(1-3) in \<open>auto simp: point_simps unlock_def queue_empty_def Suc_le_eq\<close>)
    then show ?thesis using True by simp
  next
    case False
    have "threads_ok n (goes_to i WaitTake s)"
      by (rule threads_ok_move [OF ok i]) (use p False f in \<open>auto simp: point_simps queue_empty_def\<close>)
    then show ?thesis using False by simp
  qed
qed

lemma take_ok:
  assumes ok: "threads_ok n s" and i: "i < n" and p: "points s ! i = WaitTake \<or> points s ! i = TryBody"
    and q: "contents s = x # q" and p': "p' = WaitLeave x \<or> p' = TryLeave (Some x)"
  shows "threads_ok n (goes_to i p' (s\<lparr>contents := q, popped := popped s @ [x]\<rparr>))"
proof -
  have "inside (points s ! i)" using p by (auto simp: point_simps)
  note f = inside_ok [OF ok i this]
  show ?thesis by (rule threads_ok_move [OF ok i]) (use p p' q f in \<open>auto simp: point_simps\<close>)
qed

lemma look_ok:
  assumes ok: "threads_ok n s" and i: "i < n"
    and p: "points s ! i = TryBody \<and> p' = TryLeave None \<and> contents s = [] \<or> points s ! i = EmptyBody \<and> p' = EmptyLeave b"
  shows "threads_ok n (goes_to i p' s)"
proof -
  have "inside (points s ! i)" using p by (auto simp: point_simps)
  note f = inside_ok [OF ok i this]
  show ?thesis by (rule threads_ok_move [OF ok i]) (use p f in \<open>auto simp: point_simps\<close>)
qed

lemma body_ok:
  assumes ok: "threads_ok n s" and i: "i < n" and ins: "inside (points s ! i)"
    and j: "points s ! i = PushNotify \<and> list_ex asleep (points s) \<longrightarrow> j < n \<and> asleep (points s ! j)"
  shows "\<exists>s'. body_step i j (points s ! i) s = Inr s' \<and> threads_ok n s'"
proof -
  have leave: "threads_ok n (goes_to i Outside (unlock s))" if "\<not> hopeful (points s ! i)"
    using ok i inside_ok(1) [OF ok i ins] that by (rule leave_ok)
  show ?thesis
  proof (cases "points s ! i")
    case (PushBody x)
    then show ?thesis using push_body_ok [OF ok i] by simp
  next
    case PushNotify
    then show ?thesis using push_notify_ok [OF ok i _, of j] j by simp
  next
    case WaitTest
    then show ?thesis using wait_test_ok [OF ok i] by (auto split: if_splits)
  next
    case WaitTake
    then have "contents s \<noteq> []" using ok i by (simp add: threads_ok_def)
    then obtain x q where q: "contents s = x # q" by (cases "contents s") auto
    then show ?thesis using WaitTake take_ok [OF ok i _ q] by (simp add: waitAndPop_def)
  next
    case TryBody
    show ?thesis
    proof (cases "contents s")
      case Nil
      then have same: "s\<lparr>contents := []\<rparr> = s" by simp
      show ?thesis using TryBody Nil look_ok [OF ok i, of "TryLeave None"] by (simp add: tryPop_def same)
    next
      case (Cons x q)
      then show ?thesis using TryBody take_ok [OF ok i _ Cons] by (simp add: tryPop_def)
    qed
  next
    case EmptyBody
    then show ?thesis using look_ok [OF ok i] by simp
  qed (use leave ins in \<open>auto simp: hopeful_def inside_def asleep_def\<close>)
qed

interpretation threads: safe_machine thread_step thread_enabled "\<lambda>e. True" "\<lambda>es s0. threads_ok n" for n
proof
  fix es and s0 s :: "'a QueueThreads" and e
  assume ok: "threads_ok n s" and en: "thread_enabled e s"
  have len: "length (points s) = n" using ok by (simp add: threads_ok_def)
  show "\<exists>s'. thread_step e s = Inr s' \<and> threads_ok n s'"
  proof (cases e)
    case (CallMethod i p)
    then show ?thesis using call_ok [OF ok] en by simp
  next
    case (Go i j)
    show ?thesis
    proof (cases "entering (points s ! i)")
      case None
      then have "inside (points s ! i)" "i < n"
          "points s ! i = PushNotify \<and> list_ex asleep (points s) \<longrightarrow> j < n \<and> asleep (points s ! j)"
        using en Go len by auto
      from body_ok [OF ok this(2,1,3)] show ?thesis using Go None by simp
    next
      case (Some p)
      then have "mutex s = None" "i < n" using en Go len by auto
      from enter_ok [OF ok this(2) Some this(1)] show ?thesis using Go Some by simp
    qed
  next
    case (Spurious i)
    then show ?thesis using spurious_ok(1) [OF ok] en len by simp
  qed
qed

text \<open>Nobody blocks for good: the owner of the mutex can go on, and a free mutex can be taken.\<close>

lemma threads_progress:
  assumes ok: "threads_ok n s" and i: "i < n" "points s ! i \<noteq> Outside" "\<not> asleep (points s ! i)"
  shows "\<exists>k j. thread_enabled (Go k j) s"
proof (cases "mutex s")
  case None
  have len: "length (points s) = n" using ok by (simp add: threads_ok_def)
  have "\<not> inside (points s ! i)" using ok i(1) None by (simp add: threads_ok_def)
  then have "thread_enabled (Go i i) s" using i None len by (auto simp: inside_def)
  then show ?thesis by blast
next
  case (Some k)
  have len: "length (points s) = n" using ok by (simp add: threads_ok_def)
  have k: "k < n" "inside (points s ! k)" using ok Some by (auto simp: threads_ok_def)
  then have e: "entering (points s ! k) = None" by (simp add: inside_def)
  obtain j where "list_ex asleep (points s) \<longrightarrow> j < n \<and> asleep (points s ! j)"
    using len by (auto simp: list_ex_length)
  then have "thread_enabled (Go k j) s" using k e len by simp
  then show ?thesis by blast
qed

section \<open>Property\<close>

text \<open>
  C27. However its threads interleave, and even if they wake up without a reason, the queue loses nothing:
  what was taken out, followed by what is in it, is what was pushed, in that order, and at most one thread
  is between taking the mutex and giving it back. The threads do not deadlock: as long as one of them is
  awake in a method, some thread can go on; a thread that waits on an empty queue may wait for good. No wake-up is lost: while a thread sleeps, there are at least as many threads about to look for an
  element, or to notify, as there are elements.
\<close>

theorem queue_threads_sound:
  assumes "legal thread_enabled thread_step es (new_threads n)"
  shows "\<exists>s. history thread_step es (new_threads n) = Inr s \<and> pushed s = popped s @ contents s \<and>
    (\<forall>i < n. \<forall>j < n. inside (points s ! i) \<and> inside (points s ! j) \<longrightarrow> i = j) \<and>
    ((\<exists>i < n. points s ! i \<noteq> Outside \<and> \<not> asleep (points s ! i)) \<longrightarrow> (\<exists>i j. thread_enabled (Go i j) s)) \<and>
    ((\<exists>i < n. asleep (points s ! i)) \<longrightarrow> length (contents s) \<le> length (filter hopeful (points s)))"
proof -
  obtain s where h: "history thread_step es (new_threads n) = Inr s" and ok: "threads_ok n s"
    using threads.runs_safely [OF threads_ok_new assms] by auto
  have "i = j" if "i < n" "j < n" "inside (points s ! i)" "inside (points s ! j)" for i j
    using that ok by (auto simp: threads_ok_def)
  moreover have "length (contents s) \<le> length (filter hopeful (points s))" if "i < n" "asleep (points s ! i)" for i
    using that ok by (auto simp: threads_ok_def list_ex_length)
  moreover have "pushed s = popped s @ contents s" using ok by (simp add: threads_ok_def)
  ultimately show ?thesis using h threads_progress [OF ok] by blast
qed

text \<open>A thread waits on the empty queue, another pushes twice, and the first takes the first element.\<close>

definition sample_thread_events :: "nat thread_event list" where
  "sample_thread_events = [CallMethod 0 WaitEnter, Go 0 0, Go 0 0, CallMethod 1 (PushEnter 7), Go 1 0, Go 1 0, Go 1 0,
     Go 1 0, CallMethod 1 (PushEnter 8), Go 1 0, Go 1 0, Go 1 0, Go 1 0, Go 0 0, Go 0 0, Go 0 0]"

theorem queue_threads_sound_witness:
  "\<exists>s. history thread_step sample_thread_events (new_threads 2) = Inr s \<and> popped s = [7] \<and> pushed s = [7, 8] \<and>
    contents s = [8]"
proof -
  have l: "legal thread_enabled thread_step sample_thread_events (new_threads 2)" by code_simp
  have r: "case history thread_step sample_thread_events (new_threads 2) of Inl e \<Rightarrow> False
      | Inr s \<Rightarrow> popped s = [7] \<and> pushed s = [7, 8]" by code_simp
  from queue_threads_sound [OF l] obtain s where
    s: "history thread_step sample_thread_events (new_threads 2) = Inr s" "pushed s = popped s @ contents s"
    by blast
  then show ?thesis using r by auto
qed

end
