(* ===== verification/Dumps.thy ===== *)
theory Dumps
  imports Printing_Properties Market_Properties
begin

text \<open>
  Output streams and files: the output operators of orders, levels, books, symbols and markets, \<open>dumpBook\<close>
  (\<open>map_orderbook.cpp\<close>) and \<open>dumpMarket\<close> (\<open>market.cpp\<close>, \<open>concurrent_market.cpp\<close>), and what can be read
  back from a file.
\<close>

section \<open>Output streams\<close>

text \<open>
  A stream takes texts one after the other while it is good and ignores them when it is not; nothing is
  thrown, since the program never asks a stream for exceptions.
\<close>

locale ostream =
  fixes put :: "string \<Rightarrow> 'os \<Rightarrow> 'os" and good :: "'os \<Rightarrow> bool" and content :: "'os \<Rightarrow> string"
  assumes put_good: "good os \<Longrightarrow> good (put s os) \<and> content (put s os) = content os @ s"
    and put_bad: "\<not> good os \<Longrightarrow> put s os = os"
begin

lemma put_all: "good os \<Longrightarrow> good (fold put ss os) \<and> content (fold put ss os) = content os @ concat ss"
  by (induction ss arbitrary: os) (simp_all add: put_good)

lemma put_none: "\<not> good os \<Longrightarrow> fold put ss os = os"
  by (induction ss) (simp_all add: put_bad)

end

text \<open>
  The files of the system are a map from paths to contents. A file stream names the file it has open, if
  there is one, and what has been written; \<open>opens\<close> says which paths can be opened for writing.
\<close>

type_synonym Files = "string \<rightharpoonup> string"

record ofstream =
  open_file :: "string option"
  written_text :: string

definition file_open :: "(string \<Rightarrow> bool) \<Rightarrow> string \<Rightarrow> Files \<Rightarrow> ofstream \<times> Files" where
  "file_open opens path fs =
     (if opens path then (\<lparr>open_file = Some path, written_text = []\<rparr>, fs(path \<mapsto> []))
      else (\<lparr>open_file = None, written_text = []\<rparr>, fs))"

definition file_put :: "string \<Rightarrow> ofstream \<Rightarrow> ofstream" where
  "file_put s f = (case open_file f of None \<Rightarrow> f | Some path \<Rightarrow> f\<lparr>written_text := written_text f @ s\<rparr>)"

definition file_close :: "ofstream \<Rightarrow> Files \<Rightarrow> Files" where
  "file_close f fs = (case open_file f of None \<Rightarrow> fs | Some path \<Rightarrow> fs(path \<mapsto> written_text f))"

definition is_open :: "ofstream \<Rightarrow> bool" where
  "is_open f \<longleftrightarrow> \<not> Option.is_none (open_file f)"

interpretation files: ostream file_put is_open written_text
  by unfold_locales (auto simp: file_put_def is_open_def Option.is_none_def split: option.splits)

text \<open>Standard output, as the text that has been written to it.\<close>

definition out_put :: "string \<Rightarrow> string \<Rightarrow> string" where
  "out_put s out = out @ s"

interpretation standard_output: ostream out_put "\<lambda>_. True" id
  by unfold_locales (simp_all add: out_put_def)

section \<open>Output operators\<close>

text \<open>\<open>operator<<\<close> of the classes, on any stream that takes texts by \<open>put\<close>.\<close>

definition put_order :: "(string \<Rightarrow> 'os \<Rightarrow> 'os) \<Rightarrow> Order \<Rightarrow> 'os \<Rightarrow> 'os" where
  "put_order put od os = put (order_toString od) os"

definition put_level :: "(string \<Rightarrow> 'os \<Rightarrow> 'os) \<Rightarrow> Level \<Rightarrow> 'os \<Rightarrow> 'os" where
  "put_level put lv os = put (level_toString lv) os"

definition put_book :: "(string \<Rightarrow> 'os \<Rightarrow> 'os) \<Rightarrow> MapOrderBook \<Rightarrow> 'os \<Rightarrow> 'os" where
  "put_book put b os = put (book_toString b) os"

definition put_symbol :: "(string \<Rightarrow> 'os \<Rightarrow> 'os) \<Rightarrow> Symbol \<Rightarrow> 'os \<Rightarrow> 'os" where
  "put_symbol put s os =
     fold put [''Symbol Name: '', symbol_name s, ''Symbol ID: '', to_string (symbol_number s), newline] os"

definition put_market :: "(string \<Rightarrow> 'os \<Rightarrow> 'os) \<Rightarrow> u32 list \<Rightarrow> Market \<Rightarrow> 'os \<Rightarrow> 'os" where
  "put_market put iteration m os = put (handler_toString iteration (orderbook_handler m)) os"

lemma put_symbol_text: "put_symbol out_put s out = out @ symbol_toString s"
  by (simp add: put_symbol_def symbol_toString_def out_put_def)

section \<open>Dumps\<close>

definition dumpBook :: "(string \<Rightarrow> bool) \<Rightarrow> string \<Rightarrow> MapOrderBook \<Rightarrow> Files \<Rightarrow> Files" where
  "dumpBook opens path b fs =
     (case file_open opens path fs of (file, fs1) \<Rightarrow> file_close (file_put (book_toString b) file) fs1)"

definition dumpMarket :: "(string \<Rightarrow> bool) \<Rightarrow> string \<Rightarrow> u32 list \<Rightarrow> Market \<Rightarrow> Files \<Rightarrow> Files" where
  "dumpMarket opens name iteration m fs =
     (case file_open opens name fs of (file, fs1) \<Rightarrow> file_close (put_market file_put iteration m file) fs1)"

lemma file_write:
  "(case file_open opens path fs of (file, fs1) \<Rightarrow> file_close (file_put s file) fs1) =
     (if opens path then fs(path \<mapsto> s) else fs)"
  by (simp add: file_open_def file_put_def file_close_def)

lemma dumpBook_file: "dumpBook opens path b fs = (if opens path then fs(path \<mapsto> book_toString b) else fs)"
  by (simp only: dumpBook_def file_write)

lemma dumpMarket_file:
  "dumpMarket opens name iteration m fs = (if opens name then fs(name \<mapsto> market_toString iteration m) else fs)"
  by (simp only: dumpMarket_def put_market_def file_write market_toString_def)

lemma dumpBook_accurate:
  "reachable d s b \<Longrightarrow> opens path \<Longrightarrow>
    \<exists>t. dumpBook opens path b fs = fs(path \<mapsto> t) \<and> read_book t = book_summary b"
  using book_text_accurate by (auto simp: dumpBook_file)

section \<open>Reading a market back\<close>

lemma paragraphs_step: "[] \<notin> set ls \<Longrightarrow> paragraphs (ls @ [] # rest) = ls # paragraphs rest"
  by (induction ls) auto

lemma book_lines_not_empty: "[] \<notin> set (book_lines b)"
  by (auto simp: book_lines_def level_lines_def level_line_def)

definition handler_lines :: "u32 list \<Rightarrow> OrderBookHandler \<Rightarrow> string list" where
  "handler_lines iteration h = concat (map (\<lambda>sid. case find_book h sid of
     None \<Rightarrow> [] | Some b \<Rightarrow> book_lines b @ [[]]) iteration)"

lemma handler_toString_lines: "handler_toString iteration h = unlines (handler_lines iteration h)"
  by (induction iteration)
    (auto simp: handler_toString_def handler_lines_def unlines_simps book_toString_lines split: option.splits)

lemma handler_lines_one_line: "list_all one_line (handler_lines iteration h)"
  by (induction iteration)
    (auto simp: handler_lines_def book_lines_one_line one_line_def [of "[]"] split: option.splits)

lemma paragraphs_handler:
  "\<forall>sid \<in> set iteration. find_book h sid \<noteq> None \<Longrightarrow>
    paragraphs (handler_lines iteration h) = map (\<lambda>sid. book_lines (the (find_book h sid))) iteration"
  by (induction iteration) (auto simp: handler_lines_def paragraphs_step book_lines_not_empty)

lemma read_handler:
  "\<forall>sid \<in> set iteration. find_book h sid \<noteq> None \<Longrightarrow>
    read_market (handler_toString iteration h) = map (\<lambda>sid. book_of_lines (book_lines (the (find_book h sid)))) iteration"
  by (simp add: read_market_def handler_toString_lines split_unlines [OF handler_lines_one_line] paragraphs_handler)

text \<open>
  C31. The dump of a reachable market is accurate. If the file can be opened, it holds a text that says, for
  every symbol in the order of the iteration, its book: the last traded price and, for each of the six
  sides, every price with the exact sum of the open quantities there; no other file changes. If the file
  cannot be opened, nothing is written and nothing is reported.
\<close>

theorem dumpMarket_accurate:
  assumes "market_reachable d m" and "set iteration = {sid. hasSymbol m sid}"
  shows "if opens name
    then \<exists>t. dumpMarket opens name iteration m fs = fs(name \<mapsto> t) \<and> map fst (read_market t) = iteration \<and>
      read_market t = map (\<lambda>sid. book_summary (the (market_book m sid))) iteration
    else dumpMarket opens name iteration m fs = fs"
proof -
  have inv: "market_inv d m" using assms(1) by (rule market_reachable_inv)
  have book: "\<exists>b. market_book m sid = Some b \<and> book_symbol_id b = sid \<and> book_ok d b" if "sid \<in> set iteration" for sid
    using that assms(2) inv by (force simp: market_inv_def books.fine_def book_inv_def market_book_def find_book_def)
  have "\<forall>sid \<in> set iteration. find_book (orderbook_handler m) sid \<noteq> None"
    using book by (force simp: market_book_def)
  from read_handler [OF this]
  have "read_market (market_toString iteration m) =
      map (\<lambda>sid. book_of_lines (book_lines (the (market_book m sid)))) iteration"
    by (simp add: market_toString_def market_book_def)
  also have "\<dots> = map (\<lambda>sid. book_summary (the (market_book m sid))) iteration"
    by (intro map_cong) (auto dest!: book simp: book_summary_lines)
  finally have "read_market (market_toString iteration m) = map (\<lambda>sid. book_summary (the (market_book m sid))) iteration" .
  moreover have "map (\<lambda>sid. fst (book_summary (the (market_book m sid)))) iteration = iteration"
    by (rule map_idI) (use book in \<open>force simp: book_summary_def\<close>)
  ultimately show ?thesis
    by (auto simp: dumpMarket_file comp_def intro!: exI [of _ "market_toString iteration m"])
qed

theorem dumpMarket_accurate_witness:
  "\<exists>t. dumpMarket (\<lambda>p. True) ''market.txt'' [2, 1] sample_market (\<lambda>p. None) ''market.txt'' = Some t \<and>
    map fst (read_market t) = [2, 1]"
proof -
  have "map fst (id_to_symbol sample_market) = [2, 1] \<or> map fst (id_to_symbol sample_market) = [1, 2]" by code_simp
  then have "set [2, 1] = {sid. hasSymbol sample_market sid}"
    by (auto simp: hasSymbol_def hm_find_def map_of_eq_None_iff)
  from dumpMarket_accurate [OF sample_market_reachable this, of "\<lambda>p. True" "''market.txt''" "\<lambda>p. None"]
  show ?thesis by auto
qed

end
