(* ===== verification/Pool_Parts.thy ===== *)
theory Pool_Parts
  imports Futures
begin

text \<open>
  Tasks that keep to their part. The shared state is a list with a part for every worker, and a task in the
  queue of a worker works on its part alone. Whatever the schedule, the pool then computes what it would
  compute if every task were run at once by the thread that submits it.
\<close>

section \<open>Parts\<close>

text \<open>The handlers of a concurrent market are such parts.\<close>

type_synonym ('a, 'r, 'e) part_body = "'a \<Rightarrow> ('e + 'r) \<times> 'a"

definition on_part :: "nat \<Rightarrow> ('a, 'r, 'e) part_body \<Rightarrow> ('a list, 'r, 'e) body" where
  "on_part i g hs = (fst (g (hs ! i)), hs[i := snd (g (hs ! i))])"

datatype ('a, 'r, 'e) part_event = Post nat "('a, 'r, 'e) part_body" | Query nat "('a, 'r, 'e) part_body" | Work nat | Leave

fun pool_event :: "('a, 'r, 'e) part_event \<Rightarrow> ('a list, 'r, 'e) event" where
  "pool_event (Post i g) = Submit i (on_part i g)"
| "pool_event (Query i g) = SubmitWaitable i (on_part i g)"
| "pool_event (Work i) = Turn i"
| "pool_event Leave = Finish"

text \<open>The reference: the parts and the results so far, each task run when it is submitted.\<close>

fun at_once :: "('a, 'r, 'e) part_event \<Rightarrow> 'a list \<times> ('e + 'r) list \<Rightarrow> ('a list \<times> ('e + 'r) list) res" where
  "at_once (Post i g) (hs, rs) =
     (case g (hs ! i) of (Inl e, h) \<Rightarrow> Inl Terminated | (Inr r, h) \<Rightarrow> Inr (hs[i := h], rs))"
| "at_once (Query i g) (hs, rs) = (case g (hs ! i) of (r, h) \<Rightarrow> Inr (hs[i := h], rs @ [r]))"
| "at_once (Work i) (hs, rs) = Inr (hs, rs)"
| "at_once Leave (hs, rs) = Inr (hs, rs)"

section \<open>The simulation\<close>

text \<open>
  A queue takes its part from what it is to what it is in the reference, and the results of its tasks are
  those of the reference.
\<close>

fun queue_ok :: "nat \<Rightarrow> ('e + 'r) list \<Rightarrow> ('a list, 'r, 'e) pool_task list \<Rightarrow> 'a \<Rightarrow> 'a \<Rightarrow> bool" where
  "queue_ok i rs [] h h' \<longleftrightarrow> h' = h"
| "queue_ok i rs (Plain f # q) h h' \<longleftrightarrow>
     (\<exists>g. f = on_part i g \<and> \<not> isl (fst (g h)) \<and> queue_ok i rs q (snd (g h)) h')"
| "queue_ok i rs (Waitable f m # q) h h' \<longleftrightarrow>
     (\<exists>g. f = on_part i g \<and> m < length rs \<and> rs ! m = fst (g h) \<and> queue_ok i rs q (snd (g h)) h')"

definition parts_ok :: "nat \<Rightarrow> ('a list, 'r, 'e) PoolSystem \<Rightarrow> 'a list \<times> ('e + 'r) list \<Rightarrow> bool" where
  "parts_ok n sys st \<longleftrightarrow> (case st of (hs, rs) \<Rightarrow>
     length (shared sys) = n \<and> length hs = n \<and> length (thread_queues (workers sys)) = n \<and>
     length rs = length (promises sys) \<and>
     (\<forall>i < n. queue_ok i rs (thread_queues (workers sys) ! i) (shared sys ! i) (hs ! i)) \<and>
     (\<forall>m < length rs. \<forall>r. promises sys ! m = Ready r \<longrightarrow> r = rs ! m))"

lemma queue_ok_more: "queue_ok i rs q h h' \<Longrightarrow> queue_ok i (rs @ [r]) q h h'"
  by (induction i rs q h h' rule: queue_ok.induct) (auto simp: nth_append)

lemma queue_ok_push:
  "queue_ok i rs q h h' \<Longrightarrow> \<not> isl (fst (g h')) \<Longrightarrow> queue_ok i rs (q @ [Plain (on_part i g)]) h (snd (g h'))"
  "queue_ok i rs q h h' \<Longrightarrow> m < length rs \<Longrightarrow> rs ! m = fst (g h') \<Longrightarrow>
    queue_ok i rs (q @ [Waitable (on_part i g) m]) h (snd (g h'))"
  by (induction i rs q h h' rule: queue_ok.induct) auto

lemma parts_ok_new:
  assumes "newThreadPool d n = Inr p" and "length hs = n"
  shows "parts_ok n (new_system p hs) (hs, [])"
  using assms by (auto simp: parts_ok_def new_system_def newThreadPool_def check_def queue_new_def split: if_splits)

lemma parts_calm:
  assumes "parts_ok n sys st" and "i < n"
  shows "calm_turn i sys"
proof -
  have "queue_ok i (snd st) (thread_queues (workers sys) ! i) (shared sys ! i) (fst st ! i)"
    using assms by (simp add: parts_ok_def case_prod_beta)
  then show ?thesis
    by (cases "thread_queues (workers sys) ! i" rule: list.exhaust; cases "hd (thread_queues (workers sys) ! i)")
      (auto simp: calm_turn_def on_part_def)
qed

lemma parts_post:
  assumes ok: "parts_ok n sys (hs, rs)" and i: "i < n"
    and e: "event_step (pool_event (Post i g)) sys = Inr sys'" and a: "at_once (Post i g) (hs, rs) = Inr st"
  shows "parts_ok n sys' st"
proof -
  have sys': "sys' = sys\<lparr>workers := (workers sys)\<lparr>thread_queues :=
      (thread_queues (workers sys))[i := thread_queues (workers sys) ! i @ [Plain (on_part i g)]]\<rparr>\<rparr>"
    using e by (auto simp: submitTask_def require_def queue_push_def split: if_splits)
  have st: "st = (hs[i := snd (g (hs ! i))], rs)" "\<not> isl (fst (g (hs ! i)))" using a by (auto split: prod.splits sum.splits)
  show ?thesis using ok i st(2) unfolding sys' st(1)
    by (auto simp: parts_ok_def nth_list_update intro: queue_ok_push)
qed

lemma parts_ask:
  assumes ok: "parts_ok n sys (hs, rs)" and i: "i < n"
    and e: "event_step (pool_event (Query i g)) sys = Inr sys'" and a: "at_once (Query i g) (hs, rs) = Inr st"
  shows "parts_ok n sys' st"
proof -
  let ?m = "length (promises sys)" and ?r = "fst (g (hs ! i))"
  have sys': "sys' = sys\<lparr>workers := (workers sys)\<lparr>thread_queues :=
      (thread_queues (workers sys))[i := thread_queues (workers sys) ! i @ [Waitable (on_part i g) ?m]]\<rparr>,
      promises := promises sys @ [NotReady]\<rparr>"
    using e by (auto simp: submitWaitableTask_def submitTask_def require_def queue_push_def Let_def split: if_splits)
  have st: "st = (hs[i := snd (g (hs ! i))], rs @ [?r])" using a by (auto split: prod.splits)
  have m: "?m = length rs" using ok by (simp add: parts_ok_def)
  have "queue_ok i (rs @ [?r]) (thread_queues (workers sys) ! i @ [Waitable (on_part i g) ?m]) (shared sys ! i) (snd (g (hs ! i)))"
    using ok i m by (intro queue_ok_push queue_ok_more) (auto simp: parts_ok_def)
  then show ?thesis using ok i m unfolding sys' st
    by (auto simp: parts_ok_def nth_list_update nth_append less_Suc_eq intro: queue_ok_more)
qed

text \<open>What a turn does to the parts.\<close>

lemma parts_run:
  assumes ok: "parts_ok n sys (hs, rs)" and i: "i < n" and q: "thread_queues (workers sys) ! i = t # q"
    and g: "shared sys' = (shared sys)[i := h]" "queue_ok i rs q h (hs ! i)"
    and w: "workers sys' = popped i q sys" and ps: "length (promises sys') = length (promises sys)"
      "\<And>m r. m < length rs \<Longrightarrow> promises sys' ! m = Ready r \<Longrightarrow> r = rs ! m"
  shows "parts_ok n sys' (hs, rs)"
  using ok i g ps unfolding parts_ok_def w by (auto simp: nth_list_update)

lemma parts_work:
  assumes ok: "parts_ok n sys (hs, rs)" and i: "i < n" and e: "event_step (Turn i) sys = Inr sys'"
  shows "parts_ok n sys' (hs, rs)"
proof (cases "thread_queues (workers sys) ! i")
  case Nil
  then have "worker_turn i (workers sys) = (Yield, workers sys) \<or> worker_turn i (workers sys) =
      (Return, (workers sys)\<lparr>worker_returned := (worker_returned (workers sys))[i := True]\<rparr>)"
    by (simp add: worker_turn_def tryPop_def queue_empty_def)
  then show ?thesis using ok e by (auto simp: parts_ok_def)
next
  case (Cons t q)
  have qo: "queue_ok i rs (t # q) (shared sys ! i) (hs ! i)" using ok i Cons by (auto simp: parts_ok_def)
  have w: "worker_turn i (workers sys) = (Run t, popped i q sys)" using Cons by (simp add: worker_turn_Run popped_def)
  have ps: "length (promises sys) = length rs" "\<And>m r. m < length rs \<Longrightarrow> promises sys ! m = Ready r \<Longrightarrow> r = rs ! m"
    using ok by (auto simp: parts_ok_def)
  show ?thesis
  proof (cases t)
    case (Plain f)
    then obtain g where g: "f = on_part i g" "queue_ok i rs q (snd (g (shared sys ! i))) (hs ! i)" using qo by auto
    have "sys' = sys\<lparr>workers := popped i q sys, shared := (shared sys)[i := snd (g (shared sys ! i))]\<rparr>"
      using e w Plain g(1) by (auto simp: on_part_def split: sum.splits)
    then show ?thesis by (intro parts_run [OF ok i Cons _ g(2)]) (use ps in auto)
  next
    case (Waitable f m)
    then obtain g where g: "f = on_part i g" "m < length rs" "rs ! m = fst (g (shared sys ! i))"
        "queue_ok i rs q (snd (g (shared sys ! i))) (hs ! i)" using qo by auto
    have "sys' = sys\<lparr>workers := popped i q sys, shared := (shared sys)[i := snd (g (shared sys ! i))],
        promises := (promises sys)[m := Ready (rs ! m)]\<rparr>"
      using e w Waitable g(1,2,3) ps(1) by (auto simp: on_part_def satisfy_def require_def split: promise.splits)
    then show ?thesis by (intro parts_run [OF ok i Cons _ g(4)]) (use ps g(2) in \<open>auto simp: nth_list_update split: if_splits\<close>)
  qed
qed

fun part_of :: "('a, 'r, 'e) part_event \<Rightarrow> nat" where
  "part_of (Post i g) = i"
| "part_of (Query i g) = i"
| "part_of (Work i) = i"
| "part_of Leave = 0"

lemma parts_step:
  assumes ok: "parts_ok n sys st" and i: "part_of e < n"
    and s: "event_step (pool_event e) sys = Inr sys'" and a: "at_once e st = Inr st'"
  shows "parts_ok n sys' st'"
proof -
  obtain hs rs where st: "st = (hs, rs)" by (cases st)
  show ?thesis
  proof (cases e)
    case (Post j g)
    show ?thesis by (rule parts_post [where hs = hs and rs = rs and i = j and g = g]) (use ok i s a Post st in simp_all)
  next
    case (Query j g)
    show ?thesis by (rule parts_ask [where hs = hs and rs = rs and i = j and g = g]) (use ok i s a Query st in simp_all)
  next
    case (Work j)
    then have "event_step (Turn j) sys = Inr sys'" "st' = st" using s a st by simp_all
    then show ?thesis using parts_work [of n sys hs rs j sys'] ok i Work st by simp
  next
    case Leave
    then show ?thesis using ok s a st by (auto simp: parts_ok_def destroy_def)
  qed
qed

section \<open>Runs\<close>

lemma enabled_part: "enabled (pool_event e) sys \<Longrightarrow> num_threads (workers sys) = n \<Longrightarrow> 0 < n \<Longrightarrow> part_of e < n"
  by (cases e) auto

text \<open>If the tasks that cannot be waited on do not throw in the reference, nothing fails in any schedule.\<close>

lemma parts_history:
  assumes p: "newThreadPool d n = Inr p" and n: "0 < n" "length hs = n"
  shows "legal enabled event_step (map pool_event es) (new_system p hs) \<Longrightarrow> history at_once es (hs, []) = Inr st \<Longrightarrow>
    \<exists>sys. history event_step (map pool_event es) (new_system p hs) = Inr sys \<and>
      futures_ok n (map pool_event es) (new_system p hs) sys \<and> parts_ok n sys st"
proof (induction es arbitrary: st rule: rev_induct)
  case Nil
  then show ?case using futures_ok_new [OF p] parts_ok_new [OF p n(2)] by auto
next
  case (snoc e es)
  obtain st1 where st1: "history at_once es (hs, []) = Inr st1" "at_once e st1 = Inr st"
    using snoc.prems(2) by (auto simp: history_append)
  obtain sys where sys: "history event_step (map pool_event es) (new_system p hs) = Inr sys"
      "futures_ok n (map pool_event es) (new_system p hs) sys" "parts_ok n sys st1"
    using snoc.IH [OF _ st1(1)] snoc.prems(1) by (auto simp: legal_append)
  have en: "enabled (pool_event e) sys" using snoc.prems(1) sys(1) by (auto simp: legal_append)
  have "num_threads (workers sys) = n" using sys(2) by (simp add: futures_ok_def)
  then have part: "part_of e < n" by (rule enabled_part [OF en _ n(1)])
  have calm: "calm_turn i sys" if "pool_event e = Turn i" for i
    using that part parts_calm [OF sys(3)] by (cases e) auto
  obtain sys' where sys': "event_step (pool_event e) sys = Inr sys'"
      "futures_ok n (map pool_event es @ [pool_event e]) (new_system p hs) sys'"
    using event_ok [OF sys(2,1) en calm] by blast
  have "parts_ok n sys' st" by (rule parts_step [OF sys(3) part sys'(1) st1(2)])
  with sys(1) sys' show ?case by (auto simp: history_append)
qed

lemma parts_get:
  assumes "parts_ok n sys (hs, rs)" and "m < length rs" and "future_get m sys = Some r"
  shows "r = rs ! m"
  using assms by (auto simp: parts_ok_def future_get_def split: promise.splits)

text \<open>When the workers have returned, the parts are those of the reference and every future has its result.\<close>

lemma parts_done:
  assumes f: "futures_ok n es s0 sys" and ok: "parts_ok n sys (hs, rs)" and r: "list_all id (worker_returned (workers sys))"
  shows "shared sys = hs" and "map (\<lambda>m. future_get m sys) [0..<length rs] = map Some rs"
proof -
  have q: "thread_queues (workers sys) ! i = []" if "i < n" for i
    using f r that by (auto simp: futures_ok_def list_all_length)
  then show "shared sys = hs" using ok by (intro nth_equalityI) (auto simp: parts_ok_def)
  have empty: "concat (thread_queues (workers sys)) = []"
    using q f by (auto simp: futures_ok_def in_set_conv_nth)
  have "mset (promise_ids (concat (thread_queues (workers sys)))) = mset_set (not_ready (promises sys))"
    using f by (simp add: futures_ok_def)
  then have none: "not_ready (promises sys) = {}"
    unfolding empty using not_ready_finite [of "promises sys"] by (simp add: mset_set_empty_iff)
  have "future_get m sys = Some (rs ! m)" if "m < length rs" for m
  proof -
    have "promises sys ! m \<noteq> NotReady" using none that ok by (auto simp: not_ready_def parts_ok_def)
    then obtain x where "promises sys ! m = Ready x" by (cases "promises sys ! m") auto
    then show ?thesis using ok that by (auto simp: future_get_def parts_ok_def)
  qed
  then show "map (\<lambda>m. future_get m sys) [0..<length rs] = map Some rs" by (intro nth_equalityI) auto
qed

end
