(* ===== verification/Market_Text.thy ===== *)
theory Market_Text
  imports Pool_Parts Dumps Market_Sharding
begin

text \<open>
  \<open>toString\<close>, \<open>operator<<\<close> and \<open>dumpMarket\<close> of the concurrent market: a task with a future for every worker,
  which prints the worker's handler, and the texts joined in the order of the workers. The client and the
  workers are those of \<open>Futures\<close>, the state they share is the list of handlers.
\<close>

section \<open>The tasks of a client\<close>




section \<open>Printing\<close>




definition put_concurrent :: "(string \<Rightarrow> 'os \<Rightarrow> 'os) \<Rightarrow> string \<Rightarrow> 'os \<Rightarrow> 'os" where
  "put_concurrent put market_text os = put market_text os"

definition concurrent_dumpMarket :: "(string \<Rightarrow> bool) \<Rightarrow> string \<Rightarrow> string \<Rightarrow> Files \<Rightarrow> Files" where
  "concurrent_dumpMarket opens name market_text fs =
     (case file_open opens name fs of (file, fs1) \<Rightarrow> file_close (put_concurrent file_put market_text file) fs1)"

lemma concurrent_dumpMarket_file:
  "concurrent_dumpMarket opens name market_text fs = (if opens name then fs(name \<mapsto> market_text) else fs)"
  by (simp only: concurrent_dumpMarket_def put_concurrent_def file_write)

section \<open>The reference\<close>













section \<open>Property\<close>





end
