(* ===== verification/Workloads.thy ===== *)
theory Workloads
  imports Market_Sharding Order_Factories Printing
begin

text \<open>
  The programs that drive a market: the demonstrations (\<open>examples/market_example.cpp\<close>,
  \<open>examples/concurrent_market_example.cpp\<close>) and the benchmarks with their generator of orders
  (\<open>benchmark/generate_orders.cpp\<close>, \<open>bench_market.cpp\<close>, \<open>bench_concurrent_market.cpp\<close>), and what such a
  program has to see to so that none of its requests can fail.
\<close>

section \<open>Workloads\<close>

text \<open>A program that adds symbols, then orders.\<close>

definition add_order :: "Order \<Rightarrow> market_request" where
  "add_order od = BookRequest (symbol_id od) (AddOrder od)"

definition workload :: "(u32 \<times> string) list \<Rightarrow> Order list \<Rightarrow> market_request list" where
  "workload syms ods = map (\<lambda>(sid, name). AddSymbol sid name) syms @ map add_order ods"

text \<open>Orders that a book takes whatever it has been given, if the IDs differ and the sum of quantities fits.\<close>

definition submittable :: "Order \<Rightarrow> bool" where
  "submittable od \<longleftrightarrow> fresh_order od \<and> (side od = Bid \<longrightarrow> price od < u64_max)"

definition total_quantity :: "Order list \<Rightarrow> nat" where
  "total_quantity ods = sum_list (map (\<lambda>od. unat (quantity od)) ods)"

section \<open>Why no request fails\<close>

text \<open>The books hold orders with the IDs \<open>S\<close> at most, and in each at most the quantity \<open>u\<close> is open.\<close>

definition loaded :: "Market \<Rightarrow> u64 set \<Rightarrow> nat \<Rightarrow> bool" where
  "loaded m S u \<longleftrightarrow> (\<forall>sid b. market_book m sid = Some b \<longrightarrow>
     total_open b \<le> u \<and> (\<forall>i. order_view b i \<noteq> None \<longrightarrow> i \<in> S))"

lemma total_open_events: "total_open (b\<lparr>events := es\<rparr>) = total_open b"
  by (simp add: total_open_def)

lemma add_order_runs:
  assumes inv: "market_inv d m" and sym: "hasSymbol m (symbol_id od)" and od: "submittable od"
    and l: "loaded m S u" and new: "oid od \<notin> S" and q: "u + unat (quantity od) < 2 ^ 64"
  obtains m' where "market_permitted d m (add_order od)" and "market_perform d m (add_order od) = Inr m'"
    and "market_inv d m'" and "loaded m' (insert (oid od) S) (u + unat (quantity od))"
    and "\<forall>sid. hasSymbol m' sid = hasSymbol m sid"
proof -
  obtain b where b: "market_book m (symbol_id od) = Some b" using inv sym by (auto simp: market_inv_def)
  then have bs: "book_inv d b" "book_symbol_id b = symbol_id od"
    using inv by (auto simp: market_inv_def books.fine_def market_book_def find_book_def)
  have oq: "open_quantity od = quantity od" "open_quantity od \<noteq> 0" using od by (auto simp: submittable_def fresh_order_def)
  have "order_ok d od" using od by (intro fresh_order_ok) (auto simp: submittable_def)
  moreover have tb: "total_open b \<le> u" "order_view b (oid od) = None" using l b new by (force simp: loaded_def)+
  ultimately have p: "permitted d b (AddOrder od)" using oq bs(2) q by (simp add: addable_def)
  have arg: "arguments_ok (symbol_id od) (AddOrder od)" by simp
  obtain m' b' where r: "market_perform d m (add_order od) = Inr m'" "market_inv d m'"
      "addOrder d (b\<lparr>events := market_events m\<rparr>) od = Inr b'" "market_book m' (symbol_id od) = Some b'"
      "\<forall>t. t \<noteq> symbol_id od \<longrightarrow> market_book m' t = market_book m t" "id_to_symbol m' = id_to_symbol m"
    by (rule book_request_ok [OF inv b arg p]) (auto simp: add_order_def)
  let ?b = "b\<lparr>events := market_events m\<rparr>"
  have "book_inv d ?b" "addable d ?b od" using bs(1) p permitted_events [of d "market_events m" b "AddOrder od"] by simp_all
  from addOrder_ok [OF this] r(3) have s: "submit_rel ?b od b'" by auto
  have "total_open b' \<le> u + unat (quantity od)" using s tb(1) oq(1) by (simp add: submit_rel_def total_open_events)
  moreover have "i \<in> insert (oid od) S" if "order_view b' i \<noteq> None" for i
  proof (rule ccontr)
    assume "\<not> ?thesis"
    then have i: "i \<noteq> oid od" "i \<notin> S" by simp_all
    then have "order_view b i = None" using l b unfolding loaded_def by metis
    then have "order_view b' i = None" using s i(1) by (simp add: submit_rel_def)
    then show False using that by simp
  qed
  ultimately have "loaded m' (insert (oid od) S) (u + unat (quantity od))"
    using l r(4,5) unfolding loaded_def by (metis insertI2 option.inject trans_le_add1)
  moreover have "market_permitted d m (add_order od)" using b p by (simp add: add_order_def)
  ultimately show ?thesis using that r(1,2,6) by (simp add: hasSymbol_def)
qed

lemma add_orders_run:
  assumes "market_inv d m" and "loaded m S u" and "\<forall>od \<in> set ods. submittable od \<and> hasSymbol m (symbol_id od)"
    and "distinct (map oid ods)" and "oid ` set ods \<inter> S = {}" and "u + total_quantity ods < 2 ^ 64"
  shows "market_all_permitted d m (map add_order ods) \<and> (\<exists>m'. market_performs d m (map add_order ods) = Inr m' \<and>
    loaded m' (oid ` set ods \<union> S) (u + total_quantity ods))"
  using assms
proof (induction ods arbitrary: m S u)
  case Nil
  then show ?case by (simp add: total_quantity_def)
next
  case (Cons od ods)
  have q: "u + unat (quantity od) + total_quantity ods < 2 ^ 64" using Cons.prems(6) by (simp add: total_quantity_def)
  obtain m' where m': "market_permitted d m (add_order od)" "market_perform d m (add_order od) = Inr m'" "market_inv d m'"
      "loaded m' (insert (oid od) S) (u + unat (quantity od))" "\<forall>sid. hasSymbol m' sid = hasSymbol m sid"
    by (rule add_order_runs [OF Cons.prems(1) _ _ Cons.prems(2), of od]) (use Cons.prems(3,5) q in auto)
  from Cons.IH [OF m'(3,4)] show ?case
    using m' Cons.prems(3,4,5) q by (auto simp: total_quantity_def add.assoc)
qed

lemma add_symbols_run:
  assumes "market_inv d m" and "loaded m S u" and "distinct (map fst syms)" and "\<forall>sid \<in> fst ` set syms. \<not> hasSymbol m sid"
  shows "market_all_permitted d m (map (\<lambda>(sid, name). AddSymbol sid name) syms) \<and>
    (\<exists>m'. market_performs d m (map (\<lambda>(sid, name). AddSymbol sid name) syms) = Inr m' \<and> market_inv d m' \<and>
      loaded m' S u \<and> (\<forall>sid. hasSymbol m' sid \<longleftrightarrow> sid \<in> fst ` set syms \<or> hasSymbol m sid))"
  using assms
proof (induction syms arbitrary: m)
  case (Cons s syms)
  obtain sid name where s: "s = (sid, name)" by (cases s)
  obtain m1 where m1: "addSymbol d m sid name = Inr m1" "market_inv d m1"
      "market_book m1 sid = Some (newMapOrderBook sid)" "\<forall>t. t \<noteq> sid \<longrightarrow> market_book m1 t = market_book m t"
      "\<forall>t. hasSymbol m1 t \<longleftrightarrow> t = sid \<or> hasSymbol m t"
    by (rule add_symbol_ok [OF Cons.prems(1), of sid name]) (use Cons.prems(4) s in auto)
  have "total_open (newMapOrderBook sid) = 0" "\<forall>i. order_view (newMapOrderBook sid) i = None"
    by (simp_all add: total_open_def hm_total_def newMapOrderBook_def order_view_def)
  then have "loaded m1 S u" using Cons.prems(2) m1(3,4) unfolding loaded_def
    by (metis le0 option.inject)
  moreover have "distinct (map fst syms)" "\<forall>sid \<in> fst ` set syms. \<not> hasSymbol m1 sid" "\<not> hasSymbol m sid"
    using Cons.prems(3,4) m1(5) s by auto
  ultimately have "market_all_permitted d m1 (map (\<lambda>(sid, name). AddSymbol sid name) syms) \<and>
      (\<exists>m'. market_performs d m1 (map (\<lambda>(sid, name). AddSymbol sid name) syms) = Inr m' \<and> market_inv d m' \<and>
        loaded m' S u \<and> (\<forall>sid. hasSymbol m' sid \<longleftrightarrow> sid \<in> fst ` set syms \<or> hasSymbol m1 sid))"
    using Cons.IH [OF m1(2)] by blast
  then show ?case using \<open>\<not> hasSymbol m sid\<close> m1(1,5) s by (simp add: disj_commute disj_left_commute)
qed simp

lemma all_permitted_append:
  "market_all_permitted d m (rs @ qs) \<longleftrightarrow> market_all_permitted d m rs \<and>
    (case market_performs d m rs of Inl e \<Rightarrow> False | Inr m' \<Rightarrow> market_all_permitted d m' qs)"
  by (induction rs arbitrary: m) (auto split: sum.splits)

lemma performs_append: "market_performs d m (rs @ qs) = rbind (market_performs d m rs) (\<lambda>m'. market_performs d m' qs)"
  by (induction rs arbitrary: m) (auto simp: rbind_def split: sum.splits)

lemma workload_runs:
  assumes "distinct (map fst syms)" and "\<forall>od \<in> set ods. submittable od \<and> symbol_id od \<in> fst ` set syms"
    and "distinct (map oid ods)" and "total_quantity ods < 2 ^ 64"
  shows "market_all_permitted d newMarket (workload syms ods) \<and>
    (\<exists>m. market_performs d newMarket (workload syms ods) = Inr m \<and> loaded m (oid ` set ods) (total_quantity ods))"
proof -
  have "loaded newMarket {} 0" and n: "\<not> hasSymbol newMarket sid" for sid
    by (simp_all add: loaded_def market_book_def find_book_def newMarket_def newOrderBookHandler_def hasSymbol_def)
  from add_symbols_run [OF market_inv_new [of d] this(1) assms(1)] n obtain m where
    m: "market_all_permitted d newMarket (map (\<lambda>(sid, name). AddSymbol sid name) syms)"
      "market_performs d newMarket (map (\<lambda>(sid, name). AddSymbol sid name) syms) = Inr m" "market_inv d m"
      "loaded m {} 0" "\<forall>sid. hasSymbol m sid \<longleftrightarrow> sid \<in> fst ` set syms"
    by auto
  from add_orders_run [OF m(3,4), of ods] assms(2-4) m(5)
  show ?thesis by (auto simp: workload_def all_permitted_append performs_append m(1,2))
qed

section \<open>The benchmarks\<close>

text \<open>
  The generator draws numbers for each order: for its price, its quantity and its symbol. The engine and its
  distributions belong to the standard library; the draws are an argument here, and \<open>drawn\<close> is what a uniform
  distribution promises. The counter of the source is an \<open>int\<close>, so that \<open>2 ^ 31\<close> orders and symbols are too many.
\<close>

definition generate_order :: "build \<Rightarrow> nat \<Rightarrow> u64 \<times> u64 \<times> u64 \<Rightarrow> Order res" where
  "generate_order d i draw = (case draw of (price_draw, quantity_draw, symbol_draw) \<Rightarrow>
     (let sd = (if i mod 2 = 0 then Ask else Bid);
          price_delta = (if sd = Ask then 1005 else 1000);
          pr = price_draw + price_delta;
          qty = (quantity_draw + 1) * 100 in
      if sd = Ask then limitAskOrder d (of_nat i) (ucast symbol_draw) pr qty GTC
      else limitBidOrder d (of_nat i) (ucast symbol_draw) pr qty GTC))"

fun generate_from :: "build \<Rightarrow> nat \<Rightarrow> (u64 \<times> u64 \<times> u64) list \<Rightarrow> Order list res" where
  "generate_from d i [] = Inr []"
| "generate_from d i (draw # draws) =
     rbind (generate_order d i draw) (\<lambda>od. rbind (generate_from d (Suc i) draws) (\<lambda>ods. Inr (od # ods)))"

definition generateOrders :: "build \<Rightarrow> (u64 \<times> u64 \<times> u64) list \<Rightarrow> Order list res" where
  "generateOrders d draws = generate_from d 1 draws"

definition bench_symbols :: "nat \<Rightarrow> (u32 \<times> string) list" where
  "bench_symbols num_symbols = map (\<lambda>i. (of_nat i, ''MARKET BENCH'')) [1..<Suc num_symbols]"

text \<open>One iteration of either benchmark, as requests; \<open>BM_Market\<close> makes them of a \<open>Market\<close>.\<close>

definition bench_requests :: "nat \<Rightarrow> Order list \<Rightarrow> market_request list" where
  "bench_requests num_symbols ods = workload (bench_symbols num_symbols) ods"

definition bench_market :: "build \<Rightarrow> nat \<Rightarrow> Order list \<Rightarrow> Market res" where
  "bench_market d num_symbols ods = market_performs d newMarket (bench_requests num_symbols ods)"

definition drawn :: "nat \<Rightarrow> u64 \<times> u64 \<times> u64 \<Rightarrow> bool" where
  "drawn num_symbols draw \<longleftrightarrow> (case draw of (price_draw, quantity_draw, symbol_draw) \<Rightarrow>
     price_draw \<le> 10 \<and> quantity_draw \<le> 10 \<and> 1 \<le> symbol_draw \<and> unat symbol_draw \<le> num_symbols)"

lemma draw_words:
  fixes x y :: u64
  assumes "x \<le> 10" and "y \<le> 10"
  shows "unat (x + 1005) = unat x + 1005" and "unat (x + 1000) = unat x + 1000" and "unat ((y + 1) * 100) = (unat y + 1) * 100"
proof -
  have "unat x \<le> 10" "unat y \<le> 10" using assms by (simp_all add: word_le_nat_alt)
  then show "unat (x + 1005) = unat x + 1005" "unat (x + 1000) = unat x + 1000" "unat ((y + 1) * 100) = (unat y + 1) * 100"
    by (simp_all add: unat_word_ariths)
qed

lemma draw_symbol:
  fixes z :: u64
  assumes "1 \<le> z" and "unat z \<le> num_symbols" and "num_symbols < 2 ^ 31"
  shows "(ucast z :: u32) \<in> fst ` set (bench_symbols num_symbols)" and "0 < (ucast z :: u32)"
proof -
  have u: "unat (ucast z :: u32) = unat z" using assms(2,3) by (simp add: unsigned_ucast_eq take_bit_nat_eq_self)
  have zp: "0 < unat z" using assms(1) by (simp add: word_le_nat_alt)
  then show "0 < (ucast z :: u32)" using u by (simp add: word_less_nat_alt)
  have "(ucast z :: u32) = of_nat (unat z)" using u by (metis of_nat_unat ucast_id)
  moreover have "unat z \<in> set [1..<Suc num_symbols]" using zp assms(2) by (auto simp: le_less)
  ultimately show "(ucast z :: u32) \<in> fst ` set (bench_symbols num_symbols)"
    unfolding bench_symbols_def set_map by force
qed

lemma generate_order_ok:
  assumes i: "0 < i" "i < 2 ^ 64" and draw: "drawn num_symbols draw" and n: "num_symbols < 2 ^ 31"
  shows "\<exists>od. generate_order d i draw = Inr od \<and> submittable od \<and> oid od = of_nat i \<and>
    symbol_id od \<in> fst ` set (bench_symbols num_symbols) \<and> unat (quantity od) \<le> 1100"
proof -
  obtain x y z where xyz: "draw = (x, y, z)" by (cases draw)
  then have b: "x \<le> 10" "y \<le> 10" "1 \<le> z" "unat z \<le> num_symbols" using draw by (auto simp: drawn_def)
  let ?p = "x + (if i mod 2 = 0 then 1005 else 1000)" and ?q = "(y + 1) * 100"
  have pos: "0 < (of_nat i :: u64)" using i by (simp add: word_less_nat_alt unat_of_nat)
  note words = draw_words [OF b(1,2)]
  note sym = draw_symbol [OF b(3,4) n]
  have x: "unat x \<le> 10" and y: "unat y \<le> 10" using b(1,2) by (simp_all add: word_le_nat_alt)
  have pp: "0 < ?p" "0 < ?q" "?p < u64_max"
    using words x by (simp_all add: word_less_nat_alt unat_u64_max)
  define od where "od = new_order Limit (if i mod 2 = 0 then Ask else Bid) GTC (ucast z) ?p 0 0 ?q (of_nat i)"
  have f: "fresh_order od" using pos sym(2) pp by (simp add: od_def new_order_def fresh_order_def kind_defs)
  have "generate_order d i draw = made d od"
    by (cases "i mod 2 = 0") (simp_all add: xyz generate_order_def factories_made od_def Let_def)
  then have "generate_order d i draw = Inr od" using made_fresh [OF f] by simp
  moreover have "submittable od" using f pp(3) by (simp add: submittable_def od_def new_order_def)
  ultimately show ?thesis using sym(1) words(3) y by (auto simp: od_def new_order_def)
qed

lemma generate_from_ok:
  assumes "0 < i" and "i + length draws \<le> 2 ^ 64" and "\<forall>draw \<in> set draws. drawn num_symbols draw" and "num_symbols < 2 ^ 31"
  shows "\<exists>ods. generate_from d i draws = Inr ods \<and> map oid ods = map of_nat [i..<i + length draws] \<and>
    (\<forall>od \<in> set ods. submittable od \<and> symbol_id od \<in> fst ` set (bench_symbols num_symbols)) \<and>
    total_quantity ods \<le> 1100 * length draws"
  using assms(1-3)
proof (induction draws arbitrary: i)
  case Nil
  then show ?case by (simp add: total_quantity_def)
next
  case (Cons draw draws)
  obtain od where od: "generate_order d i draw = Inr od" "submittable od" "oid od = of_nat i"
      "symbol_id od \<in> fst ` set (bench_symbols num_symbols)" "unat (quantity od) \<le> 1100"
    using generate_order_ok [where i = i and draw = draw and d = d and num_symbols = num_symbols] Cons.prems assms(4) by auto
  obtain ods where ods: "generate_from d (Suc i) draws = Inr ods"
      "map oid ods = map of_nat [Suc i..<Suc i + length draws]"
      "\<forall>od \<in> set ods. submittable od \<and> symbol_id od \<in> fst ` set (bench_symbols num_symbols)"
      "total_quantity ods \<le> 1100 * length draws"
    using Cons.IH [of "Suc i"] Cons.prems by auto
  have "[i..<i + length (draw # draws)] = i # [Suc i..<Suc i + length draws]" by (simp add: upt_conv_Cons del: upt_Suc)
  then show ?case using od ods by (auto simp: total_quantity_def)
qed

text \<open>The IDs of the orders, and those of the symbols, are different.\<close>

lemma distinct_words:
  assumes "n \<le> 2 ^ LENGTH('a::len)"
  shows "distinct (map (of_nat :: nat \<Rightarrow> 'a word) [i..<n])"
proof -
  have "inj_on (of_nat :: nat \<Rightarrow> 'a word) {i..<n}"
    by (rule inj_onI) (use assms in \<open>auto simp: word_of_nat_eq_iff take_bit_nat_eq_self\<close>)
  then show ?thesis by (simp add: distinct_map)
qed

lemma bench_symbols_distinct: "num_symbols < 2 ^ 31 \<Longrightarrow> distinct (map fst (bench_symbols num_symbols))"
  using distinct_words [where 'a = 32, of "Suc num_symbols" 1] by (simp add: bench_symbols_def comp_def)

lemma workload_deletion_free: "requests_of tr = workload syms ods \<Longrightarrow> deletion_free tr"
  by (auto simp: deletion_free_def workload_def add_order_def list_all_iff)

section \<open>The demonstrations\<close>

text \<open>\<open>main\<close> of \<open>market_example.cpp\<close>, and what its event handler has printed at the end.\<close>

definition market_example :: "build \<Rightarrow> Market res" where
  "market_example d =
     rbind (addSymbol d newMarket 1 ''GOOG'') (\<lambda>m1.
     rbind (limitBidOrder d 1 1 350 200 GTC) (\<lambda>order1.
     rbind (market_addOrder d m1 order1) (\<lambda>m2.
     rbind (limitAskOrder d 2 1 350 200 GTC) (\<lambda>order2.
     market_addOrder d m2 order2))))"

definition printed :: "Event list \<Rightarrow> string" where
  "printed es = fold (handle simpleEventHandler) es []"

text \<open>
  \<open>main\<close> of \<open>concurrent_market_example.cpp\<close>: what the client thread does (the factories of the orders, which have no
  effect, are called first here); leaving \<open>main\<close> destroys the market.
\<close>

fun of_client :: "label \<Rightarrow> bool" where
  "of_client (Request r) = True"
| "of_client EraseSymbol = True"
| "of_client Close = True"
| "of_client (Execute i t) = False"
| "of_client (Exit i) = False"

definition concurrent_example :: "build \<Rightarrow> label list res" where
  "concurrent_example d =
     rbind (limitBidOrder d 1 1 350 200 GTC) (\<lambda>order1.
     rbind (limitAskOrder d 2 1 350 200 GTC) (\<lambda>order2.
     Inr [Request (AddSymbol 1 ''GOOG''), Request (add_order order1), Request (add_order order2), Close]))"

text \<open>The two orders before and after their only trade.\<close>

definition example_order :: "OrderSide \<Rightarrow> u64 \<Rightarrow> Order" where
  "example_order sd i = \<lparr>otype = Limit, side = sd, time_in_force = GTC, symbol_id = 1, price = 350, stop_price = 0,
     trail_amount = 0, last_executed_price = 0, oid = i, quantity = 200, executed_quantity = 0, open_quantity = 200,
     last_executed_quantity = 0\<rparr>"

definition example_traded :: "OrderSide \<Rightarrow> u64 \<Rightarrow> Order" where
  "example_traded sd i = (example_order sd i)\<lparr>last_executed_price := 350, executed_quantity := 200, open_quantity := 0,
     last_executed_quantity := 200\<rparr>"

definition example_events :: "Event list" where
  "example_events = [SymbolAdded 1 ''GOOG'', OrderAdded (example_order Bid 1), OrderAdded (example_order Ask 2),
     ExecutedOrder (example_traded Bid 1), ExecutedOrder (example_traded Ask 2), OrderDeleted (example_traded Bid 1),
     OrderDeleted (example_traded Ask 2)]"

lemma market_example_events:
  "\<exists>m. market_example d = Inr m \<and> market_events m = example_events \<and> market_book m 1 \<noteq> None"
proof -
  have "case market_example Debug of Inl e \<Rightarrow> False | Inr m \<Rightarrow> market_events m = example_events \<and> market_book m 1 \<noteq> None"
      "case market_example Release of Inl e \<Rightarrow> False | Inr m \<Rightarrow> market_events m = example_events \<and> market_book m 1 \<noteq> None"
    by code_simp+
  then have "case market_example d of Inl e \<Rightarrow> False | Inr m \<Rightarrow> market_events m = example_events \<and> market_book m 1 \<noteq> None"
    by (cases d) simp_all
  then show ?thesis by (auto split: sum.splits)
qed

lemma requests_of_client: "requests_of (filter of_client tr) = requests_of tr"
  by (induction tr rule: requests_of.induct) auto

definition example_requests :: "market_request list" where
  "example_requests = workload [(1, ''GOOG'')] [example_order Bid 1, example_order Ask 2]"

lemma concurrent_example_requests: "concurrent_example d = Inr client \<Longrightarrow> requests_of client = example_requests"
  by (auto simp: concurrent_example_def example_requests_def workload_def example_order_def add_order_def
      factories_made new_order_def dest!: made_Inr)

text \<open>
  However the two workers run, the handler of the first has printed what the sequential demonstration prints,
  and the other one nothing.
\<close>

lemma concurrent_example_output:
  assumes "runs d 2 tr cm" and "concurrent_example d = Inr (filter of_client tr)" and "all_returned cm"
  shows "map (\<lambda>h. printed (handler_events h)) (orderbook_handlers cm) = [printed example_events, []]"
proof -
  let ?s = "shard 2 example_requests"
  have r: "requests_of tr = example_requests"
    using concurrent_example_requests [OF assms(2)] by (simp add: requests_of_client)
  then have "deletion_free tr" by (simp add: example_requests_def workload_deletion_free)
  from runs_conforms [OF assms(1) _ this] have c: "conforms d 2 ?s (\<lambda>i. executed i tr) cm" by (simp add: r)
  have h: "sequential d (assigned ?s i) = Inr (orderbook_handlers cm ! i)" if "i < 2" for i
    using c assms(3) that by (simp add: conforms_def all_returned_def list_all_length)
  have ev: "case sequential e (assigned ?s 0) of Inl x \<Rightarrow> False | Inr h \<Rightarrow> handler_events h = example_events"
      "case sequential e (assigned ?s 1) of Inl x \<Rightarrow> False | Inr h \<Rightarrow> handler_events h = []" for e
  proof -
    have "case sequential Debug (assigned ?s 0) of Inl x \<Rightarrow> False | Inr h \<Rightarrow> handler_events h = example_events"
        "case sequential Debug (assigned ?s 1) of Inl x \<Rightarrow> False | Inr h \<Rightarrow> handler_events h = []"
        "case sequential Release (assigned ?s 0) of Inl x \<Rightarrow> False | Inr h \<Rightarrow> handler_events h = example_events"
        "case sequential Release (assigned ?s 1) of Inl x \<Rightarrow> False | Inr h \<Rightarrow> handler_events h = []"
      by code_simp+
    then show "case sequential e (assigned ?s 0) of Inl x \<Rightarrow> False | Inr h \<Rightarrow> handler_events h = example_events"
        "case sequential e (assigned ?s 1) of Inl x \<Rightarrow> False | Inr h \<Rightarrow> handler_events h = []"
      by (cases e; simp)+
  qed
  obtain h0 h1 where hs: "orderbook_handlers cm = [h0, h1]"
    using c by (auto simp: conforms_def numeral_2_eq_2 length_Suc_conv)
  then have "sequential d (assigned ?s 0) = Inr h0" "sequential d (assigned ?s 1) = Inr h1" using h [of 0] h [of 1] by simp_all
  then have "handler_events h0 = example_events" "handler_events h1 = []" using ev [of d] by simp_all
  then show ?thesis by (simp add: hs printed_def)
qed

section \<open>Property\<close>

text \<open>
  C39. The benchmarks never fail, in either build: whatever numbers in their ranges are drawn, the generator
  returns as many orders, all symbols and orders are accepted, each of the preconditions holding when the
  request is made, and a market is left in which every book is sound. The same iteration on a
  concurrent market with three workers leaves the same books, whatever the schedule.
\<close>

theorem benchmarks_never_fail:
  assumes "length draws < 2 ^ 31" and "num_symbols < 2 ^ 31" and "\<forall>draw \<in> set draws. drawn num_symbols draw"
  shows "\<exists>ods m. generateOrders d draws = Inr ods \<and> length ods = length draws \<and>
    market_all_permitted d newMarket (bench_requests num_symbols ods) \<and>
    bench_market d num_symbols ods = Inr m \<and> market_reachable d m \<and>
    (\<forall>tr cm. runs d 3 tr cm \<and> requests_of tr = bench_requests num_symbols ods \<and> all_returned cm \<longrightarrow> same_market cm m)"
proof -
  obtain ods where ods: "generateOrders d draws = Inr ods" "map oid ods = map of_nat [1..<1 + length draws]"
      "\<forall>od \<in> set ods. submittable od \<and> symbol_id od \<in> fst ` set (bench_symbols num_symbols)"
      "total_quantity ods \<le> 1100 * length draws"
    using generate_from_ok [of 1 draws num_symbols d] assms by (auto simp: generateOrders_def)
  have "distinct (map oid ods)" unfolding ods(2) by (rule distinct_words) (use assms(1) in simp)
  moreover have "total_quantity ods < 2 ^ 64" using ods(4) assms(1) by simp
  ultimately obtain m where m: "market_all_permitted d newMarket (bench_requests num_symbols ods)"
      "market_performs d newMarket (bench_requests num_symbols ods) = Inr m"
    using workload_runs [OF bench_symbols_distinct [OF assms(2)] ods(3)] unfolding bench_requests_def by blast
  have "length ods = length draws" using arg_cong [OF ods(2), of length] by (simp del: upt_Suc)
  moreover have "same_market cm m"
    if "runs d 3 tr cm" "requests_of tr = bench_requests num_symbols ods" "all_returned cm" for tr cm
    using that m by (intro complete_run_same_market [OF that(1)])
      (auto simp: bench_requests_def intro: workload_deletion_free)
  ultimately show ?thesis
    using ods(1) m market_performs_reachable [OF market_reachable_new m] by (auto simp: bench_market_def)
qed

theorem benchmarks_never_fail_witness:
  "\<exists>ods m. generateOrders Debug [(10, 0, 1), (0, 10, 2), (5, 5, 2)] = Inr ods \<and> length ods = 3 \<and>
    bench_market Debug 2 ods = Inr m"
proof -
  have "\<forall>draw \<in> set [(10, 0, 1), (0, 10, 2), (5, 5, 2)]. drawn 2 draw" by (simp add: drawn_def)
  from benchmarks_never_fail [OF _ _ this, of Debug] show ?thesis by auto
qed

end
