(* ===== verification/Logging.thy ===== *)
theory Logging
  imports Prelude
begin

text \<open>
  The logger (\<open>include/utils/log.h\<close>, \<open>src/utils/log.cpp\<close>): one shared pointer, null until \<open>Log::init\<close>, and
  a macro for every level. The library behind it, spdlog, is not part of the program: what the program calls
  of it is the record \<open>Spdlog\<close>, on a logger of any type \<open>'l\<close>. Nothing else in the program uses the macros.
\<close>

datatype log_level = TraceLevel | DebugLevel | InfoLevel | WarnLevel | ErrorLevel | CriticalLevel

text \<open>\<open>stdout_color_mt\<close> may throw; the pattern belongs to the library and not to one logger.\<close>

record 'l Spdlog =
  spdlog_make :: "string \<Rightarrow> string \<Rightarrow> 'l res"
  spdlog_set_level :: "log_level \<Rightarrow> 'l \<Rightarrow> 'l"
  spdlog_write :: "log_level \<Rightarrow> string \<Rightarrow> 'l \<Rightarrow> 'l"

text \<open>\<open>Log::init\<close> replaces whatever logger there was.\<close>

definition Log_init :: "'l Spdlog \<Rightarrow> 'l option \<Rightarrow> 'l option res" where
  "Log_init sp logger =
     rbind (spdlog_make sp ''%^[%T] %n: %v%$'' ''Fast Exchange'') (\<lambda>l.
     Inr (Some (spdlog_set_level sp TraceLevel l)))"

definition getLogger :: "'l option \<Rightarrow> 'l option" where
  "getLogger logger = logger"

text \<open>
  The macros. In a release build those of the lower levels expand to nothing, so that a call leaves its
  arguments in parentheses, without an effect here; the other two are the same in both builds.
\<close>

fun low_level :: "log_level \<Rightarrow> bool" where
  "low_level ErrorLevel = False"
| "low_level CriticalLevel = False"
| "low_level lv = True"

definition log_macro :: "'l Spdlog \<Rightarrow> build \<Rightarrow> log_level \<Rightarrow> string \<Rightarrow> 'l option \<Rightarrow> 'l option res" where
  "log_macro sp d lv message logger =
     (if d = Release \<and> low_level lv then Inr logger
      else rbind (deref (getLogger logger)) (\<lambda>l. Inr (Some (spdlog_write sp lv message l))))"

fun log_all :: "'l Spdlog \<Rightarrow> build \<Rightarrow> (log_level \<times> string) list \<Rightarrow> 'l option \<Rightarrow> 'l option res" where
  "log_all sp d [] logger = Inr logger"
| "log_all sp d ((lv, message) # msgs) logger = rbind (log_macro sp d lv message logger) (log_all sp d msgs)"

text \<open>What a build writes of a list of messages.\<close>

definition written_messages :: "build \<Rightarrow> (log_level \<times> string) list \<Rightarrow> (log_level \<times> string) list" where
  "written_messages d msgs = filter (\<lambda>(lv, message). d = Debug \<or> \<not> low_level lv) msgs"

lemma log_macro_cases:
  "log_macro sp d lv message logger =
     (if d = Debug \<or> \<not> low_level lv
      then (case logger of None \<Rightarrow> Inl UndefinedBehaviour | Some l \<Rightarrow> Inr (Some (spdlog_write sp lv message l)))
      else Inr logger)"
  by (cases d) (auto simp: log_macro_def getLogger_def deref_def split: option.splits)

text \<open>After \<open>init\<close> every message of a level that the build keeps is written, in order, and nothing fails.\<close>

lemma log_after_init:
  "log_all sp d msgs (Some l) = Inr (Some (fold (\<lambda>(lv, message). spdlog_write sp lv message) (written_messages d msgs) l))"
  by (induction msgs arbitrary: l) (auto simp: log_macro_cases written_messages_def)

text \<open>Before \<open>init\<close> the pointer is null: the first message that is written reads through it.\<close>

lemma log_before_init:
  "log_all sp d msgs None = (if written_messages d msgs = [] then Inr None else Inl UndefinedBehaviour)"
  by (induction msgs) (auto simp: log_macro_cases written_messages_def)

lemma init_then_log:
  assumes "Log_init sp logger = Inr logger'"
  shows "\<exists>l. log_all sp d msgs logger' =
    Inr (Some (fold (\<lambda>(lv, message). spdlog_write sp lv message) (written_messages d msgs) l))"
  using assms by (auto simp: Log_init_def log_after_init)

end
