(* ===== verification/Spec2Isabelle.thy ===== *)
theory Spec2Isabelle
  imports Book_Properties Book_Deviations Release_Build Market_Properties Concurrent_Properties
    Market_Sharding Feed_Properties Printing_Properties Robin_Hood_Properties Robin_Hood_Bytes Node_Properties
    Robin_Hood_Overloads Order_Factories Cancellations Limit_Engine Replacement Futures Queue_Threads Dumps Market_Text Workloads Logging
begin

text \<open>
  A verification development for RapidTrader, an order matching system in C++.

  \<^bold>\<open>The program.\<close> A market keeps one order book per symbol. A book (\<open>MapOrderBook\<close>) keeps the
  orders of its symbol in a hash map and, in six ordered maps from prices to levels, queues of
  those orders: limit, stop and trailing stop orders, each by side. Adding an order matches it
  against the opposite side; every trade moves the market price, which activates stop orders and
  moves trailing stop orders. Callers are told what happened through an event handler.

  \<^bold>\<open>Theories.\<close>
  \<^item> \<open>Prelude\<close>: integer types, failures as values (\<open>res\<close>), the two builds, lemmas on words and sums.
    An \<open>assert\<close> is \<open>check\<close>, an access the language leaves undefined is \<open>require\<close> or \<open>deref\<close>, a
    loop that need not end is a \<open>partial_function\<close> whose outcome is read by \<open>returns\<close>.
  \<^item> \<open>Ordered_Map\<close>, \<open>Hash_Map\<close>: the contracts of \<open>std::map\<close> and \<open>robin_hood::unordered_map\<close> that the
    program relies on, as locales, interpreted on association lists.
  \<^item> \<open>Orders\<close> (\<open>order.h\<close>, \<open>order.cpp\<close>), \<open>Levels\<close> (\<open>level.h\<close>, \<open>level.cpp\<close>), \<open>Events\<close> (\<open>event.h\<close>,
    \<open>event_handler.h\<close>); \<open>Order_Factories\<close>: exactly which order each of the twelve factories makes, in
    both builds, and when a book takes it.
  \<^item> \<open>Book_State\<close>, \<open>Book_Match\<close>, \<open>Book_Stops\<close>, \<open>Book_Ops\<close>: the order book
    (\<open>map_orderbook.h\<close>, \<open>map_orderbook.cpp\<close>), from its data to its public operations. An order
    lives in the hash map; a level holds the IDs of its orders, and an order points back to its
    level through the map and key that stand for its iterator.
  \<^item> \<open>Book_Views\<close>, \<open>Book_Wf\<close>, \<open>Match_Proofs\<close>, \<open>Stop_Proofs\<close>, \<open>Activation_Proofs\<close>,
    \<open>Update_Proofs\<close>, \<open>Settle_Proofs\<close>, \<open>Op_Proofs\<close>: well-formedness of the shared structure and its
    preservation by every step, bottom up; each lemma gives success in both builds, the invariant,
    and what is left alone. \<open>book_inv\<close> is what holds between two public operations.
  \<^item> \<open>Priority\<close>: price-time priority as a function over lists, and that matching implements it.
  \<^item> \<open>Book_Requests\<close>: the interface \<open>OrderBook\<close> as requests, with their documented preconditions (\<open>documented\<close>)
    and the limits of the code that are not documented (\<open>supported\<close>), which together are \<open>permitted\<close>;
    the locale \<open>order_book\<close>, its interpretation, and the reachable books; \<open>Samples\<close>: a concrete one.
  \<^item> \<open>Book_Properties\<close>, \<open>Book_Deviations\<close>: the properties of the book, the places where the code departs from
    its documentation, and requests beyond the limits that fail. \<open>Cancellations\<close>: what each build makes of every
    cancellation, supported or not, and of an execution after it. \<open>Release_Build\<close>: a release build follows the
    debug build; as the conditions of assertions are values, this says only that no operation uses the build
    for anything else.
  \<^item> \<open>Quiet_Proofs\<close>: what settling does when nothing was traded. \<open>Limit_Engine\<close>: a book without stop orders
    refines a matching engine over two lists. \<open>Replacement\<close>: the order that takes the place of a replaced one.
  \<^item> \<open>Markets\<close> (\<open>market.h\<close>, \<open>market.cpp\<close>, \<open>symbol.h\<close>): the books of a handler and the symbols of a
    market; a book is handed the events of its handler and gives them back. \<open>Market_Proofs\<close>: a family of
    books over any hash map (\<open>book_family\<close>) and its interpretation; \<open>Market_Properties\<close>.
  \<^item> \<open>Thread_Pool\<close> (\<open>queue.h\<close>, \<open>thread_pool.h\<close>, \<open>thread_joiner.h\<close>), \<open>Concurrent\<close>
    (\<open>concurrent_market.h\<close>, \<open>concurrent_market.cpp\<close>): one client and the workers as a step relation with
    labels. \<open>Concurrent_Proofs\<close>: the specification \<open>shard\<close> and the simulation \<open>conforms\<close>;
    \<open>Concurrent_Properties\<close>: determinism, shutdown, and what goes wrong in \<open>deleteSymbol\<close>.
  \<^item> \<open>Event_Frame\<close>: a book appends to its events and never reads them, through every operation.
    \<open>Market_Sharding\<close>: a sharding of the requests splits the sequential market into its handlers, so that
    every complete run of the concurrent market computes the sequential one.
  \<^item> \<open>Histories\<close>: machines with events that never fail (\<open>safe_machine\<close>). Two interpretations:
    \<open>Futures\<close> (\<open>thread_pool.h\<close>), tasks with a result, their promises, and when these are satisfied;
    \<open>Queue_Threads\<close> (\<open>queue.h\<close>), the queue with its mutex and condition variable and threads that stop between
    any two accesses, which justifies the methods of one step each in \<open>Thread_Pool\<close>.
  \<^item> \<open>Event_Feed\<close>, \<open>Feed_Properties\<close>: the events as a feed. A handler that sees nothing but the events of
    a symbol knows the orders of its book, through every step of every operation.
  \<^item> \<open>Printing\<close>, \<open>Printing_Properties\<close>: the texts of orders, levels, books and events, and reading
    them back. \<open>Dumps\<close>: the output operators on any stream (\<open>ostream\<close>), files, and what a dumped market says.
  \<^item> \<open>Workloads\<close> (\<open>examples/\<close>, \<open>benchmark/\<close>): the programs that drive a market, what they print, and why none of
    their requests can fail. \<open>Logging\<close> (\<open>log.h\<close>, \<open>log.cpp\<close>): the logger and its macros.
  \<^item> \<open>Robin_Hood\<close> (\<open>robin_hood.h\<close>): the hash table itself, slot by slot. \<open>Robin_Hood_Inv\<close>: the invariant
    and lookups; \<open>Robin_Hood_Insert\<close>, \<open>Robin_Hood_Grow\<close>, \<open>Robin_Hood_Erase\<close>: every operation keeps it;
    \<open>Robin_Hood_Map\<close>: the contract \<open>hash_table\<close>, its interpretation, and the refinement of the
    association lists of \<open>Hash_Map\<close>; \<open>Robin_Hood_Iter\<close>: iterators, which read the info bytes eight at a
    time; \<open>Robin_Hood_Capacity\<close>: \<open>reserve\<close>, \<open>rehash\<close>, \<open>compact\<close>, \<open>clear\<close>, \<open>operator[]\<close>, \<open>at\<close>;
    \<open>Robin_Hood_Equal\<close>: comparison; \<open>Robin_Hood_Overloads\<close>: the other functions that insert, and pairs;
    \<open>Robin_Hood_Bytes\<close>: the hash of a string; \<open>Robin_Hood_Properties\<close>.
  \<^item> \<open>Node_Pool\<close>, \<open>Node_Pool_Proofs\<close> (\<open>BulkPoolAllocator\<close>): the memory of the nodes, a heap of words with
    blocks from \<open>malloc\<close>; \<open>owns\<close> says which elements of a pool are in use and which blocks are not its own,
    \<open>untouched\<close> that an operation has not written to them. \<open>Node_Table\<close>: the hash table whose slots point to
    nodes, with its pool and its array, and its copying, moving, swapping and destruction.
    \<open>Node_Table_Proofs\<close>, \<open>Node_Table_Erase\<close>, \<open>Node_Table_Whole\<close>, \<open>Node_Table_Copy\<close>: \<open>node_inv\<close>, kept by
    every operation next to anything else in memory, and \<open>two_tables\<close>. \<open>Node_Run\<close>: the contract
    \<open>node_allocator\<close>, its interpretation, and sequences of operations;
    \<open>Node_Pointers\<close>: clients that keep pointers into the table and clients that keep keys;
    \<open>Node_Properties\<close>.

  \<^bold>\<open>Bounds.\<close> Quantities and prices are 64-bit words and wrap around as in the code. The open
  quantities of a book must sum to less than \<open>2 ^ 64\<close> (\<open>supported\<close>), since the volume of a level is a
  64-bit sum; this, the largest price for a bid, free IDs and the bounds of a cancellation are limits that the
  documentation of the program does not state. No fuel is used: the loops are total, or proved to end on every consistent book. The
  256 attempts of an insertion into the hash table are those of the source. A concurrent market has at
  most 255 workers, the range of its argument. The benchmarks count orders and symbols in an \<open>int\<close>, so fewer than
  \<open>2 ^ 31\<close> are assumed.

  \<^bold>\<open>Interaction.\<close> The book and the markets use the hash map through \<open>find\<close>, \<open>emplace\<close>, \<open>erase\<close> and
  writes through iterators, as operations on association lists; \<open>Robin_Hood_Map\<close> shows that the table
  of the source implements these, except that an insertion may throw the overflow exception, which the
  clients' models leave out. A value of the table of nodes is the address of its node with the value in it,
  so that \<open>Node_Table\<close> keeps the slots of \<open>Robin_Hood\<close> and adds the memory; a node does not move, and
  \<open>Node_Pointers\<close> shows that pointers to nodes may replace looking up keys, as the levels of a book point to
  the orders in the map where its model has their IDs. \<open>malloc\<close> is a parameter: all that is assumed
  of it (\<open>malloc_ok\<close>) is that it fails or gives an aligned block apart from the others. The queue of the pool
  is an interpretation of \<open>fifo\<close>. The random numbers of the benchmarks, spdlog, which files can be opened, and the
  order in which a hash map is iterated when it is printed are arguments too.

  \<^bold>\<open>Not modelled.\<close> Allocation failure outside of the hash table (there it is the outcome \<open>Terminated\<close>, for
  \<open>bad_alloc\<close>, and the state after the exception is not described), the data races of a task that runs on
  another worker's handler (tasks are shown to stay with their worker unless a symbol is deleted), write
  errors of a file that is open, the timing of the benchmarks, and of the hash table the floating-point load
  factors, the overloads for other kinds of keys, and the constructors of pairs. What an
  event handler of the user does is not known: the models record the calls it receives, and \<open>handle\<close> runs
  any handler on them.
\<close>

end
